(* ===== verification/Prelude.thy ===== *)
theory Prelude
  imports Main "HOL-Library.Word" "HOL-Library.Char_ord" "HOL-Library.List_Lexorder"
    "HOL-Library.Product_Lexorder" "HOL-Library.Sublist" "HOL-Library.Multiset"
    "HOL-Library.Code_Target_Numeral"
begin

text \<open>
  Vocabulary shared by every component.

  \<^item> Rust's \<^verbatim>\<open>Result<A, E>\<close> is the sum \<open>'e + 'a\<close>, written with the abbreviations \<open>Err\<close>
    and \<open>Ok\<close>; \<open>and_then\<close> is the \<^verbatim>\<open>?\<close> operator, \<open>ensure\<close> an early return and
    \<open>fold_res\<close> a \<^verbatim>\<open>for\<close> loop whose body may return early.
  \<^item> A Rust string is its UTF-8 bytes, a \<open>string\<close> (an Isabelle \<open>char\<close> is one byte), so that
    \<open>length\<close> is \<^verbatim>\<open>str::len\<close> and the order of \<open>HOL-Library.List_Lexorder\<close> is
    \<^verbatim>\<open>str::cmp\<close>.
  \<^item> \<^verbatim>\<open>usize\<close> and \<^verbatim>\<open>u64\<close> quantities are \<open>nat\<close> with the 64-bit limit written out in
    the checked operations.
  \<^item> A \<^verbatim>\<open>BTreeMap<String, V>\<close> is its ordered entry list; \<open>map_of\<close> is lookup and
    \<open>bt_insert\<close> is insertion. The locale \<open>ordered_map\<close> states what the clients use.
  \<^item> \<^verbatim>\<open>slice::binary_search_by\<close> is the loop of the standard library, with its
    correctness on strictly sorted keys.
\<close>

named_theorems res_simps "how the result combinators evaluate and when they succeed"
named_theorems limit_defs "the numeric limits of the source"

section \<open>Results\<close>

abbreviation Err :: "'e \<Rightarrow> 'e + 'a" where "Err \<equiv> Inl"
abbreviation Ok :: "'a \<Rightarrow> 'e + 'a" where "Ok \<equiv> Inr"

fun and_then :: "'e + 'a \<Rightarrow> ('a \<Rightarrow> 'e + 'b) \<Rightarrow> 'e + 'b" where
  "and_then (Inl e) f = Inl e"
| "and_then (Inr x) f = f x"

fun map_err :: "('e \<Rightarrow> 'f) \<Rightarrow> 'e + 'a \<Rightarrow> 'f + 'a" where
  "map_err g (Inl e) = Inl (g e)"
| "map_err g (Inr x) = Inr x"

fun ok_or :: "'e \<Rightarrow> 'a option \<Rightarrow> 'e + 'a" where
  "ok_or e None = Inl e"
| "ok_or e (Some x) = Inr x"

definition ensure :: "bool \<Rightarrow> 'e \<Rightarrow> 'e + unit" where
  "ensure b e = (if b then Inr () else Inl e)"

fun is_ok :: "'e + 'a \<Rightarrow> bool" where
  "is_ok (Inl e) = False"
| "is_ok (Inr x) = True"

fun fold_res :: "('a \<Rightarrow> 's \<Rightarrow> 'e + 's) \<Rightarrow> 'a list \<Rightarrow> 's \<Rightarrow> 'e + 's" where
  "fold_res f [] s = Inr s"
| "fold_res f (x # xs) s = and_then (f x s) (fold_res f xs)"

fun map_res :: "('a \<Rightarrow> 'e + 'b) \<Rightarrow> 'a list \<Rightarrow> 'e + 'b list" where
  "map_res f [] = Inr []"
| "map_res f (x # xs) = and_then (f x) (\<lambda>y. and_then (map_res f xs) (\<lambda>ys. Inr (y # ys)))"

lemma and_then_cong [fundef_cong]:
  "m = m' \<Longrightarrow> (\<And>x. m' = Inr x \<Longrightarrow> f x = g x) \<Longrightarrow> and_then m f = and_then m' g"
  by (cases m') auto

lemma fold_res_cong [fundef_cong]:
  assumes "xs = ys" and "s = t" and "\<And>x s. x \<in> set ys \<Longrightarrow> f x s = g x s"
  shows "fold_res f xs s = fold_res g ys t"
  using assms(3) unfolding assms(1,2)
  by (induction ys arbitrary: t) (auto intro!: and_then_cong)

lemma map_res_cong [fundef_cong]:
  assumes "xs = ys" and "\<And>x. x \<in> set ys \<Longrightarrow> f x = g x"
  shows "map_res f xs = map_res g ys"
  using assms(2) unfolding assms(1) by (induction ys) auto

lemma and_then_Ok [res_simps]:
  "and_then m f = Inr y \<longleftrightarrow> (\<exists>x. m = Inr x \<and> f x = Inr y)"
  by (cases m) auto

lemma and_then_Err [res_simps]:
  "and_then m f = Inl e \<longleftrightarrow> m = Inl e \<or> (\<exists>x. m = Inr x \<and> f x = Inl e)"
  by (cases m) auto

lemma ensure_Ok [simp, res_simps]: "ensure b e = Inr u \<longleftrightarrow> b"
  by (simp add: ensure_def)

lemma ensure_Err [simp, res_simps]: "ensure b e = Inl e' \<longleftrightarrow> \<not> b \<and> e' = e"
  by (auto simp: ensure_def)

lemma ok_or_Ok [simp, res_simps]: "ok_or e m = Inr x \<longleftrightarrow> m = Some x"
  by (cases m) auto

lemma ok_or_Err [simp, res_simps]: "ok_or e m = Inl e' \<longleftrightarrow> m = None \<and> e' = e"
  by (cases m) auto

lemma map_err_Ok [simp, res_simps]: "map_err g m = Inr x \<longleftrightarrow> m = Inr x"
  by (cases m) auto

lemma map_err_Err [res_simps]: "map_err g m = Inl e \<longleftrightarrow> (\<exists>e'. m = Inl e' \<and> e = g e')"
  by (cases m) auto

lemma is_ok_iff [res_simps]: "is_ok m \<longleftrightarrow> (\<exists>x. m = Inr x)"
  by (cases m) auto

lemma not_is_ok_iff: "\<not> is_ok m \<longleftrightarrow> (\<exists>e. m = Inl e)"
  by (cases m) auto

lemma fold_res_append:
  "fold_res f (xs @ ys) s = and_then (fold_res f xs s) (fold_res f ys)"
proof (induction xs arbitrary: s)
  case (Cons x xs)
  then show ?case by (cases "f x s") auto
qed simp

text \<open>The loop rule: an invariant that every successful iteration keeps holds at the end.\<close>

lemma fold_res_invariant:
  assumes "fold_res f xs s = Inr t" and "P s"
    and "\<And>x s s'. x \<in> set xs \<Longrightarrow> P s \<Longrightarrow> f x s = Inr s' \<Longrightarrow> P s'"
  shows "P t"
  using assms
proof (induction xs arbitrary: s)
  case (Cons x xs)
  from Cons.prems(1) obtain s' where s': "f x s = Inr s'" "fold_res f xs s' = Inr t"
    by (auto simp: res_simps)
  have "P s'" by (rule Cons.prems(3) [OF _ Cons.prems(2) s'(1)]) simp
  with s'(2) show ?case using Cons.IH Cons.prems(3) by (meson list.set_intros(2))
qed simp

lemma map_res_Ok:
  "map_res f xs = Inr ys \<longleftrightarrow> list_all2 (\<lambda>x y. f x = Inr y) xs ys"
  by (induction xs arbitrary: ys) (auto simp: res_simps list_all2_Cons1)

text \<open>A loop that only checks each element.\<close>

definition check_all :: "('a \<Rightarrow> 'e + unit) \<Rightarrow> 'a list \<Rightarrow> 'e + unit" where
  "check_all f xs = fold_res (\<lambda>x _. f x) xs ()"

lemma check_all_simps [simp]:
  "check_all f [] = Inr ()"
  "check_all f (x # xs) = and_then (f x) (\<lambda>_. check_all f xs)"
  by (simp_all add: check_all_def)

lemma check_all_Ok [res_simps]: "check_all f xs = Inr u \<longleftrightarrow> (\<forall>x \<in> set xs. f x = Inr ())"
  by (induction xs) (auto simp: res_simps)

lemma check_all_ensure:
  "check_all (\<lambda>x. ensure (P x) e) xs = (if \<forall>x \<in> set xs. P x then Ok () else Err e)"
  by (induction xs) (auto simp: ensure_def)

text \<open>
  Indexing. A slice access out of range panics in Rust; where a function can index, its
  error type is \<open>'e stop\<close>, and that it never panics is a theorem about it.
\<close>

datatype 'e stop = Returned 'e | Panicked

definition at :: "'a list \<Rightarrow> nat \<Rightarrow> 'e stop + 'a" where
  "at xs i = (if i < length xs then Inr (xs ! i) else Inl Panicked)"

definition put :: "'a list \<Rightarrow> nat \<Rightarrow> 'a \<Rightarrow> 'e stop + 'a list" where
  "put xs i v = (if i < length xs then Inr (xs[i := v]) else Inl Panicked)"

definition slice :: "'a list \<Rightarrow> nat \<Rightarrow> nat \<Rightarrow> 'e stop + 'a list" where
  "slice xs a b = (if a \<le> b \<and> b \<le> length xs then Inr (take (b - a) (drop a xs)) else Inl Panicked)"

lemma at_Ok [simp]: "at xs i = Inr x \<longleftrightarrow> i < length xs \<and> x = xs ! i"
  by (auto simp: at_def)

lemma put_Ok [simp]: "put xs i v = Inr ys \<longleftrightarrow> i < length xs \<and> ys = xs[i := v]"
  by (auto simp: put_def)

lemma slice_Ok [simp]:
  "slice xs a b = Inr ys \<longleftrightarrow> a \<le> b \<and> b \<le> length xs \<and> ys = take (b - a) (drop a xs)"
  by (auto simp: slice_def)

lemma in_range [simp]:
  "i < length xs \<Longrightarrow> at xs i = Inr (xs ! i)"
  "i < length xs \<Longrightarrow> put xs i v = Inr (xs[i := v])"
  by (simp_all add: at_def put_def)

section \<open>Checked 64-bit arithmetic\<close>

definition usize_max :: nat where [limit_defs]: "usize_max = 2 ^ 64 - 1"

definition checked_add :: "nat \<Rightarrow> nat \<Rightarrow> nat option" where
  "checked_add a b = (if a + b \<le> usize_max then Some (a + b) else None)"

definition checked_mul :: "nat \<Rightarrow> nat \<Rightarrow> nat option" where
  "checked_mul a b = (if a * b \<le> usize_max then Some (a * b) else None)"

definition checked_sub :: "nat \<Rightarrow> nat \<Rightarrow> nat option" where
  "checked_sub a b = (if b \<le> a then Some (a - b) else None)"

definition saturating_add :: "nat \<Rightarrow> nat \<Rightarrow> nat" where
  "saturating_add a b = min (a + b) usize_max"

definition saturating_mul :: "nat \<Rightarrow> nat \<Rightarrow> nat" where
  "saturating_mul a b = min (a * b) usize_max"

lemma checked_add_Some [simp]: "checked_add a b = Some c \<longleftrightarrow> c = a + b \<and> a + b \<le> usize_max"
  by (auto simp: checked_add_def)

lemma checked_add_None [simp]: "checked_add a b = None \<longleftrightarrow> usize_max < a + b"
  by (auto simp: checked_add_def)

lemma checked_mul_Some [simp]: "checked_mul a b = Some c \<longleftrightarrow> c = a * b \<and> a * b \<le> usize_max"
  by (auto simp: checked_mul_def)

lemma checked_sub_Some [simp]: "checked_sub a b = Some c \<longleftrightarrow> c = a - b \<and> b \<le> a"
  by (auto simp: checked_sub_def)

section \<open>Bytes and text\<close>

abbreviation byte :: "char \<Rightarrow> nat" where "byte c \<equiv> of_char c"

definition is_ascii_digit :: "char \<Rightarrow> bool" where
  "is_ascii_digit c = (48 \<le> byte c \<and> byte c \<le> 57)"

definition is_ascii_alphabetic :: "char \<Rightarrow> bool" where
  "is_ascii_alphabetic c =
     ((65 \<le> byte c \<and> byte c \<le> 90) \<or> (97 \<le> byte c \<and> byte c \<le> 122))"

definition is_ascii_alphanumeric :: "char \<Rightarrow> bool" where
  "is_ascii_alphanumeric c = (is_ascii_alphabetic c \<or> is_ascii_digit c)"

definition is_ascii_hexdigit :: "char \<Rightarrow> bool" where
  "is_ascii_hexdigit c =
     (is_ascii_digit c \<or> (65 \<le> byte c \<and> byte c \<le> 70) \<or> (97 \<le> byte c \<and> byte c \<le> 102))"

definition is_ascii_graphic :: "char \<Rightarrow> bool" where
  "is_ascii_graphic c = (33 \<le> byte c \<and> byte c \<le> 126)"

definition to_ascii_lowercase :: "char \<Rightarrow> char" where
  "to_ascii_lowercase c = (if 65 \<le> byte c \<and> byte c \<le> 90 then char_of (byte c + 32) else c)"

text \<open>The byte 0.\<close>

abbreviation NUL :: char where "NUL \<equiv> CHR 0x00"

lemmas ascii_defs = is_ascii_digit_def is_ascii_alphabetic_def is_ascii_alphanumeric_def
  is_ascii_hexdigit_def is_ascii_graphic_def

text \<open>
  \<^verbatim>\<open>char::is_control\<close> holds on U+0000..U+001F and U+007F..U+009F. The latter 32 points
  other than U+007F are the two-byte sequences \<^verbatim>\<open>C2 80\<close> to \<^verbatim>\<open>C2 9F\<close>.
\<close>

fun has_control :: "string \<Rightarrow> bool" where
  "has_control [] = False"
| "has_control (c # cs) =
     (byte c < 32 \<or> byte c = 127
      \<or> (byte c = 194 \<and> (case cs of [] \<Rightarrow> False | d # _ \<Rightarrow> 128 \<le> byte d \<and> byte d \<le> 159))
      \<or> has_control cs)"

text \<open>
  \<^verbatim>\<open>str::trim().is_empty()\<close>: every character is Unicode white space, over the UTF-8
  encodings of the code points with that property.
\<close>

fun trims_to_empty :: "string \<Rightarrow> bool" where
  "trims_to_empty [] = True"
| "trims_to_empty (c # cs) =
     (if (9 \<le> byte c \<and> byte c \<le> 13) \<or> byte c = 32 then trims_to_empty cs
      else (case cs of
          [] \<Rightarrow> False
        | d # ds \<Rightarrow>
            if byte c = 194 \<and> (byte d = 133 \<or> byte d = 160) then trims_to_empty ds
            else (case ds of
                [] \<Rightarrow> False
              | e # es \<Rightarrow>
                  if (byte c = 225 \<and> byte d = 154 \<and> byte e = 128)
                    \<or> (byte c = 226 \<and> byte d = 128
                       \<and> ((128 \<le> byte e \<and> byte e \<le> 138)
                          \<or> byte e = 168 \<or> byte e = 169 \<or> byte e = 175))
                    \<or> (byte c = 226 \<and> byte d = 129 \<and> byte e = 159)
                    \<or> (byte c = 227 \<and> byte d = 128 \<and> byte e = 128)
                  then trims_to_empty es else False)))"

text \<open>\<^verbatim>\<open>str::split(c)\<close>: always at least one part.\<close>

fun split_char :: "char \<Rightarrow> string \<Rightarrow> string list" where
  "split_char sep [] = [[]]"
| "split_char sep (c # cs) =
     (if c = sep then [] # split_char sep cs
      else (case split_char sep cs of [] \<Rightarrow> [[c]] | p # ps \<Rightarrow> (c # p) # ps))"

lemma split_char_nonempty [simp]: "split_char sep s \<noteq> []"
  by (induction s) (auto split: list.splits)

text \<open>\<^verbatim>\<open>str::split_once\<close>, \<^verbatim>\<open>strip_prefix\<close> and \<^verbatim>\<open>strip_suffix\<close>.\<close>

fun split_once :: "char \<Rightarrow> string \<Rightarrow> (string \<times> string) option" where
  "split_once sep [] = None"
| "split_once sep (c # cs) =
     (if c = sep then Some ([], cs)
      else map_option (\<lambda>(a, b). (c # a, b)) (split_once sep cs))"

definition strip_prefix :: "string \<Rightarrow> string \<Rightarrow> string option" where
  "strip_prefix p s = (if take (length p) s = p then Some (drop (length p) s) else None)"

definition strip_suffix :: "string \<Rightarrow> string \<Rightarrow> string option" where
  "strip_suffix p s =
     (if length p \<le> length s \<and> drop (length s - length p) s = p
      then Some (take (length s - length p) s) else None)"

lemma split_once_Some:
  "split_once sep s = Some (a, b) \<longleftrightarrow> s = a @ sep # b \<and> sep \<notin> set a"
proof (induction s arbitrary: a)
  case (Cons c cs)
  show ?case
  proof (cases "c = sep")
    case True
    then show ?thesis by (cases a) auto
  next
    case False
    with Cons show ?thesis by (cases a) auto
  qed
qed simp

lemma strip_prefix_Some [simp]: "strip_prefix p s = Some r \<longleftrightarrow> s = p @ r"
proof
  assume "strip_prefix p s = Some r"
  then show "s = p @ r" unfolding strip_prefix_def by (metis append_take_drop_id option.distinct(1) option.inject)
qed (simp add: strip_prefix_def)

lemma strip_suffix_Some [simp]: "strip_suffix p s = Some r \<longleftrightarrow> s = r @ p"
proof
  assume "strip_suffix p s = Some r"
  then show "s = r @ p"
    unfolding strip_suffix_def by (metis append_take_drop_id option.distinct(1) option.inject)
qed (simp add: strip_suffix_def)

text \<open>\<^verbatim>\<open>str::contains\<close> for a pattern string.\<close>

fun contains_text :: "string \<Rightarrow> string \<Rightarrow> bool" where
  "contains_text p [] = (p = [])"
| "contains_text p (c # cs) = (take (length p) (c # cs) = p \<or> contains_text p cs)"

text \<open>\<^verbatim>\<open>slice::windows(2).any(..)\<close>.\<close>

fun windows2_any :: "('a \<Rightarrow> 'a \<Rightarrow> bool) \<Rightarrow> 'a list \<Rightarrow> bool" where
  "windows2_any p (x # y # zs) = (p x y \<or> windows2_any p (y # zs))"
| "windows2_any p _ = False"

lemma windows2_any_map: "windows2_any p (map f xs) = windows2_any (\<lambda>x y. p (f x) (f y)) xs"
  by (induction xs rule: induct_list012) auto

lemma windows2_any_eq_sorted:
  fixes xs :: "'a::linorder list"
  shows "sorted xs \<Longrightarrow> windows2_any (=) xs \<longleftrightarrow> \<not> distinct xs"
  by (induction xs rule: induct_list012) (auto simp: order_antisym)

lemma strict_sorted_windows:
  fixes xs :: "'a::linorder list"
  assumes "sorted xs" and "\<not> windows2_any (=) xs"
  shows "sorted_wrt (<) xs"
  using assms windows2_any_eq_sorted strict_sorted_iff by blast

section \<open>Decimal text\<close>

fun dec_digits :: "nat \<Rightarrow> string" where
  "dec_digits n =
     (if n < 10 then [char_of (48 + n)] else dec_digits (n div 10) @ [char_of (48 + n mod 10)])"

declare dec_digits.simps [simp del]

definition dec_int :: "int \<Rightarrow> string" where
  "dec_int i = (if i < 0 then CHR ''-'' # dec_digits (nat (- i)) else dec_digits (nat i))"

text \<open>
  \<^verbatim>\<open>str::parse\<close> for unsigned and signed integers: an optional plus sign (and a minus sign
  for signed types), at least one digit, and the value in range.
\<close>

definition digits_value :: "string \<Rightarrow> nat" where
  "digits_value ds = foldl (\<lambda>n c. 10 * n + (byte c - 48)) 0 ds"

definition parse_digits :: "string \<Rightarrow> nat option" where
  "parse_digits s =
     (if s \<noteq> [] \<and> list_all is_ascii_digit s then Some (digits_value s) else None)"

definition parse_unsigned :: "nat \<Rightarrow> string \<Rightarrow> nat option" where
  "parse_unsigned maximum s =
     (case parse_digits (case s of c # cs \<Rightarrow> (if c = CHR ''+'' then cs else s) | [] \<Rightarrow> s) of
        None \<Rightarrow> None
      | Some n \<Rightarrow> if n \<le> maximum then Some n else None)"

definition parse_signed :: "nat \<Rightarrow> string \<Rightarrow> int option" where
  "parse_signed bits s =
     (case s of
        c # cs \<Rightarrow>
          if c = CHR ''-'' then
            (case parse_digits cs of
               None \<Rightarrow> None
             | Some n \<Rightarrow> if n \<le> 2 ^ (bits - 1) then Some (- int n) else None)
          else map_option int (parse_unsigned (2 ^ (bits - 1) - 1) s)
      | [] \<Rightarrow> None)"

lemma dec_digits_nonempty [simp]: "dec_digits n \<noteq> []"
  by (subst dec_digits.simps) simp

lemma of_char_digit: "d < 10 \<Longrightarrow> byte (char_of (48 + d) :: char) = 48 + d"
  by simp

lemma dec_digits_all_digits: "list_all is_ascii_digit (dec_digits n)"
proof (induction n rule: dec_digits.induct)
  case (1 n)
  show ?case
  proof (cases "n < 10")
    case True
    then show ?thesis by (subst dec_digits.simps) (simp add: is_ascii_digit_def)
  next
    case False
    then have "n mod 10 < 10" by simp
    with False show ?thesis
      by (subst dec_digits.simps) (simp add: 1 is_ascii_digit_def)
  qed
qed

lemma digits_value_snoc: "digits_value (ds @ [c]) = 10 * digits_value ds + (byte c - 48)"
  by (simp add: digits_value_def)

lemma digits_value_dec_digits [simp]: "digits_value (dec_digits n) = n"
proof (induction n rule: dec_digits.induct)
  case (1 n)
  show ?case
  proof (cases "n < 10")
    case True
    then show ?thesis by (subst dec_digits.simps) (simp add: digits_value_def)
  next
    case False
    have "n mod 10 < 10" by simp
    with False show ?thesis
      by (subst dec_digits.simps) (simp add: 1 digits_value_snoc)
  qed
qed

lemma parse_digits_dec_digits [simp]: "parse_digits (dec_digits n) = Some n"
  by (simp add: parse_digits_def dec_digits_all_digits)

lemma hd_dec_digits_not_plus: "dec_digits n = c # cs \<Longrightarrow> is_ascii_digit c"
  using dec_digits_all_digits [of n] by simp

lemma parse_unsigned_dec_digits [simp]:
  "parse_unsigned m (dec_digits n) = (if n \<le> m then Some n else None)"
proof (cases "dec_digits n")
  case (Cons c cs)
  then have "c \<noteq> CHR ''+''" using hd_dec_digits_not_plus by (fastforce simp: is_ascii_digit_def)
  with Cons show ?thesis using parse_digits_dec_digits [of n] by (simp add: parse_unsigned_def)
qed simp

lemma dec_digits_inject [simp]: "dec_digits m = dec_digits n \<longleftrightarrow> m = n"
  by (metis digits_value_dec_digits)

text \<open>How many digits: a number below \<open>10 ^ k\<close> prints in at most \<open>k\<close> digits.\<close>

lemma length_dec_digits_le: "n < 10 ^ k \<Longrightarrow> 0 < k \<Longrightarrow> length (dec_digits n) \<le> k"
proof (induction k arbitrary: n)
  case (Suc k)
  show ?case
  proof (cases "n < 10")
    case True
    then show ?thesis by (subst dec_digits.simps) simp
  next
    case False
    then have "0 < k" using Suc.prems by (cases k) auto
    moreover have "n div 10 < 10 ^ k" using Suc.prems(1) by (simp add: less_mult_imp_div_less mult.commute)
    ultimately have "length (dec_digits (n div 10)) \<le> k" by (rule Suc.IH [rotated])
    with False show ?thesis by (subst dec_digits.simps) simp
  qed
qed simp

section \<open>Ordered maps\<close>

text \<open>
  The entries of a \<^verbatim>\<open>BTreeMap\<close> in key order. Keys are strictly increasing
  (\<open>bt_wf\<close>), which every insertion keeps.
\<close>

type_synonym ('k, 'v) btree_map = "('k \<times> 'v) list"

definition bt_wf :: "('k::linorder, 'v) btree_map \<Rightarrow> bool" where
  "bt_wf m = sorted_wrt (<) (map fst m)"

fun bt_insert :: "'k::linorder \<Rightarrow> 'v \<Rightarrow> ('k, 'v) btree_map \<Rightarrow> ('k, 'v) btree_map" where
  "bt_insert k v [] = [(k, v)]"
| "bt_insert k v ((k', v') # m) =
     (if k < k' then (k, v) # (k', v') # m
      else if k = k' then (k, v) # m
      else (k', v') # bt_insert k v m)"

definition bt_remove :: "'k \<Rightarrow> ('k, 'v) btree_map \<Rightarrow> ('k, 'v) btree_map" where
  "bt_remove k m = filter (\<lambda>e. fst e \<noteq> k) m"

definition bt_contains_key :: "('k, 'v) btree_map \<Rightarrow> 'k \<Rightarrow> bool" where
  "bt_contains_key m k = (map_of m k \<noteq> None)"

lemma bt_contains_key_iff [simp]: "bt_contains_key m k \<longleftrightarrow> k \<in> fst ` set m"
  by (simp add: bt_contains_key_def map_of_eq_None_iff)

lemma bt_wf_Nil [simp]: "bt_wf []"
  by (simp add: bt_wf_def)

lemma bt_wf_Cons [simp]: "bt_wf (e # m) \<longleftrightarrow> (\<forall>k \<in> fst ` set m. fst e < k) \<and> bt_wf m"
  by (auto simp: bt_wf_def)

lemma bt_wf_distinct: "bt_wf m \<Longrightarrow> distinct (map fst m)"
  by (simp add: bt_wf_def strict_sorted_iff)

lemma fst_set_bt_insert [simp]: "fst ` set (bt_insert k v m) = insert k (fst ` set m)"
  by (induction k v m rule: bt_insert.induct) auto

lemma bt_wf_insert [simp]: "bt_wf m \<Longrightarrow> bt_wf (bt_insert k v m)"
  by (induction k v m rule: bt_insert.induct) (auto intro: less_trans)

lemma map_of_bt_insert [simp]: "bt_wf m \<Longrightarrow> map_of (bt_insert k v m) = (map_of m)(k \<mapsto> v)"
  by (induction k v m rule: bt_insert.induct) (auto simp: fun_eq_iff)

lemma bt_insert_new_length:
  "k \<notin> fst ` set m \<Longrightarrow> length (bt_insert k v m) = Suc (length m)"
  by (induction k v m rule: bt_insert.induct) auto

lemma bt_insert_new_entries:
  "k \<notin> fst ` set m \<Longrightarrow> set (bt_insert k v m) = insert (k, v) (set m)"
  by (induction k v m rule: bt_insert.induct) auto

lemma bt_insert_nonempty [simp]: "bt_insert k v m \<noteq> []"
  by (cases m) (auto split: if_splits)

lemma bt_wf_remove [simp]: "bt_wf m \<Longrightarrow> bt_wf (bt_remove k m)"
  by (induction m) (auto simp: bt_remove_def)

lemma map_of_bt_remove [simp]: "map_of (bt_remove k m) = (map_of m)(k := None)"
  by (induction m) (auto simp: bt_remove_def fun_eq_iff)

text \<open>The interface the clients of a \<^verbatim>\<open>BTreeMap\<close> rely on.\<close>

locale ordered_map =
  fixes lookup :: "'m \<Rightarrow> 'k \<Rightarrow> 'v option"
    and ins :: "'k \<Rightarrow> 'v \<Rightarrow> 'm \<Rightarrow> 'm"
    and del :: "'k \<Rightarrow> 'm \<Rightarrow> 'm"
    and invar :: "'m \<Rightarrow> bool"
  assumes lookup_ins: "invar m \<Longrightarrow> lookup (ins k v m) = (lookup m)(k \<mapsto> v)"
    and lookup_del: "invar m \<Longrightarrow> lookup (del k m) = (lookup m)(k := None)"
    and invar_ins: "invar m \<Longrightarrow> invar (ins k v m)"
    and invar_del: "invar m \<Longrightarrow> invar (del k m)"
begin

lemma lookup_ins_same: "invar m \<Longrightarrow> lookup (ins k v m) k = Some v"
  by (simp add: lookup_ins)

lemma lookup_ins_other: "invar m \<Longrightarrow> k' \<noteq> k \<Longrightarrow> lookup (ins k v m) k' = lookup m k'"
  by (simp add: lookup_ins)

lemma invar_fold_ins: "invar m \<Longrightarrow> invar (fold (\<lambda>(k, v). ins k v) es m)"
  by (induction es arbitrary: m) (auto simp: invar_ins)

lemma lookup_fold_ins:
  "invar m \<Longrightarrow> lookup (fold (\<lambda>(k, v). ins k v) es m) = lookup m ++ map_of (rev es)"
  by (induction es arbitrary: m) (auto simp: invar_ins lookup_ins)

end

interpretation bt: ordered_map "map_of" bt_insert bt_remove bt_wf
  by unfold_locales simp_all

definition bt_of_list :: "('k::linorder \<times> 'v) list \<Rightarrow> ('k, 'v) btree_map" where
  "bt_of_list es = fold (\<lambda>(k, v). bt_insert k v) es []"

lemma bt_wf_of_list [simp]: "bt_wf (bt_of_list es)"
  by (simp add: bt_of_list_def bt.invar_fold_ins)

lemma map_of_bt_of_list: "map_of (bt_of_list es) = map_of (rev es)"
  by (simp add: bt_of_list_def bt.lookup_fold_ins)

section \<open>Binary search\<close>

text \<open>
  \<^verbatim>\<open>slice::binary_search_by(|x| key(x).cmp(k))\<close> as the standard library runs it: halve the
  window while it has more than one element, then compare the last candidate. The result
  keeps only the \<^verbatim>\<open>Ok\<close> index, as every caller does.
\<close>

function bsearch_loop :: "('a \<Rightarrow> 'k::linorder) \<Rightarrow> 'a list \<Rightarrow> 'k \<Rightarrow> nat \<Rightarrow> nat \<Rightarrow> nat" where
  "bsearch_loop key xs k base n =
     (if n \<le> 1 then base
      else let half = n div 2; mid = base + half
           in bsearch_loop key xs k (if k < key (xs ! mid) then base else mid) (n - half))"
  by pat_completeness auto
termination
  by (relation "measure (\<lambda>(_, _, _, _, n). n)") auto

declare bsearch_loop.simps [simp del]

definition binary_search :: "('a \<Rightarrow> 'k::linorder) \<Rightarrow> 'a list \<Rightarrow> 'k \<Rightarrow> nat option" where
  "binary_search key xs k =
     (if xs = [] then None
      else let base = bsearch_loop key xs k 0 (length xs)
           in if key (xs ! base) = k then Some base else None)"

lemma bsearch_loop_bounds:
  "0 < n \<Longrightarrow> base \<le> bsearch_loop key xs k base n
     \<and> bsearch_loop key xs k base n < base + n"
proof (induction key xs k base n rule: bsearch_loop.induct)
  case (1 key xs k base n)
  show ?case
  proof (cases "n \<le> 1")
    case True
    with "1.prems" show ?thesis by (subst (1 2) bsearch_loop.simps) simp
  next
    case False
    define b where "b = (if k < key (xs ! (base + n div 2)) then base else base + n div 2)"
    have IH: "b \<le> bsearch_loop key xs k b (n - n div 2)
        \<and> bsearch_loop key xs k b (n - n div 2) < b + (n - n div 2)"
      unfolding b_def by (rule "1.IH") (use False in auto)
    have eq: "bsearch_loop key xs k base n = bsearch_loop key xs k b (n - n div 2)"
      using False by (subst bsearch_loop.simps) (simp add: b_def Let_def)
    show ?thesis unfolding eq using IH by (auto simp: b_def split: if_splits)
  qed
qed

lemma sorted_wrt_key_le:
  fixes key :: "'a \<Rightarrow> 'k::linorder"
  assumes "sorted_wrt (<) (map key xs)" and "i \<le> j" and "j < length xs"
  shows "key (xs ! i) \<le> key (xs ! j)"
  using assms sorted_wrt_nth_less [of "(<)" "map key xs" i j] by (cases "i = j") auto

text \<open>The loop never loses an index whose key is the one searched for.\<close>

lemma bsearch_loop_finds:
  assumes "sorted_wrt (<) (map key xs)"
  shows "base \<le> i \<Longrightarrow> i < base + n \<Longrightarrow> base + n \<le> length xs \<Longrightarrow> key (xs ! i) = k
    \<Longrightarrow> bsearch_loop key xs k base n = i"
  using assms
proof (induction key xs k base n rule: bsearch_loop.induct)
  case (1 key xs k base n)
  show ?case
  proof (cases "n \<le> 1")
    case True
    with "1.prems" show ?thesis by (subst bsearch_loop.simps) simp
  next
    case False
    let ?mid = "base + n div 2"
    define b where "b = (if k < key (xs ! ?mid) then base else ?mid)"
    have mid: "?mid < length xs" using False "1.prems"(3) by simp
    have "i < ?mid" if "k < key (xs ! ?mid)"
      using sorted_wrt_key_le [of key xs ?mid i] "1.prems" that by (meson leD leI order.strict_trans2)
    moreover have "?mid \<le> i" if "\<not> k < key (xs ! ?mid)"
      using "1.prems"(4,5) mid that sorted_wrt_nth_less [of "(<)" "map key xs" i ?mid]
      by (metis leI length_map nth_map order.strict_trans)
    ultimately have "b \<le> i" "i < b + (n - n div 2)" "b + (n - n div 2) \<le> length xs"
      using "1.prems" False by (auto simp: b_def)
    then have "bsearch_loop key xs k b (n - n div 2) = i"
      using "1.IH" [of "n div 2" ?mid] "1.prems" False by (simp add: b_def)
    then show ?thesis using False by (subst bsearch_loop.simps) (simp add: b_def Let_def)
  qed
qed

text \<open>Correctness of the search: exactly the index of the key, when the keys are sorted.\<close>

lemma binary_search_Some:
  assumes "sorted_wrt (<) (map key xs)"
  shows "binary_search key xs k = Some i \<longleftrightarrow> i < length xs \<and> key (xs ! i) = k"
proof
  assume "binary_search key xs k = Some i"
  then show "i < length xs \<and> key (xs ! i) = k"
    using bsearch_loop_bounds [of "length xs" 0 key xs k]
    by (auto simp: binary_search_def Let_def split: if_splits)
next
  assume "i < length xs \<and> key (xs ! i) = k"
  then show "binary_search key xs k = Some i"
    using bsearch_loop_finds [OF assms, of 0 i "length xs" k]
    by (auto simp: binary_search_def Let_def)
qed

lemma binary_search_None:
  assumes "sorted_wrt (<) (map key xs)"
  shows "binary_search key xs k = None \<longleftrightarrow> k \<notin> key ` set xs"
proof (cases "binary_search key xs k")
  case None
  then have "\<forall>i < length xs. key (xs ! i) \<noteq> k" using binary_search_Some [OF assms, of k] by simp
  with None show ?thesis by (auto simp: in_set_conv_nth)
next
  case (Some i)
  then have "k \<in> key ` set xs" using binary_search_Some [OF assms, of k] by auto
  with Some show ?thesis by simp
qed

end
