(* ===== verification/Management.thy ===== *)
theory Management
  imports Prelude
begin

text \<open>
  The effect analysis of \<^verbatim>\<open>crates/core/src/management\<close>: resource identities, influence
  graphs stored as sorted node and edge arrays, and \<open>analyze_effects\<close>, which merges the
  graph before and after a change, walks everything the changed roots can influence with an
  explicit stack over a compact adjacency, and refuses when a protected resource or a node
  with unknown effects is reached.

  The specification is over resource identities: \<open>influences\<close> is the relation a graph
  denotes, and the affected set is the image of the roots under its reflexive transitive
  closure. The theorems show that the array code decides exactly that, and never indexes out
  of range.
\<close>

section \<open>Identities and errors\<close>

datatype resource_kind =
  RK_PhysicalPort | RK_NetworkDevice | RK_Bridge | RK_Vlan | RK_Interface | RK_Routing
| RK_Firewall | RK_DhcpDns | RK_Multicast | RK_Service | RK_Storage | RK_Vpn | RK_System
| RK_Packages | RK_Firmware

text \<open>The derived order is the order of declaration.\<close>

fun kind_rank :: "resource_kind \<Rightarrow> nat" where
  "kind_rank RK_PhysicalPort = 0"
| "kind_rank RK_NetworkDevice = 1"
| "kind_rank RK_Bridge = 2"
| "kind_rank RK_Vlan = 3"
| "kind_rank RK_Interface = 4"
| "kind_rank RK_Routing = 5"
| "kind_rank RK_Firewall = 6"
| "kind_rank RK_DhcpDns = 7"
| "kind_rank RK_Multicast = 8"
| "kind_rank RK_Service = 9"
| "kind_rank RK_Storage = 10"
| "kind_rank RK_Vpn = 11"
| "kind_rank RK_System = 12"
| "kind_rank RK_Packages = 13"
| "kind_rank RK_Firmware = 14"

lemma kind_rank_inject: "kind_rank a = kind_rank b \<longleftrightarrow> a = b"
  by (cases a; cases b) simp_all

instantiation resource_kind :: linorder
begin

definition less_eq_resource_kind :: "resource_kind \<Rightarrow> resource_kind \<Rightarrow> bool" where
  "less_eq_resource_kind a b = (kind_rank a \<le> kind_rank b)"

definition less_resource_kind :: "resource_kind \<Rightarrow> resource_kind \<Rightarrow> bool" where
  "less_resource_kind a b = (kind_rank a < kind_rank b)"

instance
  by standard (auto simp: less_eq_resource_kind_def less_resource_kind_def kind_rank_inject)

end

datatype resource_id = ResourceId (rid_kind: resource_kind) (rid_label: string)

instantiation resource_id :: linorder
begin

definition less_eq_resource_id :: "resource_id \<Rightarrow> resource_id \<Rightarrow> bool" where
  "less_eq_resource_id a b = ((rid_kind a, rid_label a) \<le> (rid_kind b, rid_label b))"

definition less_resource_id :: "resource_id \<Rightarrow> resource_id \<Rightarrow> bool" where
  "less_resource_id a b = ((rid_kind a, rid_label a) < (rid_kind b, rid_label b))"

instance
proof
  fix a b :: resource_id
  show "a \<le> b \<Longrightarrow> b \<le> a \<Longrightarrow> a = b"
    by (cases a; cases b) (auto simp: less_eq_resource_id_def)
qed (auto simp: less_eq_resource_id_def less_resource_id_def)

end

datatype effect_error =
  InvalidIdentity | InvalidGraph | InvalidSelection | EffectLimitExceeded | MissingRoot
| MissingProtectedResource | GlobalEffects | ProtectedImpact | IncompleteEffects

fun effect_error_code :: "effect_error \<Rightarrow> string" where
  "effect_error_code InvalidIdentity = ''invalid_resource_identity''"
| "effect_error_code InvalidGraph = ''invalid_effect_graph''"
| "effect_error_code InvalidSelection = ''invalid_effect_selection''"
| "effect_error_code EffectLimitExceeded = ''effect_limit_exceeded''"
| "effect_error_code MissingRoot = ''effect_root_missing''"
| "effect_error_code MissingProtectedResource = ''protected_resource_missing''"
| "effect_error_code GlobalEffects = ''global_effects_denied''"
| "effect_error_code ProtectedImpact = ''protected_resource_affected''"
| "effect_error_code IncompleteEffects = ''incomplete_effects''"

datatype effect_assessment = NoKnownProtectedImpact (affected_resources: nat)

definition max_effect_nodes :: nat where [limit_defs]: "max_effect_nodes = 4096"
definition max_effect_edges :: nat where [limit_defs]: "max_effect_edges = 8192"
definition max_change_roots :: nat where [limit_defs]: "max_change_roots = 256"
definition max_protected_resources :: nat where [limit_defs]: "max_protected_resources = 128"
definition max_resource_id_bytes :: nat where [limit_defs]: "max_resource_id_bytes = 128"

definition resource_id_new :: "resource_kind \<Rightarrow> string \<Rightarrow> effect_error + resource_id" where
  "resource_id_new k label =
     (if label = [] \<or> length label > max_resource_id_bytes
        \<or> \<not> list_all (\<lambda>b. is_ascii_alphanumeric b \<or> b \<in> set ''_-./:@'') label
      then Err InvalidIdentity else Ok (ResourceId k label))"

section \<open>Model\<close>

datatype effect_knowledge = EK_Complete | EK_Unknown

record node =
  resource :: resource_id
  knowledge :: effect_knowledge

record influence =
  infl_from :: resource_id
  infl_to :: resource_id

definition selection :: "resource_id list \<Rightarrow> nat \<Rightarrow> effect_error + resource_id list" where
  "selection ids maximum =
     (if length ids > maximum then Err EffectLimitExceeded
      else if ids = [] then Err InvalidSelection
      else let ids = sort ids
           in if windows2_any (=) ids then Err InvalidSelection else Ok ids)"

record protected_resources =
  prot_ids :: "resource_id list"

definition protected_resources_new :: "resource_id list \<Rightarrow> effect_error + protected_resources" where
  "protected_resources_new ids =
     and_then (selection ids max_protected_resources) (\<lambda>ids. Ok \<lparr>prot_ids = ids\<rparr>)"

record change_scope =
  scope_roots :: "resource_id list option"

definition change_scope_local :: "resource_id list \<Rightarrow> effect_error + change_scope" where
  "change_scope_local roots =
     and_then (selection roots max_change_roots) (\<lambda>ids. Ok \<lparr>scope_roots = Some ids\<rparr>)"

definition change_scope_global :: change_scope where
  "change_scope_global = \<lparr>scope_roots = None\<rparr>"

section \<open>Graphs\<close>

record effect_graph =
  g_nodes :: "node list"
  g_edges :: "(nat \<times> nat) list"

definition index_influence :: "node list \<Rightarrow> influence \<Rightarrow> effect_error + nat \<times> nat" where
  "index_influence nodes e =
     and_then (ok_or InvalidGraph (binary_search resource nodes (infl_from e))) (\<lambda>f.
     and_then (ok_or InvalidGraph (binary_search resource nodes (infl_to e))) (\<lambda>t.
     Ok (f, t)))"

definition effect_graph_new :: "node list \<Rightarrow> influence list \<Rightarrow> effect_error + effect_graph" where
  "effect_graph_new nodes edges =
     (if length nodes > max_effect_nodes \<or> length edges > max_effect_edges
      then Err EffectLimitExceeded
      else let nodes = sort_key resource nodes in
        if windows2_any (\<lambda>a b. resource a = resource b) nodes then Err InvalidGraph
        else and_then
          (map_res (index_influence nodes) edges)
          (\<lambda>indexed. let indexed = sort indexed in
             if windows2_any (=) indexed then Err InvalidGraph
             else Ok \<lparr>g_nodes = nodes, g_edges = indexed\<rparr>))"

definition graph_index :: "effect_graph \<Rightarrow> resource_id \<Rightarrow> nat option" where
  "graph_index g i = binary_search resource (g_nodes g) i"

section \<open>Merging two graphs\<close>

type_synonym union_node = "resource_id \<times> effect_knowledge"

record combined =
  cg_nodes :: "union_node list"
  cg_edges :: "(nat \<times> nat) list"

datatype ordering = Less | Equal | Greater

fun next_order :: "'a::linorder option \<Rightarrow> 'a option \<Rightarrow> ordering option" where
  "next_order (Some l) (Some r) =
     Some (if l < r then Less else if l = r then Equal else Greater)"
| "next_order (Some _) None = Some Less"
| "next_order None (Some _) = Some Greater"
| "next_order None None = None"

fun peek :: "'a list \<Rightarrow> 'a option" where
  "peek [] = None"
| "peek (x # _) = Some x"

fun join_knowledge :: "effect_knowledge \<Rightarrow> effect_knowledge \<Rightarrow> effect_knowledge" where
  "join_knowledge a b = (if a = EK_Unknown \<or> b = EK_Unknown then EK_Unknown else EK_Complete)"

text \<open>The node loop, with its three output vectors as accumulators.\<close>

function merge_nodes ::
    "node list \<Rightarrow> node list \<Rightarrow> union_node list \<Rightarrow> nat list \<Rightarrow> nat list
     \<Rightarrow> effect_error + union_node list \<times> nat list \<times> nat list" where
  "merge_nodes left right nodes before_map after_map =
     (case next_order (map_option resource (peek left)) (map_option resource (peek right)) of
        None \<Rightarrow> Ok (nodes, before_map, after_map)
      | Some order \<Rightarrow>
          if length nodes = max_effect_nodes then Err EffectLimitExceeded
          else let position = length nodes in
            case order of
              Less \<Rightarrow> (case left of
                  [] \<Rightarrow> Err InvalidGraph
                | n # left' \<Rightarrow> merge_nodes left' right (nodes @ [(resource n, knowledge n)])
                    (before_map @ [position]) after_map)
            | Greater \<Rightarrow> (case right of
                  [] \<Rightarrow> Err InvalidGraph
                | n # right' \<Rightarrow> merge_nodes left right' (nodes @ [(resource n, knowledge n)])
                    before_map (after_map @ [position]))
            | Equal \<Rightarrow> (case (left, right) of
                  (a # left', b # right') \<Rightarrow>
                    merge_nodes left' right'
                      (nodes @ [(resource a, join_knowledge (knowledge a) (knowledge b))])
                      (before_map @ [position]) (after_map @ [position])
                | _ \<Rightarrow> Err InvalidGraph))"
  by pat_completeness auto
termination
  by (relation "measure (\<lambda>(l, r, _, _, _). length l + length r)") auto

declare merge_nodes.simps [simp del]

function merge_edges ::
    "(nat \<times> nat) list \<Rightarrow> (nat \<times> nat) list \<Rightarrow> (nat \<times> nat) list
     \<Rightarrow> effect_error + (nat \<times> nat) list" where
  "merge_edges left right edges =
     (case next_order (peek left) (peek right) of
        None \<Rightarrow> Ok edges
      | Some order \<Rightarrow>
          if length edges = max_effect_edges then Err EffectLimitExceeded
          else case order of
              Less \<Rightarrow> (case left of
                  [] \<Rightarrow> Err InvalidGraph
                | e # left' \<Rightarrow> merge_edges left' right (edges @ [e]))
            | Greater \<Rightarrow> (case right of
                  [] \<Rightarrow> Err InvalidGraph
                | e # right' \<Rightarrow> merge_edges left right' (edges @ [e]))
            | Equal \<Rightarrow> (case (left, right) of
                  (e # left', _ # right') \<Rightarrow> merge_edges left' right' (edges @ [e])
                | _ \<Rightarrow> Err InvalidGraph))"
  by pat_completeness auto
termination
  by (relation "measure (\<lambda>(l, r, _). length l + length r)") auto

declare merge_edges.simps [simp del]

definition translate :: "nat list \<Rightarrow> (nat \<times> nat) list \<Rightarrow> effect_error stop + (nat \<times> nat) list" where
  "translate m es =
     map_res (\<lambda>(a, b). and_then (at m a) (\<lambda>a'. and_then (at m b) (\<lambda>b'. Ok (a', b')))) es"

definition combined_graph ::
    "effect_graph \<Rightarrow> effect_graph \<Rightarrow> effect_error stop + combined" where
  "combined_graph g_before g_after =
     and_then (map_err Returned (merge_nodes (g_nodes g_before) (g_nodes g_after) [] [] []))
       (\<lambda>(nodes, before_map, after_map).
     and_then (translate before_map (g_edges g_before)) (\<lambda>left.
     and_then (translate after_map (g_edges g_after)) (\<lambda>right.
     and_then (map_err Returned (merge_edges left right [])) (\<lambda>edges.
     Ok \<lparr>cg_nodes = nodes, cg_edges = edges\<rparr>))))"

section \<open>Analysis\<close>

definition union_index :: "union_node list \<Rightarrow> resource_id \<Rightarrow> nat option" where
  "union_index nodes i = binary_search fst nodes i"

text \<open>Compact adjacency: counts per source, then prefix sums.\<close>

definition count_offsets ::
    "nat \<Rightarrow> (nat \<times> nat) list \<Rightarrow> effect_error stop + nat list" where
  "count_offsets n edges =
     fold_res (\<lambda>(f, _) offsets.
       and_then (at offsets (f + 1)) (\<lambda>c. put offsets (f + 1) (c + 1))) edges (replicate (n + 1) 0)"

definition prefix_sums :: "nat list \<Rightarrow> effect_error stop + nat list" where
  "prefix_sums offsets =
     fold_res (\<lambda>i offsets.
       and_then (at offsets i) (\<lambda>c.
       and_then (at offsets (i - 1)) (\<lambda>p. put offsets i (c + p)))) [1..<length offsets] offsets"

record walk =
  w_stack :: "nat list"
  w_visited :: "bool list"
  w_affected :: nat
  w_hit :: bool
  w_incomplete :: bool

definition push_unvisited :: "nat \<Rightarrow> nat list \<times> bool list \<Rightarrow> effect_error stop + nat list \<times> bool list" where
  "push_unvisited dependent sv = (case sv of (stack, visited) \<Rightarrow>
     and_then (at visited dependent) (\<lambda>seen.
       if seen then Ok (stack, visited)
       else and_then (put visited dependent True) (\<lambda>visited. Ok (dependent # stack, visited))))"

text \<open>The marks only ever change from unvisited to visited, one per push.\<close>

lemma count_unvisited_update:
  "i < length xs \<Longrightarrow> \<not> xs ! i \<Longrightarrow> Suc (count_list (xs[i := True]) False) = count_list xs False"
  by (induction xs arbitrary: i) (auto simp: nth_Cons split: nat.splits)

lemma push_unvisited_measure:
  assumes "push_unvisited d (stack, visited) = Ok (stack', visited')"
  shows "length stack' + count_list visited' False = length stack + count_list visited False"
  using assms count_unvisited_update [of d visited]
  by (auto simp: push_unvisited_def res_simps split: if_splits)

lemma push_all_measure:
  assumes "fold_res push_unvisited ds sv = Ok (stack', visited')"
  shows "length stack' + count_list visited' False
    = length (fst sv) + count_list (snd sv) False"
proof -
  have "case (stack', visited') of (s, v) \<Rightarrow> length s + count_list v False
      = length (fst sv) + count_list (snd sv) False"
    using assms by (rule fold_res_invariant) (auto dest: push_unvisited_measure)
  then show ?thesis by simp
qed

text \<open>The loop \<^verbatim>\<open>while let Some(node) = stack.pop()\<close>; the top of the stack is the head.\<close>

function explore ::
    "union_node list \<Rightarrow> bool list \<Rightarrow> nat list \<Rightarrow> nat list \<Rightarrow> walk \<Rightarrow> effect_error stop + walk" where
  "explore nodes flags offsets targets w =
     (case w_stack w of
        [] \<Rightarrow> Ok w
      | node # stack \<Rightarrow>
          and_then (at flags node) (\<lambda>flag.
          and_then (at nodes node) (\<lambda>entry.
          and_then (at offsets node) (\<lambda>lo.
          and_then (at offsets (node + 1)) (\<lambda>hi.
          and_then (slice targets lo hi) (\<lambda>dependents.
          and_then (fold_res push_unvisited dependents (stack, w_visited w)) (\<lambda>(stack', visited').
            explore nodes flags offsets targets
              \<lparr>w_stack = stack', w_visited = visited', w_affected = w_affected w + 1,
               w_hit = (w_hit w \<or> flag),
               w_incomplete = (w_incomplete w \<or> snd entry = EK_Unknown)\<rparr>)))))))"
  by pat_completeness auto
termination
  by (relation "measure (\<lambda>(_, _, _, _, w). length (w_stack w) + count_list (w_visited w) False)")
    (auto dest!: push_all_measure)

declare explore.simps [simp del]

definition mark_roots ::
    "union_node list \<Rightarrow> resource_id list \<Rightarrow> effect_error stop + nat list \<times> bool list" where
  "mark_roots nodes roots =
     fold_res (\<lambda>root (stack, visited).
       and_then (ok_or (Returned MissingRoot) (union_index nodes root)) (\<lambda>node.
       and_then (put visited node True) (\<lambda>visited. Ok (node # stack, visited))))
       roots ([], replicate (length nodes) False)"

definition mark_protected ::
    "union_node list \<Rightarrow> resource_id list \<Rightarrow> effect_error stop + bool list" where
  "mark_protected nodes ids =
     fold_res (\<lambda>i flags.
       and_then (ok_or (Returned MissingProtectedResource) (union_index nodes i)) (\<lambda>node.
       put flags node True)) ids (replicate (length nodes) False)"

definition verdict_of :: "walk \<Rightarrow> effect_error stop + effect_assessment" where
  "verdict_of w =
     (if w_hit w then Err (Returned ProtectedImpact)
      else if w_incomplete w then Err (Returned IncompleteEffects)
      else Ok (NoKnownProtectedImpact (w_affected w)))"

definition analyze_effects ::
    "effect_graph \<Rightarrow> effect_graph \<Rightarrow> protected_resources \<Rightarrow> change_scope
     \<Rightarrow> effect_error stop + effect_assessment" where
  "analyze_effects g_before g_after protected scope =
     and_then (combined_graph g_before g_after) (\<lambda>cg.
     and_then (check_all (\<lambda>i. ensure (graph_index g_before i \<noteq> None \<and> graph_index g_after i \<noteq> None)
                 (Returned MissingProtectedResource)) (prot_ids protected)) (\<lambda>_.
     and_then (ok_or (Returned GlobalEffects) (scope_roots scope)) (\<lambda>roots.
     and_then (mark_roots (cg_nodes cg) roots) (\<lambda>(stack, visited).
     and_then (mark_protected (cg_nodes cg) (prot_ids protected)) (\<lambda>flags.
     and_then (count_offsets (length (cg_nodes cg)) (cg_edges cg)) (\<lambda>counts.
     and_then (prefix_sums counts) (\<lambda>offsets.
     and_then (explore (cg_nodes cg) flags offsets (map snd (cg_edges cg))
                 \<lparr>w_stack = stack, w_visited = visited, w_affected = 0,
                  w_hit = False, w_incomplete = False\<rparr>) verdict_of)))))))"

section \<open>What a graph denotes\<close>

definition node_ids :: "effect_graph \<Rightarrow> resource_id set" where
  "node_ids g = resource ` set (g_nodes g)"

definition influences :: "effect_graph \<Rightarrow> (resource_id \<times> resource_id) set" where
  "influences g =
     (\<lambda>(a, b). (resource (g_nodes g ! a), resource (g_nodes g ! b))) ` set (g_edges g)"

definition unknown_ids :: "effect_graph \<Rightarrow> resource_id set" where
  "unknown_ids g = resource ` {n \<in> set (g_nodes g). knowledge n = EK_Unknown}"

definition valid_graph :: "effect_graph \<Rightarrow> bool" where
  "valid_graph g \<longleftrightarrow>
     sorted_wrt (<) (map resource (g_nodes g)) \<and> sorted_wrt (<) (g_edges g)
     \<and> (\<forall>(a, b) \<in> set (g_edges g). a < length (g_nodes g) \<and> b < length (g_nodes g))
     \<and> length (g_nodes g) \<le> max_effect_nodes \<and> length (g_edges g) \<le> max_effect_edges"

lemma sort_key_strict:
  assumes "\<not> windows2_any (\<lambda>a b. f a = f b) (sort_key f xs)"
  shows "sorted_wrt (<) (map f (sort_key f xs))"
  using assms strict_sorted_windows [of "map f (sort_key f xs)"]
  by (simp add: windows2_any_map)

lemma windows2_any_sort_key:
  "windows2_any (\<lambda>a b. f a = f b) (sort_key f xs) \<longleftrightarrow> \<not> distinct (map f xs)"
proof -
  have "windows2_any (\<lambda>a b. f a = f b) (sort_key f xs) = windows2_any (=) (map f (sort_key f xs))"
    by (simp add: windows2_any_map)
  also have "\<dots> \<longleftrightarrow> \<not> distinct (map f (sort_key f xs))"
    by (rule windows2_any_eq_sorted) simp
  also have "distinct (map f (sort_key f xs)) \<longleftrightarrow> distinct (map f xs)"
    by (rule mset_eq_imp_distinct_iff) simp
  finally show ?thesis .
qed

lemma windows2_any_sort: "windows2_any (=) (sort xs) \<longleftrightarrow> \<not> distinct xs"
  using windows2_any_eq_sorted [of "sort xs"] by simp

lemma selection_Ok:
  "selection ids m = Ok xs \<longleftrightarrow>
     ids \<noteq> [] \<and> length ids \<le> m \<and> distinct ids \<and> xs = sort ids"
  by (auto simp: selection_def Let_def windows2_any_sort)

lemma selection_facts:
  assumes "selection ids m = Ok xs"
  shows "set xs = set ids" "distinct xs" "xs \<noteq> []"
proof -
  from assms have xs: "xs = sort ids" "distinct ids" "ids \<noteq> []" by (simp_all add: selection_Ok)
  then show "set xs = set ids" "distinct xs" by simp_all
  have "length xs = length ids" using xs(1) by simp
  with xs(3) show "xs \<noteq> []" by auto
qed

lemma index_influence_Ok:
  assumes "sorted_wrt (<) (map resource ns)"
  shows "index_influence ns e = Ok p
         \<longleftrightarrow> (fst p < length ns \<and> snd p < length ns
              \<and> resource (ns ! fst p) = infl_from e \<and> resource (ns ! snd p) = infl_to e)"
  by (cases p) (auto simp: index_influence_def res_simps binary_search_Some [OF assms])

text \<open>A built graph is valid and denotes exactly the supplied nodes and influences.\<close>

lemma effect_graph_new_sound:
  assumes "effect_graph_new ns es = Ok g"
  shows "valid_graph g" "mset (g_nodes g) = mset ns"
    "influences g = (\<lambda>e. (infl_from e, infl_to e)) ` set es"
proof -
  let ?ns = "sort_key resource ns"
  have lim: "length ns \<le> max_effect_nodes" "length es \<le> max_effect_edges"
    and dup: "\<not> windows2_any (\<lambda>a b. resource a = resource b) ?ns"
    using assms by (auto simp: effect_graph_new_def Let_def split: if_splits)
  have sorted: "sorted_wrt (<) (map resource ?ns)" by (rule sort_key_strict [OF dup])
  obtain ix where ix: "list_all2 (\<lambda>e p. fst p < length ?ns \<and> snd p < length ?ns
        \<and> resource (?ns ! fst p) = infl_from e \<and> resource (?ns ! snd p) = infl_to e) es ix"
    and g: "g = \<lparr>g_nodes = ?ns, g_edges = sort ix\<rparr>" and dix: "\<not> windows2_any (=) (sort ix)"
    using assms lim dup
    by (auto simp: effect_graph_new_def Let_def res_simps map_res_Ok index_influence_Ok [OF sorted]
        split: if_splits)
  have len: "length ix = length es" using ix by (simp add: list_all2_lengthD)
  show "mset (g_nodes g) = mset ns" by (simp add: g)
  have "sorted_wrt (<) (sort ix)" using dix by (intro strict_sorted_windows) auto
  moreover have "\<forall>(a, b) \<in> set ix. a < length ?ns \<and> b < length ?ns"
    using ix by (fastforce simp: list_all2_conv_all_nth in_set_conv_nth)
  ultimately show "valid_graph g"
    using sorted lim len by (simp add: valid_graph_def g)
  have "(\<lambda>(a, b). (resource (?ns ! a), resource (?ns ! b))) ` set ix
      = (\<lambda>e. (infl_from e, infl_to e)) ` set es"
  proof -
    have "map (\<lambda>(a, b). (resource (?ns ! a), resource (?ns ! b))) ix
        = map (\<lambda>e. (infl_from e, infl_to e)) es"
      using ix by (auto simp: list_all2_conv_all_nth list_eq_iff_nth_eq split: prod.splits)
    then show ?thesis by (metis list.set_map)
  qed
  then show "influences g = (\<lambda>e. (infl_from e, infl_to e)) ` set es"
    by (simp add: influences_def g)
qed

section \<open>The merge loops\<close>

lemma merge_induct:
  fixes key :: "'a \<Rightarrow> 'k::linorder"
  assumes "P [] []" and "\<And>a l. P l [] \<Longrightarrow> P (a # l) []" and "\<And>b r. P [] r \<Longrightarrow> P [] (b # r)"
    and "\<And>a l b r. key a < key b \<Longrightarrow> P l (b # r) \<Longrightarrow> P (a # l) (b # r)"
    and "\<And>a l b r. key a = key b \<Longrightarrow> P l r \<Longrightarrow> P (a # l) (b # r)"
    and "\<And>a l b r. key b < key a \<Longrightarrow> P (a # l) r \<Longrightarrow> P (a # l) (b # r)"
  shows "P l r"
proof (induction "length l + length r" arbitrary: l r rule: less_induct)
  case less
  show ?case
  proof (cases l)
    case Nil
    then show ?thesis using assms(1,3) less by (cases r) auto
  next
    case (Cons a l')
    note l = this
    show ?thesis
    proof (cases r)
      case Nil
      then show ?thesis using assms(2) less l by auto
    next
      case (Cons b r')
      consider "key a < key b" | "key a = key b" | "key b < key a" by (rule linorder_cases)
      then show ?thesis by cases (use assms(4-6) less l Cons in auto)
    qed
  qed
qed

lemma next_order_Some [simp]:
  "l < r \<Longrightarrow> next_order (Some l) (Some r) = Some Less"
  "next_order (Some l) (Some l) = Some Equal"
  "r < l \<Longrightarrow> next_order (Some l) (Some r) = Some Greater"
  by auto

declare next_order.simps(1) [simp del]

lemma merge_nodes_simps:
  "merge_nodes [] [] ns bm am = Ok (ns, bm, am)"
  "merge_nodes (a # l) [] ns bm am =
     (if length ns = max_effect_nodes then Err EffectLimitExceeded
      else merge_nodes l [] (ns @ [(resource a, knowledge a)]) (bm @ [length ns]) am)"
  "merge_nodes [] (b # r) ns bm am =
     (if length ns = max_effect_nodes then Err EffectLimitExceeded
      else merge_nodes [] r (ns @ [(resource b, knowledge b)]) bm (am @ [length ns]))"
  "resource a < resource b \<Longrightarrow> merge_nodes (a # l) (b # r) ns bm am =
     (if length ns = max_effect_nodes then Err EffectLimitExceeded
      else merge_nodes l (b # r) (ns @ [(resource a, knowledge a)]) (bm @ [length ns]) am)"
  "resource a = resource b \<Longrightarrow> merge_nodes (a # l) (b # r) ns bm am =
     (if length ns = max_effect_nodes then Err EffectLimitExceeded
      else merge_nodes l r (ns @ [(resource a, join_knowledge (knowledge a) (knowledge b))])
        (bm @ [length ns]) (am @ [length ns]))"
  "resource b < resource a \<Longrightarrow> merge_nodes (a # l) (b # r) ns bm am =
     (if length ns = max_effect_nodes then Err EffectLimitExceeded
      else merge_nodes (a # l) r (ns @ [(resource b, knowledge b)]) bm (am @ [length ns]))"
  by (simp_all add: merge_nodes.simps [of "[]" "[]"] merge_nodes.simps [of "a # l" "[]"]
      merge_nodes.simps [of "[]" "b # r"] merge_nodes.simps [of "a # l" "b # r"] Let_def)

lemma merge_edges_simps:
  "merge_edges [] [] es = Ok es"
  "merge_edges (a # l) [] es = (if length es = max_effect_edges then Err EffectLimitExceeded
     else merge_edges l [] (es @ [a]))"
  "merge_edges [] (b # r) es = (if length es = max_effect_edges then Err EffectLimitExceeded
     else merge_edges [] r (es @ [b]))"
  "a < b \<Longrightarrow> merge_edges (a # l) (b # r) es =
     (if length es = max_effect_edges then Err EffectLimitExceeded
      else merge_edges l (b # r) (es @ [a]))"
  "merge_edges (a # l) (a # r) es =
     (if length es = max_effect_edges then Err EffectLimitExceeded
      else merge_edges l r (es @ [a]))"
  "b < a \<Longrightarrow> merge_edges (a # l) (b # r) es =
     (if length es = max_effect_edges then Err EffectLimitExceeded
      else merge_edges (a # l) r (es @ [b]))"
  by (simp_all add: merge_edges.simps [of "[]" "[]"] merge_edges.simps [of "a # l" "[]"]
      merge_edges.simps [of "[]" "b # r"] merge_edges.simps [of "a # l" "b # r"]
      merge_edges.simps [of "a # l" "a # r"] Let_def)

text \<open>The state of the node loop after the prefixes \<open>dl\<close> and \<open>dr\<close> were consumed.\<close>

definition positions :: "union_node list \<Rightarrow> node list \<Rightarrow> nat list \<Rightarrow> bool" where
  "positions ns ds m \<longleftrightarrow>
     length m = length ds \<and> (\<forall>i < length ds. m ! i < length ns \<and> fst (ns ! (m ! i)) = resource (ds ! i))"

definition known_by :: "union_node list \<Rightarrow> node set \<Rightarrow> bool" where
  "known_by ns ds \<longleftrightarrow> (\<forall>(x, k) \<in> set ns. k = EK_Unknown
     \<longleftrightarrow> (\<exists>n \<in> ds. resource n = x \<and> knowledge n = EK_Unknown))"

definition merged :: "node list \<Rightarrow> node list \<Rightarrow> union_node list \<Rightarrow> nat list \<Rightarrow> nat list \<Rightarrow> bool" where
  "merged dl dr ns bm am \<longleftrightarrow>
     sorted_wrt (<) (map fst ns) \<and> fst ` set ns = resource ` (set dl \<union> set dr)
     \<and> positions ns dl bm \<and> positions ns dr am \<and> known_by ns (set dl \<union> set dr)"

definition above :: "union_node list \<Rightarrow> resource_id set \<Rightarrow> bool" where
  "above ns ids \<longleftrightarrow> (\<forall>x \<in> fst ` set ns. \<forall>y \<in> ids. x < y)"

lemma positions_snoc: "positions ns ds m \<Longrightarrow> positions (ns @ [x]) ds m"
  by (auto simp: positions_def nth_append less_SucI)

lemma positions_add:
  "positions ns ds m \<Longrightarrow> fst x = resource d \<Longrightarrow> positions (ns @ [x]) (ds @ [d]) (m @ [length ns])"
  by (auto simp: positions_def nth_append less_Suc_eq)

lemma known_by_add:
  assumes "known_by ns ds" and "fst ` set ns = resource ` ds" and "above ns {x}"
    and "\<forall>n \<in> new. resource n = x" and "k = EK_Unknown \<longleftrightarrow> (\<exists>n \<in> new. knowledge n = EK_Unknown)"
  shows "known_by (ns @ [(x, k)]) (ds \<union> new)"
proof -
  have fresh: "\<forall>p \<in> set ns. fst p \<noteq> x" "\<forall>n \<in> ds. resource n \<noteq> x"
    using assms(2,3) unfolding above_def by (metis image_eqI less_irrefl singletonI)+
  show ?thesis unfolding known_by_def
  proof clarify
    fix y l assume "(y, l) \<in> set (ns @ [(x, k)])"
    then consider "(y, l) \<in> set ns" | "y = x" "l = k" by auto
    then show "l = EK_Unknown
        \<longleftrightarrow> (\<exists>n \<in> ds \<union> new. resource n = y \<and> knowledge n = EK_Unknown)"
    proof cases
      case 1
      then have "y \<noteq> x" using fresh(1) by auto
      with 1 assms(1,4) show ?thesis unfolding known_by_def by blast
    next
      case 2
      with fresh(2) assms(4,5) show ?thesis by blast
    qed
  qed
qed

lemma merged_step:
  assumes "merged dl dr ns bm am" and "above ns {x}"
    and "\<forall>n \<in> new. resource n = x" and "new \<noteq> {}"
    and "k = EK_Unknown \<longleftrightarrow> (\<exists>n \<in> new. knowledge n = EK_Unknown)"
  shows "sorted_wrt (<) (map fst (ns @ [(x, k)]))"
    "fst ` set (ns @ [(x, k)]) = resource ` (set dl \<union> set dr \<union> new)"
    "known_by (ns @ [(x, k)]) (set dl \<union> set dr \<union> new)"
proof -
  show "sorted_wrt (<) (map fst (ns @ [(x, k)]))"
    using assms(1,2) by (simp add: merged_def above_def sorted_wrt_append)
  have "resource ` new = {x}" using assms(3,4) by auto
  then show "fst ` set (ns @ [(x, k)]) = resource ` (set dl \<union> set dr \<union> new)"
    using assms(1) by (simp add: merged_def image_Un)
  show "known_by (ns @ [(x, k)]) (set dl \<union> set dr \<union> new)"
    using assms by (intro known_by_add) (simp_all add: merged_def)
qed

lemma merged_left:
  assumes "merged dl dr ns bm am" and "above ns {resource a}"
  shows "merged (dl @ [a]) dr (ns @ [(resource a, knowledge a)]) (bm @ [length ns]) am"
  using merged_step [OF assms, of "{a}" "knowledge a"] assms(1)
  unfolding merged_def by (simp add: positions_snoc positions_add Un_ac)

lemma merged_right:
  assumes "merged dl dr ns bm am" and "above ns {resource b}"
  shows "merged dl (dr @ [b]) (ns @ [(resource b, knowledge b)]) bm (am @ [length ns])"
  using merged_step [OF assms, of "{b}" "knowledge b"] assms(1)
  unfolding merged_def by (simp add: positions_snoc positions_add Un_ac)

lemma merged_both:
  assumes "merged dl dr ns bm am" and "above ns {resource a}" and "resource a = resource b"
  shows "merged (dl @ [a]) (dr @ [b])
    (ns @ [(resource a, join_knowledge (knowledge a) (knowledge b))])
    (bm @ [length ns]) (am @ [length ns])"
proof -
  have "set (dl @ [a]) \<union> set (dr @ [b]) = set dl \<union> set dr \<union> {a, b}" by auto
  then show ?thesis
    using merged_step [OF assms(1,2), of "{a, b}" "join_knowledge (knowledge a) (knowledge b)"]
      assms(1,3)
    unfolding merged_def by (simp add: positions_add)
qed

lemma merge_nodes_merged:
  assumes "merge_nodes l r ns bm am = Ok (ns', bm', am')"
    and "sorted_wrt (<) (map resource l)" and "sorted_wrt (<) (map resource r)"
    and "merged dl dr ns bm am" and "above ns (resource ` (set l \<union> set r))"
  shows "merged (dl @ l) (dr @ r) ns' bm' am'"
  using assms
proof (induction l r arbitrary: dl dr ns bm am rule: merge_induct [where key = resource])
  case 1
  then show ?case by (simp add: merge_nodes_simps)
next
  case (2 a l)
  have "merged (dl @ [a]) dr (ns @ [(resource a, knowledge a)]) (bm @ [length ns]) am"
    using "2.prems"(4,5) by (intro merged_left) (simp_all add: above_def)
  then show ?case
    using "2.IH" [of _ _ _ "dl @ [a]" dr] "2.prems"
    by (auto simp: merge_nodes_simps above_def split: if_splits)
next
  case (3 b r)
  have "merged dl (dr @ [b]) (ns @ [(resource b, knowledge b)]) bm (am @ [length ns])"
    using "3.prems"(4,5) by (intro merged_right) (simp_all add: above_def)
  then show ?case
    using "3.IH" [of _ _ _ dl "dr @ [b]"] "3.prems"
    by (auto simp: merge_nodes_simps above_def split: if_splits)
next
  case (4 a l b r)
  have "merged (dl @ [a]) dr (ns @ [(resource a, knowledge a)]) (bm @ [length ns]) am"
    using "4.prems"(4,5) by (intro merged_left) (simp_all add: above_def)
  moreover have "above (ns @ [(resource a, knowledge a)]) (resource ` (set l \<union> set (b # r)))"
    using "4.prems"(2,3,5) "4.hyps" by (auto simp: above_def intro: less_trans)
  ultimately show ?case
    using "4.IH" [of _ _ _ "dl @ [a]" dr] "4.prems" "4.hyps"
    by (simp add: merge_nodes_simps split: if_splits)
next
  case (5 a l b r)
  let ?x = "(resource a, join_knowledge (knowledge a) (knowledge b))"
  have "merged (dl @ [a]) (dr @ [b]) (ns @ [?x]) (bm @ [length ns]) (am @ [length ns])"
    using "5.prems"(4,5) "5.hyps" by (intro merged_both) (simp_all add: above_def)
  moreover have "above (ns @ [?x]) (resource ` (set l \<union> set r))"
    using "5.prems"(2,3,5) "5.hyps" by (auto simp: above_def)
  ultimately show ?case
    using "5.IH" [of _ _ _ "dl @ [a]" "dr @ [b]"] "5.prems" "5.hyps"
    by (simp add: merge_nodes_simps split: if_splits)
next
  case (6 a l b r)
  have "merged dl (dr @ [b]) (ns @ [(resource b, knowledge b)]) bm (am @ [length ns])"
    using "6.prems"(4,5) by (intro merged_right) (simp_all add: above_def)
  moreover have "above (ns @ [(resource b, knowledge b)]) (resource ` (set (a # l) \<union> set r))"
    using "6.prems"(2,3,5) "6.hyps" by (auto simp: above_def intro: less_trans)
  ultimately show ?case
    using "6.IH" [of _ _ _ dl "dr @ [b]"] "6.prems" "6.hyps"
    by (simp add: merge_nodes_simps split: if_splits)
qed

text \<open>The node loop fails exactly when the union is over the limit.\<close>

lemma merge_nodes_limit:
  assumes "sorted_wrt (<) (map resource l)" and "sorted_wrt (<) (map resource r)"
    and "length ns \<le> max_effect_nodes"
  shows "(\<forall>e. merge_nodes l r ns bm am = Err e \<longrightarrow> e = EffectLimitExceeded
      \<and> max_effect_nodes < length ns + card (resource ` (set l \<union> set r)))
    \<and> (\<forall>res. merge_nodes l r ns bm am = Ok res \<longrightarrow>
      length ns + card (resource ` (set l \<union> set r)) \<le> max_effect_nodes)"
  using assms
proof (induction l r arbitrary: ns bm am rule: merge_induct [where key = resource])
  case 1
  then show ?case by (simp add: merge_nodes_simps)
next
  case (2 a l)
  then have "resource a \<notin> resource ` set l" by auto
  with "2.IH" [of "ns @ [_]"] "2.prems" show ?case
    by (cases "length ns = max_effect_nodes") (fastforce simp: merge_nodes_simps )+
next
  case (3 b r)
  then have "resource b \<notin> resource ` set r" by auto
  with "3.IH" [of "ns @ [_]"] "3.prems" show ?case
    by (cases "length ns = max_effect_nodes") (fastforce simp: merge_nodes_simps )+
next
  case (4 a l b r)
  have "resource a \<notin> resource ` (set l \<union> set (b # r))"
    using "4.prems" "4.hyps" by (auto dest: less_trans)
  then have "card (resource ` (set (a # l) \<union> set (b # r)))
      = Suc (card (resource ` (set l \<union> set (b # r))))"
    by (simp del: set_simps add: list.set(2) [of a])
  with "4.IH" [of "ns @ [_]"] "4.prems" show ?case
    by (cases "length ns = max_effect_nodes") (fastforce simp: merge_nodes_simps "4.hyps")+
next
  case (5 a l b r)
  have "resource a \<notin> resource ` (set l \<union> set r)"
    using "5.prems" "5.hyps" by auto
  then have "card (resource ` (set (a # l) \<union> set (b # r))) = Suc (card (resource ` (set l \<union> set r)))"
    using "5.hyps" by (simp add: insert_commute)
  with "5.IH" [of "ns @ [_]"] "5.prems" show ?case
    by (cases "length ns = max_effect_nodes") (fastforce simp: merge_nodes_simps "5.hyps")+
next
  case (6 a l b r)
  have "resource b \<notin> resource ` (set (a # l) \<union> set r)"
    using "6.prems" "6.hyps" by (auto dest: less_trans)
  then have "card (resource ` (set (a # l) \<union> set (b # r)))
      = Suc (card (resource ` (set (a # l) \<union> set r)))"
    by (simp del: set_simps add: list.set(2) [of b])
  with "6.IH" [of "ns @ [_]"] "6.prems" show ?case
    by (cases "length ns = max_effect_nodes") (fastforce simp: merge_nodes_simps "6.hyps")+
qed

text \<open>The edge loop computes the sorted union.\<close>

lemma sorted_list_of_set_least:
  fixes x :: "'a::linorder"
  assumes "finite A" and "\<forall>y \<in> A. x < y"
  shows "sorted_list_of_set (insert x A) = x # sorted_list_of_set A"
    and "card (insert x A) = Suc (card A)"
proof -
  have "Min (insert x A) = x" using assms by (intro Min_eqI) (auto simp: less_imp_le)
  moreover have "insert x A - {x} = A" using assms(2) by auto
  ultimately show "sorted_list_of_set (insert x A) = x # sorted_list_of_set A"
    using sorted_list_of_set_nonempty [of "insert x A"] assms(1) by simp
  show "card (insert x A) = Suc (card A)" using assms by (subst card_insert_disjoint) auto
qed

text \<open>One step of the loop: the least remaining edge moves to the output.\<close>

lemma merge_edges_step:
  assumes "merge_edges l r es =
      (if length es = max_effect_edges then Err EffectLimitExceeded
       else merge_edges l' r' (es @ [x]))"
    and "Suc (length es) \<le> max_effect_edges \<Longrightarrow> merge_edges l' r' (es @ [x]) =
      (if length (es @ [x]) + card (set l' \<union> set r') \<le> max_effect_edges
       then Ok ((es @ [x]) @ sorted_list_of_set (set l' \<union> set r')) else Err EffectLimitExceeded)"
    and "set l \<union> set r = insert x (set l' \<union> set r')" and "\<forall>y \<in> set l' \<union> set r'. x < y"
    and "length es \<le> max_effect_edges"
  shows "merge_edges l r es =
    (if length es + card (set l \<union> set r) \<le> max_effect_edges
     then Ok (es @ sorted_list_of_set (set l \<union> set r)) else Err EffectLimitExceeded)"
proof -
  note least = sorted_list_of_set_least [OF _ assms(4)]
  show ?thesis
    unfolding assms(1,3) least(1) [OF finite_UnI [OF finite_set finite_set]]
      least(2) [OF finite_UnI [OF finite_set finite_set]]
    using assms(2,5) by (cases "length es = max_effect_edges") simp_all
qed

lemma merge_edges_eq:
  assumes "sorted_wrt (<) l" and "sorted_wrt (<) r" and "length es \<le> max_effect_edges"
  shows "merge_edges l r es =
    (if length es + card (set l \<union> set r) \<le> max_effect_edges
     then Ok (es @ sorted_list_of_set (set l \<union> set r)) else Err EffectLimitExceeded)"
  using assms
proof (induction l r arbitrary: es rule: merge_induct [where key = "\<lambda>e. e"])
  case 1
  then show ?case by (simp add: merge_edges_simps)
next
  case (2 a l)
  show ?case
    using "2.IH" [of "es @ [a]"] "2.prems"
    by - (rule merge_edges_step [of _ _ _ l "[]" a], simp_all add: merge_edges_simps)
next
  case (3 b r)
  show ?case
    using "3.IH" [of "es @ [b]"] "3.prems"
    by - (rule merge_edges_step [of _ _ _ "[]" r b], simp_all add: merge_edges_simps)
next
  case (4 a l b r)
  have "\<forall>y \<in> set l \<union> set (b # r). a < y" using "4.prems" "4.hyps" by (auto dest: less_trans)
  then show ?case
    using "4.IH" [of "es @ [a]"] "4.prems" "4.hyps"
    by - (rule merge_edges_step [of _ _ _ l "b # r" a], simp_all add: merge_edges_simps insert_commute)
next
  case (5 a l b r)
  have "\<forall>y \<in> set l \<union> set r. a < y" using "5.prems" "5.hyps" by auto
  then show ?case
    using "5.IH" [of "es @ [a]"] "5.prems" "5.hyps"
    by - (rule merge_edges_step [of _ _ _ l r a], simp_all add: merge_edges_simps)
next
  case (6 a l b r)
  have "\<forall>y \<in> set (a # l) \<union> set r. b < y" using "6.prems" "6.hyps" by (auto dest: less_trans)
  then show ?case
    using "6.IH" [of "es @ [b]"] "6.prems" "6.hyps"
    by - (rule merge_edges_step [of _ _ _ "a # l" r b], auto simp: merge_edges_simps)
qed

section \<open>The combined graph\<close>

text \<open>Translating edges along increasing positions keeps them sorted.\<close>

lemma positions_mono:
  assumes "positions ns ds m" and "sorted_wrt (<) (map fst ns)"
    and "sorted_wrt (<) (map resource ds)" and "i < length ds" and "j < length ds"
  shows "m ! i < m ! j \<longleftrightarrow> i < j"
proof -
  have *: "m ! i < m ! j" if "i < j" "j < length ds" for i j
  proof -
    have "resource (ds ! i) < resource (ds ! j)"
      using sorted_wrt_nth_less [OF assms(3), of i j] that by simp
    then have "fst (ns ! (m ! i)) < fst (ns ! (m ! j))"
      using assms(1) that by (simp add: positions_def)
    moreover have "fst (ns ! (m ! j)) \<le> fst (ns ! (m ! i))" if "m ! j \<le> m ! i"
      using sorted_wrt_key_le [OF assms(2) that] assms(1) \<open>i < j\<close> \<open>j < length ds\<close>
      by (simp add: positions_def)
    ultimately show ?thesis by (meson leD leI)
  qed
  show ?thesis
    by (rule linorder_cases [of i j]) (use * assms(4,5) in \<open>auto dest: less_asym\<close>)
qed

definition edges_within :: "(nat \<times> nat) list \<Rightarrow> nat \<Rightarrow> bool" where
  "edges_within es n \<longleftrightarrow> (\<forall>(a, b) \<in> set es. a < n \<and> b < n)"

lemma translate_eq:
  "edges_within es (length m) \<Longrightarrow> translate m es = Ok (map (\<lambda>(a, b). (m ! a, m ! b)) es)"
  unfolding translate_def by (induction es) (auto simp: edges_within_def)

lemma translate_sorted:
  assumes "positions ns ds m" and "sorted_wrt (<) (map fst ns)" and "sorted_wrt (<) (map resource ds)"
    and "sorted_wrt (<) es" and "edges_within es (length ds)"
  shows "sorted_wrt (<) (map (\<lambda>(a, b). (m ! a, m ! b)) es)"
proof -
  note mono = positions_mono [OF assms(1-3)]
  have eq: "m ! i = m ! j \<longleftrightarrow> i = j" if "i < length ds" "j < length ds" for i j
    using mono [of i j] mono [of j i] that by (cases i j rule: linorder_cases) auto
  have "sorted_wrt (\<lambda>p q. (m ! fst p, m ! snd p) < (m ! fst q, m ! snd q)) es"
    using assms(4)
  proof (rule sorted_wrt_mono_rel [rotated])
    fix p q assume "p \<in> set es" "q \<in> set es" "p < q"
    with assms(5) show "(m ! fst p, m ! snd p) < (m ! fst q, m ! snd q)"
      by (cases p; cases q) (auto simp: edges_within_def mono eq)
  qed
  then show ?thesis by (simp add: sorted_wrt_map case_prod_beta)
qed

text \<open>What the combined graph denotes, and when it is over the limits.\<close>

definition cg_influences :: "combined \<Rightarrow> (resource_id \<times> resource_id) set" where
  "cg_influences cg =
     (\<lambda>(a, b). (fst (cg_nodes cg ! a), fst (cg_nodes cg ! b))) ` set (cg_edges cg)"

definition cg_unknown :: "combined \<Rightarrow> resource_id set" where
  "cg_unknown cg = fst ` {n \<in> set (cg_nodes cg). snd n = EK_Unknown}"

definition within_limits :: "effect_graph \<Rightarrow> effect_graph \<Rightarrow> bool" where
  "within_limits g h \<longleftrightarrow> card (node_ids g \<union> node_ids h) \<le> max_effect_nodes
     \<and> card (influences g \<union> influences h) \<le> max_effect_edges"

definition represents :: "combined \<Rightarrow> effect_graph \<Rightarrow> effect_graph \<Rightarrow> bool" where
  "represents cg g h \<longleftrightarrow>
     sorted_wrt (<) (map fst (cg_nodes cg)) \<and> fst ` set (cg_nodes cg) = node_ids g \<union> node_ids h
     \<and> edges_within (cg_edges cg) (length (cg_nodes cg)) \<and> sorted_wrt (<) (cg_edges cg)
     \<and> cg_influences cg = influences g \<union> influences h
     \<and> cg_unknown cg = unknown_ids g \<union> unknown_ids h"

definition named :: "union_node list \<Rightarrow> nat \<times> nat \<Rightarrow> resource_id \<times> resource_id" where
  "named ns = (\<lambda>(a, b). (fst (ns ! a), fst (ns ! b)))"

lemma named_translated:
  assumes "positions ns (g_nodes g) m" and "edges_within (g_edges g) (length (g_nodes g))"
  shows "named ns ` set (map (\<lambda>(a, b). (m ! a, m ! b)) (g_edges g)) = influences g"
  using assms unfolding influences_def image_set [symmetric] image_image named_def
  by (force simp: edges_within_def positions_def image_iff intro!: image_cong)

lemma named_inj:
  assumes "sorted_wrt (<) (map fst ns)"
  shows "inj_on (named ns) ({..<length ns} \<times> {..<length ns})"
proof -
  have "distinct (map fst ns)" using assms by (simp add: strict_sorted_iff)
  then show ?thesis by (auto simp: inj_on_def named_def distinct_conv_nth)
qed

lemma valid_graph_edges: "valid_graph g \<Longrightarrow> edges_within (g_edges g) (length (g_nodes g))"
  by (simp add: valid_graph_def edges_within_def)

lemma known_by_unknown:
  assumes "known_by ns (set l \<union> set r)" and "fst ` set ns = resource ` (set l \<union> set r)"
  shows "fst ` {n \<in> set ns. snd n = EK_Unknown}
    = resource ` {n \<in> set l. knowledge n = EK_Unknown} \<union> resource ` {n \<in> set r. knowledge n = EK_Unknown}"
proof -
  have iff: "x \<in> fst ` {n \<in> set ns. snd n = EK_Unknown}
      \<longleftrightarrow> (\<exists>n \<in> set l \<union> set r. resource n = x \<and> knowledge n = EK_Unknown)" for x
  proof
    assume "x \<in> fst ` {n \<in> set ns. snd n = EK_Unknown}"
    then show "\<exists>n \<in> set l \<union> set r. resource n = x \<and> knowledge n = EK_Unknown"
      using assms(1) unfolding known_by_def by auto
  next
    assume *: "\<exists>n \<in> set l \<union> set r. resource n = x \<and> knowledge n = EK_Unknown"
    then have "x \<in> fst ` set ns" using assms(2) by auto
    then obtain k where "(x, k) \<in> set ns" by auto
    moreover have "k = EK_Unknown" using assms(1) * calculation unfolding known_by_def by blast
    ultimately show "x \<in> fst ` {n \<in> set ns. snd n = EK_Unknown}" by force
  qed
  show ?thesis unfolding set_eq_iff iff by auto
qed

lemma merge_nodes_valid:
  assumes "valid_graph g" and "valid_graph h"
  shows "if card (node_ids g \<union> node_ids h) \<le> max_effect_nodes
    then \<exists>ns bm am. merge_nodes (g_nodes g) (g_nodes h) [] [] [] = Ok (ns, bm, am)
      \<and> merged (g_nodes g) (g_nodes h) ns bm am
    else merge_nodes (g_nodes g) (g_nodes h) [] [] [] = Err EffectLimitExceeded"
proof -
  let ?m = "merge_nodes (g_nodes g) (g_nodes h) [] [] []"
  have sorted: "sorted_wrt (<) (map resource (g_nodes g))" "sorted_wrt (<) (map resource (g_nodes h))"
    using assms by (simp_all add: valid_graph_def)
  note limit = merge_nodes_limit [OF sorted, of "[]" "[]" "[]"]
  have start: "merged [] [] [] [] []" by (simp add: merged_def positions_def known_by_def)
  have "merged (g_nodes g) (g_nodes h) ns bm am" if "?m = Ok (ns, bm, am)" for ns bm am
    using merge_nodes_merged [OF that sorted start] by (simp add: above_def)
  with limit show ?thesis
    by (cases ?m) (auto simp: node_ids_def image_Un not_le)
qed

lemma combined_graph_cases:
  assumes g: "valid_graph g" and h: "valid_graph h"
  shows "if within_limits g h then \<exists>cg. combined_graph g h = Ok cg \<and> represents cg g h
    else combined_graph g h = Err (Returned EffectLimitExceeded)"
proof (cases "card (node_ids g \<union> node_ids h) \<le> max_effect_nodes")
  case False
  then show ?thesis
    using merge_nodes_valid [OF g h] by (simp add: within_limits_def combined_graph_def)
next
  case True
  then obtain ns bm am where m: "merge_nodes (g_nodes g) (g_nodes h) [] [] [] = Ok (ns, bm, am)"
    and merged: "merged (g_nodes g) (g_nodes h) ns bm am"
    using merge_nodes_valid [OF g h] by auto
  then have ns: "sorted_wrt (<) (map fst ns)" "fst ` set ns = node_ids g \<union> node_ids h"
    and pos: "positions ns (g_nodes g) bm" "positions ns (g_nodes h) am"
    and known: "known_by ns (set (g_nodes g) \<union> set (g_nodes h))"
    by (simp_all add: merged_def node_ids_def image_Un)
  note eg = valid_graph_edges [OF g] and eh = valid_graph_edges [OF h]
  have srt: "sorted_wrt (<) (map resource (g_nodes g))" "sorted_wrt (<) (g_edges g)"
    "sorted_wrt (<) (map resource (g_nodes h))" "sorted_wrt (<) (g_edges h)"
    using g h by (simp_all add: valid_graph_def)
  define l r where "l = map (\<lambda>(a, b). (bm ! a, bm ! b)) (g_edges g)"
    and "r = map (\<lambda>(a, b). (am ! a, am ! b)) (g_edges h)"
  have tr: "translate bm (g_edges g) = Ok l" "translate am (g_edges h) = Ok r"
    using translate_eq [of "g_edges g" bm] translate_eq [of "g_edges h" am] eg eh pos
    by (simp_all add: positions_def l_def r_def)
  have sorted: "sorted_wrt (<) l" "sorted_wrt (<) r"
    unfolding l_def r_def
    by (rule translate_sorted [OF pos(1) ns(1) srt(1,2) eg] translate_sorted [OF pos(2) ns(1) srt(3,4) eh])+
  have within: "set l \<union> set r \<subseteq> {..<length ns} \<times> {..<length ns}"
    using eg eh pos unfolding l_def r_def by (auto simp: edges_within_def positions_def)
  have image: "named ns ` (set l \<union> set r) = influences g \<union> influences h"
    using named_translated [OF pos(1) eg] named_translated [OF pos(2) eh]
    by (simp only: image_Un l_def r_def)
  have "card (influences g \<union> influences h) = card (set l \<union> set r)"
    unfolding image [symmetric] by (rule card_image) (rule inj_on_subset [OF named_inj [OF ns(1)] within])
  then have eq: "combined_graph g h = (if within_limits g h
      then Ok \<lparr>cg_nodes = ns, cg_edges = sorted_list_of_set (set l \<union> set r)\<rparr>
      else Err (Returned EffectLimitExceeded))"
    using True by (simp add: combined_graph_def m tr merge_edges_eq [OF sorted] within_limits_def)
  have "represents \<lparr>cg_nodes = ns, cg_edges = sorted_list_of_set (set l \<union> set r)\<rparr> g h"
    using ns within image known_by_unknown [OF known] ns(2)
    by (auto simp: represents_def edges_within_def cg_influences_def named_def cg_unknown_def
        unknown_ids_def node_ids_def image_Un)
  with eq show ?thesis by simp
qed

section \<open>The compact adjacency\<close>

definition from_count :: "(nat \<times> nat) list \<Rightarrow> nat \<Rightarrow> nat" where
  "from_count es i = length (filter (\<lambda>e. Suc (fst e) = i) es)"

lemma count_offsets_eq:
  assumes "edges_within es n"
  shows "count_offsets n es = Ok (map (from_count es) [0..<Suc n])"
proof -
  have "fold_res (\<lambda>(f, _) offsets. and_then (at offsets (f + 1)) (\<lambda>c. put offsets (f + 1) (c + 1)))
        es offs = Ok (map (\<lambda>i. offs ! i + from_count es i) [0..<Suc n])"
    if "length offs = Suc n" for offs
    using assms that
  proof (induction es arbitrary: offs)
    case Nil
    then show ?case by (simp add: from_count_def list_eq_iff_nth_eq del: upt_Suc)
  next
    case (Cons e es)
    obtain a b where e: "e = (a, b)" by (cases e)
    with Cons.prems have a: "Suc a < length offs" and es: "edges_within es n"
      by (simp_all add: edges_within_def)
    have "map (\<lambda>i. offs[Suc a := Suc (offs ! Suc a)] ! i + from_count es i) [0..<Suc n]
        = map (\<lambda>i. offs ! i + from_count (e # es) i) [0..<Suc n]"
      using Cons.prems a by (intro map_cong) (auto simp: from_count_def e nth_list_update)
    then show ?case using Cons.IH [OF es] Cons.prems a by (simp add: e del: upt_Suc)
  qed
  note loop = this [of "replicate (Suc n) 0"]
  have "map (\<lambda>i. replicate (Suc n) 0 ! i + from_count es i) [0..<Suc n]
      = map (from_count es) [0..<Suc n]"
    by (intro map_cong) (auto simp del: upt_Suc replicate_Suc)
  with loop show ?thesis by (simp add: count_offsets_def del: upt_Suc replicate_Suc)
qed

lemma prefix_sums_eq:
  "prefix_sums offs = Ok (map (\<lambda>i. \<Sum>j \<le> i. offs ! j) [0..<length offs])"
proof -
  let ?body = "\<lambda>i offsets. and_then (at offsets i) (\<lambda>c.
     and_then (at offsets (i - 1)) (\<lambda>p. put offsets i (c + p))) :: effect_error stop + nat list"
  let ?upto = "\<lambda>k. map (\<lambda>i. if i < k then \<Sum>j \<le> i. offs ! j else offs ! i) [0..<length offs]"
  have step: "fold_res ?body [1..<k] offs = Ok (?upto k)"
    if "1 \<le> k" "k \<le> length offs" for k
    using that
  proof (induction k rule: nat_induct_at_least)
    case base
    have "?upto 1 = map (\<lambda>i. offs ! i) [0..<length offs]" by (intro map_cong) auto
    then show ?case by (simp add: map_nth)
  next
    case (Suc k)
    have "k - 1 < k" using Suc.hyps by simp
    moreover have "(\<Sum>j \<le> k. offs ! j) = offs ! k + (\<Sum>j \<le> k - 1. offs ! j)"
      using Suc.hyps by (cases k) simp_all
    ultimately have "(?upto k)[k := ?upto k ! k + ?upto k ! (k - 1)] = ?upto (Suc k)"
      using Suc.prems by (intro nth_equalityI) (auto simp: nth_list_update less_Suc_eq)
    moreover have "[1..<Suc k] = [1..<k] @ [k]" using Suc.hyps by simp
    ultimately show ?case using Suc \<open>k - 1 < k\<close> by (simp add: fold_res_append)
  qed
  show ?thesis
  proof (cases "offs = []")
    case False
    have "?upto (length offs) = map (\<lambda>i. \<Sum>j \<le> i. offs ! j) [0..<length offs]"
      by (intro map_cong) auto
    moreover have "1 \<le> length offs" using False by (cases offs) auto
    ultimately show ?thesis
      using step [of "length offs"] unfolding prefix_sums_def by auto
  qed (simp add: prefix_sums_def)
qed

definition below_count :: "(nat \<times> nat) list \<Rightarrow> nat \<Rightarrow> nat" where
  "below_count es i = length (filter (\<lambda>e. fst e < i) es)"

lemma sum_from_count: "(\<Sum>j \<le> i. from_count es j) = below_count es i"
proof (induction i)
  case (Suc i)
  have "below_count es (Suc i) = below_count es i + length (filter (\<lambda>e. fst e = i) es)"
    unfolding below_count_def by (induction es) (auto simp: less_Suc_eq)
  with Suc show ?case by (simp add: from_count_def)
qed (simp add: from_count_def below_count_def)

lemma adjacency_offsets:
  assumes "edges_within es n"
  shows "and_then (count_offsets n es) prefix_sums = Ok (map (below_count es) [0..<Suc n])"
proof -
  have "(\<Sum>j \<le> i. map (from_count es) [0..<Suc n] ! j) = below_count es i" if "i < Suc n" for i
    unfolding sum_from_count [symmetric] using that by (intro sum.cong) (auto simp del: upt_Suc)
  then show ?thesis
    by (simp add: count_offsets_eq [OF assms] prefix_sums_eq del: upt_Suc cong: map_cong)
qed

text \<open>In a sorted edge array the edges from one node are one segment.\<close>

lemma sorted_segments:
  fixes es :: "(nat \<times> nat) list"
  assumes "sorted (map fst es)"
  shows "es = filter (\<lambda>e. fst e < i) es @ filter (\<lambda>e. fst e = i) es @ filter (\<lambda>e. i < fst e) es"
  using assms
proof (induction es)
  case (Cons e es)
  have IH: "filter (\<lambda>e. fst e < i) es @ filter (\<lambda>e. fst e = i) es @ filter (\<lambda>e. i < fst e) es = es"
    using Cons by simp
  have rest: "\<forall>x \<in> set es. fst e \<le> fst x" using Cons.prems by simp
  consider "fst e < i" | "fst e = i" | "i < fst e" by (rule linorder_cases)
  then show ?case
  proof cases
    case 1
    with IH show ?thesis by simp
  next
    case 2
    with rest have "filter (\<lambda>e. fst e < i) es = []" by (auto simp: filter_empty_conv not_less)
    with 2 IH show ?thesis by simp
  next
    case 3
    with rest have "filter (\<lambda>e. fst e < i) es = []" "filter (\<lambda>e. fst e = i) es = []"
      by (auto simp: filter_empty_conv)
    with 3 IH show ?thesis by simp
  qed
qed simp

lemma adjacency_slice:
  assumes "sorted_wrt (<) es" and "edges_within es n" and "i < n"
  shows "slice (map snd es) (below_count es i) (below_count es (Suc i))
    = Ok (map snd (filter (\<lambda>e. fst e = i) es))"
proof -
  have "sorted (map fst es)" unfolding sorted_wrt_map
    using assms(1) by (rule sorted_wrt_mono_rel [rotated]) (auto simp: less_prod_def)
  note seg = sorted_segments [OF this, of i]
  have "below_count es (Suc i) = below_count es i + length (filter (\<lambda>e. fst e = i) es)"
    unfolding below_count_def by (induction es) (auto simp: less_Suc_eq)
  moreover have "length (filter (\<lambda>e. fst e < i) es) + length (filter (\<lambda>e. fst e = i) es) \<le> length es"
    by (subst (3) seg) simp
  moreover have "take (length (filter (\<lambda>e. fst e = i) es)) (drop (below_count es i) es)
      = filter (\<lambda>e. fst e = i) es"
    by (subst (3) seg) (simp add: below_count_def)
  ultimately show ?thesis
    by (simp add: slice_def below_count_def drop_map take_map)
qed

section \<open>The walk\<close>

definition marked :: "bool list \<Rightarrow> nat set" where
  "marked visited = {i. i < length visited \<and> visited ! i}"

lemma marked_simps [simp]:
  "marked (replicate n False) = {}"
  "i < length v \<Longrightarrow> marked (v[i := True]) = insert i (marked v)"
  by (auto simp: marked_def nth_list_update)

lemma marked_finite [simp]: "finite (marked v)"
  by (simp add: marked_def)

lemma marked_below: "i \<in> marked v \<Longrightarrow> i < length v"
  by (simp add: marked_def)

lemma push_all:
  assumes "\<forall>d \<in> set ds. d < length visited" and "distinct stack" and "set stack \<subseteq> marked visited"
  shows "\<exists>stack' visited'. fold_res push_unvisited ds (stack, visited) = Ok (stack', visited')
    \<and> length visited' = length visited \<and> marked visited' = marked visited \<union> set ds
    \<and> distinct stack' \<and> set stack' = set stack \<union> (set ds - marked visited)"
  using assms
proof (induction ds arbitrary: stack visited)
  case (Cons d ds)
  show ?case
  proof (cases "visited ! d")
    case True
    then have "d \<in> marked visited" using Cons.prems by (simp add: marked_def)
    moreover have "push_unvisited d (stack, visited) = Ok (stack, visited)"
      using True Cons.prems by (simp add: push_unvisited_def)
    ultimately show ?thesis using Cons.IH [of visited stack] Cons.prems by (simp add: insert_absorb)
  next
    case False
    then have d: "d \<notin> marked visited" "d < length visited" using Cons.prems by (simp_all add: marked_def)
    have "push_unvisited d (stack, visited) = Ok (d # stack, visited[d := True])"
      using False Cons.prems by (simp add: push_unvisited_def)
    moreover have "d \<notin> set stack" using d Cons.prems by blast
    ultimately show ?thesis
      using Cons.IH [of "visited[d := True]" "d # stack"] Cons.prems d
      by (auto simp: subset_insertI2 insert_Diff_if)
  qed
qed simp

text \<open>The loop invariant over the indices: off the stack, everything is done.\<close>

definition done_nodes :: "walk \<Rightarrow> nat set" where
  "done_nodes w = marked (w_visited w) - set (w_stack w)"

definition walk_inv ::
    "union_node list \<Rightarrow> bool list \<Rightarrow> (nat \<times> nat) set \<Rightarrow> nat set \<Rightarrow> walk \<Rightarrow> bool" where
  "walk_inv nodes flags E roots w \<longleftrightarrow>
     length (w_visited w) = length nodes \<and> distinct (w_stack w)
     \<and> set (w_stack w) \<subseteq> marked (w_visited w)
     \<and> roots \<subseteq> marked (w_visited w) \<and> marked (w_visited w) \<subseteq> E\<^sup>* `` roots
     \<and> E `` done_nodes w \<subseteq> marked (w_visited w)
     \<and> w_affected w = card (done_nodes w)
     \<and> w_hit w = (\<exists>i \<in> done_nodes w. flags ! i)
     \<and> w_incomplete w = (\<exists>i \<in> done_nodes w. snd (nodes ! i) = EK_Unknown)"

lemma explore_step:
  assumes inv: "walk_inv nodes flags (set es) roots w" and stack: "w_stack w = node # rest"
    and "sorted_wrt (<) es" and within: "edges_within es (length nodes)"
    and "length flags = length nodes"
  shows "\<exists>w'. walk_inv nodes flags (set es) roots w'
    \<and> length (w_stack w') + count_list (w_visited w') False
      < length (w_stack w) + count_list (w_visited w) False
    \<and> explore nodes flags (map (below_count es) [0..<Suc (length nodes)]) (map snd es) w
      = explore nodes flags (map (below_count es) [0..<Suc (length nodes)]) (map snd es) w'"
proof -
  let ?ds = "map snd (filter (\<lambda>e. fst e = node) es)"
  let ?V = "marked (w_visited w)"
  have node: "node < length nodes" "node \<in> ?V" "node \<notin> set rest" "distinct rest" "set rest \<subseteq> ?V"
    using inv stack marked_below [of node "w_visited w"] by (auto simp: walk_inv_def)
  have ds: "set ?ds = set es `` {node}" by force
  have "\<forall>d \<in> set ?ds. d < length (w_visited w)"
    using inv within unfolding ds by (auto simp: walk_inv_def edges_within_def)
  from push_all [OF this node(4,5)] obtain stack' visited' where
    push: "fold_res push_unvisited ?ds (rest, w_visited w) = Ok (stack', visited')"
      "length visited' = length (w_visited w)" "marked visited' = ?V \<union> set ?ds"
      "distinct stack'" "set stack' = set rest \<union> (set ?ds - ?V)"
    by blast
  let ?w = "\<lparr>w_stack = stack', w_visited = visited', w_affected = w_affected w + 1,
    w_hit = (w_hit w \<or> flags ! node), w_incomplete = (w_incomplete w \<or> snd (nodes ! node) = EK_Unknown)\<rparr>"
  have dn: "done_nodes ?w = insert node (done_nodes w)" "node \<notin> done_nodes w"
    using push(3,5) node stack by (auto simp: done_nodes_def)
  have reach: "set es `` {node} \<subseteq> (set es)\<^sup>* `` roots"
    using inv node(2) unfolding walk_inv_def by (blast intro: rtrancl_into_rtrancl)
  have closed: "set es `` done_nodes ?w \<subseteq> ?V \<union> set es `` {node}"
    using inv unfolding dn walk_inv_def by blast
  have "finite (done_nodes w)" by (simp add: done_nodes_def)
  then have "walk_inv nodes flags (set es) roots ?w"
    using inv reach closed push(2-5) dn ds node(5)
    unfolding walk_inv_def by (simp add: Un_subset_iff le_supI1 le_supI2) blast
  moreover have "explore nodes flags (map (below_count es) [0..<Suc (length nodes)]) (map snd es) w
      = explore nodes flags (map (below_count es) [0..<Suc (length nodes)]) (map snd es) ?w"
    using node(1) assms(5) push(1)
    by (subst explore.simps)
      (simp add: stack adjacency_slice [OF assms(3) within node(1)] del: upt_Suc slice_Ok)
  ultimately show ?thesis using push_all_measure [OF push(1)] stack by (intro exI [of _ ?w]) simp
qed

lemma explore_total:
  assumes "walk_inv nodes flags (set es) roots w"
    and "sorted_wrt (<) es" and "edges_within es (length nodes)" and "length flags = length nodes"
  shows "\<exists>w'. explore nodes flags (map (below_count es) [0..<Suc (length nodes)]) (map snd es) w = Ok w'
    \<and> walk_inv nodes flags (set es) roots w' \<and> w_stack w' = []"
  using assms
proof (induction "length (w_stack w) + count_list (w_visited w) False" arbitrary: w rule: less_induct)
  case less
  show ?case
  proof (cases "w_stack w")
    case Nil
    then show ?thesis using less.prems by (subst explore.simps) (simp del: upt_Suc)
  next
    case (Cons node rest)
    from explore_step [OF less.prems(1) Cons less.prems(2-4)] less.hyps less.prems
    show ?thesis by metis
  qed
qed

lemma closed_image:
  assumes "R \<subseteq> V" and "V \<subseteq> E\<^sup>* `` R" and "E `` V \<subseteq> V"
  shows "V = E\<^sup>* `` R"
proof
  show "E\<^sup>* `` R \<subseteq> V"
  proof clarify
    fix a b assume "(a, b) \<in> E\<^sup>*" "a \<in> R"
    then show "b \<in> V" using assms(1,3) by (induction rule: rtrancl_induct) blast+
  qed
qed (use assms in simp)

text \<open>At the end the visited set is the reachable set.\<close>

lemma walk_inv_final:
  assumes "walk_inv nodes flags E roots w" and "w_stack w = []"
  shows "marked (w_visited w) = E\<^sup>* `` roots" "w_affected w = card (E\<^sup>* `` roots)"
    "w_hit w = (\<exists>i \<in> E\<^sup>* `` roots. flags ! i)"
    "w_incomplete w = (\<exists>i \<in> E\<^sup>* `` roots. snd (nodes ! i) = EK_Unknown)"
proof -
  have dn: "done_nodes w = marked (w_visited w)" using assms(2) by (simp add: done_nodes_def)
  with assms(1) show V: "marked (w_visited w) = E\<^sup>* `` roots"
    by (intro closed_image) (simp_all add: walk_inv_def)
  with assms(1) dn show "w_affected w = card (E\<^sup>* `` roots)"
    "w_hit w = (\<exists>i \<in> E\<^sup>* `` roots. flags ! i)"
    "w_incomplete w = (\<exists>i \<in> E\<^sup>* `` roots. snd (nodes ! i) = EK_Unknown)"
    by (simp_all add: walk_inv_def)
qed

section \<open>Roots and protected resources\<close>

definition id_indices :: "union_node list \<Rightarrow> resource_id list \<Rightarrow> nat set" where
  "id_indices nodes ids = {i. i < length nodes \<and> fst (nodes ! i) \<in> set ids}"

lemma union_index_Some:
  "sorted_wrt (<) (map fst nodes) \<Longrightarrow>
     union_index nodes x = Some i \<longleftrightarrow> i < length nodes \<and> fst (nodes ! i) = x"
  unfolding union_index_def by (rule binary_search_Some)

lemma union_index_None:
  "sorted_wrt (<) (map fst nodes) \<Longrightarrow> union_index nodes x = None \<longleftrightarrow> x \<notin> fst ` set nodes"
  unfolding union_index_def by (rule binary_search_None)

lemma id_indices_Cons:
  assumes "sorted_wrt (<) (map fst nodes)" and "union_index nodes x = Some i"
  shows "id_indices nodes (x # xs) = insert i (id_indices nodes xs)"
  using assms(2) unfolding union_index_Some [OF assms(1)]
  by (auto simp: id_indices_def) (metis assms(1) option.inject union_index_Some)

lemma mark_protected_cases:
  assumes "sorted_wrt (<) (map fst nodes)"
  shows "if set ids \<subseteq> fst ` set nodes
    then \<exists>flags. mark_protected nodes ids = Ok flags \<and> length flags = length nodes
      \<and> marked flags = id_indices nodes ids
    else mark_protected nodes ids = Err (Returned MissingProtectedResource)"
proof -
  let ?body = "\<lambda>i flags. and_then (ok_or (Returned MissingProtectedResource) (union_index nodes i))
    (\<lambda>node. put flags node True)"
  have "if set ids \<subseteq> fst ` set nodes
    then \<exists>flags. fold_res ?body ids init = Ok flags \<and> length flags = length nodes
      \<and> marked flags = marked init \<union> id_indices nodes ids
    else fold_res ?body ids init = Err (Returned MissingProtectedResource)"
    if "length init = length nodes" for init
    using that
  proof (induction ids arbitrary: init)
    case Nil
    then show ?case by (simp add: id_indices_def)
  next
    case (Cons x xs)
    show ?case
    proof (cases "union_index nodes x")
      case None
      then show ?thesis using union_index_None [OF assms, of x] by simp
    next
      case (Some i)
      then have "i < length nodes" "x \<in> fst ` set nodes"
        using union_index_Some [OF assms, of x i] by auto
      with Some Cons.IH [of "init[i := True]"] Cons.prems show ?thesis
        by (simp add: id_indices_Cons [OF assms Some] cong: if_cong)
    qed
  qed
  from this [of "replicate (length nodes) False"] show ?thesis by (simp add: mark_protected_def cong: if_cong)
qed

lemma mark_roots_cases:
  assumes "sorted_wrt (<) (map fst nodes)" and "distinct roots"
  shows "if set roots \<subseteq> fst ` set nodes
    then \<exists>stack visited. mark_roots nodes roots = Ok (stack, visited)
      \<and> length visited = length nodes \<and> distinct stack
      \<and> set stack = id_indices nodes roots \<and> marked visited = id_indices nodes roots
    else mark_roots nodes roots = Err (Returned MissingRoot)"
proof -
  let ?body = "\<lambda>root (stack, visited).
    and_then (ok_or (Returned MissingRoot) (union_index nodes root)) (\<lambda>node.
    and_then (put visited node True) (\<lambda>visited. Ok (node # stack, visited)))"
  have "if set roots \<subseteq> fst ` set nodes
    then \<exists>stack visited. fold_res ?body roots (st, init) = Ok (stack, visited)
      \<and> length visited = length nodes \<and> distinct stack
      \<and> set stack = set st \<union> id_indices nodes roots
      \<and> marked visited = marked init \<union> id_indices nodes roots
    else fold_res ?body roots (st, init) = Err (Returned MissingRoot)"
    if "length init = length nodes" "distinct st" "set st \<inter> id_indices nodes roots = {}" for st init
    using that assms(2)
  proof (induction roots arbitrary: st init)
    case Nil
    then show ?case by (simp add: id_indices_def)
  next
    case (Cons x xs)
    show ?case
    proof (cases "union_index nodes x")
      case None
      then show ?thesis using union_index_None [OF assms(1), of x] by simp
    next
      case (Some i)
      then have i: "i < length nodes" "x \<in> fst ` set nodes" "i \<notin> id_indices nodes xs"
        using union_index_Some [OF assms(1), of x i] Cons.prems(4) by (auto simp: id_indices_def)
      with Some Cons.IH [of "init[i := True]" "i # st"] Cons.prems show ?thesis
        by (simp add: id_indices_Cons [OF assms(1) Some] cong: if_cong)
    qed
  qed
  from this [of "replicate (length nodes) False" "[]"] show ?thesis by (simp add: mark_roots_def cong: if_cong)
qed

section \<open>From indices to identities\<close>

lemma rtrancl_image:
  assumes inj: "inj_on f A" and "E \<subseteq> A \<times> A" and "R \<subseteq> A"
  shows "(map_prod f f ` E)\<^sup>* `` (f ` R) = f ` (E\<^sup>* `` R)"
proof
  show "f ` (E\<^sup>* `` R) \<subseteq> (map_prod f f ` E)\<^sup>* `` (f ` R)"
  proof clarify
    fix a b assume "(a, b) \<in> E\<^sup>*" "a \<in> R"
    then show "f b \<in> (map_prod f f ` E)\<^sup>* `` (f ` R)"
    proof (induction rule: rtrancl_induct)
      case (step y z)
      then have "(f y, f z) \<in> map_prod f f ` E" by force
      with step show ?case by (blast intro: rtrancl_into_rtrancl)
    qed blast
  qed
next
  have "y \<in> f ` (E\<^sup>* `` R)" if "(x, y) \<in> (map_prod f f ` E)\<^sup>*" "x \<in> f ` R" for x y
    using that
  proof (induction rule: rtrancl_induct)
    case (step y z)
    then obtain a where a: "y = f a" "a \<in> E\<^sup>* `` R" by blast
    from step(2) obtain b c where bc: "y = f b" "z = f c" "(b, c) \<in> E" by auto
    have "a \<in> A" using a(2) assms(2,3) by (auto elim: rtranclE)
    with a(1) bc assms(2) have "a = b" using inj_onD [OF inj, of a b] by auto
    with a(2) bc show ?case by (blast intro: rtrancl_into_rtrancl)
  qed blast
  then show "(map_prod f f ` E)\<^sup>* `` (f ` R) \<subseteq> f ` (E\<^sup>* `` R)" by blast
qed

text \<open>
  The resources a change can influence, in either state of the device, and the verdict that
  follows from them. This is the specification of the analysis.
\<close>

definition affected :: "effect_graph \<Rightarrow> effect_graph \<Rightarrow> resource_id set \<Rightarrow> resource_id set" where
  "affected g h roots = (influences g \<union> influences h)\<^sup>* `` roots"

definition effects_spec ::
    "effect_graph \<Rightarrow> effect_graph \<Rightarrow> protected_resources \<Rightarrow> change_scope
     \<Rightarrow> effect_error stop + effect_assessment" where
  "effects_spec g h protected scope =
     (if \<not> within_limits g h then Err (Returned EffectLimitExceeded)
      else if \<not> set (prot_ids protected) \<subseteq> node_ids g \<inter> node_ids h
      then Err (Returned MissingProtectedResource)
      else case scope_roots scope of
          None \<Rightarrow> Err (Returned GlobalEffects)
        | Some roots \<Rightarrow>
            if \<not> set roots \<subseteq> node_ids g \<union> node_ids h then Err (Returned MissingRoot)
            else if affected g h (set roots) \<inter> set (prot_ids protected) \<noteq> {}
            then Err (Returned ProtectedImpact)
            else if affected g h (set roots) \<inter> (unknown_ids g \<union> unknown_ids h) \<noteq> {}
            then Err (Returned IncompleteEffects)
            else Ok (NoKnownProtectedImpact (card (affected g h (set roots)))))"

definition reached :: "combined \<Rightarrow> resource_id list \<Rightarrow> nat set" where
  "reached cg roots = (set (cg_edges cg))\<^sup>* `` id_indices (cg_nodes cg) roots"

lemma reached_affected:
  assumes rep: "represents cg g h" and roots: "set roots \<subseteq> node_ids g \<union> node_ids h"
  shows "(\<lambda>i. fst (cg_nodes cg ! i)) ` reached cg roots = affected g h (set roots)"
    "reached cg roots \<subseteq> {..<length (cg_nodes cg)}"
    "inj_on (\<lambda>i. fst (cg_nodes cg ! i)) (reached cg roots)"
proof -
  let ?f = "\<lambda>i. fst (cg_nodes cg ! i)" and ?A = "{..<length (cg_nodes cg)}"
  let ?E = "set (cg_edges cg)" and ?R = "id_indices (cg_nodes cg) roots"
  have "distinct (map fst (cg_nodes cg))" using rep by (simp add: represents_def strict_sorted_iff)
  then have inj: "inj_on ?f ?A" by (auto simp: inj_on_def distinct_conv_nth)
  have E: "?E \<subseteq> ?A \<times> ?A" and R: "?R \<subseteq> ?A"
    using rep by (auto simp: represents_def edges_within_def id_indices_def)
  show sub: "reached cg roots \<subseteq> ?A"
    using E R unfolding reached_def by (auto elim: rtranclE)
  then show "inj_on ?f (reached cg roots)" by (rule inj_on_subset [OF inj])
  have fE: "map_prod ?f ?f ` ?E = influences g \<union> influences h"
    using rep by (simp add: represents_def cg_influences_def map_prod_def)
  have "set roots \<subseteq> fst ` set (cg_nodes cg)" using roots rep by (simp add: represents_def)
  then have "x \<in> ?f ` ?R" if "x \<in> set roots" for x
    using that by (fastforce simp: id_indices_def in_set_conv_nth [of _ "cg_nodes cg"] subset_iff image_iff)
  then have fR: "?f ` ?R = set roots" by (auto simp: id_indices_def)
  show "?f ` reached cg roots = affected g h (set roots)"
    using rtrancl_image [OF inj E R] unfolding fE fR reached_def affected_def by simp
qed

lemma graph_index_None:
  "valid_graph g \<Longrightarrow> graph_index g x \<noteq> None \<longleftrightarrow> x \<in> node_ids g"
  unfolding graph_index_def valid_graph_def node_ids_def
  by (simp add: binary_search_None del: not_None_eq)

lemma walk_start:
  assumes "distinct stack" and "length visited = length nodes"
    and "set stack = R" and "marked visited = R"
  shows "walk_inv nodes flags E R \<lparr>w_stack = stack, w_visited = visited, w_affected = 0,
    w_hit = False, w_incomplete = False\<rparr>"
  using assms by (auto simp: walk_inv_def done_nodes_def)

text \<open>The walk over the compact adjacency, from the marked roots to the verdict.\<close>

lemma walk_verdict:
  assumes rep: "represents cg g h" and roots: "set roots \<subseteq> node_ids g \<union> node_ids h" "distinct roots"
    and prot: "set ids \<subseteq> node_ids g \<union> node_ids h"
  shows "and_then (mark_roots (cg_nodes cg) roots) (\<lambda>(stack, visited).
     and_then (mark_protected (cg_nodes cg) ids) (\<lambda>flags.
     and_then (count_offsets (length (cg_nodes cg)) (cg_edges cg)) (\<lambda>counts.
     and_then (prefix_sums counts) (\<lambda>offsets.
     and_then (explore (cg_nodes cg) flags offsets (map snd (cg_edges cg))
                 \<lparr>w_stack = stack, w_visited = visited, w_affected = 0,
                  w_hit = False, w_incomplete = False\<rparr>) verdict_of))))
    = (if affected g h (set roots) \<inter> set ids \<noteq> {} then Err (Returned ProtectedImpact)
       else if affected g h (set roots) \<inter> (unknown_ids g \<union> unknown_ids h) \<noteq> {}
       then Err (Returned IncompleteEffects)
       else Ok (NoKnownProtectedImpact (card (affected g h (set roots)))))"
proof -
  let ?ns = "cg_nodes cg" and ?es = "cg_edges cg" and ?f = "\<lambda>i. fst (cg_nodes cg ! i)"
  have sorted: "sorted_wrt (<) (map fst ?ns)" "sorted_wrt (<) ?es" "edges_within ?es (length ?ns)"
    and ids: "fst ` set ?ns = node_ids g \<union> node_ids h"
    and unk: "cg_unknown cg = unknown_ids g \<union> unknown_ids h"
    using rep by (simp_all add: represents_def)
  obtain stack visited where mr: "mark_roots ?ns roots = Ok (stack, visited)"
      "length visited = length ?ns" "distinct stack"
      "set stack = id_indices ?ns roots" "marked visited = id_indices ?ns roots"
    using mark_roots_cases [OF sorted(1) roots(2)] roots(1) ids by auto
  obtain flags where mp: "mark_protected ?ns ids = Ok flags" "length flags = length ?ns"
      "marked flags = id_indices ?ns ids"
    using mark_protected_cases [OF sorted(1), of ids] prot ids by auto
  obtain counts where off: "count_offsets (length ?ns) ?es = Ok counts"
      "prefix_sums counts = Ok (map (below_count ?es) [0..<Suc (length ?ns)])"
    using adjacency_offsets [OF sorted(3)] by (auto simp: res_simps)
  obtain w where w: "explore ?ns flags (map (below_count ?es) [0..<Suc (length ?ns)]) (map snd ?es)
        \<lparr>w_stack = stack, w_visited = visited, w_affected = 0, w_hit = False, w_incomplete = False\<rparr> = Ok w"
      and inv: "walk_inv ?ns flags (set ?es) (id_indices ?ns roots) w" "w_stack w = []"
    using explore_total [OF walk_start [OF mr(3,2,4,5)] sorted(2,3) mp(2)] by blast
  note fin = walk_inv_final(2-4) [OF inv, folded reached_def]
  note reached = reached_affected [OF rep roots(1)]
  have "w_hit w \<longleftrightarrow> affected g h (set roots) \<inter> set ids \<noteq> {}"
  proof -
    have "flags ! i \<longleftrightarrow> ?f i \<in> set ids" if "i \<in> reached cg roots" for i
      using that reached(2) mp(2,3) by (auto simp: marked_def id_indices_def set_eq_iff)
    then show ?thesis unfolding fin reached(1) [symmetric] by blast
  qed
  moreover have "w_incomplete w \<longleftrightarrow> affected g h (set roots) \<inter> (unknown_ids g \<union> unknown_ids h) \<noteq> {}"
  proof -
    have "snd (?ns ! i) = EK_Unknown \<longleftrightarrow> ?f i \<in> cg_unknown cg" if "i \<in> reached cg roots" for i
    proof
      assume "?f i \<in> cg_unknown cg"
      then obtain j where "j < length ?ns" "?f j = ?f i" "snd (?ns ! j) = EK_Unknown"
        by (auto simp: cg_unknown_def in_set_conv_nth)
      moreover have "i < length ?ns" using that reached(2) by auto
      ultimately show "snd (?ns ! i) = EK_Unknown"
        using union_index_Some [OF sorted(1), of "?f i"] by (metis option.inject)
    qed (use that reached(2) in \<open>auto simp: cg_unknown_def\<close>)
    then show ?thesis unfolding fin reached(1) [symmetric] unk [symmetric] by blast
  qed
  moreover have "w_affected w = card (affected g h (set roots))"
    unfolding fin reached(1) [symmetric] by (rule card_image [OF reached(3), symmetric])
  ultimately show ?thesis
    by (simp add: mr(1) mp(1) off w verdict_of_def del: upt_Suc)
qed

lemma analyze_effects_spec:
  assumes "valid_graph g" and "valid_graph h"
    and "\<forall>roots. scope_roots scope = Some roots \<longrightarrow> distinct roots"
  shows "analyze_effects g h protected scope = effects_spec g h protected scope"
proof (cases "within_limits g h")
  case False
  then show ?thesis
    using combined_graph_cases [OF assms(1,2)] by (simp add: analyze_effects_def effects_spec_def)
next
  case True
  then obtain cg where cg: "combined_graph g h = Ok cg" "represents cg g h"
    using combined_graph_cases [OF assms(1,2)] by auto
  show ?thesis
  proof (cases "set (prot_ids protected) \<subseteq> node_ids g \<inter> node_ids h \<and> scope_roots scope \<noteq> None")
    case False
    then show ?thesis using True cg(1)
      by (auto simp: analyze_effects_def effects_spec_def check_all_ensure subset_iff
          graph_index_None [OF assms(1)] graph_index_None [OF assms(2)] simp del: not_None_eq split: option.splits)
  next
    case True
    then obtain roots where roots: "scope_roots scope = Some roots"
      and prot: "set (prot_ids protected) \<subseteq> node_ids g \<inter> node_ids h" by auto
    then have pre: "analyze_effects g h protected scope =
      and_then (mark_roots (cg_nodes cg) roots) (\<lambda>(stack, visited).
       and_then (mark_protected (cg_nodes cg) (prot_ids protected)) (\<lambda>flags.
       and_then (count_offsets (length (cg_nodes cg)) (cg_edges cg)) (\<lambda>counts.
       and_then (prefix_sums counts) (\<lambda>offsets.
       and_then (explore (cg_nodes cg) flags offsets (map snd (cg_edges cg))
                   \<lparr>w_stack = stack, w_visited = visited, w_affected = 0,
                    w_hit = False, w_incomplete = False\<rparr>) verdict_of))))"
      using cg(1) graph_index_None [OF assms(1)] graph_index_None [OF assms(2)]
      by (auto simp: analyze_effects_def check_all_ensure subset_iff simp del: not_None_eq)
    show ?thesis
    proof (cases "set roots \<subseteq> node_ids g \<union> node_ids h")
      case True
      with walk_verdict [OF cg(2) True, of "prot_ids protected"] prot roots assms(3) \<open>within_limits g h\<close>
      show ?thesis unfolding pre by (simp add: effects_spec_def le_infI1 le_supI1 del: Int_Un_distrib)
    next
      case False
      have "mark_roots (cg_nodes cg) roots = Err (Returned MissingRoot)"
        using mark_roots_cases [of "cg_nodes cg" roots] cg(2) roots assms(3) False
        by (auto simp: represents_def)
      with False prot roots \<open>within_limits g h\<close> show ?thesis unfolding pre
        by (simp add: effects_spec_def)
    qed
  qed
qed

section \<open>Acceptance of a graph\<close>

lemma map_res_Err_const:
  assumes "\<And>x e. f x = Err e \<Longrightarrow> e = c"
  shows "map_res f xs = Err e \<longleftrightarrow> e = c \<and> (\<exists>x \<in> set xs. \<not> is_ok (f x))"
proof (induction xs)
  case (Cons x xs)
  show ?case
  proof (cases "f x")
    case (Inl e')
    with assms [of x] show ?thesis by auto
  next
    case (Inr y)
    with Cons show ?thesis by (cases "map_res f xs") auto
  qed
qed simp

lemma index_influence_Err:
  assumes "sorted_wrt (<) (map resource ns)"
  shows "index_influence ns e = Err x
    \<longleftrightarrow> x = InvalidGraph \<and> \<not> {infl_from e, infl_to e} \<subseteq> resource ` set ns"
  using binary_search_None [OF assms, of "infl_from e"] binary_search_None [OF assms, of "infl_to e"]
  by (auto simp: index_influence_def res_simps)

definition acceptable_graph :: "node list \<Rightarrow> influence list \<Rightarrow> bool" where
  "acceptable_graph ns es \<longleftrightarrow> distinct (map resource ns)
     \<and> (\<forall>e \<in> set es. {infl_from e, infl_to e} \<subseteq> resource ` set ns)
     \<and> distinct (map (\<lambda>e. (infl_from e, infl_to e)) es)"

text \<open>
  Building a graph fails with the limit error exactly over the limits, fails as
  invalid exactly when a node or an influence is repeated or an endpoint is unknown, and
  otherwise yields a graph that denotes exactly the supplied influences and keeps the nodes.
\<close>

lemma effect_graph_new_cases:
  "if max_effect_nodes < length ns \<or> max_effect_edges < length es
   then effect_graph_new ns es = Err EffectLimitExceeded
   else if \<not> acceptable_graph ns es then effect_graph_new ns es = Err InvalidGraph
   else \<exists>g. effect_graph_new ns es = Ok g \<and> valid_graph g \<and> mset (g_nodes g) = mset ns
     \<and> influences g = (\<lambda>e. (infl_from e, infl_to e)) ` set es"
proof (cases "max_effect_nodes < length ns \<or> max_effect_edges < length es \<or> \<not> distinct (map resource ns)")
  case True
  then show ?thesis
    by (auto simp: effect_graph_new_def acceptable_graph_def Let_def windows2_any_sort_key)
next
  case False
  let ?ns = "sort_key resource ns"
  have nodup: "\<not> windows2_any (\<lambda>a b. resource a = resource b) ?ns"
    using False by (simp add: windows2_any_sort_key)
  then have sorted: "sorted_wrt (<) (map resource ?ns)" by (rule sort_key_strict)
  note index = index_influence_Ok [OF sorted] index_influence_Err [OF sorted]
  show ?thesis
  proof (cases "map_res (index_influence ?ns) es")
    case (Inl e)
    then have "e = InvalidGraph" "\<exists>x \<in> set es. \<not> is_ok (index_influence ?ns x)"
      using map_res_Err_const [of "index_influence ?ns" InvalidGraph es e] by (auto simp: index)
    moreover from this(2) have "\<not> acceptable_graph ns es"
      by (auto simp: acceptable_graph_def not_is_ok_iff index)
    ultimately show ?thesis using False nodup Inl by (simp add: effect_graph_new_def Let_def)
  next
    case (Inr ix)
    then have all2: "list_all2 (\<lambda>e p. index_influence ?ns e = Ok p) es ix" by (simp add: map_res_Ok)
    have ends: "\<forall>e \<in> set es. {infl_from e, infl_to e} \<subseteq> resource ` set ns"
    proof
      fix e assume "e \<in> set es"
      with all2 have "is_ok (index_influence ?ns e)"
        by (auto simp: list_all2_conv_all_nth in_set_conv_nth)
      then have "index_influence ?ns e \<noteq> Err InvalidGraph" by auto
      then show "{infl_from e, infl_to e} \<subseteq> resource ` set ns" unfolding index by simp
    qed
    have "inj_on (\<lambda>p. (resource (?ns ! fst p), resource (?ns ! snd p)))
        ({..<length ?ns} \<times> {..<length ?ns})"
      using sorted by (auto simp: inj_on_def strict_sorted_iff distinct_conv_nth)
    then have inj: "inj_on (\<lambda>p. (resource (?ns ! fst p), resource (?ns ! snd p))) (set ix)"
      by (rule inj_on_subset) (use all2 in \<open>fastforce simp: list_all2_conv_all_nth in_set_conv_nth index\<close>)
    have eq: "map (\<lambda>e. (infl_from e, infl_to e)) es
        = map (\<lambda>p. (resource (?ns ! fst p), resource (?ns ! snd p))) ix"
      using all2 by (auto simp: list_all2_conv_all_nth list_eq_iff_nth_eq index)
    have "distinct (map (\<lambda>e. (infl_from e, infl_to e)) es) = distinct ix"
      unfolding eq using inj by (simp add: distinct_map)
    then have "acceptable_graph ns es \<longleftrightarrow> \<not> windows2_any (=) (sort ix)"
      using False ends by (simp add: acceptable_graph_def windows2_any_sort)
    then show ?thesis
      using False nodup Inr effect_graph_new_sound [of ns es]
      by (auto simp: effect_graph_new_def Let_def)
  qed
qed

text \<open>
  Property C1: on graphs built by the constructor, with a scope built by the constructor, the
  analysis computes exactly the specified verdict over the transitive closure of the
  influences of both graphs: which error, or how many resources are affected. It never
  indexes out of range.
\<close>

theorem analyze_effects_correct:
  assumes "effect_graph_new ns es = Ok g" and "effect_graph_new ns' es' = Ok h"
    and "scope = change_scope_global \<or> change_scope_local roots = Ok scope"
  shows "analyze_effects g h protected scope = effects_spec g h protected scope
    \<and> analyze_effects g h protected scope \<noteq> Err Panicked"
proof -
  have "\<forall>roots. scope_roots scope = Some roots \<longrightarrow> distinct roots"
    using assms(3)
    by (auto simp: change_scope_global_def change_scope_local_def res_simps dest: selection_facts(2))
  then have "analyze_effects g h protected scope = effects_spec g h protected scope"
    using analyze_effects_spec effect_graph_new_sound(1) assms(1,2) by blast
  then show ?thesis by (simp add: effects_spec_def split: option.splits)
qed

definition port :: resource_id where "port = ResourceId RK_PhysicalPort ''lan1''"
definition bridge :: resource_id where "bridge = ResourceId RK_Bridge ''br-lan''"
definition wan :: resource_id where "wan = ResourceId RK_Interface ''wan''"

definition sample_nodes :: "node list" where
  "sample_nodes = [\<lparr>resource = wan, knowledge = EK_Complete\<rparr>,
    \<lparr>resource = port, knowledge = EK_Complete\<rparr>, \<lparr>resource = bridge, knowledge = EK_Complete\<rparr>]"

definition sample_graph :: effect_graph where
  "sample_graph = \<lparr>g_nodes = sort_key resource sample_nodes, g_edges = [(0, 1)]\<rparr>"

lemma sample_graph_built:
  "effect_graph_new sample_nodes [\<lparr>infl_from = port, infl_to = bridge\<rparr>] = Ok sample_graph"
  by code_simp

lemma analyze_effects_correct_witness:
  "analyze_effects sample_graph sample_graph \<lparr>prot_ids = [bridge]\<rparr> \<lparr>scope_roots = Some [port]\<rparr>
     = Err (Returned ProtectedImpact)
   \<and> analyze_effects sample_graph sample_graph \<lparr>prot_ids = [wan]\<rparr> \<lparr>scope_roots = Some [port]\<rparr>
     = effects_spec sample_graph sample_graph \<lparr>prot_ids = [wan]\<rparr> \<lparr>scope_roots = Some [port]\<rparr>
   \<and> analyze_effects sample_graph sample_graph \<lparr>prot_ids = [wan]\<rparr> \<lparr>scope_roots = Some [port]\<rparr>
     = Ok (NoKnownProtectedImpact 2)"
proof -
  have "change_scope_local [port] = Ok \<lparr>scope_roots = Some [port]\<rparr>" by code_simp
  then have "analyze_effects sample_graph sample_graph \<lparr>prot_ids = [wan]\<rparr> \<lparr>scope_roots = Some [port]\<rparr>
     = effects_spec sample_graph sample_graph \<lparr>prot_ids = [wan]\<rparr> \<lparr>scope_roots = Some [port]\<rparr>"
    using analyze_effects_correct [OF sample_graph_built sample_graph_built] by blast
  moreover have "analyze_effects sample_graph sample_graph \<lparr>prot_ids = [bridge]\<rparr> \<lparr>scope_roots = Some [port]\<rparr>
     = Err (Returned ProtectedImpact)" by code_simp
  moreover have "analyze_effects sample_graph sample_graph \<lparr>prot_ids = [wan]\<rparr> \<lparr>scope_roots = Some [port]\<rparr>
     = Ok (NoKnownProtectedImpact 2)" by code_simp
  ultimately show ?thesis by blast
qed

end
