(* ===== verification/Json.thy ===== *)
theory Json
  imports Prelude
begin

text \<open>
  The JSON values the program exchanges, as \<^verbatim>\<open>serde_json::Value\<close> documents them: an
  object is an ordered map (the \<^verbatim>\<open>preserve_order\<close> feature is off), an integer is an
  unsigned or a negative 64-bit number, and a float is kept as its printed text, which is all
  the program ever reads of one. \<open>json_text\<close> is the compact encoding of RFC 8259; it is the
  reference the byte budgets are compared with.
\<close>

datatype number = PosInt "64 word" | NegInt "64 word" | Float string

datatype json =
  JNull
| JBool bool
| JNum number
| JStr string
| JArr "json list"
| JObj "(string \<times> json) list"

fun number_text :: "number \<Rightarrow> string" where
  "number_text (PosInt u) = dec_digits (unat u)"
| "number_text (NegInt i) = dec_int (sint i)"
| "number_text (Float s) = s"

text \<open>\<^verbatim>\<open>Value::from(i64)\<close> and \<^verbatim>\<open>Value::from(u64)\<close>.\<close>

definition json_int :: "int \<Rightarrow> json" where
  "json_int i = JNum (if 0 \<le> i then PosInt (of_int i) else NegInt (of_int i))"

definition json_nat :: "nat \<Rightarrow> json" where
  "json_nat n = JNum (PosInt (of_nat n))"

section \<open>Accessors\<close>

fun as_str :: "json \<Rightarrow> string option" where
  "as_str (JStr s) = Some s"
| "as_str _ = None"

fun as_bool :: "json \<Rightarrow> bool option" where
  "as_bool (JBool b) = Some b"
| "as_bool _ = None"

fun as_i64 :: "json \<Rightarrow> int option" where
  "as_i64 (JNum (PosInt u)) = (if unat u < 2 ^ 63 then Some (int (unat u)) else None)"
| "as_i64 (JNum (NegInt i)) = Some (sint i)"
| "as_i64 _ = None"

fun as_u64 :: "json \<Rightarrow> nat option" where
  "as_u64 (JNum (PosInt u)) = Some (unat u)"
| "as_u64 _ = None"

fun as_array :: "json \<Rightarrow> json list option" where
  "as_array (JArr xs) = Some xs"
| "as_array _ = None"

fun as_object :: "json \<Rightarrow> (string \<times> json) list option" where
  "as_object (JObj fs) = Some fs"
| "as_object _ = None"

definition is_object :: "json \<Rightarrow> bool" where "is_object v = (as_object v \<noteq> None)"
definition is_array :: "json \<Rightarrow> bool" where "is_array v = (as_array v \<noteq> None)"
definition is_boolean :: "json \<Rightarrow> bool" where "is_boolean v = (as_bool v \<noteq> None)"

text \<open>\<^verbatim>\<open>Value::get\<close> with a string key.\<close>

definition json_get :: "json \<Rightarrow> string \<Rightarrow> json option" where
  "json_get v k = Option.bind (as_object v) (\<lambda>fs. map_of fs k)"

lemma as_str_Some [simp]: "as_str v = Some s \<longleftrightarrow> v = JStr s"
  by (cases v) auto

lemma as_bool_Some [simp]: "as_bool v = Some b \<longleftrightarrow> v = JBool b"
  by (cases v) auto

lemma as_array_Some [simp]: "as_array v = Some xs \<longleftrightarrow> v = JArr xs"
  by (cases v) auto

lemma as_object_Some [simp]: "as_object v = Some fs \<longleftrightarrow> v = JObj fs"
  by (cases v) auto

lemma is_object_iff [simp]: "is_object v \<longleftrightarrow> (\<exists>fs. v = JObj fs)"
  by (cases v) (auto simp: is_object_def)

lemma is_array_iff [simp]: "is_array v \<longleftrightarrow> (\<exists>xs. v = JArr xs)"
  by (cases v) (auto simp: is_array_def)

lemma is_boolean_iff [simp]: "is_boolean v \<longleftrightarrow> (\<exists>b. v = JBool b)"
  by (cases v) (auto simp: is_boolean_def)

text \<open>An integer in range reads back as itself and prints in decimal.\<close>

lemma json_int_text:
  assumes "- (2 ^ 63) \<le> i" and "i < 2 ^ 63"
  shows "\<exists>n. json_int i = JNum n \<and> number_text n = dec_int i"
proof (cases "0 \<le> i")
  case True
  have "unat (of_int i :: 64 word) = nat i"
    using True assms(2) by (simp add: unat_eq_nat_uint uint_word_of_int)
  with True show ?thesis by (simp add: json_int_def dec_int_def)
next
  case False
  have "sint (of_int i :: 64 word) = i"
    using assms by (simp add: sint_sbintrunc' signed_take_bit_int_eq_self)
  with False show ?thesis by (simp add: json_int_def)
qed

lemma as_i64_json_int:
  assumes "- (2 ^ 63) \<le> i" and "i < 2 ^ 63"
  shows "as_i64 (json_int i) = Some i"
proof (cases "0 \<le> i")
  case True
  have "unat (of_int i :: 64 word) = nat i"
    using True assms(2) by (simp add: unat_eq_nat_uint uint_word_of_int)
  with True assms show ?thesis by (simp add: json_int_def nat_less_iff)
next
  case False
  have "sint (of_int i :: 64 word) = i"
    using assms by (simp add: sint_sbintrunc' signed_take_bit_int_eq_self)
  with False show ?thesis by (simp add: json_int_def)
qed

section \<open>The compact encoding\<close>

definition hex_digit :: "nat \<Rightarrow> char" where
  "hex_digit n = (if n < 10 then char_of (48 + n) else char_of (87 + n))"

definition escape_char :: "char \<Rightarrow> string" where
  "escape_char c =
     (if byte c = 34 then [CHR 0x5C, CHR 0x22]
      else if byte c = 92 then [CHR 0x5C, CHR 0x5C]
      else if byte c = 8 then [CHR 0x5C, CHR ''b'']
      else if byte c = 9 then [CHR 0x5C, CHR ''t'']
      else if byte c = 10 then [CHR 0x5C, CHR ''n'']
      else if byte c = 12 then [CHR 0x5C, CHR ''f'']
      else if byte c = 13 then [CHR 0x5C, CHR ''r'']
      else if byte c < 32
      then [CHR 0x5C, CHR ''u'', CHR ''0'', CHR ''0'', hex_digit (byte c div 16), hex_digit (byte c mod 16)]
      else [c])"

definition string_text :: "string \<Rightarrow> string" where
  "string_text s = [CHR 0x22] @ concat (map escape_char s) @ [CHR 0x22]"

fun comma_join :: "string list \<Rightarrow> string" where
  "comma_join [] = []"
| "comma_join [x] = x"
| "comma_join (x # y # zs) = x @ '','' @ comma_join (y # zs)"

fun json_text :: "json \<Rightarrow> string" where
  "json_text JNull = ''null''"
| "json_text (JBool b) = (if b then ''true'' else ''false'')"
| "json_text (JNum n) = number_text n"
| "json_text (JStr s) = string_text s"
| "json_text (JArr xs) = ''['' @ comma_join (map json_text xs) @ '']''"
| "json_text (JObj fs) =
     ''{'' @ comma_join (map (\<lambda>(k, v). string_text k @ '':'' @ json_text v) fs) @ ''}''"

text \<open>Its length, as the sums the budgets compute.\<close>

definition escape_cost :: "char \<Rightarrow> nat" where
  "escape_cost c = (if byte c \<in> {34, 92, 8, 9, 10, 12, 13} then 2 else if byte c \<le> 31 then 6 else 1)"

definition text_size :: "string \<Rightarrow> nat" where
  "text_size s = 2 + sum_list (map escape_cost s)"

abbreviation json_size :: "json \<Rightarrow> nat" where "json_size v \<equiv> length (json_text v)"

definition commas :: "nat \<Rightarrow> nat" where "commas n = n - 1"

lemma length_escape_char: "length (escape_char c) = escape_cost c"
  by (auto simp: escape_char_def escape_cost_def)

lemma length_string_text [simp]: "length (string_text s) = text_size s"
  by (simp add: string_text_def text_size_def length_concat comp_def length_escape_char)

lemma length_comma_join: "length (comma_join xs) = sum_list (map length xs) + commas (length xs)"
  by (induction xs rule: comma_join.induct) (auto simp: commas_def)

lemma json_size_simps [simp]:
  "json_size (JArr xs) = 2 + sum_list (map json_size xs) + commas (length xs)"
  "json_size (JObj fs) =
     2 + sum_list (map (\<lambda>(k, v). text_size k + 1 + json_size v) fs) + commas (length fs)"
  by (simp_all add: length_comma_join comp_def split_def)

declare json_text.simps(5,6) [simp del]

lemma json_text_nonempty_containers [simp]:
  "0 < json_size (JArr xs)" "0 < json_size (JObj fs)"
  by simp_all

lemma escape_cost_ge: "1 \<le> escape_cost c"
  by (simp add: escape_cost_def)

lemma length_le_text_size: "length s + 2 \<le> text_size s"
proof (induction s)
  case (Cons c s)
  then show ?case using escape_cost_ge [of c] by (simp add: text_size_def)
qed (simp add: text_size_def)

text \<open>Nesting depth and number of values.\<close>

fun json_depth :: "json \<Rightarrow> nat"
and items_depth :: "json list \<Rightarrow> nat"
and fields_depth :: "(string \<times> json) list \<Rightarrow> nat" where
  "json_depth (JArr xs) = items_depth xs"
| "json_depth (JObj fs) = fields_depth fs"
| "json_depth _ = 0"
| "items_depth [] = 0"
| "items_depth (x # xs) = max (Suc (json_depth x)) (items_depth xs)"
| "fields_depth [] = 0"
| "fields_depth ((k, v) # fs) = max (Suc (json_depth v)) (fields_depth fs)"

fun json_nodes :: "json \<Rightarrow> nat" where
  "json_nodes (JArr xs) = 1 + sum_list (map json_nodes xs)"
| "json_nodes (JObj fs) = 1 + sum_list (map (\<lambda>(k, v). json_nodes v) fs)"
| "json_nodes _ = 1"

text \<open>Objects are in key order at every level.\<close>

fun json_wf :: "json \<Rightarrow> bool" where
  "json_wf (JArr xs) = list_all json_wf xs"
| "json_wf (JObj fs) = (bt_wf fs \<and> list_all (\<lambda>(k, v). json_wf v) fs)"
| "json_wf _ = True"

section \<open>JSON pointer segments\<close>

text \<open>\<^verbatim>\<open>str::replace\<close> of a two-byte pattern by one byte.\<close>

fun replace_pair :: "char \<Rightarrow> char \<Rightarrow> char \<Rightarrow> string \<Rightarrow> string" where
  "replace_pair p q r (a # b # s) =
     (if a = p \<and> b = q then r # replace_pair p q r s else a # replace_pair p q r (b # s))"
| "replace_pair p q r s = s"

definition decode_segment :: "string \<Rightarrow> string" where
  "decode_segment part =
     replace_pair (CHR ''~'') (CHR ''0'') (CHR ''~'')
       (replace_pair (CHR ''~'') (CHR ''1'') (CHR ''/'') part)"

text \<open>\<^verbatim>\<open>pointer.split('/').skip(1)\<close>.\<close>

definition pointer_parts :: "string \<Rightarrow> string list" where
  "pointer_parts pointer = tl (split_char (CHR ''/'') pointer)"

text \<open>Inserting a fresh key adds its encoding and at most one comma.\<close>

lemma json_size_insert:
  assumes "k \<notin> fst ` set fs"
  shows "json_size (JObj (bt_insert k v fs)) =
    json_size (JObj fs) + text_size k + 1 + json_size v + of_bool (fs \<noteq> [])"
proof -
  have "sum_list (map (\<lambda>(k, v). text_size k + 1 + json_size v) (bt_insert k v fs))
      = sum_list (map (\<lambda>(k, v). text_size k + 1 + json_size v) fs) + text_size k + 1 + json_size v"
    using assms by (induction k v fs rule: bt_insert.induct) auto
  moreover have "length (bt_insert k v fs) = Suc (length fs)"
    using assms by (rule bt_insert_new_length)
  ultimately show ?thesis by (cases fs) (simp_all add: commas_def)
qed

end
