(* ===== verification/Basics.thy ===== *)
theory Basics
  imports Json
begin

text \<open>
  What the core crate's components share: the stable error codes of \<^verbatim>\<open>core/src/error.rs\<close>,
  the permission vocabulary of \<^verbatim>\<open>policy.rs\<close>, and the parameter kinds and lexical checks
  of \<^verbatim>\<open>operation.rs\<close>.
\<close>

section \<open>Errors\<close>

datatype core_error =
  PermissionDenied | InvalidDefinition | DuplicateOperation | CatalogLimitExceeded
| UnknownOperationReference | InvalidArguments | MissingArgument | UnknownArgument
| InvalidOutput | OutputLimit | SelectionNotObserved

fun core_error_code :: "core_error \<Rightarrow> string" where
  "core_error_code PermissionDenied = ''permission_denied''"
| "core_error_code InvalidDefinition = ''invalid_definition''"
| "core_error_code DuplicateOperation = ''duplicate_operation''"
| "core_error_code CatalogLimitExceeded = ''catalog_limit_exceeded''"
| "core_error_code UnknownOperationReference = ''unknown_operation_reference''"
| "core_error_code InvalidArguments = ''invalid_arguments''"
| "core_error_code MissingArgument = ''missing_argument''"
| "core_error_code UnknownArgument = ''unknown_argument''"
| "core_error_code InvalidOutput = ''invalid_output''"
| "core_error_code OutputLimit = ''output_limit''"
| "core_error_code SelectionNotObserved = ''selection_not_observed''"

section \<open>Permissions\<close>

datatype category =
  Cat_System | Cat_Network | Cat_Wireless | Cat_Firewall | Cat_DhcpDns | Cat_Services
| Cat_Packages | Cat_Storage | Cat_Vpn | Cat_Firmware | Cat_Diagnostics | Cat_Extensions

fun category_rank :: "category \<Rightarrow> nat" where
  "category_rank Cat_System = 0"
| "category_rank Cat_Network = 1"
| "category_rank Cat_Wireless = 2"
| "category_rank Cat_Firewall = 3"
| "category_rank Cat_DhcpDns = 4"
| "category_rank Cat_Services = 5"
| "category_rank Cat_Packages = 6"
| "category_rank Cat_Storage = 7"
| "category_rank Cat_Vpn = 8"
| "category_rank Cat_Firmware = 9"
| "category_rank Cat_Diagnostics = 10"
| "category_rank Cat_Extensions = 11"

lemma category_rank_inject: "category_rank a = category_rank b \<longleftrightarrow> a = b"
  by (cases a; cases b) simp_all

instantiation category :: linorder
begin

definition less_eq_category :: "category \<Rightarrow> category \<Rightarrow> bool" where
  "less_eq_category a b = (category_rank a \<le> category_rank b)"

definition less_category :: "category \<Rightarrow> category \<Rightarrow> bool" where
  "less_category a b = (category_rank a < category_rank b)"

instance
  by standard (auto simp: less_eq_category_def less_category_def category_rank_inject)

end

datatype access = Acc_Deny | Acc_Read | Acc_ReadWrite

datatype permission = Perm_Read | Perm_Write | Perm_Execute

record requirement =
  category :: category
  permission :: permission

section \<open>Parameters and identifiers\<close>

datatype parameter_kind = PK_String | PK_Integer | PK_Boolean

record parameter =
  p_kind :: parameter_kind
  required :: bool
  allowed_values :: "string list"

definition max_value_bytes :: nat where [limit_defs]: "max_value_bytes = 1024"

definition identifier_ok :: "string \<Rightarrow> bool" where
  "identifier_ok value \<longleftrightarrow>
     value \<noteq> [] \<and> length value \<le> 64 \<and> is_ascii_alphabetic (hd value)
     \<and> list_all (\<lambda>b. is_ascii_alphanumeric b \<or> b = CHR ''_'') value"

definition bounded_string :: "string \<Rightarrow> nat \<Rightarrow> bool" where
  "bounded_string value maximum \<longleftrightarrow> length value \<le> maximum \<and> NUL \<notin> set value"

definition ubus_identifier :: "string \<Rightarrow> bool" where
  "ubus_identifier value \<longleftrightarrow>
     value \<noteq> [] \<and> length value \<le> 128 \<and> is_ascii_alphabetic (hd value)
     \<and> list_all (\<lambda>b. is_ascii_alphanumeric b \<or> b \<in> set ''_.-'') value"

definition parameter_reference :: "string \<Rightarrow> string option" where
  "parameter_reference value = Option.bind (strip_prefix ''{'' value) (strip_suffix ''}'')"

lemma parameter_reference_Some [simp]:
  "parameter_reference value = Some name \<longleftrightarrow> value = ''{'' @ name @ ''}''"
  by (auto simp: parameter_reference_def bind_eq_Some_conv)

text \<open>\<^verbatim>\<open>iter().collect::<BTreeSet<_>>().len() != len()\<close>.\<close>

definition has_duplicates :: "'a list \<Rightarrow> bool" where
  "has_duplicates xs = (card (set xs) \<noteq> length xs)"

lemma has_duplicates_iff [simp]: "has_duplicates xs \<longleftrightarrow> \<not> distinct xs"
  by (auto simp: has_duplicates_def distinct_card card_distinct)

text \<open>The escape scan over one pointer or one segment: each tilde is followed by 0 or 1.\<close>

fun valid_escapes :: "string \<Rightarrow> bool" where
  "valid_escapes [] = True"
| "valid_escapes (c # s) =
     (if c = CHR ''~''
      then (case s of [] \<Rightarrow> False | d # s' \<Rightarrow> (d = CHR ''0'' \<or> d = CHR ''1'') \<and> valid_escapes s')
      else valid_escapes s)"

text \<open>\<^verbatim>\<open>sort\<close> then \<^verbatim>\<open>windows(2).any(|p| p[1].starts_with(&p[0]))\<close> on decoded paths.\<close>

definition overlapping :: "string list list \<Rightarrow> bool" where
  "overlapping paths = windows2_any (\<lambda>a b. take (length a) b = a) (sort paths)"

text \<open>
  The order of the paths puts everything that starts with a path right behind it, so looking
  at neighbours finds every overlap.
\<close>

lemma prefix_between:
  fixes a b c :: "'a::linorder list"
  assumes "a \<le> b" and "b \<le> c" and "prefix a c"
  shows "prefix a b"
  using assms
proof (induction a arbitrary: b c)
  case (Cons x a)
  from Cons.prems(3) obtain c' where c: "c = x # c'" "prefix a c'" by (cases c) auto
  from Cons.prems(1) obtain y b' where b: "b = y # b'" by (cases b) auto
  have "x = y" "a \<le> b'" "b' \<le> c'" using Cons.prems(1,2) by (auto simp: b c)
  with Cons.IH c(2) b show ?case by auto
qed simp

lemma prefix_le:
  fixes a b :: "'a::linorder list"
  shows "prefix a b \<Longrightarrow> a \<le> b"
proof (induction a arbitrary: b)
  case (Cons x a)
  then show ?case by (cases b) auto
qed simp

lemma take_prefix: "take (length a) b = a \<longleftrightarrow> prefix a b"
  by (metis append_eq_conv_conj prefix_def take_is_prefix)

lemma windows2_any_prefix_sorted:
  fixes xs :: "'a::linorder list list"
  assumes "sorted xs" and "{#p, q#} \<subseteq># mset xs" and "prefix p q"
  shows "windows2_any prefix xs"
  using assms
proof (induction xs)
  case (Cons x xs)
  show ?case
  proof (cases "{#p, q#} \<subseteq># mset xs")
    case True
    with Cons show ?thesis by (cases xs) auto
  next
    case False
    then obtain z where z: "z \<in> set xs" "prefix x z"
    proof (cases "p = x")
      case True
      then have "{#q#} \<subseteq># mset xs" using Cons.prems(2) by simp
      with True Cons.prems(3) show ?thesis by (auto intro: that)
    next
      case neq: False
      have "p \<in> set xs" using neq Cons.prems(2)
        by (metis add_mset_add_single insert_iff mset.simps(2) mset_subset_eqD set_ConsD set_mset_add_mset_insert set_mset_mset union_iff)
      moreover have "q = x"
      proof (rule ccontr)
        assume "q \<noteq> x"
        with neq have "x \<notin># {#p, q#}" by simp
        then have "{#p, q#} \<subseteq># mset xs" using Cons.prems(2)
          by (metis diff_single_trivial mset.simps(2) subset_eq_diff_conv add_mset_add_single)
        with False show False ..
      qed
      ultimately have "x \<le> p" "p \<le> x" using Cons.prems(1,3) prefix_le [of p q] by auto
      with \<open>p \<in> set xs\<close> show ?thesis by (intro that [of p]) auto
    qed
    then obtain y ys where xs: "xs = y # ys" by (cases xs) auto
    have "x \<le> y" "y \<le> z" using Cons.prems(1) z(1) by (auto simp: xs)
    then have "prefix x y" using z(2) by (rule prefix_between)
    then show ?thesis by (simp add: xs)
  qed
qed simp

lemma windows2_any_mset: "windows2_any P xs \<Longrightarrow> \<exists>p q. {#p, q#} \<subseteq># mset xs \<and> P p q"
proof (induction xs rule: induct_list012)
  case (3 x y zs)
  show ?case
  proof (cases "P x y")
    case True
    then show ?thesis by (intro exI [of _ x] exI [of _ y]) simp
  next
    case False
    then obtain p q where "{#p, q#} \<subseteq># mset (y # zs)" "P p q" using 3 by auto
    then show ?thesis by (intro exI [of _ p] exI [of _ q]) (auto intro: subset_mset.trans)
  qed
qed auto

lemma overlapping_iff:
  "overlapping paths \<longleftrightarrow> (\<exists>p q. {#p, q#} \<subseteq># mset paths \<and> prefix p q)"
proof -
  have "overlapping paths \<longleftrightarrow> windows2_any prefix (sort paths)"
    by (simp add: overlapping_def take_prefix)
  also have "\<dots> \<longleftrightarrow> (\<exists>p q. {#p, q#} \<subseteq># mset paths \<and> prefix p q)"
    using windows2_any_prefix_sorted [of "sort paths"] windows2_any_mset [of prefix "sort paths"]
    by auto
  finally show ?thesis .
qed

end
