(* ===== verification/Budget.thy ===== *)
theory Budget
  imports Basics
begin

text \<open>
  The output budget of \<^verbatim>\<open>core/src/projection/budget.rs\<close>: a running count of encoded
  bytes, scanned and emitted items and visited values, charged before anything is copied. The
  record is threaded through the calls; an error drops it, as the \<^verbatim>\<open>?\<close> operator always
  leaves the whole evaluation.

  The theorem is that \<open>check_normalized_result\<close> accepts a value exactly when its compact
  encoding, its depth and its number of values are within the limits.
\<close>

definition max_normalized_bytes :: nat where [limit_defs]: "max_normalized_bytes = 65536"
definition max_value_depth :: nat where [limit_defs]: "max_value_depth = 32"
definition max_value_nodes :: nat where [limit_defs]: "max_value_nodes = 65536"
definition max_collection_items :: nat where [limit_defs]: "max_collection_items = 256"

record budget =
  b_bytes :: nat
  b_scanned :: nat
  b_emitted :: nat
  b_nodes :: nat

definition budget_default :: budget where
  "budget_default = \<lparr>b_bytes = 0, b_scanned = 0, b_emitted = 0, b_nodes = 0\<rparr>"

definition bytes :: "nat \<Rightarrow> budget \<Rightarrow> core_error + budget" where
  "bytes n b =
     and_then (ok_or OutputLimit (checked_add (b_bytes b) n)) (\<lambda>total.
       if total > max_normalized_bytes then Err OutputLimit else Ok (b\<lparr>b_bytes := total\<rparr>))"

definition scan :: "nat \<Rightarrow> nat \<Rightarrow> budget \<Rightarrow> core_error + budget" where
  "scan n maximum b =
     (if n > maximum then Err OutputLimit
      else and_then (ok_or OutputLimit (checked_add (b_scanned b) n)) (\<lambda>total.
        if total > max_collection_items then Err OutputLimit else Ok (b\<lparr>b_scanned := total\<rparr>)))"

definition emit :: "budget \<Rightarrow> core_error + budget" where
  "emit b = (let b = b\<lparr>b_emitted := b_emitted b + 1\<rparr>
     in if b_emitted b > max_collection_items then Err OutputLimit else Ok b)"

definition visit_node :: "nat \<Rightarrow> budget \<Rightarrow> core_error + budget" where
  "visit_node depth b = (let b = b\<lparr>b_nodes := b_nodes b + 1\<rparr>
     in if depth > max_value_depth \<or> b_nodes b > max_value_nodes then Err OutputLimit else Ok b)"

definition text_step :: "char \<Rightarrow> nat \<Rightarrow> core_error + nat" where
  "text_step c n =
     and_then (ok_or OutputLimit (checked_add n
         (if byte c \<in> {34, 92, 8, 9, 10, 12, 13} then 2 else if byte c \<le> 31 then 6 else 1)))
       (\<lambda>n. if n > max_normalized_bytes then Err OutputLimit else Ok n)"

definition text_bytes :: "string \<Rightarrow> budget \<Rightarrow> core_error + budget" where
  "text_bytes value b =
     (if length value > max_normalized_bytes then Err OutputLimit
      else and_then (fold_res text_step value 2) (\<lambda>n. bytes n b))"

definition key_bytes :: "string \<Rightarrow> bool \<Rightarrow> budget \<Rightarrow> core_error + budget" where
  "key_bytes value previous b =
     and_then (text_bytes value b) (bytes (1 + of_bool previous))"

fun scalar_bytes :: "json \<Rightarrow> budget \<Rightarrow> core_error + budget" where
  "scalar_bytes JNull b = bytes 4 b"
| "scalar_bytes (JBool v) b = bytes (if v then 4 else 5) b"
| "scalar_bytes (JNum n) b = bytes (length (number_text n)) b"
| "scalar_bytes (JStr s) b = text_bytes s b"
| "scalar_bytes _ b = Err InvalidOutput"

text \<open>The recursion of \<^verbatim>\<open>visit\<close>; the flag of the two loops is \<^verbatim>\<open>index != 0\<close>.\<close>

fun visit :: "json \<Rightarrow> nat \<Rightarrow> budget \<Rightarrow> core_error + budget"
and visit_items :: "json list \<Rightarrow> nat \<Rightarrow> bool \<Rightarrow> budget \<Rightarrow> core_error + budget"
and visit_fields :: "(string \<times> json) list \<Rightarrow> nat \<Rightarrow> bool \<Rightarrow> budget \<Rightarrow> core_error + budget" where
  "visit (JArr items) depth b =
     and_then (visit_node depth b) (\<lambda>b. and_then (bytes 2 b) (visit_items items depth False))"
| "visit (JObj entries) depth b =
     and_then (visit_node depth b) (\<lambda>b. and_then (bytes 2 b) (visit_fields entries depth False))"
| "visit value depth b = and_then (visit_node depth b) (scalar_bytes value)"
| "visit_items [] depth later b = Ok b"
| "visit_items (item # items) depth later b =
     and_then (bytes (of_bool later) b) (\<lambda>b.
     and_then (visit item (depth + 1) b) (visit_items items depth True))"
| "visit_fields [] depth later b = Ok b"
| "visit_fields ((key, value) # entries) depth later b =
     and_then (key_bytes key later b) (\<lambda>b.
     and_then (visit value (depth + 1) b) (visit_fields entries depth True))"

definition check_normalized_result :: "json \<Rightarrow> core_error + unit" where
  "check_normalized_result value = and_then (visit value 0 budget_default) (\<lambda>_. Ok ())"

section \<open>Each charge\<close>

definition charge :: "nat \<Rightarrow> budget \<Rightarrow> budget" where
  "charge n b = b\<lparr>b_bytes := b_bytes b + n\<rparr>"

lemma charge_simps [simp]:
  "b_bytes (charge n b) = b_bytes b + n" "b_scanned (charge n b) = b_scanned b"
  "b_emitted (charge n b) = b_emitted b" "b_nodes (charge n b) = b_nodes b"
  "charge m (charge n b) = charge (n + m) b" "charge 0 b = b"
  by (simp_all add: charge_def)

lemma bytes_eq:
  "bytes n b = (if b_bytes b + n \<le> max_normalized_bytes then Ok (charge n b) else Err OutputLimit)"
  by (auto simp: bytes_def checked_add_def charge_def limit_defs)

lemma text_steps_eq:
  assumes "start \<le> max_normalized_bytes"
  shows "fold_res text_step s start =
    (if start + sum_list (map escape_cost s) \<le> max_normalized_bytes
     then Ok (start + sum_list (map escape_cost s)) else Err OutputLimit)"
  using assms
proof (induction s arbitrary: start)
  case (Cons c s)
  have step: "text_step c start = (if start + escape_cost c \<le> max_normalized_bytes
      then Ok (start + escape_cost c) else Err OutputLimit)"
    unfolding text_step_def escape_cost_def [symmetric]
    by (auto simp: checked_add_def limit_defs)
  show ?case
  proof (cases "start + escape_cost c \<le> max_normalized_bytes")
    case True
    with Cons.IH [OF True] show ?thesis by (simp add: step add.assoc)
  qed (simp add: step)
qed simp

lemma text_bytes_eq:
  "text_bytes s b = (if b_bytes b + text_size s \<le> max_normalized_bytes
     then Ok (charge (text_size s) b) else Err OutputLimit)"
proof -
  have "fold_res text_step s 2 = (if text_size s \<le> max_normalized_bytes
      then Ok (text_size s) else Err OutputLimit)"
    using text_steps_eq [of 2 s] by (simp add: text_size_def limit_defs)
  then show ?thesis using length_le_text_size [of s]
    by (simp add: text_bytes_def bytes_eq)
qed

lemma key_bytes_eq:
  "key_bytes s previous b =
     (if b_bytes b + text_size s + 1 + of_bool previous \<le> max_normalized_bytes
      then Ok (charge (text_size s + 1 + of_bool previous) b) else Err OutputLimit)"
  by (simp add: key_bytes_def text_bytes_eq bytes_eq ac_simps)

lemmas byte_charges = bytes_eq text_bytes_eq key_bytes_eq

section \<open>The whole check\<close>

text \<open>What a visit costs, and the result it therefore has.\<close>

definition spend :: "nat \<Rightarrow> nat \<Rightarrow> budget \<Rightarrow> budget" where
  "spend n k b = b\<lparr>b_bytes := b_bytes b + n, b_nodes := b_nodes b + k\<rparr>"

definition affordable :: "nat \<Rightarrow> nat \<Rightarrow> nat \<Rightarrow> budget \<Rightarrow> core_error + budget" where
  "affordable n k d b =
     (if b_bytes b + n \<le> max_normalized_bytes \<and> b_nodes b + k \<le> max_value_nodes \<and> d \<le> max_value_depth
      then Ok (spend n k b) else Err OutputLimit)"

lemma affordable_then:
  "and_then (affordable n k d b) (affordable n' k' d') = affordable (n + n') (k + k') (max d d') b"
  by (auto simp: affordable_def spend_def ac_simps)

definition in_budget :: "budget \<Rightarrow> bool" where
  "in_budget b \<longleftrightarrow> b_bytes b \<le> max_normalized_bytes \<and> b_nodes b \<le> max_value_nodes"

lemma affordable_in_budget: "affordable n k d b = Ok b' \<Longrightarrow> in_budget b'"
  by (auto simp: affordable_def spend_def in_budget_def split: if_splits)

lemma charges_affordable:
  assumes "in_budget b"
  shows "bytes n b = affordable n 0 0 b" "visit_node d b = affordable 0 1 d b"
    "text_bytes s b = affordable (text_size s) 0 0 b"
    "key_bytes s later b = affordable (text_size s + 1 + of_bool later) 0 0 b"
  using assms
  by (auto simp: byte_charges affordable_def spend_def charge_def visit_node_def Let_def in_budget_def)

lemma scalar_affordable:
  assumes "in_budget b" and "json_depth v = 0" and "\<not> is_array v" and "\<not> is_object v"
  shows "scalar_bytes v b = affordable (json_size v) 0 0 b"
  using assms by (cases v) (auto simp: charges_affordable eval_nat_numeral)

lemma and_then_affordable:
  assumes "\<And>b'. in_budget b' \<Longrightarrow> f b' = affordable n' k' d' b'"
  shows "and_then (affordable n k d b) f = affordable (n + n') (k + k') (max d d') b"
proof -
  have "and_then (affordable n k d b) f = and_then (affordable n k d b) (affordable n' k' d')"
    by (rule and_then_cong) (use assms affordable_in_budget in auto)
  then show ?thesis by (simp add: affordable_then)
qed

lemma affordable_zero: "in_budget b \<Longrightarrow> affordable 0 0 0 b = Ok b"
  by (simp add: affordable_def spend_def in_budget_def)

text \<open>A value, the items of an array and the fields of an object, in turn.\<close>

definition visits_as :: "json \<Rightarrow> bool" where
  "visits_as v \<longleftrightarrow> (\<forall>d b. in_budget b \<longrightarrow>
     visit v d b = affordable (json_size v) (json_nodes v) (d + json_depth v) b)"

lemma visit_items_affordable:
  assumes "\<forall>x \<in> set xs. visits_as x" and "in_budget b"
  shows "visit_items xs d later b =
    affordable (sum_list (map json_size xs) + (if later then length xs else commas (length xs)))
      (sum_list (map json_nodes xs)) (if xs = [] then 0 else d + items_depth xs) b"
  using assms
proof (induction xs arbitrary: later b)
  case (Cons x xs)
  have rest: "and_then (visit x (d + 1) b') (visit_items xs d True) =
      affordable (json_size x + (sum_list (map json_size xs) + length xs))
        (json_nodes x + sum_list (map json_nodes xs))
        (max (d + 1 + json_depth x) (if xs = [] then 0 else d + items_depth xs)) b'"
    if "in_budget b'" for b'
  proof -
    have "visit x (d + 1) b' = affordable (json_size x) (json_nodes x) (d + 1 + json_depth x) b'"
      using Cons.prems(1) that by (simp add: visits_as_def)
    then show ?thesis using Cons.IH [of _ True] Cons.prems(1) by (simp add: and_then_affordable)
  qed
  have "max (d + 1 + json_depth x) (if xs = [] then 0 else d + items_depth xs)
      = d + items_depth (x # xs)"
    by (cases xs) (simp_all add: max_def)
  then show ?case
    using and_then_affordable [OF rest, of "of_bool later" 0 0 b] Cons.prems(2)
    by (cases later) (simp_all add: charges_affordable commas_def ac_simps)
qed (simp add: affordable_zero commas_def)

lemma visit_fields_affordable:
  assumes "\<forall>(k, v) \<in> set fs. visits_as v" and "in_budget b"
  shows "visit_fields fs d later b =
    affordable (sum_list (map (\<lambda>(k, v). text_size k + 1 + json_size v) fs)
        + (if later then length fs else commas (length fs)))
      (sum_list (map (\<lambda>(k, v). json_nodes v) fs)) (if fs = [] then 0 else d + fields_depth fs) b"
  using assms
proof (induction fs arbitrary: later b)
  case (Cons f fs)
  obtain k v where f: "f = (k, v)" by (cases f)
  have rest: "and_then (visit v (d + 1) b') (visit_fields fs d True) =
      affordable (json_size v + (sum_list (map (\<lambda>(k, v). text_size k + 1 + json_size v) fs) + length fs))
        (json_nodes v + sum_list (map (\<lambda>(k, v). json_nodes v) fs))
        (max (d + 1 + json_depth v) (if fs = [] then 0 else d + fields_depth fs)) b'"
    if "in_budget b'" for b'
  proof -
    have "visit v (d + 1) b' = affordable (json_size v) (json_nodes v) (d + 1 + json_depth v) b'"
      using Cons.prems(1) that by (simp add: visits_as_def f)
    then show ?thesis using Cons.IH [of _ True] Cons.prems(1) by (simp add: and_then_affordable)
  qed
  have "max (d + 1 + json_depth v) (if fs = [] then 0 else d + fields_depth fs)
      = d + fields_depth (f # fs)"
    by (cases fs) (simp_all add: f max_def)
  then show ?case
    using and_then_affordable [OF rest, of "text_size k + 1 + of_bool later" 0 0 b] Cons.prems(2)
    by (cases later) (simp_all add: f charges_affordable commas_def ac_simps)
qed (simp add: affordable_zero commas_def)

lemma visit_affordable: "visits_as v"
proof (induction v)
  case (JArr xs)
  have "visit_items xs d False b' = affordable (sum_list (map json_size xs) + commas (length xs))
      (sum_list (map json_nodes xs)) (if xs = [] then 0 else d + items_depth xs) b'"
    if "in_budget b'" for b' d
    using visit_items_affordable [of xs b' d False] JArr that by simp
  then have "and_then (bytes 2 b') (visit_items xs d False) = affordable (json_size (JArr xs))
      (sum_list (map json_nodes xs)) (if xs = [] then 0 else d + items_depth xs) b'"
    if "in_budget b'" for b' d
    using that by (simp add: charges_affordable and_then_affordable add.assoc)
  then show ?case
    by (auto simp: visits_as_def charges_affordable and_then_affordable simp del: json_size_simps)
next
  case (JObj fs)
  have ih: "\<forall>(k, v) \<in> set fs. visits_as v" using JObj by fastforce
  have "visit_fields fs d False b' =
      affordable (sum_list (map (\<lambda>(k, v). text_size k + 1 + json_size v) fs) + commas (length fs))
      (sum_list (map (\<lambda>(k, v). json_nodes v) fs)) (if fs = [] then 0 else d + fields_depth fs) b'"
    if "in_budget b'" for b' d
    using visit_fields_affordable [OF ih, of b' d False] that by simp
  then have "and_then (bytes 2 b') (visit_fields fs d False) = affordable (json_size (JObj fs))
      (sum_list (map (\<lambda>(k, v). json_nodes v) fs)) (if fs = [] then 0 else d + fields_depth fs) b'"
    if "in_budget b'" for b' d
    using that by (simp add: charges_affordable and_then_affordable add.assoc)
  then show ?case
    by (auto simp: visits_as_def charges_affordable and_then_affordable simp del: json_size_simps)
qed (simp_all add: visits_as_def charges_affordable and_then_affordable scalar_affordable del: scalar_bytes.simps)

lemma check_normalized_result_eq:
  "check_normalized_result v =
     (if length (json_text v) \<le> max_normalized_bytes \<and> json_nodes v \<le> max_value_nodes
         \<and> json_depth v \<le> max_value_depth
      then Ok () else Err OutputLimit)"
proof -
  have "in_budget budget_default" by (simp add: in_budget_def budget_default_def)
  then have "visit v 0 budget_default
      = affordable (json_size v) (json_nodes v) (json_depth v) budget_default"
    using visit_affordable [of v] by (simp add: visits_as_def)
  then show ?thesis
    by (simp add: check_normalized_result_def affordable_def budget_default_def)
qed

text \<open>
  Property C16: the result check accepts a value exactly when its compact JSON encoding is at
  most 65536 bytes, it is nested at most 32 levels deep and has at most 65536 values; every
  other value is refused with the output limit, although the encoding is never built.
\<close>

theorem check_normalized_result_iff:
  "check_normalized_result v =
     (if length (json_text v) \<le> max_normalized_bytes \<and> json_nodes v \<le> max_value_nodes
         \<and> json_depth v \<le> max_value_depth
      then Ok () else Err OutputLimit)"
  by (rule check_normalized_result_eq)

end
