(* ===== verification/Projection.thy ===== *)
theory Projection
  imports Budget
begin

text \<open>
  The response schemas of \<^verbatim>\<open>core/src/projection.rs\<close> and their validation. A schema is a
  root record or a collection; the nesting bottoms out at leaf records after three levels, as
  the type parameters of the source make it. The trait \<^verbatim>\<open>RecordShape\<close> is the record of
  operations \<open>record_shape\<close>; its implementations are in the theory \<open>Evaluate\<close>.
\<close>

section \<open>Schemas\<close>

definition safe_integer_max :: int where [limit_defs]: "safe_integer_max = 9007199254740991"
definition max_collection_nodes :: nat where [limit_defs]: "max_collection_nodes = 8"
definition max_record_fields :: nat where [limit_defs]: "max_record_fields = 64"
definition max_text_bytes :: nat where [limit_defs]: "max_text_bytes = 1024"
definition max_text_enum_values :: nat where [limit_defs]: "max_text_enum_values = 16"
definition max_text_option_items :: nat where [limit_defs]: "max_text_option_items = 128"
definition max_schema_depth :: nat where [limit_defs]: "max_schema_depth = 8"
definition max_pointer_depth :: nat where [limit_defs]: "max_pointer_depth = 8"
definition max_pointer_bytes :: nat where [limit_defs]: "max_pointer_bytes = 512"
definition max_root_guards :: nat where [limit_defs]: "max_root_guards = 4"

datatype presence = Required | Optional

datatype counter_source = JsonInteger | DecimalText

datatype scalar_kind =
  SK_Boolean
| SK_Text nat
| SK_TextEnum nat "string list"
| SK_SafeInteger int int
| SK_FalseOrSafeInteger int int
| SK_DecimalCounter counter_source

record scalar_field =
  f_name :: string
  f_source :: string
  f_presence :: presence
  f_value :: scalar_kind

record text_identity =
  i_name :: string
  i_max_bytes :: nat

record leaf_record =
  l_fields :: "scalar_field list"

record 'c collection_field =
  c_name :: string
  c_presence :: presence
  c_collection :: 'c

record 'c schema_record =
  r_fields :: "scalar_field list"
  r_collections :: "'c collection_field list"

datatype 'r collection =
  TextOption (c_source: string) (c_max_items: nat) nat
| RowArray (c_source: string) (c_max_items: nat) 'r
| ObjectArray (c_source: string) (c_max_items: nat) string 'r
| ObjectEntries (c_source: string) (c_max_items: nat) text_identity 'r
| ScalarArray (c_source: string) (c_max_items: nat) string scalar_kind bool

type_synonym inner_record = "leaf_record collection schema_record"
type_synonym root_record = "inner_record collection schema_record"

datatype selection = Sel_All | ExactOne string

datatype typed_projection =
  TP_Record "string list" root_record
| TP_Collection "string list" "inner_record collection" selection

text \<open>The trait: the scalar fields, the validation threading the node count, the projection.\<close>

record 'r record_shape =
  shape_fields :: "'r \<Rightarrow> scalar_field list"
  validate_record :: "'r \<Rightarrow> nat \<Rightarrow> nat \<Rightarrow> text_identity option \<Rightarrow> core_error + nat"
  project_record :: "'r \<Rightarrow> json \<Rightarrow> (text_identity \<times> string) option \<Rightarrow> bool \<Rightarrow> budget
    \<Rightarrow> core_error + json option \<times> budget"

section \<open>Validation\<close>

definition valid_identity :: "string \<Rightarrow> nat \<Rightarrow> bool" where
  "valid_identity value maximum \<longleftrightarrow> value \<noteq> [] \<and> length value \<le> maximum \<and> NUL \<notin> set value"

fun scalar_kind_valid :: "scalar_kind \<Rightarrow> bool" where
  "scalar_kind_valid SK_Boolean = True"
| "scalar_kind_valid (SK_DecimalCounter _) = True"
| "scalar_kind_valid (SK_Text m) = (1 \<le> m \<and> m \<le> max_text_bytes)"
| "scalar_kind_valid (SK_TextEnum m values) =
     (1 \<le> m \<and> m \<le> max_text_bytes \<and> 1 \<le> length values \<and> length values \<le> max_text_enum_values
      \<and> list_all (\<lambda>v. valid_identity v m) values \<and> \<not> has_duplicates values)"
| "scalar_kind_valid (SK_SafeInteger lo hi) =
     (lo \<le> hi \<and> lo \<ge> - safe_integer_max \<and> hi \<le> safe_integer_max)"
| "scalar_kind_valid (SK_FalseOrSafeInteger lo hi) =
     (lo \<le> hi \<and> lo \<ge> - safe_integer_max \<and> hi \<le> safe_integer_max)"

definition scalar_kind_validate :: "scalar_kind \<Rightarrow> core_error + unit" where
  "scalar_kind_validate k = ensure (scalar_kind_valid k) InvalidDefinition"

definition push_segment :: "string \<Rightarrow> string list \<Rightarrow> core_error + string list" where
  "push_segment part segments =
     (if length segments = max_pointer_depth then Err InvalidDefinition
      else if \<not> valid_escapes part then Err InvalidDefinition
      else Ok (segments @ [decode_segment part]))"

definition pointer_segments :: "string \<Rightarrow> bool \<Rightarrow> core_error + string list" where
  "pointer_segments pointer root_allowed =
     (if (pointer = [] \<and> root_allowed) \<or> take 1 pointer = ''/''
      then if length pointer > max_pointer_bytes \<or> NUL \<in> set pointer then Err InvalidDefinition
           else fold_res push_segment (pointer_parts pointer) []
      else Err InvalidDefinition)"

definition add_field ::
    "scalar_field \<Rightarrow> string list \<times> string list list \<Rightarrow> core_error + string list \<times> string list list" where
  "add_field field = (\<lambda>(names, paths).
     if \<not> identifier_ok (f_name field) \<or> f_name field \<in> set names then Err InvalidDefinition
     else and_then (scalar_kind_validate (f_value field)) (\<lambda>_.
          and_then (pointer_segments (f_source field) False) (\<lambda>path.
            Ok (f_name field # names, paths @ [path]))))"

definition add_collection ::
    "string \<times> string \<Rightarrow> string list \<times> string list list \<Rightarrow> core_error + string list \<times> string list list" where
  "add_collection = (\<lambda>(name, source) (names, paths).
     if \<not> identifier_ok name \<or> name \<in> set names then Err InvalidDefinition
     else and_then (pointer_segments source True) (\<lambda>path. Ok (name # names, paths @ [path])))"

definition validate_fields ::
    "scalar_field list \<Rightarrow> (string \<times> string) list \<Rightarrow> nat \<Rightarrow> text_identity option \<Rightarrow> nat
     \<Rightarrow> core_error + unit" where
  "validate_fields scalars collections n key depth =
     (if depth > max_schema_depth
        \<or> (case checked_add n (of_bool (key \<noteq> None)) of None \<Rightarrow> True | Some n \<Rightarrow> n > max_record_fields)
      then Err InvalidDefinition
      else and_then
        (case key of
           None \<Rightarrow> Ok []
         | Some k \<Rightarrow>
             if \<not> identifier_ok (i_name k) \<or> \<not> (1 \<le> i_max_bytes k \<and> i_max_bytes k \<le> max_text_bytes)
             then Err InvalidDefinition else Ok [i_name k]) (\<lambda>names.
      and_then (fold_res add_field scalars (names, [])) (\<lambda>st.
      and_then (fold_res add_collection collections st) (\<lambda>(_, paths).
        if overlapping paths then Err InvalidDefinition else Ok ()))))"

fun identity_limit :: "'r record_shape \<Rightarrow> 'r collection \<Rightarrow> nat option" where
  "identity_limit shape (ObjectArray _ _ identity r) =
     (case filter (\<lambda>f. f_name f = identity \<and> f_presence f = Required
             \<and> (case f_value f of SK_Text _ \<Rightarrow> True | _ \<Rightarrow> False)) (shape_fields shape r) of
        [] \<Rightarrow> None
      | f # _ \<Rightarrow> (case f_value f of SK_Text m \<Rightarrow> Some m | _ \<Rightarrow> None))"
| "identity_limit shape (ObjectEntries _ _ key _) = Some (i_max_bytes key)"
| "identity_limit shape (ScalarArray _ _ _ _ _) = None"
| "identity_limit shape (RowArray _ _ _) = None"
| "identity_limit shape (TextOption _ _ _) = None"

definition validate_collection ::
    "'r record_shape \<Rightarrow> 'r collection \<Rightarrow> nat \<Rightarrow> nat \<Rightarrow> core_error + nat" where
  "validate_collection shape c depth nodes = (let nodes = nodes + 1 in
     if nodes > max_collection_nodes \<or> depth > max_schema_depth then Err InvalidDefinition
     else and_then (pointer_segments (c_source c) True) (\<lambda>_.
     and_then
       (case c of
          TextOption _ max_items max_bytes \<Rightarrow>
            if depth = 1 \<or> \<not> (1 \<le> max_bytes \<and> max_bytes \<le> max_text_bytes)
              \<or> \<not> (1 \<le> max_items \<and> max_items \<le> max_text_option_items)
            then Err InvalidDefinition else Ok nodes
        | RowArray _ _ r \<Rightarrow> validate_record shape r (depth + 1) nodes None
        | ObjectArray _ _ _ r \<Rightarrow>
            if identity_limit shape c = None then Err InvalidDefinition
            else validate_record shape r (depth + 1) nodes None
        | ObjectEntries _ _ key r \<Rightarrow> validate_record shape r (depth + 1) nodes (Some key)
        | ScalarArray _ _ name value _ \<Rightarrow>
            if \<not> identifier_ok name then Err InvalidDefinition
            else and_then (scalar_kind_validate value) (\<lambda>_. Ok nodes)) (\<lambda>nodes.
       if \<not> (1 \<le> c_max_items c \<and> c_max_items c \<le> max_collection_items)
       then Err InvalidDefinition else Ok nodes)))"

fun reject_if_present :: "typed_projection \<Rightarrow> string list" where
  "reject_if_present (TP_Record guards _) = guards"
| "reject_if_present (TP_Collection guards _ _) = guards"

text \<open>
  Overlap is decided on decoded segments, so \<^verbatim>\<open>/a\<close> and \<^verbatim>\<open>/ab\<close> are apart and
  \<^verbatim>\<open>/a\<close> and \<^verbatim>\<open>/a/b\<close> are not.
\<close>

lemma pointer_segments_Ok:
  "pointer_segments p root = Ok segs \<Longrightarrow> segs = map decode_segment (pointer_parts p)"
proof -
  assume "pointer_segments p root = Ok segs"
  then have run: "fold_res push_segment (pointer_parts p) [] = Ok segs"
    by (auto simp: pointer_segments_def split: if_splits)
  have "segs = acc @ map decode_segment parts" if "fold_res push_segment parts acc = Ok segs"
    for parts acc
    using that
    by (induction parts arbitrary: acc) (fastforce simp: res_simps push_segment_def split: if_splits)+
  from this [OF run] show ?thesis by simp
qed

end
