(* ===== verification/Evaluate.thy ===== *)
theory Evaluate
  imports Projection
begin

text \<open>
  The evaluator of \<^verbatim>\<open>core/src/projection/evaluate.rs\<close>: it reads exactly the declared
  fields of a device response and builds a new value from them, charging the budget before
  each copy. Budgets and result maps are passed explicitly. A \<^verbatim>\<open>BTreeSet\<close> that only
  detects repetition is the list of the values inserted so far.
\<close>

section \<open>Lookup and scalars\<close>

fun lookup_parts :: "json \<Rightarrow> string list \<Rightarrow> core_error + json option" where
  "lookup_parts current [] = Ok (Some current)"
| "lookup_parts current (part # parts) = (let key = decode_segment part in
     and_then
       (case current of
          JObj entries \<Rightarrow> Ok (map_of entries key)
        | JArr items \<Rightarrow>
            if key = [] \<or> (length key > 1 \<and> hd key = CHR ''0'') \<or> \<not> list_all is_ascii_digit key
            then Err InvalidOutput
            else Ok (Option.bind (parse_unsigned usize_max key)
                   (\<lambda>index. if index < length items then Some (items ! index) else None))
        | _ \<Rightarrow> Err InvalidOutput)
       (\<lambda>found. case found of None \<Rightarrow> Ok None | Some v \<Rightarrow> lookup_parts v parts))"

definition lookup :: "json \<Rightarrow> string \<Rightarrow> core_error + json option" where
  "lookup source pointer = lookup_parts source (pointer_parts pointer)"

datatype scalar = Sc_Boolean bool | Sc_Text string | Sc_Integer int | Sc_Counter nat

definition decimal_counter :: "string \<Rightarrow> bool" where
  "decimal_counter text \<longleftrightarrow>
     \<not> (text = [] \<or> length text > 20 \<or> (length text > 1 \<and> hd text = CHR ''0'')
        \<or> \<not> list_all is_ascii_digit text)"

fun scalar_read :: "scalar_kind \<Rightarrow> json \<Rightarrow> core_error + scalar" where
  "scalar_read SK_Boolean value = and_then (ok_or InvalidOutput (as_bool value)) (\<lambda>b. Ok (Sc_Boolean b))"
| "scalar_read (SK_Text max_bytes) value =
     and_then (ok_or InvalidOutput (as_str value)) (\<lambda>text.
       if length text > max_bytes \<or> NUL \<in> set text then Err InvalidOutput else Ok (Sc_Text text))"
| "scalar_read (SK_TextEnum max_bytes values) value =
     and_then (ok_or InvalidOutput (as_str value)) (\<lambda>text.
       if \<not> valid_identity text max_bytes \<or> text \<notin> set values then Err InvalidOutput
       else Ok (Sc_Text text))"
| "scalar_read (SK_FalseOrSafeInteger lo hi) value =
     (if value = JBool False then Ok (Sc_Boolean False)
      else and_then (ok_or InvalidOutput (as_i64 value)) (\<lambda>i.
        if i < lo \<or> i > hi then Err InvalidOutput else Ok (Sc_Integer i)))"
| "scalar_read (SK_SafeInteger lo hi) value =
     and_then (ok_or InvalidOutput (as_i64 value)) (\<lambda>i.
       if i < lo \<or> i > hi then Err InvalidOutput else Ok (Sc_Integer i))"
| "scalar_read (SK_DecimalCounter source) value =
     and_then
       (case source of
          JsonInteger \<Rightarrow> ok_or InvalidOutput (as_u64 value)
        | DecimalText \<Rightarrow>
            and_then (ok_or InvalidOutput (as_str value)) (\<lambda>text.
              if \<not> decimal_counter text then Err InvalidOutput
              else ok_or InvalidOutput (parse_unsigned (2 ^ 64 - 1) text)))
       (\<lambda>n. Ok (Sc_Counter n))"

fun scalar_to_value :: "scalar \<Rightarrow> budget \<Rightarrow> core_error + json \<times> budget" where
  "scalar_to_value (Sc_Boolean v) b =
     and_then (bytes (if v then 4 else 5) b) (\<lambda>b. Ok (JBool v, b))"
| "scalar_to_value (Sc_Text v) b = and_then (text_bytes v b) (\<lambda>b. Ok (JStr v, b))"
| "scalar_to_value (Sc_Integer v) b =
     and_then (bytes (length (dec_int v)) b) (\<lambda>b. Ok (json_int v, b))"
| "scalar_to_value (Sc_Counter v) b = (let text = dec_digits v in
     and_then (text_bytes text b) (\<lambda>b. Ok (JStr text, b)))"

section \<open>Records\<close>

definition project_field ::
    "json \<Rightarrow> bool \<Rightarrow> scalar_field \<Rightarrow> (string \<times> json) list \<times> budget
     \<Rightarrow> core_error + (string \<times> json) list \<times> budget" where
  "project_field source emitting field = (\<lambda>(result, b).
     and_then (lookup source (f_source field)) (\<lambda>found. case found of
         None \<Rightarrow> if f_presence field = Required then Err InvalidOutput else Ok (result, b)
       | Some value \<Rightarrow>
           and_then (scalar_read (f_value field) value) (\<lambda>scalar.
             if emitting
             then and_then (key_bytes (f_name field) (result \<noteq> []) b) (\<lambda>b.
                  and_then (scalar_to_value scalar b) (\<lambda>(v, b).
                    Ok (bt_insert (f_name field) v result, b)))
             else Ok (result, b))))"

definition project_key ::
    "bool \<Rightarrow> (text_identity \<times> string) option \<Rightarrow> budget
     \<Rightarrow> core_error + (string \<times> json) list \<times> budget" where
  "project_key emitting key b = (case key of
       None \<Rightarrow> Ok ([], b)
     | Some (ident, value) \<Rightarrow>
         if \<not> valid_identity value (i_max_bytes ident) then Err InvalidOutput
         else if emitting
         then and_then (key_bytes (i_name ident) False b) (\<lambda>b.
              and_then (scalar_to_value (Sc_Text value) b) (\<lambda>(v, b).
                Ok (bt_insert (i_name ident) v [], b)))
         else Ok ([], b))"

definition record_fields ::
    "scalar_field list \<Rightarrow> json \<Rightarrow> (text_identity \<times> string) option \<Rightarrow> bool \<Rightarrow> budget
     \<Rightarrow> core_error + (string \<times> json) list \<times> budget" where
  "record_fields scalars source key emitting b =
     (if \<not> is_object source then Err InvalidOutput
      else and_then (if emitting then bytes 2 b else Ok b) (\<lambda>b.
           and_then (project_key emitting key b)
             (fold_res (project_field source emitting) scalars)))"

text \<open>\<^verbatim>\<open>impl RecordShape for LeafRecord\<close>.\<close>

definition leaf_shape :: "leaf_record record_shape" where
  "leaf_shape = \<lparr>
     shape_fields = l_fields,
     validate_record = (\<lambda>r depth nodes key.
       and_then (validate_fields (l_fields r) [] (length (l_fields r)) key depth) (\<lambda>_. Ok nodes)),
     project_record = (\<lambda>r source key emitting b.
       and_then (record_fields (l_fields r) source key emitting b) (\<lambda>(entries, b).
         Ok (if emitting then Some (JObj entries) else None, b)))\<rparr>"

section \<open>Collections\<close>

text \<open>The rows pushed so far, the selected row, and whether the selector was observed.\<close>

record rows =
  rw_rows :: "json list"
  rw_selected :: "json option"
  rw_observed :: bool

definition no_rows :: rows where
  "no_rows = \<lparr>rw_rows = [], rw_selected = None, rw_observed = False\<rparr>"

definition store_row :: "string option \<Rightarrow> json option \<Rightarrow> rows \<Rightarrow> rows" where
  "store_row selector result rw = (case result of
       None \<Rightarrow> rw
     | Some v \<Rightarrow> if selector \<noteq> None then rw\<lparr>rw_selected := Some v\<rparr>
                 else rw\<lparr>rw_rows := rw_rows rw @ [v]\<rparr>)"

definition project_row ::
    "'r record_shape \<Rightarrow> 'r \<Rightarrow> bool \<Rightarrow> json \<Rightarrow> rows \<times> budget \<Rightarrow> core_error + rows \<times> budget" where
  "project_row shape r emitting value = (\<lambda>(rw, b).
     and_then
       (if emitting
        then and_then (emit b) (\<lambda>b. bytes (of_bool (rw_rows rw \<noteq> [])) b)
        else Ok b) (\<lambda>b.
     and_then (project_record shape r value None emitting b) (\<lambda>(result, b).
       Ok (store_row None result rw, b))))"

text \<open>The shared body of the two keyed loops, from the match of the selector on.\<close>

definition project_identified ::
    "'r record_shape \<Rightarrow> 'r \<Rightarrow> string option \<Rightarrow> bool \<Rightarrow> string \<Rightarrow> (text_identity \<times> string) option
     \<Rightarrow> json \<Rightarrow> rows \<times> budget \<Rightarrow> core_error + rows \<times> budget" where
  "project_identified shape r selector emitting ident key value = (\<lambda>(rw, b).
     let matches = (case selector of None \<Rightarrow> True | Some s \<Rightarrow> s = ident);
         emit_row = (emitting \<and> matches)
     in and_then
          (if emit_row
           then and_then (emit b) (\<lambda>b.
             if selector = None then bytes (of_bool (rw_rows rw \<noteq> [])) b else Ok b)
           else Ok b) (\<lambda>b.
        and_then (project_record shape r value key emit_row b) (\<lambda>(result, b).
          Ok (store_row selector result (rw\<lparr>rw_observed := (rw_observed rw \<or> matches)\<rparr>), b))))"

definition project_object ::
    "'r record_shape \<Rightarrow> 'r \<Rightarrow> string \<Rightarrow> nat \<Rightarrow> string option \<Rightarrow> bool \<Rightarrow> json
     \<Rightarrow> string list \<times> rows \<times> budget \<Rightarrow> core_error + string list \<times> rows \<times> budget" where
  "project_object shape r identity_source maximum selector emitting value = (\<lambda>(identities, st).
     and_then (lookup value identity_source) (\<lambda>found.
     and_then (ok_or InvalidOutput (Option.bind found as_str)) (\<lambda>ident.
       if \<not> valid_identity ident maximum \<or> ident \<in> set identities then Err InvalidOutput
       else and_then (project_identified shape r selector emitting ident None value st) (\<lambda>st.
         Ok (ident # identities, st)))))"

definition project_entry ::
    "'r record_shape \<Rightarrow> 'r \<Rightarrow> text_identity \<Rightarrow> string option \<Rightarrow> bool \<Rightarrow> string \<times> json
     \<Rightarrow> rows \<times> budget \<Rightarrow> core_error + rows \<times> budget" where
  "project_entry shape r key selector emitting = (\<lambda>(ident, value) st.
     if \<not> valid_identity ident (i_max_bytes key) then Err InvalidOutput
     else project_identified shape r selector emitting ident (Some (key, ident)) value st)"

definition project_scalar ::
    "string \<Rightarrow> scalar_kind \<Rightarrow> bool \<Rightarrow> bool \<Rightarrow> json
     \<Rightarrow> scalar list \<times> rows \<times> budget \<Rightarrow> core_error + scalar list \<times> rows \<times> budget" where
  "project_scalar name kind unique emitting value = (\<lambda>(identities, rw, b).
     and_then (scalar_read kind value) (\<lambda>scalar.
       if unique \<and> scalar = Sc_Text [] then Err InvalidOutput
       else and_then
         (if emitting
          then and_then (emit b) (\<lambda>b.
               and_then (bytes (2 + of_bool (rw_rows rw \<noteq> [])) b) (\<lambda>b.
               and_then (key_bytes name False b) (\<lambda>b.
               and_then (scalar_to_value scalar b) (\<lambda>(v, b).
                 Ok (store_row None (Some (JObj (bt_insert name v []))) rw, b)))))
          else Ok (rw, b)) (\<lambda>(rw, b).
       if unique \<and> scalar \<in> set identities then Err InvalidOutput
       else Ok (if unique then scalar # identities else identities, rw, b))))"

definition project_text ::
    "nat \<Rightarrow> bool \<Rightarrow> json \<Rightarrow> json list \<times> budget \<Rightarrow> core_error + json list \<times> budget" where
  "project_text max_bytes emitting value = (\<lambda>(projected, b).
     and_then (scalar_read (SK_Text max_bytes) value) (\<lambda>scalar.
       if emitting
       then and_then (emit b) (\<lambda>b.
            and_then (bytes (of_bool (projected \<noteq> [])) b) (\<lambda>b.
            and_then (scalar_to_value scalar b) (\<lambda>(v, b). Ok (projected @ [v], b))))
       else Ok (projected, b)))"

definition project_text_option ::
    "json \<Rightarrow> nat \<Rightarrow> nat \<Rightarrow> bool \<Rightarrow> budget \<Rightarrow> core_error + json option \<times> budget" where
  "project_text_option source max_items max_bytes emitting b =
     and_then
       (case source of
          JStr _ \<Rightarrow> Ok (''string'', [source])
        | JArr values \<Rightarrow> Ok (''list'', values)
        | _ \<Rightarrow> Err InvalidOutput) (\<lambda>(kind, values).
     and_then (scan (length values) max_items b) (\<lambda>b.
     and_then
       (if emitting
        then and_then (bytes 2 b) (\<lambda>b.
             and_then (key_bytes ''kind'' False b) (\<lambda>b.
             and_then (text_bytes kind b) (\<lambda>b.
             and_then (key_bytes ''values'' True b) (\<lambda>b. bytes 2 b))))
        else Ok b) (\<lambda>b.
     and_then (fold_res (project_text max_bytes emitting) values ([], b)) (\<lambda>(projected, b).
       if \<not> emitting then Ok (None, b)
       else Ok (Some (JObj (bt_of_list [(''kind'', JStr kind), (''values'', JArr projected)])), b)))))"

definition finish_rows ::
    "string option \<Rightarrow> bool \<Rightarrow> rows \<times> budget \<Rightarrow> core_error + json option \<times> budget" where
  "finish_rows selector emitting = (\<lambda>(rw, b).
     if selector \<noteq> None \<and> \<not> rw_observed rw then Err SelectionNotObserved
     else if \<not> emitting then Ok (None, b)
     else Ok (if selector \<noteq> None then rw_selected rw else Some (JArr (rw_rows rw)), b))"

definition project_at ::
    "'r record_shape \<Rightarrow> 'r collection \<Rightarrow> json \<Rightarrow> string option \<Rightarrow> bool \<Rightarrow> budget
     \<Rightarrow> core_error + json option \<times> budget" where
  "project_at shape c source selector emitting b = (case c of
       TextOption _ max_items max_bytes \<Rightarrow>
         if selector \<noteq> None then Err InvalidDefinition
         else project_text_option source max_items max_bytes emitting b
     | _ \<Rightarrow>
         and_then (if emitting \<and> selector = None then bytes 2 b else Ok b) (\<lambda>b.
         and_then
           (case c of
              TextOption _ _ _ \<Rightarrow> Err InvalidDefinition
            | RowArray _ max_items r \<Rightarrow>
                if selector \<noteq> None then Err InvalidDefinition
                else and_then (ok_or InvalidOutput (as_array source)) (\<lambda>values.
                     and_then (scan (length values) max_items b) (\<lambda>b.
                       fold_res (project_row shape r emitting) values (no_rows, b)))
            | ObjectArray _ max_items identity r \<Rightarrow>
                and_then (ok_or InvalidOutput (as_array source)) (\<lambda>values.
                and_then (scan (length values) max_items b) (\<lambda>b.
                and_then (ok_or InvalidDefinition
                    (List.find (\<lambda>f. f_name f = identity) (shape_fields shape r))) (\<lambda>identity_field.
                and_then (ok_or InvalidDefinition (identity_limit shape c)) (\<lambda>maximum.
                and_then (fold_res
                    (project_object shape r (f_source identity_field) maximum selector emitting)
                    values ([], no_rows, b)) (\<lambda>(_, st). Ok st)))))
            | ObjectEntries _ max_items key r \<Rightarrow>
                and_then (ok_or InvalidOutput (as_object source)) (\<lambda>values.
                and_then (scan (length values) max_items b) (\<lambda>b.
                  fold_res (project_entry shape r key selector emitting) values (no_rows, b)))
            | ScalarArray _ max_items name kind unique \<Rightarrow>
                if selector \<noteq> None then Err InvalidDefinition
                else and_then (ok_or InvalidOutput (as_array source)) (\<lambda>values.
                     and_then (scan (length values) max_items b) (\<lambda>b.
                     and_then (fold_res (project_scalar name kind unique emitting) values
                         ([], no_rows, b)) (\<lambda>(_, st). Ok st))))
         (finish_rows selector emitting)))"

text \<open>\<^verbatim>\<open>impl RecordShape for Record<Collection<R>>\<close>.\<close>

definition project_collection_field ::
    "'r record_shape \<Rightarrow> json \<Rightarrow> bool \<Rightarrow> 'r collection collection_field
     \<Rightarrow> (string \<times> json) list \<times> budget \<Rightarrow> core_error + (string \<times> json) list \<times> budget" where
  "project_collection_field shape source emitting field = (\<lambda>(result, b).
     and_then (lookup source (c_source (c_collection field))) (\<lambda>found. case found of
         None \<Rightarrow> if c_presence field = Required then Err InvalidOutput else Ok (result, b)
       | Some value \<Rightarrow>
           and_then (if emitting then key_bytes (c_name field) (result \<noteq> []) b else Ok b) (\<lambda>b.
           and_then (project_at shape (c_collection field) value None emitting b) (\<lambda>(v, b).
             Ok (case v of None \<Rightarrow> result | Some v \<Rightarrow> bt_insert (c_name field) v result, b)))))"

definition nested_shape :: "'r record_shape \<Rightarrow> 'r collection schema_record record_shape" where
  "nested_shape shape = \<lparr>
     shape_fields = r_fields,
     validate_record = (\<lambda>r depth nodes key.
       and_then (ok_or InvalidDefinition
           (checked_add (length (r_fields r)) (length (r_collections r)))) (\<lambda>n.
       and_then (validate_fields (r_fields r)
           (map (\<lambda>f. (c_name f, c_source (c_collection f))) (r_collections r)) n key depth) (\<lambda>_.
         fold_res (\<lambda>f nodes. validate_collection shape (c_collection f) (depth + 1) nodes)
           (r_collections r) nodes))),
     project_record = (\<lambda>r source key emitting b.
       and_then (record_fields (r_fields r) source key emitting b) (\<lambda>st.
       and_then (fold_res (project_collection_field shape source emitting) (r_collections r) st)
         (\<lambda>(result, b). Ok (if emitting then Some (JObj result) else None, b))))\<rparr>"

definition inner_shape :: "inner_record record_shape" where
  "inner_shape = nested_shape leaf_shape"

definition root_shape :: "root_record record_shape" where
  "root_shape = nested_shape inner_shape"

section \<open>Typed projections\<close>

fun selector :: "typed_projection \<Rightarrow> (string \<times> nat) option" where
  "selector (TP_Collection _ c (ExactOne p)) = map_option (\<lambda>m. (p, m)) (identity_limit inner_shape c)"
| "selector _ = None"

definition typed_validate :: "typed_projection \<Rightarrow> (string, parameter) btree_map \<Rightarrow> core_error + unit" where
  "typed_validate tp parameters =
     (if length (reject_if_present tp) > max_root_guards then Err InvalidDefinition
      else and_then (map_res (\<lambda>p. pointer_segments p False) (reject_if_present tp)) (\<lambda>paths.
        if overlapping paths then Err InvalidDefinition
        else case tp of
          TP_Record _ r \<Rightarrow> and_then (validate_record root_shape r 1 0 None) (\<lambda>_. Ok ())
        | TP_Collection _ c sel \<Rightarrow>
            and_then (validate_collection inner_shape c 1 0) (\<lambda>_.
              case sel of
                Sel_All \<Rightarrow> Ok ()
              | ExactOne p \<Rightarrow>
                  and_then (ok_or InvalidDefinition (identity_limit inner_shape c)) (\<lambda>maximum.
                  and_then (ok_or InvalidDefinition (map_of parameters p)) (\<lambda>param.
                    if \<not> required param \<or> p_kind param \<noteq> PK_String
                      \<or> list_ex (\<lambda>v. \<not> valid_identity v maximum) (allowed_values param)
                    then Err InvalidDefinition else Ok ())))))"

definition project :: "typed_projection \<Rightarrow> string option \<Rightarrow> json \<Rightarrow> core_error + json" where
  "project tp sel source =
     and_then (check_all (\<lambda>pointer. and_then (lookup source pointer) (\<lambda>found.
       ensure (found = None) InvalidOutput)) (reject_if_present tp)) (\<lambda>_.
     and_then
       (case tp of
          TP_Record _ r \<Rightarrow>
            and_then (project_record root_shape r source None True budget_default) (\<lambda>(v, _). Ok v)
        | TP_Collection _ c selection \<Rightarrow>
            if (selection \<noteq> Sel_All) \<noteq> (sel \<noteq> None) then Err InvalidDefinition
            else and_then (lookup source (c_source c)) (\<lambda>found.
                 and_then (ok_or InvalidOutput found) (\<lambda>value.
                 and_then
                   (if sel = None
                    then and_then (bytes 2 budget_default) (key_bytes ''items'' False)
                    else Ok budget_default) (\<lambda>b.
                 and_then (project_at inner_shape c value sel True b) (\<lambda>(result, _).
                   if sel \<noteq> None then Ok result
                   else and_then (ok_or InvalidOutput result) (\<lambda>v.
                     Ok (Some (JObj (bt_insert ''items'' v []))))))))) (\<lambda>result.
     ok_or InvalidOutput result))"

section \<open>What a schema admits\<close>

text \<open>
  The specification of the output: scalars of the declared kind, objects in key order with
  declared names only and every required name, rows of the declared record. Nothing of the
  source appears that the schema does not name.
\<close>

fun scalar_conforms :: "scalar_kind \<Rightarrow> json \<Rightarrow> bool" where
  "scalar_conforms SK_Boolean v = (\<exists>b. v = JBool b)"
| "scalar_conforms (SK_Text m) v = (\<exists>s. v = JStr s \<and> length s \<le> m \<and> NUL \<notin> set s)"
| "scalar_conforms (SK_TextEnum m values) v = (\<exists>s \<in> set values. v = JStr s \<and> valid_identity s m)"
| "scalar_conforms (SK_SafeInteger lo hi) v = (\<exists>i. lo \<le> i \<and> i \<le> hi \<and> as_i64 v = Some i)"
| "scalar_conforms (SK_FalseOrSafeInteger lo hi) v =
     (v = JBool False \<or> (\<exists>i. lo \<le> i \<and> i \<le> hi \<and> as_i64 v = Some i))"
| "scalar_conforms (SK_DecimalCounter _) v = (\<exists>n < 2 ^ 64. v = JStr (dec_digits n))"

definition key_conforms :: "text_identity \<Rightarrow> json \<Rightarrow> bool" where
  "key_conforms i v \<longleftrightarrow> (\<exists>s. v = JStr s \<and> valid_identity s (i_max_bytes i))"

definition fields_conform ::
    "text_identity option \<Rightarrow> scalar_field list \<Rightarrow> ('c \<Rightarrow> json \<Rightarrow> bool) \<Rightarrow> 'c collection_field list
     \<Rightarrow> json \<Rightarrow> bool" where
  "fields_conform key scalars conf cols v \<longleftrightarrow> (\<exists>fs. v = JObj fs \<and> bt_wf fs
     \<and> (\<forall>(k, x) \<in> set fs.
          (\<exists>i. key = Some i \<and> k = i_name i \<and> key_conforms i x)
          \<or> (\<exists>f \<in> set scalars. k = f_name f \<and> scalar_conforms (f_value f) x)
          \<or> (\<exists>f \<in> set cols. k = c_name f \<and> conf (c_collection f) x))
     \<and> (\<forall>i. key = Some i \<longrightarrow> i_name i \<in> fst ` set fs)
     \<and> (\<forall>f \<in> set scalars. f_presence f = Required \<longrightarrow> f_name f \<in> fst ` set fs)
     \<and> (\<forall>f \<in> set cols. c_presence f = Required \<longrightarrow> c_name f \<in> fst ` set fs))"

definition rows_conform :: "nat \<Rightarrow> (json \<Rightarrow> bool) \<Rightarrow> json \<Rightarrow> bool" where
  "rows_conform n conf v \<longleftrightarrow> (\<exists>rows. v = JArr rows \<and> length rows \<le> n \<and> list_all conf rows)"

fun collection_conforms ::
    "('r \<Rightarrow> text_identity option \<Rightarrow> json \<Rightarrow> bool) \<Rightarrow> 'r collection \<Rightarrow> json \<Rightarrow> bool" where
  "collection_conforms conf (TextOption _ n m) v =
     (\<exists>kind values. v = JObj [(''kind'', JStr kind), (''values'', values)]
       \<and> kind \<in> {''string'', ''list''} \<and> rows_conform n (scalar_conforms (SK_Text m)) values)"
| "collection_conforms conf (RowArray _ n r) v = rows_conform n (conf r None) v"
| "collection_conforms conf (ObjectArray _ n _ r) v = rows_conform n (conf r None) v"
| "collection_conforms conf (ObjectEntries _ n key r) v = rows_conform n (conf r (Some key)) v"
| "collection_conforms conf (ScalarArray _ n name kind _) v =
     rows_conform n (\<lambda>row. \<exists>x. row = JObj [(name, x)] \<and> scalar_conforms kind x) v"

fun selected_conforms ::
    "('r \<Rightarrow> text_identity option \<Rightarrow> json \<Rightarrow> bool) \<Rightarrow> 'r collection \<Rightarrow> json \<Rightarrow> bool" where
  "selected_conforms conf (ObjectArray _ _ _ r) v = conf r None v"
| "selected_conforms conf (ObjectEntries _ _ key r) v = conf r (Some key) v"
| "selected_conforms conf _ v = False"

definition leaf_conforms :: "leaf_record \<Rightarrow> text_identity option \<Rightarrow> json \<Rightarrow> bool" where
  "leaf_conforms r key v = fields_conform key (l_fields r) (\<lambda>(_::unit) _. False) [] v"

definition nested_conforms ::
    "('r \<Rightarrow> text_identity option \<Rightarrow> json \<Rightarrow> bool)
     \<Rightarrow> 'r collection schema_record \<Rightarrow> text_identity option \<Rightarrow> json \<Rightarrow> bool" where
  "nested_conforms conf r key v =
     fields_conform key (r_fields r) (collection_conforms conf) (r_collections r) v"

definition inner_conforms :: "inner_record \<Rightarrow> text_identity option \<Rightarrow> json \<Rightarrow> bool" where
  "inner_conforms = nested_conforms leaf_conforms"

definition root_conforms :: "root_record \<Rightarrow> text_identity option \<Rightarrow> json \<Rightarrow> bool" where
  "root_conforms = nested_conforms inner_conforms"

section \<open>Scalars\<close>

lemma as_i64_range:
  assumes "as_i64 v = Some i"
  shows "- (2 ^ 63) \<le> i \<and> i < 2 ^ 63"
proof (cases v rule: as_i64.cases)
  case (1 u)
  with assms have "\<exists>n. i = int n \<and> n < 2 ^ 63"
    by (intro exI [of _ "unat u"]) (auto split: if_splits)
  then show ?thesis by auto
next
  case (2 w)
  with assms sint_greater_eq [of w] sint_less [of w] show ?thesis by simp
qed (use assms in auto)

lemma as_u64_range:
  assumes "as_u64 v = Some n"
  shows "n < 2 ^ 64"
proof (cases v rule: as_u64.cases)
  case (1 u)
  have "unat u < 2 ^ 64" by (rule order.strict_trans2 [OF unsigned_less]) simp
  with 1 assms show ?thesis by simp
qed (use assms in auto)

lemma parse_unsigned_le: "parse_unsigned m s = Some n \<Longrightarrow> n \<le> m"
  by (auto simp: parse_unsigned_def split: option.splits if_splits)

fun scalar_ok :: "scalar_kind \<Rightarrow> scalar \<Rightarrow> bool" where
  "scalar_ok SK_Boolean s = (\<exists>b. s = Sc_Boolean b)"
| "scalar_ok (SK_Text m) s = (\<exists>t. s = Sc_Text t \<and> length t \<le> m \<and> NUL \<notin> set t)"
| "scalar_ok (SK_TextEnum m values) s = (\<exists>t \<in> set values. s = Sc_Text t \<and> valid_identity t m)"
| "scalar_ok (SK_SafeInteger lo hi) s =
     (\<exists>i. s = Sc_Integer i \<and> lo \<le> i \<and> i \<le> hi \<and> - (2 ^ 63) \<le> i \<and> i < 2 ^ 63)"
| "scalar_ok (SK_FalseOrSafeInteger lo hi) s =
     (s = Sc_Boolean False \<or> (\<exists>i. s = Sc_Integer i \<and> lo \<le> i \<and> i \<le> hi \<and> - (2 ^ 63) \<le> i \<and> i < 2 ^ 63))"
| "scalar_ok (SK_DecimalCounter _) s = (\<exists>n < 2 ^ 64. s = Sc_Counter n)"

lemma scalar_read_ok: "scalar_read k v = Ok s \<Longrightarrow> scalar_ok k s"
  by (cases k)
    (auto simp: res_simps as_i64_range split: if_splits counter_source.splits
      dest: as_i64_range as_u64_range parse_unsigned_le)

text \<open>What a charge adds to the byte count.\<close>

definition charged :: "budget \<Rightarrow> nat \<Rightarrow> budget \<Rightarrow> bool" where
  "charged b n b' \<longleftrightarrow> b_bytes b' = b_bytes b + n \<and> (b_bytes b \<le> max_normalized_bytes \<longrightarrow> b_bytes b' \<le> max_normalized_bytes)"

lemma charged_trans: "charged b n b' \<Longrightarrow> charged b' m b'' \<Longrightarrow> charged b (n + m) b''"
  by (auto simp: charged_def)

lemma charged_refl [simp]: "charged b 0 b"
  by (simp add: charged_def)

lemma bytes_charged:
  "bytes n b = Ok b' \<Longrightarrow> charged b n b'"
  "text_bytes s b = Ok b' \<Longrightarrow> charged b (text_size s) b'"
  "key_bytes s p b = Ok b' \<Longrightarrow> charged b (text_size s + 1 + of_bool p) b'"
  by (auto simp: byte_charges charged_def split: if_splits)

lemma scan_charged: "scan n m b = Ok b' \<Longrightarrow> charged b 0 b' \<and> n \<le> m"
  by (auto simp: scan_def charged_def res_simps split: if_splits)

lemma emit_charged: "emit b = Ok b' \<Longrightarrow> charged b 0 b'"
  by (auto simp: emit_def charged_def Let_def split: if_splits)

lemma scalar_to_value_charged:
  assumes "scalar_ok k s" and "scalar_to_value s b = Ok (v, b')"
  shows "scalar_conforms k v \<and> charged b (json_size v) b'"
proof (cases s)
  case (Sc_Integer i)
  with assms(1) have range: "- (2 ^ 63) \<le> i" "i < 2 ^ 63" by (cases k; auto)+
  have v: "v = json_int i" and b: "bytes (length (dec_int i)) b = Ok b'"
    using assms(2) Sc_Integer by (auto simp: res_simps)
  have "json_size v = length (dec_int i)" using json_int_text [OF range] v by auto
  moreover have "as_i64 v = Some i" using as_i64_json_int [OF range] v by simp
  ultimately show ?thesis using assms(1) Sc_Integer bytes_charged(1) [OF b] by (cases k) auto
next
  case (Sc_Boolean x)
  with assms(2) have "v = JBool x" "charged b (json_size v) b'"
    by (auto simp: res_simps eval_nat_numeral dest!: bytes_charged)
  with assms(1) Sc_Boolean show ?thesis by (cases k) auto
next
  case (Sc_Text x)
  with assms(2) have "v = JStr x" "charged b (json_size v) b'"
    by (auto simp: res_simps dest!: bytes_charged)
  with assms(1) Sc_Text show ?thesis by (cases k) auto
next
  case (Sc_Counter x)
  with assms(2) have "v = JStr (dec_digits x)" "charged b (json_size v) b'"
    by (auto simp: res_simps Let_def dest!: bytes_charged)
  with assms(1) Sc_Counter show ?thesis by (cases k) auto
qed

section \<open>Records\<close>

text \<open>
  The state of a record under construction: the names considered so far and those that must be
  present, the entries, and the bytes charged for exactly these entries.
\<close>

definition building ::
    "budget \<Rightarrow> (string \<Rightarrow> json \<Rightarrow> bool) \<Rightarrow> string set \<Rightarrow> string set \<Rightarrow> (string \<times> json) list \<times> budget \<Rightarrow> bool" where
  "building b0 ok names need = (\<lambda>(fs, b). bt_wf fs \<and> charged b0 (json_size (JObj fs)) b
     \<and> fst ` set fs \<subseteq> names \<and> need \<subseteq> fst ` set fs \<and> (\<forall>(k, v) \<in> set fs. ok k v))"

lemma building_insert:
  assumes "building b0 ok names need (fs, b)" and "k \<notin> names" and "ok k v"
    and "charged b (text_size k + 1 + of_bool (fs \<noteq> []) + json_size v) b'"
  shows "building b0 ok (insert k names) (insert k need) (bt_insert k v fs, b')"
proof -
  have k: "k \<notin> fst ` set fs" using assms(1,2) by (auto simp: building_def)
  have "charged b0 (json_size (JObj fs)) b" using assms(1) by (simp add: building_def)
  from charged_trans [OF this assms(4)] have "charged b0 (json_size (JObj (bt_insert k v fs))) b'"
    by (simp only: json_size_insert [OF k] ac_simps)
  then show ?thesis
    using assms(1,3) by (auto simp: building_def bt_insert_new_entries [OF k])
qed

lemma building_skip:
  "building b0 ok names need (fs, b) \<Longrightarrow> building b0 ok (insert k names) need (fs, b)"
  by (auto simp: building_def)

lemma building_fold:
  assumes "fold_res f xs st = Ok st'" and "building b0 ok names need st"
    and "distinct (map nm xs)" and "nm ` set xs \<inter> names = {}"
    and "\<And>x names need st st'. x \<in> set xs \<Longrightarrow> building b0 ok names need st \<Longrightarrow> nm x \<notin> names
      \<Longrightarrow> f x st = Ok st'
      \<Longrightarrow> building b0 ok (insert (nm x) names) (if P x then insert (nm x) need else need) st'"
  shows "building b0 ok (names \<union> nm ` set xs) (need \<union> nm ` {x \<in> set xs. P x}) st'"
  using assms
proof (induction xs arbitrary: st names need)
  case (Cons x xs)
  from Cons.prems(1) obtain st1 where st1: "f x st = Ok st1" "fold_res f xs st1 = Ok st'"
    by (auto simp: res_simps)
  have "building b0 ok (insert (nm x) names) (if P x then insert (nm x) need else need) st1"
    using Cons.prems(2,4) st1(1) by (intro Cons.prems(5)) auto
  from Cons.IH [OF st1(2) this] Cons.prems(3-5)
  have "building b0 ok (insert (nm x) names \<union> nm ` set xs)
      ((if P x then insert (nm x) need else need) \<union> nm ` {x \<in> set xs. P x}) st'"
    by auto
  moreover have "insert (nm x) names \<union> nm ` set xs = names \<union> nm ` set (x # xs)" by auto
  moreover have "(if P x then insert (nm x) need else need) \<union> nm ` {x \<in> set xs. P x}
      = need \<union> nm ` {y \<in> set (x # xs). P y}" by auto
  ultimately show ?case by simp
qed simp

lemma project_field_building:
  assumes "project_field source True f st = Ok st'" and "building b0 ok names need st"
    and "f_name f \<notin> names" and "\<And>v. scalar_conforms (f_value f) v \<Longrightarrow> ok (f_name f) v"
  shows "building b0 ok (insert (f_name f) names)
    (if f_presence f = Required then insert (f_name f) need else need) st'"
proof -
  obtain fs b where st: "st = (fs, b)" by (cases st)
  from assms(1) obtain found where found: "lookup source (f_source f) = Ok found"
    by (auto simp: project_field_def st res_simps)
  show ?thesis
  proof (cases found)
    case None
    with assms(1,2) found show ?thesis
      by (auto simp: project_field_def st building_skip split: if_splits)
  next
    case (Some x)
    with assms(1) found obtain s b1 v b2 where
      s: "scalar_read (f_value f) x = Ok s" "key_bytes (f_name f) (fs \<noteq> []) b = Ok b1"
        "scalar_to_value s b1 = Ok (v, b2)" "st' = (bt_insert (f_name f) v fs, b2)"
      by (auto simp: project_field_def st res_simps)
    have v: "scalar_conforms (f_value f) v" "charged b1 (json_size v) b2"
      using scalar_to_value_charged [OF scalar_read_ok [OF s(1)] s(3)] by auto
    have "building b0 ok (insert (f_name f) names) (insert (f_name f) need) st'"
      unfolding s(4)
      by (rule building_insert [OF assms(2) [unfolded st] assms(3) assms(4) [OF v(1)]])
        (use charged_trans [OF bytes_charged(3) [OF s(2)] v(2)] in \<open>simp add: ac_simps\<close>)
    then show ?thesis by (auto simp: building_def)
  qed
qed

definition key_names :: "text_identity option \<Rightarrow> string set" where
  "key_names key = (case key of None \<Rightarrow> {} | Some i \<Rightarrow> {i_name i})"

lemma record_fields_building:
  assumes "record_fields scalars source key True b = Ok st"
    and "distinct (map f_name scalars)" and "f_name ` set scalars \<inter> key_names (map_option fst key) = {}"
    and scalars: "\<And>f v. f \<in> set scalars \<Longrightarrow> scalar_conforms (f_value f) v \<Longrightarrow> ok (f_name f) v"
    and ident: "\<And>i v s. key = Some (i, s) \<Longrightarrow> key_conforms i v \<Longrightarrow> ok (i_name i) v"
  shows "building b ok (key_names (map_option fst key) \<union> f_name ` set scalars)
    (key_names (map_option fst key) \<union> f_name ` {f \<in> set scalars. f_presence f = Required}) st"
proof -
  from assms(1) obtain b1 st1 where b1: "bytes 2 b = Ok b1" "project_key True key b1 = Ok st1"
    and run: "fold_res (project_field source True) scalars st1 = Ok st"
    by (auto simp: record_fields_def res_simps split: if_splits)
  have start: "building b ok {} {} ([], b1)"
    using bytes_charged(1) [OF b1(1)] by (simp add: building_def commas_def numeral_2_eq_2)
  have "building b ok (key_names (map_option fst key)) (key_names (map_option fst key)) st1"
  proof (cases key)
    case None
    with b1(2) start show ?thesis by (auto simp: project_key_def key_names_def)
  next
    case (Some p)
    obtain i s where p: "p = (i, s)" by (cases p)
    with b1(2) Some obtain b2 b3 where step: "valid_identity s (i_max_bytes i)"
      "key_bytes (i_name i) False b1 = Ok b2" "text_bytes s b2 = Ok b3"
      "st1 = (bt_insert (i_name i) (JStr s) [], b3)"
      by (auto simp: project_key_def res_simps split: if_splits)
    have "ok (i_name i) (JStr s)" using ident [of i s] Some p step(1) by (simp add: key_conforms_def)
    moreover have "charged b1 (text_size (i_name i) + 1 + of_bool ([] \<noteq> ([] :: (string \<times> json) list))
        + json_size (JStr s)) b3"
      using charged_trans [OF bytes_charged(3) [OF step(2)] bytes_charged(2) [OF step(3)]] by simp
    ultimately have "building b ok {i_name i} {i_name i} st1"
      unfolding step(4) by (rule building_insert [OF start, rotated]) simp
    then show ?thesis using Some p by (simp add: key_names_def)
  qed
  from building_fold [OF run this assms(2,3), where P = "\<lambda>f. f_presence f = Required"]
  show ?thesis using project_field_building scalars by blast
qed

lemma silent_fold:
  assumes "fold_res f xs st = Ok st'" and "P st"
    and "\<And>x st st'. x \<in> set xs \<Longrightarrow> P st \<Longrightarrow> f x st = Ok st' \<Longrightarrow> P st'"
  shows "P st'"
  using fold_res_invariant [of f xs st st' P] assms by blast

lemma record_fields_silent:
  assumes "record_fields scalars source key False b = Ok st"
  shows "st = ([], b)"
proof -
  from assms have start: "project_key False key b = Ok ([], b)"
    and run: "fold_res (project_field source False) scalars ([], b) = Ok st"
    by (auto simp: record_fields_def project_key_def res_simps split: if_splits option.splits)
  show ?thesis using run
    by (rule fold_res_invariant [where P = "\<lambda>st. st = ([], b)"])
      (auto simp: project_field_def res_simps split: option.splits if_splits)
qed

section \<open>Collections\<close>

lemma fold_res_count:
  assumes "fold_res f xs st = Ok st'" and "Q k st"
    and "\<And>x k st st'. x \<in> set xs \<Longrightarrow> Q k st \<Longrightarrow> f x st = Ok st' \<Longrightarrow> Q (Suc k) st'"
  shows "Q (k + length xs) st'"
  using assms
proof (induction xs arbitrary: k st)
  case (Cons x xs)
  from Cons.prems(1) obtain st1 where st1: "f x st = Ok st1" "fold_res f xs st1 = Ok st'"
    by (auto simp: res_simps)
  have "Q (Suc k) st1" using Cons.prems(2,3) st1(1) by (meson list.set_intros(1))
  then have "Q (Suc k + length xs) st'"
    by (rule Cons.IH [OF st1(2)]) (meson Cons.prems(3) list.set_intros(2))
  then show ?case by simp
qed simp

lemma json_size_snoc:
  "json_size (JArr (xs @ [v])) = json_size (JArr xs) + json_size v + of_bool (xs \<noteq> [])"
  by (cases xs) (simp_all add: commas_def)

definition collecting :: "budget \<Rightarrow> (json \<Rightarrow> bool) \<Rightarrow> nat \<Rightarrow> json list \<times> budget \<Rightarrow> bool" where
  "collecting b0 C n = (\<lambda>(rows, b). charged b0 (json_size (JArr rows)) b \<and> list_all C rows \<and> length rows = n)"

lemma collecting_snoc:
  assumes "collecting b0 C n (rows, b)" and "C v"
    and "charged b (of_bool (rows \<noteq> []) + json_size v) b'"
  shows "collecting b0 C (Suc n) (rows @ [v], b')"
proof -
  have "charged b0 (json_size (JArr rows)) b" using assms(1) by (auto simp: collecting_def)
  from charged_trans [OF this assms(3)] have "charged b0 (json_size (JArr (rows @ [v]))) b'"
    by (simp only: json_size_snoc ac_simps)
  then show ?thesis using assms(1,2) by (simp add: collecting_def)
qed

lemma collecting_start: "bytes 2 b = Ok b1 \<Longrightarrow> collecting b C 0 ([], b1)"
  by (auto simp: collecting_def commas_def numeral_2_eq_2 dest: bytes_charged(1))

lemma collecting_rows:
  "collecting b C n (rows, b') \<Longrightarrow> n \<le> m \<Longrightarrow>
     rows_conform m C (JArr rows) \<and> charged b (json_size (JArr rows)) b'"
  by (auto simp: collecting_def rows_conform_def)

definition unselected :: "rows \<times> budget \<Rightarrow> json list \<times> budget" where
  "unselected = (\<lambda>(rw, b). (rw_rows rw, b))"

lemma collecting_more: "collecting b0 C n (rows, b) \<Longrightarrow> charged b 0 b' \<Longrightarrow> collecting b0 C n (rows, b')"
  using charged_trans [of b0 _ b 0 b'] by (auto simp: collecting_def)

lemma emit_then_bytes:
  assumes "emit b = Ok b1" and "bytes n b1 = Ok b2"
  shows "charged b n b2"
  using charged_trans [OF emit_charged [OF assms(1)] bytes_charged(1) [OF assms(2)]] by simp

text \<open>The scalar rows do not depend on a record.\<close>

lemma project_scalar_collecting:
  assumes "project_scalar name kind unique True v st = Ok st'"
    and "collecting b0 (\<lambda>row. \<exists>x. row = JObj [(name, x)] \<and> scalar_conforms kind x) n (unselected (snd st))"
  shows "collecting b0 (\<lambda>row. \<exists>x. row = JObj [(name, x)] \<and> scalar_conforms kind x) (Suc n)
    (unselected (snd st'))"
proof -
  obtain ids rw b where st: "st = (ids, rw, b)" by (cases st)
  from assms(1) obtain s b1 b2 b3 x b4 ids' where
    step: "scalar_read kind v = Ok s" "emit b = Ok b1" "bytes (2 + of_bool (rw_rows rw \<noteq> [])) b1 = Ok b2"
      "key_bytes name False b2 = Ok b3" "scalar_to_value s b3 = Ok (x, b4)"
      "st' = (ids', store_row None (Some (JObj [(name, x)])) rw, b4)"
    by (auto simp: project_scalar_def st res_simps split: if_splits)
  have x: "scalar_conforms kind x" "charged b3 (json_size x) b4"
    using scalar_to_value_charged [OF scalar_read_ok [OF step(1)] step(5)] by auto
  have "charged b (of_bool (rw_rows rw \<noteq> []) + json_size (JObj [(name, x)])) b4"
    using charged_trans [OF charged_trans [OF emit_then_bytes [OF step(2,3)] bytes_charged(3) [OF step(4)]] x(2)]
    by (simp add: commas_def ac_simps)
  from collecting_snoc [OF _ _ this, of b0 "\<lambda>row. \<exists>x. row = JObj [(name, x)] \<and> scalar_conforms kind x" n]
  show ?thesis using assms(2) x(1) by (auto simp: st step(6) unselected_def store_row_def)
qed

lemma project_text_collecting:
  assumes "project_text m True v st = Ok st'" and "collecting b0 (scalar_conforms (SK_Text m)) n st"
  shows "collecting b0 (scalar_conforms (SK_Text m)) (Suc n) st'"
proof -
  obtain rows b where st: "st = (rows, b)" by (cases st)
  from assms(1) obtain s b1 b2 x b3 where
    step: "scalar_read (SK_Text m) v = Ok s" "emit b = Ok b1" "bytes (of_bool (rows \<noteq> [])) b1 = Ok b2"
      "scalar_to_value s b2 = Ok (x, b3)" "st' = (rows @ [x], b3)"
    by (auto simp: project_text_def st res_simps simp del: scalar_read.simps)
  have x: "scalar_conforms (SK_Text m) x" "charged b2 (json_size x) b3"
    using scalar_to_value_charged [OF scalar_read_ok [OF step(1)] step(4)] by auto
  show ?thesis unfolding step(5)
    by (rule collecting_snoc [OF assms(2) [unfolded st] x(1)])
      (rule charged_trans [OF emit_then_bytes [OF step(2,3)] x(2)])
qed

lemma project_text_option_emits:
  assumes "project_text_option source n m True b = Ok (res, b')"
  shows "\<exists>v. res = Some v \<and> collection_conforms conf (TextOption src n m) v \<and> charged b (json_size v) b'"
proof -
  from assms obtain kind xs where kind: "kind \<in> {''string'', ''list''}"
    and src: "(case source of JStr _ \<Rightarrow> Ok (''string'', [source]) | JArr values \<Rightarrow> Ok (''list'', values)
        | _ \<Rightarrow> Err InvalidOutput) = Ok (kind, xs)"
    by (cases source) (auto simp: project_text_option_def res_simps)
  from assms src obtain b1 b2 b3 b4 b5 b6 rows where
    step: "scan (length xs) n b = Ok b1" "bytes 2 b1 = Ok b2" "key_bytes ''kind'' False b2 = Ok b3"
      "text_bytes kind b3 = Ok b4" "key_bytes ''values'' True b4 = Ok b5" "bytes 2 b5 = Ok b6"
      "fold_res (project_text m True) xs ([], b6) = Ok (rows, b')"
      and res: "res = Some (JObj (bt_of_list [(''kind'', JStr kind), (''values'', JArr rows)]))"
    by (auto simp: project_text_option_def res_simps)
  have len: "length xs \<le> n" "charged b 0 b1" using scan_charged [OF step(1)] by auto
  have rows: "collecting b5 (scalar_conforms (SK_Text m)) (length xs) (rows, b')"
    using fold_res_count [OF step(7), of "collecting b5 (scalar_conforms (SK_Text m))" 0]
      collecting_start [OF step(6)] project_text_collecting by auto
  have v: "bt_of_list [(''kind'', JStr kind), (''values'', JArr rows)]
      = [(''kind'', JStr kind), (''values'', JArr rows)]"
    by (simp add: bt_of_list_def)
  have "charged b (json_size (JObj [(''kind'', JStr kind), (''values'', JArr rows)])) b'"
    using len(2) bytes_charged(1) [OF step(2)] bytes_charged(3) [OF step(3)] bytes_charged(2) [OF step(4)]
      bytes_charged(3) [OF step(5)] conjunct2 [OF collecting_rows [OF rows order_refl]]
    by (auto simp: charged_def commas_def)
  then show ?thesis
    using collecting_rows [OF rows len(1)] kind by (auto simp: res v)
qed

section \<open>Exact contents\<close>

text \<open>Every declared scalar field holds the value read at its source, or is absent with it.\<close>

fun value_of :: "scalar \<Rightarrow> json" where
  "value_of (Sc_Boolean v) = JBool v"
| "value_of (Sc_Text v) = JStr v"
| "value_of (Sc_Integer v) = json_int v"
| "value_of (Sc_Counter v) = JStr (dec_digits v)"

lemma scalar_to_value_value_of: "scalar_to_value s b = Ok (v, b') \<Longrightarrow> v = value_of s"
  by (cases s) (auto simp: res_simps Let_def)

definition field_exact :: "json \<Rightarrow> (string \<times> json) list \<Rightarrow> scalar_field \<Rightarrow> bool" where
  "field_exact source fs f \<longleftrightarrow> (\<exists>found. lookup source (f_source f) = Ok found \<and>
     (case found of
        None \<Rightarrow> f_presence f = Optional \<and> map_of fs (f_name f) = None
      | Some x \<Rightarrow> \<exists>s. scalar_read (f_value f) x = Ok s \<and> map_of fs (f_name f) = Some (value_of s)))"

definition key_exact :: "(text_identity \<times> string) option \<Rightarrow> (string \<times> json) list \<Rightarrow> bool" where
  "key_exact key fs \<longleftrightarrow> (\<forall>i s. key = Some (i, s) \<longrightarrow> map_of fs (i_name i) = Some (JStr s))"

lemma project_field_exact:
  assumes "project_field source True f (fs, b) = Ok (fs', b')" and "bt_wf fs" and "f_name f \<notin> fst ` set fs"
  shows "field_exact source fs' f" "bt_wf fs'" "fst ` set fs' \<subseteq> insert (f_name f) (fst ` set fs)"
    "\<And>k. k \<noteq> f_name f \<Longrightarrow> map_of fs' k = map_of fs k"
proof -
  have none: "map_of fs (f_name f) = None" using assms(3) by (simp add: map_of_eq_None_iff)
  from assms(1) obtain found where found: "lookup source (f_source f) = Ok found"
    by (auto simp: project_field_def res_simps)
  have "found = None \<and> f_presence f = Optional \<and> fs' = fs
    \<or> (\<exists>x s b1 v. found = Some x \<and> scalar_read (f_value f) x = Ok s
        \<and> scalar_to_value s b1 = Ok (v, b') \<and> fs' = bt_insert (f_name f) v fs)"
    using assms(1) found
    by (cases found; cases "f_presence f") (auto simp: project_field_def res_simps)
  then consider
    (absent) "found = None" "f_presence f = Optional" "fs' = fs"
    | (read) x s b1 v where "found = Some x" "scalar_read (f_value f) x = Ok s"
      "scalar_to_value s b1 = Ok (v, b')" "fs' = bt_insert (f_name f) v fs"
    by blast
  then have "field_exact source fs' f \<and> bt_wf fs' \<and> fst ` set fs' \<subseteq> insert (f_name f) (fst ` set fs)
    \<and> (\<forall>k. k \<noteq> f_name f \<longrightarrow> map_of fs' k = map_of fs k)"
  proof cases
    case absent
    with assms(2) none found show ?thesis by (auto simp: field_exact_def)
  next
    case read
    with assms(2) found scalar_to_value_value_of [OF read(3)] show ?thesis by (auto simp: field_exact_def)
  qed
  then show "field_exact source fs' f" "bt_wf fs'" "fst ` set fs' \<subseteq> insert (f_name f) (fst ` set fs)"
    "\<And>k. k \<noteq> f_name f \<Longrightarrow> map_of fs' k = map_of fs k" by auto
qed

lemma field_exact_cong: "map_of fs' (f_name f) = map_of fs (f_name f) \<Longrightarrow> field_exact source fs' f = field_exact source fs f"
  by (simp add: field_exact_def cong: option.case_cong)

lemma disjoint_after: "A \<inter> B = {} \<Longrightarrow> a \<notin> A \<Longrightarrow> C \<subseteq> insert a B \<Longrightarrow> A \<inter> C = {}"
  by blast

lemma project_fields_exact:
  assumes "fold_res (project_field source True) scalars (fs, b) = Ok (fs', b')"
    and "bt_wf fs" and "distinct (map f_name scalars)" and "f_name ` set scalars \<inter> fst ` set fs = {}"
  shows "(\<forall>f \<in> set scalars. field_exact source fs' f) \<and> bt_wf fs'
    \<and> (\<forall>k. k \<notin> f_name ` set scalars \<longrightarrow> map_of fs' k = map_of fs k)"
  using assms
proof (induction scalars arbitrary: fs b)
  case (Cons f scalars)
  from Cons.prems(1) obtain fs1 b1 where step: "project_field source True f (fs, b) = Ok (fs1, b1)"
    "fold_res (project_field source True) scalars (fs1, b1) = Ok (fs', b')"
    by (auto simp: res_simps)
  have "f_name f \<notin> fst ` set fs" using Cons.prems(4) by auto
  note f = project_field_exact [OF step(1) Cons.prems(2) this]
  have "f_name f \<notin> f_name ` set scalars" "f_name ` set scalars \<inter> fst ` set fs = {}"
    using Cons.prems(3,4) by auto
  from disjoint_after [OF this(2,1) f(3)] have "f_name ` set scalars \<inter> fst ` set fs1 = {}" .
  from Cons.IH [OF step(2) f(2) _ this] Cons.prems(3)
  have rest: "\<forall>f \<in> set scalars. field_exact source fs' f" "bt_wf fs'"
    "\<forall>k. k \<notin> f_name ` set scalars \<longrightarrow> map_of fs' k = map_of fs1 k" by auto
  have "field_exact source fs' f"
    using f(1) rest(3) Cons.prems(3) by (subst field_exact_cong [of _ _ fs1]) auto
  with rest f(4) show ?case by auto
qed simp

lemma record_fields_exact:
  assumes "record_fields scalars source key True b = Ok (fs, b')"
    and "distinct (map f_name scalars)" and "f_name ` set scalars \<inter> key_names (map_option fst key) = {}"
  shows "(\<forall>f \<in> set scalars. field_exact source fs f) \<and> key_exact key fs \<and> bt_wf fs"
proof -
  from assms(1) obtain b1 fs1 b2 where b1: "project_key True key b1 = Ok (fs1, b2)"
    and run: "fold_res (project_field source True) scalars (fs1, b2) = Ok (fs, b')"
    by (auto simp: record_fields_def res_simps split: if_splits)
  have "bt_wf fs1 \<and> fst ` set fs1 = key_names (map_option fst key) \<and> key_exact key fs1"
  proof (cases key)
    case None
    with b1 show ?thesis by (simp add: project_key_def key_names_def key_exact_def)
  next
    case (Some p)
    obtain i s where p: "p = (i, s)" by (cases p)
    with b1 Some have "fs1 = [(i_name i, JStr s)]"
      by (auto simp: project_key_def res_simps split: if_splits)
    with Some p show ?thesis by (simp add: key_names_def key_exact_def)
  qed
  then have start: "bt_wf fs1" "fst ` set fs1 = key_names (map_option fst key)" "key_exact key fs1" by auto
  from project_fields_exact [OF run start(1) assms(2)] assms(3) start(2)
  have fields: "\<forall>f \<in> set scalars. field_exact source fs f" "bt_wf fs"
    "\<forall>k. k \<notin> f_name ` set scalars \<longrightarrow> map_of fs k = map_of fs1 k" by auto
  have "key_exact key fs"
    using start(3) fields(3) assms(3) by (auto simp: key_exact_def key_names_def)
  with fields show ?thesis by simp
qed

text \<open>
  The contract of a record shape, and what the collection code can promise from it: what is
  emitted conforms to the schema and was charged byte for byte, and nothing is emitted or
  charged when emission is off.
\<close>

definition record_exact ::
    "'r record_shape \<Rightarrow> 'r \<Rightarrow> json \<Rightarrow> (text_identity \<times> string) option \<Rightarrow> json \<Rightarrow> bool" where
  "record_exact shape r source key v \<longleftrightarrow> (\<exists>fs. v = JObj fs
     \<and> (\<forall>f \<in> set (shape_fields shape r). field_exact source fs f) \<and> key_exact key fs)"

fun collection_names_ok :: "('r \<Rightarrow> text_identity option \<Rightarrow> bool) \<Rightarrow> 'r collection \<Rightarrow> bool" where
  "collection_names_ok ok (RowArray _ _ r) = ok r None"
| "collection_names_ok ok (ObjectArray _ _ _ r) = ok r None"
| "collection_names_ok ok (ObjectEntries _ _ key r) = ok r (Some key)"
| "collection_names_ok ok _ = True"

definition quiet :: "budget \<Rightarrow> rows \<times> budget \<Rightarrow> bool" where
  "quiet b0 st \<longleftrightarrow> charged b0 0 (snd st)"

locale shape_laws =
  fixes shape :: "'r record_shape"
    and names_ok :: "'r \<Rightarrow> text_identity option \<Rightarrow> bool"
    and conf :: "'r \<Rightarrow> text_identity option \<Rightarrow> json \<Rightarrow> bool"
  assumes emits: "names_ok r (map_option fst key) \<Longrightarrow>
      project_record shape r source key True b = Ok (res, b') \<Longrightarrow>
      \<exists>v. res = Some v \<and> conf r (map_option fst key) v \<and> charged b (json_size v) b'"
    and exact: "names_ok r (map_option fst key) \<Longrightarrow>
      project_record shape r source key True b = Ok (Some v, b') \<Longrightarrow> record_exact shape r source key v"
    and silent: "project_record shape r source key False b = Ok (res, b') \<Longrightarrow>
      res = None \<and> charged b 0 b'"
    and validated: "validate_record shape r depth nodes ident = Ok nodes' \<Longrightarrow> names_ok r ident"
begin

lemma validated_collection: "validate_collection shape c depth nodes = Ok nodes' \<Longrightarrow> collection_names_ok names_ok c"
  by (cases c) (auto simp: validate_collection_def Let_def res_simps split: if_splits dest: validated)

lemma row_emits:
  assumes "names_ok r (map_option fst key)" and "project_record shape r source key True b2 = Ok (res, b')"
    and "collecting b0 (conf r (map_option fst key)) n (rows, b)"
    and "emit b = Ok b1" and "bytes (of_bool (rows \<noteq> [])) b1 = Ok b2"
  shows "\<exists>v. res = Some v \<and> collecting b0 (conf r (map_option fst key)) (Suc n) (rows @ [v], b')"
  using emits [OF assms(1,2)] collecting_snoc [OF assms(3)]
    charged_trans [OF emit_then_bytes [OF assms(4,5)]] by blast

lemma project_row_collecting:
  assumes "names_ok r None" and "project_row shape r True v st = Ok st'"
    and "collecting b0 (conf r None) n (unselected st)"
  shows "collecting b0 (conf r None) (Suc n) (unselected st')"
proof -
  obtain rw b where st: "st = (rw, b)" by (cases st)
  from assms(2) obtain b1 b2 res b3 where step: "emit b = Ok b1" "bytes (of_bool (rw_rows rw \<noteq> [])) b1 = Ok b2"
    "project_record shape r v None True b2 = Ok (res, b3)" "st' = (store_row None res rw, b3)"
    by (auto simp: project_row_def st res_simps)
  show ?thesis
    using row_emits [of r None v b2 res b3 b0 n "rw_rows rw" b b1] assms(1,3) step
    by (auto simp: st unselected_def store_row_def)
qed

lemma project_identified_collecting:
  assumes "names_ok r (map_option fst key)" and "project_identified shape r None True ident key v st = Ok st'"
    and "collecting b0 (conf r (map_option fst key)) n (unselected st)"
  shows "collecting b0 (conf r (map_option fst key)) (Suc n) (unselected st')"
proof -
  obtain rw b where st: "st = (rw, b)" by (cases st)
  from assms(2) obtain b1 b2 res b3 where step: "emit b = Ok b1" "bytes (of_bool (rw_rows rw \<noteq> [])) b1 = Ok b2"
    "project_record shape r v key True b2 = Ok (res, b3)"
    "st' = (store_row None res (rw\<lparr>rw_observed := True\<rparr>), b3)"
    by (auto simp: project_identified_def st res_simps)
  show ?thesis
    using row_emits [of r key v b2 res b3 b0 n "rw_rows rw" b b1] assms(1,3) step
    by (auto simp: st unselected_def store_row_def)
qed

lemma finish_collecting:
  assumes "finish_rows None True st = Ok (res, b')" and "collecting b C n (unselected st)" and "n \<le> m"
  shows "\<exists>v. res = Some v \<and> rows_conform m C v \<and> charged b (json_size v) b'"
  using assms collecting_rows by (cases st) (fastforce simp: finish_rows_def unselected_def)

lemma project_at_emits:
  assumes "collection_names_ok names_ok c" and "project_at shape c source None True b = Ok (res, b')"
  shows "\<exists>v. res = Some v \<and> collection_conforms conf c v \<and> charged b (json_size v) b'"
proof (cases c)
  case (TextOption src n m)
  with assms(2) project_text_option_emits [of source n m b res b' conf src] show ?thesis
    by (simp add: project_at_def)
next
  case (RowArray src n r)
  with assms(2) obtain b1 xs b2 st where step: "bytes 2 b = Ok b1" "source = JArr xs"
    "scan (length xs) n b1 = Ok b2" "fold_res (project_row shape r True) xs (no_rows, b2) = Ok st"
    "finish_rows None True st = Ok (res, b')"
    by (auto simp: project_at_def res_simps)
  have "collecting b (conf r None) 0 (unselected (no_rows, b2))"
    using collecting_more [OF collecting_start [OF step(1)]] scan_charged [OF step(3)]
    by (auto simp: unselected_def no_rows_def)
  with fold_res_count [OF step(4), of "\<lambda>k st. collecting b (conf r None) k (unselected st)" 0]
  have "collecting b (conf r None) (length xs) (unselected st)"
    using assms(1) RowArray project_row_collecting by auto
  from finish_collecting [OF step(5) this] scan_charged [OF step(3)] RowArray show ?thesis by simp
next
  case (ObjectArray src n ident r)
  with assms(2) obtain b1 xs b2 p m ids st where step: "bytes 2 b = Ok b1" "source = JArr xs"
    "scan (length xs) n b1 = Ok b2"
    "fold_res (project_object shape r p m None True) xs ([], no_rows, b2) = Ok (ids, st)"
    "finish_rows None True st = Ok (res, b')"
    by (auto simp: project_at_def res_simps)
  have "collecting b (conf r None) 0 (unselected (no_rows, b2))"
    using collecting_more [OF collecting_start [OF step(1)]] scan_charged [OF step(3)]
    by (auto simp: unselected_def no_rows_def)
  with fold_res_count [OF step(4), of "\<lambda>k st. collecting b (conf r None) k (unselected (snd st))" 0]
  have "collecting b (conf r None) (length xs) (unselected st)"
    using assms(1) ObjectArray project_identified_collecting [of r None]
    by (fastforce simp: project_object_def res_simps split: if_splits)
  from finish_collecting [OF step(5) this] scan_charged [OF step(3)] ObjectArray show ?thesis by simp
next
  case (ObjectEntries src n key r)
  with assms(2) obtain b1 fs b2 st where step: "bytes 2 b = Ok b1" "source = JObj fs"
    "scan (length fs) n b1 = Ok b2"
    "fold_res (project_entry shape r key None True) fs (no_rows, b2) = Ok st"
    "finish_rows None True st = Ok (res, b')"
    by (auto simp: project_at_def res_simps)
  have "collecting b (conf r (Some key)) 0 (unselected (no_rows, b2))"
    using collecting_more [OF collecting_start [OF step(1)]] scan_charged [OF step(3)]
    by (auto simp: unselected_def no_rows_def)
  with fold_res_count [OF step(4), of "\<lambda>k st. collecting b (conf r (Some key)) k (unselected st)" 0]
  have "collecting b (conf r (Some key)) (length fs) (unselected st)"
    using assms(1) ObjectEntries project_identified_collecting [of r "Some (key, _)"]
    by (fastforce simp: project_entry_def split: if_splits)
  from finish_collecting [OF step(5) this] scan_charged [OF step(3)] ObjectEntries show ?thesis by simp
next
  case (ScalarArray src n name kind unique)
  let ?C = "\<lambda>row. \<exists>x. row = JObj [(name, x)] \<and> scalar_conforms kind x"
  from ScalarArray assms(2) obtain b1 xs b2 ids st where step: "bytes 2 b = Ok b1" "source = JArr xs"
    "scan (length xs) n b1 = Ok b2"
    "fold_res (project_scalar name kind unique True) xs ([], no_rows, b2) = Ok (ids, st)"
    "finish_rows None True st = Ok (res, b')"
    by (auto simp: project_at_def res_simps)
  have "collecting b ?C 0 (unselected (no_rows, b2))"
    using collecting_more [OF collecting_start [OF step(1)]] scan_charged [OF step(3)]
    by (auto simp: unselected_def no_rows_def)
  with fold_res_count [OF step(4), of "\<lambda>k st. collecting b ?C k (unselected (snd st))" 0]
  have "collecting b ?C (length xs) (unselected st)"
    using project_scalar_collecting by auto
  from finish_collecting [OF step(5) this] scan_charged [OF step(3)] ScalarArray show ?thesis by simp
qed

text \<open>With emission off.\<close>

lemma quiet_steps:
  "project_row shape r False x st = Ok st' \<Longrightarrow> quiet b0 st \<Longrightarrow> quiet b0 st'"
  "project_identified shape r sel False ident key x st = Ok st' \<Longrightarrow> quiet b0 st \<Longrightarrow> quiet b0 st'"
proof -
  have trans: "charged b0 0 b \<Longrightarrow> charged b 0 b' \<Longrightarrow> charged b0 0 b'" for b b'
    using charged_trans [of b0 0 b 0 b'] by simp
  show "project_row shape r False x st = Ok st' \<Longrightarrow> quiet b0 st \<Longrightarrow> quiet b0 st'"
    by (cases st) (auto simp: project_row_def res_simps quiet_def dest!: silent intro: trans)
  show "project_identified shape r sel False ident key x st = Ok st' \<Longrightarrow> quiet b0 st \<Longrightarrow> quiet b0 st'"
    by (cases st) (auto simp: project_identified_def res_simps quiet_def dest!: silent intro: trans)
qed

lemma project_at_silent:
  assumes "project_at shape c source sel False b = Ok (res, b')"
  shows "res = None \<and> charged b 0 b'"
proof -
  have finish: "res = None \<and> charged b 0 b'" if "finish_rows sel False st = Ok (res, b')" "quiet b st" for st
    using that by (cases st) (auto simp: finish_rows_def quiet_def split: if_splits)
  have start: "quiet b (no_rows, b1)" if "scan n m b = Ok b1" for n m b1
    using scan_charged [OF that] by (simp add: quiet_def)
  show ?thesis
  proof (cases c)
    case (TextOption src n m)
    define xs where "xs = (case source of JArr vs \<Rightarrow> vs | _ \<Rightarrow> [source])"
    from assms TextOption obtain b1 rows where
      step: "scan (length xs) n b = Ok b1" "fold_res (project_text m False) xs ([], b1) = Ok (rows, b')"
        "res = None"
      by (cases source)
        (auto simp: xs_def project_at_def project_text_option_def res_simps simp del: fold_res.simps split: if_splits)
    have "charged b 0 (snd (rows, b'))" using step(2)
      by (rule fold_res_invariant [where P = "\<lambda>st. charged b 0 (snd st)"])
        (use scan_charged [OF step(1)] in \<open>auto simp: project_text_def res_simps\<close>)
    with step(3) show ?thesis by simp
  next
    case (RowArray src n r)
    with assms obtain xs b1 st where step: "scan (length xs) n b = Ok b1"
      "fold_res (project_row shape r False) xs (no_rows, b1) = Ok st" "finish_rows sel False st = Ok (res, b')"
      by (auto simp: project_at_def res_simps split: if_splits)
    from step(2) start [OF step(1)] have "quiet b st" by (rule fold_res_invariant) (rule quiet_steps)
    with step(3) show ?thesis by (rule finish)
  next
    case (ObjectArray src n ident r)
    with assms obtain xs b1 p m ids st where step: "scan (length xs) n b = Ok b1"
      "fold_res (project_object shape r p m sel False) xs ([], no_rows, b1) = Ok (ids, st)"
      "finish_rows sel False st = Ok (res, b')"
      by (auto simp: project_at_def res_simps split: if_splits)
    from step(2) have "quiet b (snd (ids, st))"
      by (rule fold_res_invariant [where P = "\<lambda>st. quiet b (snd st)"])
        (use start [OF step(1)] in \<open>auto simp: project_object_def res_simps split: if_splits dest: quiet_steps(2)\<close>)
    then show ?thesis using finish [OF step(3)] by simp
  next
    case (ObjectEntries src n key r)
    with assms obtain xs b1 st where step: "scan (length xs) n b = Ok b1"
      "fold_res (project_entry shape r key sel False) xs (no_rows, b1) = Ok st"
      "finish_rows sel False st = Ok (res, b')"
      by (auto simp: project_at_def res_simps split: if_splits)
    from step(2) start [OF step(1)] have "quiet b st"
      by (rule fold_res_invariant) (auto simp: project_entry_def split: if_splits dest: quiet_steps(2))
    with step(3) show ?thesis by (rule finish)
  next
    case (ScalarArray src n name kind unique)
    with assms obtain xs b1 ids st where step: "scan (length xs) n b = Ok b1"
      "fold_res (project_scalar name kind unique False) xs ([], no_rows, b1) = Ok (ids, st)"
      "finish_rows sel False st = Ok (res, b')"
      by (auto simp: project_at_def res_simps split: if_splits)
    from step(2) have "quiet b (snd (ids, st))"
      by (rule fold_res_invariant [where P = "\<lambda>st. quiet b (snd st)"])
        (use start [OF step(1)] in \<open>auto simp: project_scalar_def res_simps split: if_splits\<close>)
    then show ?thesis using finish [OF step(3)] by simp
  qed
qed

end

text \<open>With a selector: the one row of that identity.\<close>

definition picking ::
    "budget \<Rightarrow> (json \<Rightarrow> bool) \<Rightarrow> string \<Rightarrow> string set \<Rightarrow> rows \<times> budget \<Rightarrow> bool" where
  "picking b0 D s seen = (\<lambda>(rw, b). rw_observed rw = (s \<in> seen)
     \<and> (if s \<in> seen then \<exists>v. rw_selected rw = Some v \<and> D v \<and> charged b0 (json_size v) b
        else rw_selected rw = None \<and> charged b0 0 b))"

fun selected_exact :: "'r record_shape \<Rightarrow> 'r collection \<Rightarrow> json \<Rightarrow> string \<Rightarrow> json \<Rightarrow> bool" where
  "selected_exact shape (ObjectArray _ _ ident r) source s v =
     (\<exists>xs x f. source = JArr xs \<and> x \<in> set xs \<and> f \<in> set (shape_fields shape r) \<and> f_name f = ident
       \<and> lookup x (f_source f) = Ok (Some (JStr s)) \<and> record_exact shape r x None v)"
| "selected_exact shape (ObjectEntries _ _ key r) source s v =
     (\<exists>fs x. source = JObj fs \<and> (s, x) \<in> set fs \<and> record_exact shape r x (Some (key, s)) v)"
| "selected_exact shape _ source s v = False"

context shape_laws
begin

lemma identified_picking:
  assumes "names_ok r (map_option fst key)"
    and "project_identified shape r (Some s) True ident key x st = Ok st'"
    and "picking b0 D s seen st" and "ident \<notin> seen"
    and D: "\<And>v. ident = s \<Longrightarrow> conf r (map_option fst key) v \<Longrightarrow> record_exact shape r x key v \<Longrightarrow> D v"
  shows "picking b0 D s (insert ident seen) st'"
proof -
  obtain rw b where st: "st = (rw, b)" by (cases st)
  show ?thesis
  proof (cases "ident = s")
    case True
    with assms(2) obtain b1 res b2 where step: "emit b = Ok b1"
      "project_record shape r x key True b1 = Ok (res, b2)"
      "st' = (store_row (Some s) res (rw\<lparr>rw_observed := True\<rparr>), b2)"
      by (auto simp: project_identified_def st res_simps)
    obtain v where v: "res = Some v" "conf r (map_option fst key) v" "charged b1 (json_size v) b2"
      using emits [OF assms(1) step(2)] by blast
    have "D v" using D [OF True v(2)] exact [OF assms(1)] step(2) v(1) by blast
    moreover have "charged b0 (json_size v) b2"
      using assms(3,4) True emit_charged [OF step(1)] v(3) by (auto simp: picking_def st charged_def)
    ultimately show ?thesis using True by (simp add: picking_def step(3) store_row_def v(1))
  next
    case False
    with assms(2) obtain res b2 where step: "project_record shape r x key False b = Ok (res, b2)"
      "st' = (store_row (Some s) res rw, b2)"
      by (auto simp: project_identified_def st res_simps)
    have "res = None" "charged b 0 b2" using silent [OF step(1)] by auto
    with assms(3) False show ?thesis
      by (auto simp: picking_def st step(2) store_row_def charged_def)
  qed
qed

lemma entries_picking:
  assumes "fold_res (project_entry shape r key (Some s) True) fs st = Ok st'"
    and "names_ok r (Some key)" and "distinct (map fst fs)" and "fst ` set fs \<inter> seen = {}"
    and "picking b0 D s seen st"
    and "\<And>x v. (s, x) \<in> set fs \<Longrightarrow> conf r (Some key) v \<Longrightarrow> record_exact shape r x (Some (key, s)) v \<Longrightarrow> D v"
  shows "picking b0 D s (seen \<union> fst ` set fs) st'"
  using assms
proof (induction fs arbitrary: st seen)
  case (Cons e fs)
  obtain ident x where e: "e = (ident, x)" by (cases e)
  from Cons.prems(1) obtain st1 where st1: "fold_res (project_entry shape r key (Some s) True) fs st1 = Ok st'"
    "project_identified shape r (Some s) True ident (Some (key, ident)) x st = Ok st1"
    by (auto simp: res_simps e project_entry_def split: if_splits)
  have "picking b0 D s (insert ident seen) st1"
    using Cons.prems(2,4,6) by (intro identified_picking [OF _ st1(2) Cons.prems(5)]) (auto simp: e)
  moreover have "fst ` set fs \<inter> insert ident seen = {}" using Cons.prems(3,4) by (force simp: e)
  ultimately have "picking b0 D s (insert ident seen \<union> fst ` set fs) st'"
    using Cons.prems(2,3,6) by (intro Cons.IH [OF st1(1)]) auto
  then show ?case by (simp add: e insert_commute)
qed simp

lemma finish_picking:
  assumes "finish_rows (Some s) True st = Ok (res, b')" and "picking b D s seen st"
  shows "\<exists>v. res = Some v \<and> D v \<and> charged b (json_size v) b'"
  using assms by (cases st) (auto simp: finish_rows_def picking_def split: if_splits)

lemma project_at_selected:
  assumes "collection_names_ok names_ok c" and "project_at shape c source (Some s) True b = Ok (res, b')"
    and "\<And>fs. source = JObj fs \<Longrightarrow> distinct (map fst fs)"
  shows "\<exists>v. res = Some v \<and> (selected_conforms conf c v \<and> selected_exact shape c source s v)
    \<and> charged b (json_size v) b'"
proof -
  let ?D = "\<lambda>v. selected_conforms conf c v \<and> selected_exact shape c source s v"
  have start: "picking b ?D s {} (no_rows, b1)" if "scan n m b = Ok b1" for n m b1
    using scan_charged [OF that] by (simp add: picking_def no_rows_def)
  consider (obj) src n ident r where "c = ObjectArray src n ident r"
    | (ent) src n key r where "c = ObjectEntries src n key r"
    using assms(2) by (cases c) (auto simp: project_at_def res_simps)
  then show ?thesis
  proof cases
    case obj
    with assms(2) obtain xs b1 f m ids st where src: "source = JArr xs"
      and f: "List.find (\<lambda>f. f_name f = ident) (shape_fields shape r) = Some f"
      and step: "scan (length xs) n b = Ok b1"
      "fold_res (project_object shape r (f_source f) m (Some s) True) xs ([], no_rows, b1) = Ok (ids, st)"
      "finish_rows (Some s) True st = Ok (res, b')"
      unfolding project_at_def by (simp add: res_simps split: if_splits) blast
    have f': "f \<in> set (shape_fields shape r)" "f_name f = ident"
      using f by (auto simp: find_Some_iff)
    have "picking b ?D s (set (fst (ids, st))) (snd (ids, st))" using step(2)
    proof (rule fold_res_invariant [where P = "\<lambda>st. picking b ?D s (set (fst st)) (snd st)"])
      fix x st st' assume x: "x \<in> set xs" and pick: "picking b ?D s (set (fst st)) (snd st)"
        and run: "project_object shape r (f_source f) m (Some s) True x st = Ok st'"
      obtain ids st0 where st: "st = (ids, st0)" by (cases st)
      from run obtain ident st1 where one: "lookup x (f_source f) = Ok (Some (JStr ident))"
        "ident \<notin> set ids" "project_identified shape r (Some s) True ident None x st0 = Ok st1"
        "st' = (ident # ids, st1)"
        by (auto simp: project_object_def st res_simps bind_eq_Some_conv split: if_splits)
      have "picking b ?D s (insert ident (set ids)) st1"
        using assms(1) one pick st x f' src obj
        by (intro identified_picking [OF _ one(3)]) auto
      then show "picking b ?D s (set (fst st')) (snd st')" by (simp add: one(4))
    qed (use start [OF step(1)] in simp)
    then show ?thesis using finish_picking [OF step(3)] unfolding fst_conv snd_conv by blast
  next
    case ent
    with assms(2) obtain fs b1 st where src: "source = JObj fs" and step: "scan (length fs) n b = Ok b1"
      "fold_res (project_entry shape r key (Some s) True) fs (no_rows, b1) = Ok st"
      "finish_rows (Some s) True st = Ok (res, b')"
      by (auto simp: project_at_def res_simps)
    have "picking b ?D s ({} \<union> fst ` set fs) st"
      using assms(1,3) ent src
      by (intro entries_picking [OF step(2) _ _ _ start [OF step(1)]]) auto
    then show ?thesis using finish_picking [OF step(3)] by blast
  qed
qed

end

section \<open>The three record shapes\<close>

text \<open>Names are distinct in a validated record, at every level.\<close>

definition distinct_names :: "text_identity option \<Rightarrow> scalar_field list \<Rightarrow> string list \<Rightarrow> bool" where
  "distinct_names key scalars cols \<longleftrightarrow>
     distinct (map f_name scalars @ cols)
     \<and> (f_name ` set scalars \<union> set cols) \<inter> key_names key = {}"

lemma add_field_names:
  "fold_res add_field scalars (ns, ps) = Ok (ns', ps') \<Longrightarrow>
     distinct (map f_name scalars) \<and> f_name ` set scalars \<inter> set ns = {} \<and> set ns' = f_name ` set scalars \<union> set ns"
proof (induction scalars arbitrary: ns ps)
  case (Cons f scalars)
  from Cons.prems obtain path where "f_name f \<notin> set ns"
    "fold_res add_field scalars (f_name f # ns, ps @ [path]) = Ok (ns', ps')"
    by (auto simp: res_simps add_field_def [of f] split: if_splits)
  with Cons.IH [OF this(2)] show ?case by auto
qed simp

lemma add_collection_names:
  "fold_res add_collection cols (ns, ps) = Ok (ns', ps') \<Longrightarrow>
     distinct (map fst cols) \<and> fst ` set cols \<inter> set ns = {}"
proof (induction cols arbitrary: ns ps)
  case (Cons c cols)
  obtain name src where c: "c = (name, src)" by (cases c)
  from Cons.prems obtain path where "name \<notin> set ns"
    "fold_res add_collection cols (name # ns, ps @ [path]) = Ok (ns', ps')"
    by (auto simp: c res_simps add_collection_def split: if_splits)
  with Cons.IH [OF this(2)] show ?case by (auto simp: c)
qed simp

lemma validate_fields_names:
  assumes "validate_fields scalars cols n key depth = Ok u"
  shows "distinct_names key scalars (map fst cols)"
proof -
  define ns where "ns = (case key of None \<Rightarrow> [] | Some i \<Rightarrow> [i_name i])"
  have ns: "set ns = key_names key" by (simp add: ns_def key_names_def split: option.splits)
  from assms obtain ns1 ps1 st where run: "fold_res add_field scalars (ns, []) = Ok (ns1, ps1)" "fold_res add_collection cols (ns1, ps1) = Ok st"
    by (cases key) (auto simp: validate_fields_def res_simps ns_def split: if_splits option.splits)
  obtain ns2 ps2 where st: "st = (ns2, ps2)" by (cases st)
  from add_field_names [OF run(1)] add_collection_names [OF run(2) [unfolded st]] ns
  show ?thesis by (auto simp: distinct_names_def)
qed

definition leaf_names :: "leaf_record \<Rightarrow> text_identity option \<Rightarrow> bool" where
  "leaf_names r key = distinct_names key (l_fields r) []"

definition nested_names ::
    "('r \<Rightarrow> text_identity option \<Rightarrow> bool) \<Rightarrow> 'r collection schema_record \<Rightarrow> text_identity option \<Rightarrow> bool" where
  "nested_names ok r key \<longleftrightarrow> distinct_names key (r_fields r) (map c_name (r_collections r))
     \<and> (\<forall>f \<in> set (r_collections r). collection_names_ok ok (c_collection f))"

lemma building_conform:
  assumes "building b ok names need (fs, b')"
    and "\<And>k x. ok k x \<Longrightarrow> (\<exists>i. key = Some i \<and> k = i_name i \<and> key_conforms i x)
      \<or> (\<exists>f \<in> set scalars. k = f_name f \<and> scalar_conforms (f_value f) x)
      \<or> (\<exists>f \<in> set cols. k = c_name f \<and> conf (c_collection f) x)"
    and "key_names key \<union> f_name ` {f \<in> set scalars. f_presence f = Required}
      \<union> c_name ` {f \<in> set cols. c_presence f = Required} \<subseteq> need"
  shows "fields_conform key scalars conf cols (JObj fs) \<and> charged b (json_size (JObj fs)) b'"
proof -
  have wf: "bt_wf fs" and charged: "charged b (json_size (JObj fs)) b'"
    and need: "need \<subseteq> fst ` set fs" and ok: "\<forall>(k, v) \<in> set fs. ok k v"
    using assms(1) by (auto simp: building_def)
  have entries: "\<forall>(k, x) \<in> set fs. (\<exists>i. key = Some i \<and> k = i_name i \<and> key_conforms i x)
      \<or> (\<exists>f \<in> set scalars. k = f_name f \<and> scalar_conforms (f_value f) x)
      \<or> (\<exists>f \<in> set cols. k = c_name f \<and> conf (c_collection f) x)"
  proof
    fix e assume "e \<in> set fs"
    moreover obtain k x where e: "e = (k, x)" by (cases e)
    ultimately have "ok k x" using ok by auto
    from assms(2) [OF this] show "case e of (k, x) \<Rightarrow>
        (\<exists>i. key = Some i \<and> k = i_name i \<and> key_conforms i x)
        \<or> (\<exists>f \<in> set scalars. k = f_name f \<and> scalar_conforms (f_value f) x)
        \<or> (\<exists>f \<in> set cols. k = c_name f \<and> conf (c_collection f) x)"
      by (simp add: e)
  qed
  have sub: "key_names key \<subseteq> fst ` set fs"
    "f_name ` {f \<in> set scalars. f_presence f = Required} \<subseteq> fst ` set fs"
    "c_name ` {f \<in> set cols. c_presence f = Required} \<subseteq> fst ` set fs"
    using assms(3) need by (meson le_supE order_trans)+
  have key: "\<forall>i. key = Some i \<longrightarrow> i_name i \<in> fst ` set fs"
    using sub(1) by (auto simp: key_names_def)
  have sc: "\<forall>f \<in> set scalars. f_presence f = Required \<longrightarrow> f_name f \<in> fst ` set fs"
    using sub(2) by (simp add: image_subset_iff)
  have co: "\<forall>f \<in> set cols. c_presence f = Required \<longrightarrow> c_name f \<in> fst ` set fs"
    using sub(3) by (simp add: image_subset_iff)
  show ?thesis unfolding fields_conform_def
    by (intro conjI exI [of _ fs] refl wf entries key sc co charged)
qed

lemma leaf_emits:
  assumes "leaf_names r (map_option fst key)"
    and "project_record leaf_shape r source key True b = Ok (res, b')"
  shows "\<exists>v. res = Some v \<and> leaf_conforms r (map_option fst key) v \<and> charged b (json_size v) b'"
    and "\<exists>v. res = Some v \<and> record_exact leaf_shape r source key v"
proof -
  from assms(2) obtain fs where fs: "record_fields (l_fields r) source key True b = Ok (fs, b')" "res = Some (JObj fs)"
    by (auto simp: leaf_shape_def res_simps)
  have names: "distinct (map f_name (l_fields r))" "f_name ` set (l_fields r) \<inter> key_names (map_option fst key) = {}"
    using assms(1) by (auto simp: leaf_names_def distinct_names_def)
  let ?ok = "\<lambda>k x. (\<exists>i. map_option fst key = Some i \<and> k = i_name i \<and> key_conforms i x)
      \<or> (\<exists>f \<in> set (l_fields r). k = f_name f \<and> scalar_conforms (f_value f) x)"
  have "building b ?ok (key_names (map_option fst key) \<union> f_name ` set (l_fields r))
      (key_names (map_option fst key) \<union> f_name ` {f \<in> set (l_fields r). f_presence f = Required}) (fs, b')"
    by (rule record_fields_building [OF fs(1) names]) auto
  then show "\<exists>v. res = Some v \<and> leaf_conforms r (map_option fst key) v \<and> charged b (json_size v) b'"
    using building_conform [of b ?ok _ _ fs b' "map_option fst key" "l_fields r" "[]"]
    by (auto simp: leaf_conforms_def fs(2))
  show "\<exists>v. res = Some v \<and> record_exact leaf_shape r source key v"
    using record_fields_exact [OF fs(1) names] by (auto simp: fs(2) record_exact_def leaf_shape_def)
qed

interpretation leaf: shape_laws leaf_shape leaf_names leaf_conforms
proof
  fix r key source b res b'
  assume "leaf_names r (map_option fst key)" "project_record leaf_shape r source key True b = Ok (res, b')"
  then show "\<exists>v. res = Some v \<and> leaf_conforms r (map_option fst key) v \<and> charged b (json_size v) b'"
    by (rule leaf_emits)
next
  fix r key source b v b'
  assume "leaf_names r (map_option fst key)" "project_record leaf_shape r source key True b = Ok (Some v, b')"
  from leaf_emits(2) [OF this] show "record_exact leaf_shape r source key v" by simp
next
  fix r source key b res b'
  assume "project_record leaf_shape r source key False b = Ok (res, b')"
  then show "res = None \<and> charged b 0 b'"
    by (auto simp: leaf_shape_def res_simps dest!: record_fields_silent)
next
  fix r depth nodes ident nodes'
  assume "validate_record leaf_shape r depth nodes ident = Ok nodes'"
  then show "leaf_names r ident"
    by (auto simp: leaf_shape_def res_simps leaf_names_def dest!: validate_fields_names)
qed

text \<open>A shape that keeps the contract gives one for records with collections of it.\<close>

context shape_laws
begin

lemma collection_field_building:
  assumes "project_collection_field shape source True f st = Ok st'" and "building b0 ok names need st"
    and "c_name f \<notin> names" and "collection_names_ok names_ok (c_collection f)"
    and ok: "\<And>v. collection_conforms conf (c_collection f) v \<Longrightarrow> ok (c_name f) v"
  shows "building b0 ok (insert (c_name f) names)
    (if c_presence f = Required then insert (c_name f) need else need) st'"
proof -
  obtain fs b where st: "st = (fs, b)" by (cases st)
  from assms(1) obtain found where found: "lookup source (c_source (c_collection f)) = Ok found"
    by (auto simp: project_collection_field_def st res_simps)
  show ?thesis
  proof (cases found)
    case None
    with assms(1,2) found show ?thesis
      by (auto simp: project_collection_field_def st building_skip split: if_splits)
  next
    case (Some x)
    with assms(1) found obtain b1 res b2 where step: "key_bytes (c_name f) (fs \<noteq> []) b = Ok b1"
      "project_at shape (c_collection f) x None True b1 = Ok (res, b2)"
      "st' = (case res of None \<Rightarrow> fs | Some v \<Rightarrow> bt_insert (c_name f) v fs, b2)"
      by (auto simp: project_collection_field_def st res_simps)
    obtain v where v: "res = Some v" "collection_conforms conf (c_collection f) v" "charged b1 (json_size v) b2"
      using project_at_emits [OF assms(4) step(2)] by blast
    have "building b0 ok (insert (c_name f) names) (insert (c_name f) need) (bt_insert (c_name f) v fs, b2)"
      by (rule building_insert [OF assms(2) [unfolded st] assms(3) ok [OF v(2)]])
        (rule charged_trans [OF bytes_charged(3) [OF step(1)] v(3)])
    then show ?thesis by (auto simp: building_def step(3) v(1))
  qed
qed

lemma collection_field_keeps:
  assumes "project_collection_field shape source True f (fs, b) = Ok (fs', b')" and "bt_wf fs"
  shows "bt_wf fs'" "\<And>k. k \<noteq> c_name f \<Longrightarrow> map_of fs' k = map_of fs k"
proof -
  from assms(1) obtain found where "lookup source (c_source (c_collection f)) = Ok found"
    by (auto simp: project_collection_field_def res_simps)
  with assms(1) have "fs' = fs \<or> (\<exists>v. fs' = bt_insert (c_name f) v fs)"
    by (cases found) (auto simp: project_collection_field_def res_simps split: if_splits option.splits)
  with assms(2) show "bt_wf fs'" "\<And>k. k \<noteq> c_name f \<Longrightarrow> map_of fs' k = map_of fs k" by auto
qed

lemma collection_fields_keep:
  assumes "fold_res (project_collection_field shape source True) cols (fs, b) = Ok (fs', b')" and "bt_wf fs"
  shows "\<forall>k. k \<notin> c_name ` set cols \<longrightarrow> map_of fs' k = map_of fs k"
proof -
  have "bt_wf (fst (fs', b')) \<and> (\<forall>k. k \<notin> c_name ` set cols \<longrightarrow> map_of (fst (fs', b')) k = map_of fs k)"
    using assms(1)
    by (rule fold_res_invariant [where P = "\<lambda>st. bt_wf (fst st)
          \<and> (\<forall>k. k \<notin> c_name ` set cols \<longrightarrow> map_of (fst st) k = map_of fs k)"])
      (use assms(2) in \<open>auto dest: collection_field_keeps\<close>)
  then show ?thesis by simp
qed

lemma nested_run:
  assumes "nested_names names_ok r (map_option fst key)"
    and "project_record (nested_shape shape) r source key True b = Ok (res, b')"
  shows "\<exists>v. res = Some v \<and> nested_conforms conf r (map_option fst key) v \<and> charged b (json_size v) b'
    \<and> record_exact (nested_shape shape) r source key v"
proof -
  from assms(2) obtain fs1 b1 fs where
    run: "record_fields (r_fields r) source key True b = Ok (fs1, b1)"
      "fold_res (project_collection_field shape source True) (r_collections r) (fs1, b1) = Ok (fs, b')"
      "res = Some (JObj fs)"
    by (auto simp: nested_shape_def res_simps)
  have names: "distinct (map f_name (r_fields r))" "f_name ` set (r_fields r) \<inter> key_names (map_option fst key) = {}"
    "distinct (map c_name (r_collections r))"
    "c_name ` set (r_collections r) \<inter> (key_names (map_option fst key) \<union> f_name ` set (r_fields r)) = {}"
    "\<And>f. f \<in> set (r_collections r) \<Longrightarrow> collection_names_ok names_ok (c_collection f)"
    using assms(1) by (auto simp: nested_names_def distinct_names_def)
  let ?ok = "\<lambda>k x. (\<exists>i. map_option fst key = Some i \<and> k = i_name i \<and> key_conforms i x)
      \<or> (\<exists>f \<in> set (r_fields r). k = f_name f \<and> scalar_conforms (f_value f) x)
      \<or> (\<exists>f \<in> set (r_collections r). k = c_name f \<and> collection_conforms conf (c_collection f) x)"
  have first: "building b ?ok (key_names (map_option fst key) \<union> f_name ` set (r_fields r))
      (key_names (map_option fst key) \<union> f_name ` {f \<in> set (r_fields r). f_presence f = Required}) (fs1, b1)"
    by (rule record_fields_building [OF run(1) names(1,2)]) auto
  have step: "building b ?ok (insert (c_name x) names) (if c_presence x = Required then insert (c_name x) need else need) st'"
    if "x \<in> set (r_collections r)" "building b ?ok names need st" "c_name x \<notin> names"
      "project_collection_field shape source True x st = Ok st'" for x names need st st'
    by (rule collection_field_building [OF that(4,2,3) names(5) [OF that(1)]]) (use that(1) in blast)
  note all = building_fold [OF run(2) first names(3,4), where P = "\<lambda>f. c_presence f = Required", OF step]
  have "nested_conforms conf r (map_option fst key) (JObj fs) \<and> charged b (json_size (JObj fs)) b'"
    unfolding nested_conforms_def by (rule building_conform [OF all]) auto
  moreover have "record_exact (nested_shape shape) r source key (JObj fs)"
  proof -
    note ex = record_fields_exact [OF run(1) names(1,2)]
    note keep = collection_fields_keep [OF run(2)]
    have "field_exact source fs f" if "f \<in> set (r_fields r)" for f
      using ex keep names(4) that by (subst field_exact_cong [of _ _ fs1]) auto
    moreover have "key_exact key fs"
      using ex keep names(4) by (auto simp: key_exact_def key_names_def)
    ultimately show ?thesis by (simp add: record_exact_def nested_shape_def)
  qed
  ultimately show ?thesis by (simp add: run(3))
qed

lemma nested_silent:
  assumes "project_record (nested_shape shape) r source key False b = Ok (res, b')"
  shows "res = None \<and> charged b 0 b'"
proof -
  from assms obtain fs where run: "res = None"
    "fold_res (project_collection_field shape source False) (r_collections r) ([], b) = Ok (fs, b')"
    by (auto simp: nested_shape_def res_simps dest!: record_fields_silent)
  have "charged b 0 (snd (fs, b'))" using run(2)
  proof (rule fold_res_invariant [where P = "\<lambda>st. charged b 0 (snd st)"])
    fix f st st' assume "charged b 0 (snd st)" "project_collection_field shape source False f st = Ok st'"
    moreover obtain gs c where "st = (gs, c)" by (cases st)
    ultimately have "charged b 0 c" "charged c 0 (snd st')"
      by (auto simp: project_collection_field_def res_simps split: option.splits if_splits dest!: project_at_silent)
    then show "charged b 0 (snd st')" using charged_trans by fastforce
  qed simp
  with run(1) show ?thesis by simp
qed

lemma nested_validated:
  assumes "validate_record (nested_shape shape) r depth nodes ident = Ok nodes'"
  shows "nested_names names_ok r ident"
proof -
  from assms obtain n u where valid:
    "validate_fields (r_fields r) (map (\<lambda>f. (c_name f, c_source (c_collection f))) (r_collections r)) n ident depth = Ok u"
    and run: "fold_res (\<lambda>f nodes. validate_collection shape (c_collection f) (depth + 1) nodes) (r_collections r) nodes = Ok nodes'"
    by (auto simp: nested_shape_def res_simps)
  have "\<forall>f \<in> set cols. collection_names_ok names_ok (c_collection f)"
    if "fold_res (\<lambda>f nodes. validate_collection shape (c_collection f) (depth + 1) nodes) cols m = Ok nodes'" for cols m
    using that by (induction cols arbitrary: m) (auto simp: res_simps dest: validated_collection)
  with run validate_fields_names [OF valid] show ?thesis by (auto simp: nested_names_def comp_def)
qed

lemma nested: "shape_laws (nested_shape shape) (nested_names names_ok) (nested_conforms conf)"
  using nested_run nested_silent nested_validated by unfold_locales blast+

end

definition inner_names :: "inner_record \<Rightarrow> text_identity option \<Rightarrow> bool" where
  "inner_names = nested_names leaf_names"

definition root_names :: "root_record \<Rightarrow> text_identity option \<Rightarrow> bool" where
  "root_names = nested_names inner_names"

interpretation inner: shape_laws inner_shape inner_names inner_conforms
  unfolding inner_shape_def inner_names_def inner_conforms_def by (rule leaf.nested)

interpretation root: shape_laws root_shape root_names root_conforms
  unfolding root_shape_def root_names_def root_conforms_def by (rule inner.nested)

section \<open>Typed projections\<close>

lemma json_wf_entry: "json_wf (JObj fs) \<Longrightarrow> map_of fs k = Some v \<Longrightarrow> json_wf v"
  by (auto simp: list_all_iff dest: map_of_SomeD)

lemma lookup_parts_wf: "lookup_parts v parts = Ok (Some x) \<Longrightarrow> json_wf v \<Longrightarrow> json_wf x"
proof (induction parts arbitrary: v)
  case (Cons part parts current)
  from Cons.prems(1) obtain v where v: "lookup_parts v parts = Ok (Some x)"
    "(\<exists>fs. current = JObj fs \<and> map_of fs (decode_segment part) = Some v)
      \<or> (\<exists>xs i. current = JArr xs \<and> i < length xs \<and> v = xs ! i)"
    by (auto simp: Let_def res_simps bind_eq_Some_conv split: json.splits option.splits if_splits)
  then have "json_wf v" using Cons.prems(2) json_wf_entry
    by (auto simp: list_all_iff simp del: json_wf.simps(2))
  with Cons.IH v(1) show ?case by blast
qed simp

lemma lookup_wf: "lookup v p = Ok (Some x) \<Longrightarrow> json_wf v \<Longrightarrow> json_wf x"
  unfolding lookup_def by (rule lookup_parts_wf)

lemma lookup_parts_Err: "lookup_parts v parts = Err e \<Longrightarrow> e = InvalidOutput"
  by (induction v parts rule: lookup_parts.induct)
    (auto simp: Let_def res_simps split: json.splits option.splits if_splits)

lemma lookup_Err: "lookup v p = Err e \<Longrightarrow> e = InvalidOutput"
  unfolding lookup_def by (rule lookup_parts_Err)

lemma check_all_const:
  assumes "\<And>x e'. x \<in> set xs \<Longrightarrow> f x = Err e' \<Longrightarrow> e' = e" and "\<exists>x \<in> set xs. f x \<noteq> Ok ()"
  shows "check_all f xs = Err e"
  using assms
proof (induction xs)
  case (Cons x xs)
  show ?case
  proof (cases "f x")
    case (Inl e')
    with Cons.prems(1) [of x] show ?thesis by simp
  next
    case (Inr u)
    with Cons show ?thesis by auto
  qed
qed simp

fun typed_conforms :: "typed_projection \<Rightarrow> json \<Rightarrow> bool" where
  "typed_conforms (TP_Record _ r) v = root_conforms r None v"
| "typed_conforms (TP_Collection _ c Sel_All) v =
     (\<exists>items. v = JObj [(''items'', items)] \<and> collection_conforms inner_conforms c items)"
| "typed_conforms (TP_Collection _ c (ExactOne _)) v = selected_conforms inner_conforms c v"

fun typed_exact :: "typed_projection \<Rightarrow> string option \<Rightarrow> json \<Rightarrow> json \<Rightarrow> bool" where
  "typed_exact (TP_Record _ r) sel source v = record_exact root_shape r source None v"
| "typed_exact (TP_Collection _ c (ExactOne _)) sel source v =
     (\<exists>s x. sel = Some s \<and> lookup source (c_source c) = Ok (Some x)
       \<and> selected_exact inner_shape c x s v)"
| "typed_exact (TP_Collection _ c Sel_All) sel source v = (sel = None)"

lemma typed_validate_names:
  assumes "typed_validate tp params = Ok ()"
  shows "case tp of TP_Record _ r \<Rightarrow> root_names r None
    | TP_Collection _ c _ \<Rightarrow> collection_names_ok inner_names c"
  using assms
  by (cases tp) (auto simp: typed_validate_def res_simps split: if_splits
      dest: root.validated inner.validated_collection)

lemma project_result:
  assumes "typed_validate tp params = Ok ()" and "json_wf source" and "project tp sel source = Ok v"
  shows "\<exists>b. charged budget_default (json_size v) b \<and> typed_conforms tp v \<and> typed_exact tp sel source v"
proof (cases tp)
  case (TP_Record guards r)
  from assms(3) TP_Record obtain b where
    "project_record root_shape r source None True budget_default = Ok (Some v, b)"
    by (auto simp: project_def res_simps)
  moreover have "root_names r (map_option fst None)"
    using typed_validate_names [OF assms(1)] TP_Record by simp
  ultimately show ?thesis using root.emits root.exact TP_Record by fastforce
next
  case (TP_Collection guards c selection)
  have names: "collection_names_ok inner_names c"
    using typed_validate_names [OF assms(1)] TP_Collection by simp
  from assms(3) TP_Collection obtain x where x: "lookup source (c_source c) = Ok (Some x)"
    and sel: "(selection \<noteq> Sel_All) = (sel \<noteq> None)"
    by (auto simp: project_def res_simps split: if_splits)
  show ?thesis
  proof (cases sel)
    case None
    with assms(3) TP_Collection sel x obtain b0 b1 items b where
      step: "bytes 2 budget_default = Ok b0" "key_bytes ''items'' False b0 = Ok b1"
        "project_at inner_shape c x None True b1 = Ok (Some items, b)" "v = JObj [(''items'', items)]"
      by (auto simp: project_def res_simps)
    have "collection_conforms inner_conforms c items" "charged b1 (json_size items) b"
      using inner.project_at_emits [OF names step(3)] by auto
    moreover from this(2) bytes_charged(1) [OF step(1)] bytes_charged(3) [OF step(2)]
    have "charged budget_default (json_size v) b" by (auto simp: charged_def step(4) commas_def)
    ultimately show ?thesis using None sel TP_Collection step(4) by auto
  next
    case (Some s)
    with sel obtain p where p: "selection = ExactOne p" by (cases selection) auto
    from Some assms(3) TP_Collection p x obtain b where
      step: "project_at inner_shape c x (Some s) True budget_default = Ok (Some v, b)"
      by (auto simp: project_def res_simps)
    have "\<And>fs. x = JObj fs \<Longrightarrow> distinct (map fst fs)"
      using lookup_wf [OF x assms(2)] by (auto simp: bt_wf_distinct)
    from inner.project_at_selected [OF names step this] Some p TP_Collection x
    show ?thesis by auto
  qed
qed

text \<open>
  Property C7: with a validated schema, whatever a device answers, a projection that succeeds
  returns a value whose compact encoding is at most 65536 bytes and that the schema admits:
  only declared names, every required name, every scalar of its declared kind and range,
  collections within their item limits. No part of the response is passed through.
\<close>

theorem project_conforms:
  assumes "typed_validate tp params = Ok ()" and "json_wf source" and "project tp sel source = Ok v"
  shows "length (json_text v) \<le> max_normalized_bytes \<and> typed_conforms tp v"
  using project_result [OF assms] by (auto simp: charged_def budget_default_def)


text \<open>
  Property C22: a response in which a guard pointer of the schema is present, or cannot be
  followed, is refused before anything is projected.
\<close>

theorem project_guarded:
  assumes "p \<in> set (reject_if_present tp)" and "lookup source p \<noteq> Ok None"
  shows "project tp sel source = Err InvalidOutput"
proof -
  have "check_all (\<lambda>pointer. and_then (lookup source pointer) (\<lambda>found.
       ensure (found = None) InvalidOutput)) (reject_if_present tp) = Err InvalidOutput"
    using assms by (intro check_all_const) (auto simp: res_simps dest: lookup_Err)
  then show ?thesis by (simp add: project_def)
qed

definition sample_record :: inner_record where
  "sample_record = \<lparr>r_fields = [
      \<lparr>f_name = ''address'', f_source = ''/ip'', f_presence = Required, f_value = SK_Text 16\<rparr>,
      \<lparr>f_name = ''mtu'', f_source = ''/mtu'', f_presence = Optional, f_value = SK_SafeInteger 0 9000\<rparr>],
    r_collections = []\<rparr>"

definition sample_projection :: typed_projection where
  "sample_projection = TP_Collection [''/error'']
     (ObjectEntries ''/values'' 4 \<lparr>i_name = ''name'', i_max_bytes = 16\<rparr> sample_record) (ExactOne ''which'')"

definition sample_parameters :: "(string, parameter) btree_map" where
  "sample_parameters = [(''which'', \<lparr>p_kind = PK_String, required = True, allowed_values = []\<rparr>)]"

definition sample_response :: json where
  "sample_response = JObj [(''values'', JObj [
     (''lan'', JObj [(''ip'', JStr ''10.0.0.1''), (''psk'', JStr ''secret'')]),
     (''wan'', JObj [(''ip'', JStr ''192.0.2.7''), (''mtu'', json_int 1500)])])]"

definition sample_result :: json where
  "sample_result = JObj [(''address'', JStr ''10.0.0.1''), (''name'', JStr ''lan'')]"

lemma sample_runs:
  "typed_validate sample_projection sample_parameters = Ok ()" "json_wf sample_response"
  "project sample_projection (Some ''lan'') sample_response = Ok sample_result"
  by code_simp+

lemma project_conforms_witness:
  "length (json_text sample_result) \<le> max_normalized_bytes \<and> typed_conforms sample_projection sample_result"
  using project_conforms [OF sample_runs] .


lemma project_guarded_witness:
  "project sample_projection (Some ''lan'') (JObj [(''error'', JNull), (''values'', JObj [])]) = Err InvalidOutput"
  by (rule project_guarded [of "''/error''"]) code_simp+

end
