(* ===== verification/Capability.thy ===== *)
theory Capability
  imports Basics
begin

text \<open>
  Actions (\<^verbatim>\<open>core/src/operation.rs\<close>) and capability prerequisites
  (\<^verbatim>\<open>core/src/capability.rs\<close>): what a device was observed to offer, and the verdict
  whether a call fits it.
\<close>

section \<open>Actions\<close>

datatype action =
  ApkInstalledPage
| OpkgStatusPage
| Ubus string string "(string, json) btree_map"
| Process string "string list"

datatype prepared_action =
  PA_OpkgStatusPage "string option"
| PA_ApkInstalledPage "string option"
| PA_Ubus string string json
| PA_Process string "string list"

section \<open>Observations\<close>

definition capability_tool_name :: string where "capability_tool_name = ''operation_capability''"
definition max_observed_methods :: nat where [limit_defs]: "max_observed_methods = 128"
definition max_observed_arguments :: nat where [limit_defs]: "max_observed_arguments = 64"
definition max_observed_method_name_bytes :: nat where [limit_defs]: "max_observed_method_name_bytes = 128"
definition max_observed_argument_name_bytes :: nat where [limit_defs]: "max_observed_argument_name_bytes = 64"
definition ubus_integer_min :: int where [limit_defs]: "ubus_integer_min = - (2 ^ 31)"
definition ubus_integer_max :: int where [limit_defs]: "ubus_integer_max = 2 ^ 31 - 1"

datatype reviewed_object =
  RO_System | RO_NetworkDevice | RO_NetworkInterface | RO_NetworkInterfaceLan
| RO_NetworkInterfaceWan | RO_Iwinfo | RO_Service | RO_Luci | RO_LuciRpc | RO_Uci

definition all_reviewed :: "reviewed_object list" where
  "all_reviewed = [RO_System, RO_NetworkDevice, RO_NetworkInterface, RO_NetworkInterfaceLan,
     RO_NetworkInterfaceWan, RO_Iwinfo, RO_Service, RO_Luci, RO_LuciRpc, RO_Uci]"

fun reviewed_name :: "reviewed_object \<Rightarrow> string" where
  "reviewed_name RO_System = ''system''"
| "reviewed_name RO_NetworkDevice = ''network.device''"
| "reviewed_name RO_NetworkInterface = ''network.interface''"
| "reviewed_name RO_NetworkInterfaceLan = ''network.interface.lan''"
| "reviewed_name RO_NetworkInterfaceWan = ''network.interface.wan''"
| "reviewed_name RO_Iwinfo = ''iwinfo''"
| "reviewed_name RO_Service = ''service''"
| "reviewed_name RO_Luci = ''luci''"
| "reviewed_name RO_LuciRpc = ''luci-rpc''"
| "reviewed_name RO_Uci = ''uci''"

definition reviewed_from_name :: "string \<Rightarrow> reviewed_object option" where
  "reviewed_from_name name = List.find (\<lambda>r. reviewed_name r = name) all_reviewed"

datatype probe_request = DescribeUbusObject reviewed_object

datatype capability_requirement =
  ApkInstalledQuery
| OpkgRootStatusFile
| UbusMethod string string "(string, parameter_kind) btree_map" string
| Unverified

datatype ubus_argument_type = UT_String | UT_Integer | UT_Boolean | UT_Array | UT_Table | UT_Unknown

record method_signature =
  sig_arguments :: "(string, ubus_argument_type) btree_map"

record object_observation =
  obs_object :: reviewed_object
  obs_methods :: "(string, method_signature) btree_map"

definition object_observation_validate :: "object_observation \<Rightarrow> core_error + unit" where
  "object_observation_validate ob =
     (if length (obs_methods ob) > max_observed_methods then Err InvalidDefinition
      else check_all (\<lambda>(method, sig).
        ensure (\<not> (length method > max_observed_method_name_bytes \<or> \<not> ubus_identifier method
            \<or> length (sig_arguments sig) > max_observed_arguments
            \<or> list_ex (\<lambda>(argument, _). length argument > max_observed_argument_name_bytes
                \<or> \<not> ubus_identifier argument) (sig_arguments sig)))
          InvalidDefinition) (obs_methods ob))"

datatype unknown_reason =
  NotObservedOrHidden | IncompleteSignature | UnrecognizedType | UnreviewedProbe
| ProbeUnavailable | InvalidObservation | StaleObservation

fun unknown_reason_code :: "unknown_reason \<Rightarrow> string" where
  "unknown_reason_code NotObservedOrHidden = ''not_observed_or_hidden''"
| "unknown_reason_code IncompleteSignature = ''incomplete_signature''"
| "unknown_reason_code UnrecognizedType = ''unrecognized_type''"
| "unknown_reason_code UnreviewedProbe = ''unreviewed_probe''"
| "unknown_reason_code ProbeUnavailable = ''probe_unavailable''"
| "unknown_reason_code InvalidObservation = ''invalid_observation''"
| "unknown_reason_code StaleObservation = ''stale_observation''"

datatype capability_observation = CO_Unknown unknown_reason | CO_Ubus object_observation

datatype incompatibility_reason = ArgumentTypeMismatch | InvalidPreparedAction

fun incompatibility_reason_code :: "incompatibility_reason \<Rightarrow> string" where
  "incompatibility_reason_code ArgumentTypeMismatch = ''argument_type_mismatch''"
| "incompatibility_reason_code InvalidPreparedAction = ''invalid_prepared_action''"

datatype verdict = Compatible | Incompatible incompatibility_reason | V_Unknown unknown_reason

section \<open>Requirements\<close>

text \<open>\<^verbatim>\<open>str::rsplit_once\<close> for a non-empty pattern: the last occurrence.\<close>

fun rsplit_text :: "string \<Rightarrow> string \<Rightarrow> (string \<times> string) option" where
  "rsplit_text p [] = None"
| "rsplit_text p (c # cs) =
     (case rsplit_text p cs of
        Some (a, b) \<Rightarrow> Some (c # a, b)
      | None \<Rightarrow> if take (length p) (c # cs) = p then Some ([], drop (length p) (c # cs)) else None)"

definition response_identifier :: "string \<Rightarrow> bool" where
  "response_identifier value = (case rsplit_text ''.v'' value of
       None \<Rightarrow> False
     | Some (name, version) \<Rightarrow>
         length value \<le> 128 \<and> ubus_identifier name \<and> version \<noteq> [] \<and> hd version \<noteq> CHR ''0''
         \<and> list_all is_ascii_digit version \<and> parse_unsigned (2 ^ 32 - 1) version \<noteq> None)"

definition checked_integer :: "json \<Rightarrow> bool" where
  "checked_integer value = (case as_i64 value of
       None \<Rightarrow> False | Some i \<Rightarrow> ubus_integer_min \<le> i \<and> i \<le> ubus_integer_max)"

fun value_matches :: "json \<Rightarrow> parameter_kind \<Rightarrow> bool" where
  "value_matches value PK_String = (case as_str value of
       None \<Rightarrow> False | Some s \<Rightarrow> length s \<le> 1024 \<and> NUL \<notin> set s)"
| "value_matches value PK_Integer = checked_integer value"
| "value_matches value PK_Boolean = is_boolean value"

fun probe_object :: "capability_requirement \<Rightarrow> reviewed_object option" where
  "probe_object (UbusMethod object _ _ _) = reviewed_from_name object"
| "probe_object _ = None"

definition package_response_contract :: string where
  "package_response_contract = ''packages_apk_installed.v1''"

definition opkg_response_contract :: string where
  "opkg_response_contract = ''packages_opkg_status.v1''"

fun response_contract :: "capability_requirement \<Rightarrow> string option" where
  "response_contract (UbusMethod _ _ _ contract) = Some contract"
| "response_contract Unverified = None"
| "response_contract ApkInstalledQuery = Some package_response_contract"
| "response_contract OpkgRootStatusFile = Some opkg_response_contract"

fun valid_shape :: "capability_requirement \<Rightarrow> bool" where
  "valid_shape (UbusMethod object method arguments contract) =
     (ubus_identifier object \<and> ubus_identifier method
      \<and> length arguments \<le> max_observed_arguments
      \<and> list_all (\<lambda>(name, _). identifier_ok name) arguments \<and> response_identifier contract)"
| "valid_shape _ = True"

definition argument_kind :: "(string, parameter) btree_map \<Rightarrow> json \<Rightarrow> core_error + parameter_kind" where
  "argument_kind parameters value = (case value of
       JStr s \<Rightarrow> (case parameter_reference s of
           Some p \<Rightarrow> and_then (ok_or InvalidDefinition (map_of parameters p)) (\<lambda>q. Ok (p_kind q))
         | None \<Rightarrow> Ok PK_String)
     | JBool _ \<Rightarrow> Ok PK_Boolean
     | JNum _ \<Rightarrow> if checked_integer value then Ok PK_Integer else Err InvalidDefinition
     | _ \<Rightarrow> Err InvalidDefinition)"

fun validate_for ::
    "capability_requirement \<Rightarrow> action \<Rightarrow> (string, parameter) btree_map \<Rightarrow> core_error + unit" where
  "validate_for req act parameters =
     (if \<not> valid_shape req then Err InvalidDefinition
      else case (req, act) of
          (ApkInstalledQuery, ApkInstalledPage) \<Rightarrow> Ok ()
        | (OpkgRootStatusFile, OpkgStatusPage) \<Rightarrow> Ok ()
        | (Unverified, Process _ _) \<Rightarrow> Ok ()
        | (UbusMethod object method arguments _, Ubus action_object action_method action_arguments) \<Rightarrow>
            if object = action_object \<and> method = action_method
              \<and> length arguments = length action_arguments
            then check_all (\<lambda>(name, value).
                   and_then (argument_kind parameters value) (\<lambda>kind.
                     ensure (map_of arguments name = Some kind) InvalidDefinition)) action_arguments
            else Err InvalidDefinition
        | _ \<Rightarrow> Err InvalidDefinition)"

fun expected_type :: "parameter_kind \<Rightarrow> ubus_argument_type" where
  "expected_type PK_String = UT_String"
| "expected_type PK_Integer = UT_Integer"
| "expected_type PK_Boolean = UT_Boolean"

text \<open>
  The argument loop, returning a verdict early as \<^verbatim>\<open>Err\<close>; the state is the pair of flags
  \<^verbatim>\<open>unknown_type\<close> and \<^verbatim>\<open>incomplete\<close>.
\<close>

definition check_argument ::
    "(string, json) btree_map option \<Rightarrow> method_signature \<Rightarrow> string \<times> parameter_kind
     \<Rightarrow> bool \<times> bool \<Rightarrow> verdict + bool \<times> bool" where
  "check_argument actual sig = (\<lambda>(name, kind) (unknown_type, incomplete).
     if (case actual of None \<Rightarrow> False | Some vs \<Rightarrow> \<not> bt_contains_key vs name)
     then Ok (unknown_type, incomplete)
     else case map_of (sig_arguments sig) name of
         None \<Rightarrow> Ok (unknown_type, True)
       | Some observed \<Rightarrow>
           if observed = UT_Unknown then Ok (True, incomplete)
           else if observed \<noteq> expected_type kind then Err (Incompatible ArgumentTypeMismatch)
           else Ok (unknown_type, incomplete))"

definition prepared_arguments ::
    "string \<Rightarrow> string \<Rightarrow> (string, parameter_kind) btree_map \<Rightarrow> prepared_action option
     \<Rightarrow> verdict + (string, json) btree_map option" where
  "prepared_arguments object method arguments prepared = (case prepared of
       None \<Rightarrow> Ok None
     | Some (PA_Ubus actual_object actual_method actual_arguments) \<Rightarrow>
         if actual_object = object \<and> actual_method = method
         then (case as_object actual_arguments of
             None \<Rightarrow> Err (Incompatible InvalidPreparedAction)
           | Some actual \<Rightarrow>
               if length actual > length arguments
                 \<or> list_ex (\<lambda>(name, value). \<not> (case map_of arguments name of
                       None \<Rightarrow> False | Some kind \<Rightarrow> value_matches value kind)) actual
               then Err (Incompatible InvalidPreparedAction) else Ok (Some actual))
         else Err (Incompatible InvalidPreparedAction)
     | Some _ \<Rightarrow> Err (Incompatible InvalidPreparedAction))"

fun verdict_or :: "verdict + verdict \<Rightarrow> verdict" where
  "verdict_or (Inl v) = v"
| "verdict_or (Inr v) = v"

definition evaluate ::
    "capability_requirement \<Rightarrow> capability_observation \<Rightarrow> prepared_action option \<Rightarrow> verdict" where
  "evaluate req observation prepared = (case req of
       UbusMethod object method arguments _ \<Rightarrow>
         if \<not> valid_shape req then V_Unknown InvalidObservation
         else (case probe_object req of
             None \<Rightarrow> V_Unknown UnreviewedProbe
           | Some reviewed \<Rightarrow>
               verdict_or
                 (and_then (prepared_arguments object method arguments prepared) (\<lambda>actual.
                  case observation of
                    CO_Unknown reason \<Rightarrow> Err (V_Unknown reason)
                  | CO_Ubus ob \<Rightarrow>
                      if obs_object ob \<noteq> reviewed \<or> \<not> is_ok (object_observation_validate ob)
                      then Err (V_Unknown InvalidObservation)
                      else (case map_of (obs_methods ob) method of
                          None \<Rightarrow> Err (V_Unknown NotObservedOrHidden)
                        | Some sig \<Rightarrow>
                            and_then (fold_res (check_argument actual sig) arguments (False, False))
                              (\<lambda>(unknown_type, incomplete).
                                Ok (if incomplete then V_Unknown IncompleteSignature
                                    else if unknown_type then V_Unknown UnrecognizedType
                                    else Compatible))))))
     | _ \<Rightarrow> V_Unknown UnreviewedProbe)"

section \<open>Reviewed names\<close>

lemma reviewed_from_name_Some:
  "reviewed_from_name n = Some r \<longleftrightarrow> n = reviewed_name r"
proof
  assume "reviewed_from_name n = Some r"
  then show "n = reviewed_name r" by (auto simp: reviewed_from_name_def find_Some_iff)
next
  assume "n = reviewed_name r"
  then show "reviewed_from_name n = Some r"
    by (cases r) (simp_all add: reviewed_from_name_def all_reviewed_def)
qed

section \<open>When a verdict is Compatible\<close>

text \<open>The fields a call transmits: all declared ones for a status query.\<close>

definition transmitted :: "(string, json) btree_map option \<Rightarrow> string \<Rightarrow> bool" where
  "transmitted actual name = (case actual of None \<Rightarrow> True | Some vs \<Rightarrow> name \<in> fst ` set vs)"

lemma check_arguments_ok:
  "fold_res (check_argument actual sig) args (u, i) = Ok (u', i') \<Longrightarrow>
     (\<not> u' \<and> \<not> i') = (\<not> u \<and> \<not> i \<and> (\<forall>(name, kind) \<in> set args. transmitted actual name \<longrightarrow>
        map_of (sig_arguments sig) name = Some (expected_type kind)))"
proof (induction args arbitrary: u i)
  case (Cons a args)
  obtain name kind where a: "a = (name, kind)" by (cases a)
  from Cons.prems obtain u1 i1 where step: "check_argument actual sig a (u, i) = Ok (u1, i1)"
    "fold_res (check_argument actual sig) args (u1, i1) = Ok (u', i')"
    by (auto simp: res_simps)
  have "(\<not> u1 \<and> \<not> i1) = (\<not> u \<and> \<not> i \<and> (transmitted actual name \<longrightarrow>
      map_of (sig_arguments sig) name = Some (expected_type kind)))"
    using step(1)
    by (cases kind) (auto simp: a check_argument_def transmitted_def split: if_splits option.splits)
  with Cons.IH [OF step(2)] show ?case by (auto simp: a)
qed simp

lemma check_arguments_err:
  "fold_res (check_argument actual sig) args st = Err v \<Longrightarrow> v = Incompatible ArgumentTypeMismatch"
proof (induction args arbitrary: st)
  case (Cons a args)
  then show ?case
    by (cases "check_argument actual sig a st")
      (auto simp: check_argument_def split: if_splits option.splits prod.splits)
qed simp

lemma check_arguments_accept:
  assumes "\<forall>(name, kind) \<in> set args. transmitted actual name \<longrightarrow>
    map_of (sig_arguments sig) name = Some (expected_type kind)"
  shows "fold_res (check_argument actual sig) args (False, False) = Ok (False, False)"
  using assms
proof (induction args)
  case (Cons a args)
  obtain name kind where a: "a = (name, kind)" by (cases a)
  have "check_argument actual sig a (False, False) = Ok (False, False)"
    using Cons.prems
    by (cases kind) (auto simp: a check_argument_def transmitted_def split: option.splits)
  with Cons show ?case by simp
qed simp

text \<open>The specification: the call, and the observed signature that fits it.\<close>

fun call_arguments ::
    "string \<Rightarrow> string \<Rightarrow> (string, parameter_kind) btree_map \<Rightarrow> prepared_action option
     \<Rightarrow> (string, json) btree_map option \<Rightarrow> bool" where
  "call_arguments object method arguments None actual = (actual = None)"
| "call_arguments object method arguments (Some p) actual =
     (\<exists>vs. p = PA_Ubus object method (JObj vs) \<and> actual = Some vs \<and> length vs \<le> length arguments
       \<and> (\<forall>(name, v) \<in> set vs. \<exists>kind. map_of arguments name = Some kind \<and> value_matches v kind))"

definition signature_fits ::
    "(string, parameter_kind) btree_map \<Rightarrow> (string, json) btree_map option \<Rightarrow> method_signature \<Rightarrow> bool" where
  "signature_fits arguments actual sig \<longleftrightarrow> (\<forall>(name, kind) \<in> set arguments.
     transmitted actual name \<longrightarrow> map_of (sig_arguments sig) name = Some (expected_type kind))"

lemma prepared_arguments_Ok:
  "prepared_arguments object method arguments prepared = Ok actual
     \<longleftrightarrow> call_arguments object method arguments prepared actual"
proof (cases prepared)
  case (Some p)
  show ?thesis
  proof (cases p)
    case (PA_Ubus o' m' v)
    have "(\<exists>x \<in> set vs. case x of (name, value) \<Rightarrow> \<not> (case map_of arguments name of
          None \<Rightarrow> False | Some kind \<Rightarrow> value_matches value kind))
      \<longleftrightarrow> \<not> (\<forall>(name, v) \<in> set vs. \<exists>kind. map_of arguments name = Some kind \<and> value_matches v kind)" for vs
      by (force split: option.splits)
    with Some PA_Ubus show ?thesis
      by (cases "as_object v") (auto simp: prepared_arguments_def list_ex_iff)
  qed (use Some in \<open>auto simp: prepared_arguments_def\<close>)
qed (auto simp: prepared_arguments_def)

lemma prepared_arguments_Err:
  "prepared_arguments object method arguments prepared = Err v \<Longrightarrow> v = Incompatible InvalidPreparedAction"
  by (auto simp: prepared_arguments_def split: option.splits prepared_action.splits if_splits)

text \<open>
  Property C18: the verdict is \<open>Compatible\<close> exactly when the requirement is a well-formed ubus
  method of a reviewed object, the observation is a valid one of that very object and lists
  the method, the call (if there is one) is that method with declared, well-typed arguments,
  and each argument it transmits was observed with exactly the expected type.
\<close>

theorem evaluate_compatible_iff:
  "evaluate req observation prepared = Compatible \<longleftrightarrow>
     (\<exists>r method arguments contract ob sig actual.
        req = UbusMethod (reviewed_name r) method arguments contract \<and> valid_shape req
        \<and> observation = CO_Ubus ob \<and> obs_object ob = r \<and> is_ok (object_observation_validate ob)
        \<and> map_of (obs_methods ob) method = Some sig
        \<and> call_arguments (reviewed_name r) method arguments prepared actual
        \<and> signature_fits arguments actual sig)" (is "?lhs \<longleftrightarrow> ?rhs")
proof
  assume ?rhs
  then obtain r meth arguments contract ob sig actual where
    eqs: "req = UbusMethod (reviewed_name r) meth arguments contract" "valid_shape req"
      "observation = CO_Ubus ob" "obs_object ob = r" "is_ok (object_observation_validate ob)"
      "map_of (obs_methods ob) meth = Some sig"
      "prepared_arguments (reviewed_name r) meth arguments prepared = Ok actual"
      "signature_fits arguments actual sig"
    unfolding prepared_arguments_Ok by blast
  have "fold_res (check_argument actual sig) arguments (False, False) = Ok (False, False)"
    using eqs(8) by (intro check_arguments_accept) (simp add: signature_fits_def)
  moreover have "reviewed_from_name (reviewed_name r) = Some r" by (simp add: reviewed_from_name_Some)
  ultimately show ?lhs using eqs by (simp add: evaluate_def)
next
  assume lhs: ?lhs
  then obtain object meth arguments contract r where
    req: "req = UbusMethod object meth arguments contract" "valid_shape req" "object = reviewed_name r"
    by (auto simp: evaluate_def reviewed_from_name_Some split: capability_requirement.splits if_splits option.splits)
  have from_name: "reviewed_from_name object = Some r" using req(3) by (simp add: reviewed_from_name_Some)
  obtain actual where actual: "prepared_arguments object meth arguments prepared = Ok actual"
    using lhs req from_name
    by (cases "prepared_arguments object meth arguments prepared")
      (auto simp: evaluate_def dest: prepared_arguments_Err)
  obtain ob where ob: "observation = CO_Ubus ob" "obs_object ob = r" "is_ok (object_observation_validate ob)"
    using lhs req from_name actual
    by (cases observation) (auto simp: evaluate_def split: if_splits)
  obtain sig where sig: "map_of (obs_methods ob) meth = Some sig"
    using lhs req from_name actual ob by (cases "map_of (obs_methods ob) meth") (auto simp: evaluate_def)
  obtain st where run: "fold_res (check_argument actual sig) arguments (False, False) = Ok st"
    using lhs req from_name actual ob sig
    by (cases "fold_res (check_argument actual sig) arguments (False, False)")
      (auto simp: evaluate_def dest: check_arguments_err)
  moreover obtain u i where st: "st = (u, i)" by (cases st)
  moreover have "\<not> u \<and> \<not> i"
    using lhs req from_name actual ob sig run st by (auto simp: evaluate_def split: if_splits)
  ultimately have "signature_fits arguments actual sig"
    using check_arguments_ok [of actual sig arguments False False u i] by (simp add: signature_fits_def)
  with req ob sig actual show ?rhs unfolding prepared_arguments_Ok by blast
qed

end
