(* ===== verification/Packages.thy ===== *)
theory Packages
  imports Budget
begin

text \<open>
  Package observations and their pages, \<^verbatim>\<open>core/src/packages.rs\<close>. An observation is
  built once from all records, validated and put in a fixed order; a page is sixteen records
  and a cursor for the next page. A nonce of sixteen bytes is a \<open>string\<close> of length 16.
\<close>

definition max_package_source_bytes :: nat where [limit_defs]: "max_package_source_bytes = 4 * 1024 * 1024"
definition max_package_records :: nat where [limit_defs]: "max_package_records = 4096"
definition max_package_retained_bytes :: nat where [limit_defs]: "max_package_retained_bytes = 2 * 1024 * 1024"
definition package_page_records :: nat where [limit_defs]: "package_page_records = 16"
definition max_opkg_status_bytes :: nat where [limit_defs]: "max_opkg_status_bytes = 128"

datatype package_profile = Apk3_0_5 | Opkg38eccbb1RootStatus

record package_record =
  pr_name :: string
  pr_version :: string
  pr_arch :: string
  pr_layer :: nat

record opkg_status_record =
  os_name :: string
  os_version :: string
  os_arch :: string
  os_status :: string

datatype package_records = Apk "package_record list" | Opkg "opkg_status_record list"

record package_observation =
  po_records :: package_records

text \<open>The inner loop of both constructors: one bounded text of a row.\<close>

definition retain_text :: "string \<times> nat \<Rightarrow> nat \<Rightarrow> core_error + nat" where
  "retain_text = (\<lambda>(t, maximum) retained.
     if t = [] \<or> length t > maximum \<or> has_control t then Err InvalidOutput
     else and_then (ok_or OutputLimit (checked_add retained (length t))) (\<lambda>retained.
       if retained > max_package_retained_bytes then Err OutputLimit else Ok retained))"

definition apk_texts :: "package_record \<Rightarrow> (string \<times> nat) list" where
  "apk_texts row = [(pr_name row, 256), (pr_version row, 256), (pr_arch row, 64)]"

definition opkg_texts :: "opkg_status_record \<Rightarrow> (string \<times> nat) list" where
  "opkg_texts row = [(os_name row, 256), (os_version row, 256), (os_arch row, 64),
     (os_status row, max_opkg_status_bytes)]"

definition retain_apk :: "package_record \<Rightarrow> nat \<Rightarrow> core_error + nat" where
  "retain_apk row retained =
     and_then (fold_res retain_text (apk_texts row) retained) (\<lambda>retained.
       if pr_layer row > 1 then Err InvalidOutput else Ok retained)"

definition retain_opkg :: "opkg_status_record \<Rightarrow> nat \<Rightarrow> core_error + nat" where
  "retain_opkg row retained = fold_res retain_text (opkg_texts row) retained"

definition package_observation_new :: "package_record list \<Rightarrow> core_error + package_observation" where
  "package_observation_new records =
     (if length records > max_package_records then Err OutputLimit
      else and_then (fold_res retain_apk records 0) (\<lambda>_.
        let records = sort_key (\<lambda>r. (pr_layer r, pr_name r)) records in
        if windows2_any (\<lambda>a b. pr_layer a = pr_layer b \<and> pr_name a = pr_name b) records
        then Err InvalidOutput else Ok \<lparr>po_records = Apk records\<rparr>))"

definition new_opkg_status :: "opkg_status_record list \<Rightarrow> core_error + package_observation" where
  "new_opkg_status records =
     (if length records > max_package_records then Err OutputLimit
      else and_then (fold_res retain_opkg records 0) (\<lambda>_.
        let records = sort_key os_name records in
        if windows2_any (\<lambda>a b. os_name a = os_name b) records
        then Err InvalidOutput else Ok \<lparr>po_records = Opkg records\<rparr>))"

definition observation_profile :: "package_observation \<Rightarrow> package_profile" where
  "observation_profile o' = (case po_records o' of Apk _ \<Rightarrow> Apk3_0_5 | Opkg _ \<Rightarrow> Opkg38eccbb1RootStatus)"

section \<open>Cursors\<close>

record package_cursor =
  cur_nonce :: string
  cur_offset :: nat

definition zero_nonce :: string where "zero_nonce = replicate 16 NUL"

definition hex_byte :: "char \<Rightarrow> string" where
  "hex_byte c = [hex_digit (byte c div 16), hex_digit (byte c mod 16)]"

definition cursor_encode :: "string \<Rightarrow> nat \<Rightarrow> string" where
  "cursor_encode nonce offset = concat (map hex_byte nonce) @ ''.'' @ dec_digits offset"

definition hex_value :: "char \<Rightarrow> nat option" where
  "hex_value c =
     (if is_ascii_digit c then Some (byte c - 48)
      else if 97 \<le> byte c \<and> byte c \<le> 102 then Some (byte c - 87)
      else if 65 \<le> byte c \<and> byte c \<le> 70 then Some (byte c - 55) else None)"

text \<open>\<^verbatim>\<open>u8::from_str_radix(.., 16)\<close> on each two characters in turn.\<close>

fun parse_hex :: "string \<Rightarrow> core_error + string" where
  "parse_hex [] = Ok []"
| "parse_hex [c] = Err InvalidArguments"
| "parse_hex (a # b # s) =
     and_then (ok_or InvalidArguments (hex_value a)) (\<lambda>x.
     and_then (ok_or InvalidArguments (hex_value b)) (\<lambda>y.
     and_then (parse_hex s) (\<lambda>r. Ok (char_of (16 * x + y) # r))))"

definition cursor_parse :: "string \<Rightarrow> core_error + package_cursor" where
  "cursor_parse v =
     (if length v > 37 then Err InvalidArguments
      else and_then (ok_or InvalidArguments (split_once (CHR ''.'') v)) (\<lambda>(hex, offset).
        if length hex \<noteq> 32
          \<or> \<not> list_all (\<lambda>b. is_ascii_digit b \<or> (97 \<le> byte b \<and> byte b \<le> 102)) hex
        then Err InvalidArguments
        else and_then (parse_hex hex) (\<lambda>nonce.
             and_then (ok_or InvalidArguments (parse_unsigned usize_max offset)) (\<lambda>number.
               if nonce = zero_nonce \<or> number = 0 \<or> number \<ge> max_package_records
                 \<or> number mod package_page_records \<noteq> 0 \<or> dec_digits number \<noteq> offset
               then Err InvalidArguments
               else Ok \<lparr>cur_nonce = nonce, cur_offset = number\<rparr>))))"

section \<open>Pages\<close>

text \<open>The derived serializations of the two record types, in key order.\<close>

definition apk_json :: "package_record \<Rightarrow> json" where
  "apk_json row = JObj [(''arch'', JStr (pr_arch row)), (''layer'', json_nat (pr_layer row)),
     (''name'', JStr (pr_name row)), (''version'', JStr (pr_version row))]"

definition opkg_json :: "opkg_status_record \<Rightarrow> json" where
  "opkg_json row = JObj [(''arch'', JStr (os_arch row)), (''name'', JStr (os_name row)),
     (''status'', JStr (os_status row)), (''version'', JStr (os_version row))]"

fun rows_json :: "package_records \<Rightarrow> json list" where
  "rows_json (Apk rows) = map apk_json rows"
| "rows_json (Opkg rows) = map opkg_json rows"

fun records_source :: "package_records \<Rightarrow> string" where
  "records_source (Apk _) = ''apk_3_0_5''"
| "records_source (Opkg _) = ''opkg_38eccbb1''"

fun records_scope :: "package_records \<Rightarrow> string" where
  "records_scope (Apk _) = ''apk_query_installed_visible''"
| "records_scope (Opkg _) = ''opkg_root_status_file''"

fun records_count :: "package_records \<Rightarrow> nat" where
  "records_count (Apk rows) = length rows"
| "records_count (Opkg rows) = length rows"

definition page_items :: "package_observation \<Rightarrow> nat \<Rightarrow> nat \<Rightarrow> json list" where
  "page_items o' offset finish = take (finish - offset) (drop offset (rows_json (po_records o')))"

definition page_body :: "package_observation \<Rightarrow> string \<Rightarrow> nat \<Rightarrow> nat \<Rightarrow> json" where
  "page_body o' nonce offset finish = (let n = records_count (po_records o') in
     JObj (bt_of_list
       ([(''source'', JStr (records_source (po_records o'))),
         (''scope'', JStr (records_scope (po_records o'))),
         (''consistency'', JStr ''non_atomic_observation''),
         (''whole_device_complete'', JBool False),
         (''captured_count'', json_nat n), (''offset'', json_nat offset),
         (''items'', JArr (page_items o' offset finish))]
        @ (if finish < n then [(''next_cursor'', JStr (cursor_encode nonce finish))] else []))))"

definition page :: "package_observation \<Rightarrow> string \<Rightarrow> nat \<Rightarrow> core_error + json" where
  "page o' nonce offset = (let n = records_count (po_records o') in
     if nonce = zero_nonce \<or> offset mod package_page_records \<noteq> 0 \<or> (offset \<noteq> 0 \<and> offset \<ge> n)
     then Err InvalidArguments
     else let finish = min (saturating_add offset package_page_records) n;
              result = page_body o' nonce offset finish
          in and_then (check_normalized_result result) (\<lambda>_. Ok result))"

section \<open>The cursor is canonical\<close>

lemma byte_less: "byte c < 256"
  by (rule nat_of_char_less_256)

lemma byte_hex_digit: "n < 16 \<Longrightarrow> byte (hex_digit n) = (if n < 10 then 48 + n else 87 + n)"
  by (simp add: hex_digit_def)

lemma hex_digit_value: "n < 16 \<Longrightarrow> hex_value (hex_digit n) = Some n"
  by (simp add: hex_value_def is_ascii_digit_def byte_hex_digit)

lemma hex_digit_lower:
  "n < 16 \<Longrightarrow> is_ascii_digit (hex_digit n) \<or> (97 \<le> byte (hex_digit n) \<and> byte (hex_digit n) \<le> 102)"
  by (simp add: is_ascii_digit_def byte_hex_digit)

lemma hex_value_digit:
  assumes "is_ascii_digit c \<or> (97 \<le> byte c \<and> byte c \<le> 102)"
  shows "\<exists>n < 16. hex_value c = Some n \<and> c = hex_digit n"
proof -
  consider "48 \<le> byte c" "byte c \<le> 57" | "97 \<le> byte c" "byte c \<le> 102"
    using assms by (auto simp: is_ascii_digit_def)
  then show ?thesis
  proof cases
    case 1
    then have "char_of (48 + (byte c - 48)) = c" by simp
    moreover have "byte c - 48 < 10" using 1 by linarith
    ultimately show ?thesis using 1
      by (intro exI [of _ "byte c - 48"]) (simp add: hex_value_def is_ascii_digit_def hex_digit_def)
  next
    case 2
    then have "char_of (87 + (byte c - 87)) = c" by simp
    moreover have "10 \<le> byte c - 87" "byte c - 87 < 16" using 2 by linarith+
    ultimately show ?thesis using 2
      by (intro exI [of _ "byte c - 87"]) (simp add: hex_value_def is_ascii_digit_def hex_digit_def)
  qed
qed

lemma hex_byte_facts:
  "parse_hex (hex_byte c @ s) = and_then (parse_hex s) (\<lambda>r. Ok (c # r))"
  "length (hex_byte c) = 2"
  "list_all (\<lambda>b. is_ascii_digit b \<or> (97 \<le> byte b \<and> byte b \<le> 102)) (hex_byte c)"
proof -
  have lt: "byte c div 16 < 16" "byte c mod 16 < 16" using byte_less [of c] by (simp_all add: less_mult_imp_div_less)
  then show "list_all (\<lambda>b. is_ascii_digit b \<or> (97 \<le> byte b \<and> byte b \<le> 102)) (hex_byte c)"
    unfolding hex_byte_def by (simp add: hex_digit_lower)
  have "char_of (16 * (byte c div 16) + byte c mod 16) = c" by simp
  then show "parse_hex (hex_byte c @ s) = and_then (parse_hex s) (\<lambda>r. Ok (c # r))"
    using lt by (simp add: hex_byte_def hex_digit_value)
  show "length (hex_byte c) = 2" by (simp add: hex_byte_def)
qed

lemma parse_hex_encode: "parse_hex (concat (map hex_byte nonce)) = Ok nonce"
  by (induction nonce) (simp_all add: hex_byte_facts)

lemma length_hex: "length (concat (map hex_byte nonce)) = 2 * length nonce"
  by (induction nonce) (simp_all add: hex_byte_facts)

lemma list_all_hex:
  "list_all (\<lambda>b. is_ascii_digit b \<or> (97 \<le> byte b \<and> byte b \<le> 102)) (concat (map hex_byte nonce))"
  by (induction nonce) (simp_all add: hex_byte_facts)

lemma parse_hex_canonical:
  assumes "parse_hex s = Ok nonce"
    and "list_all (\<lambda>b. is_ascii_digit b \<or> (97 \<le> byte b \<and> byte b \<le> 102)) s"
  shows "s = concat (map hex_byte nonce)"
  using assms
proof (induction s arbitrary: nonce rule: parse_hex.induct)
  case (3 a b s)
  obtain x where x: "x < 16" "hex_value a = Some x" "a = hex_digit x"
    using hex_value_digit [of a] "3.prems"(2) by auto
  obtain y where y: "y < 16" "hex_value b = Some y" "b = hex_digit y"
    using hex_value_digit [of b] "3.prems"(2) by auto
  from "3.prems"(1) x(2) y(2) obtain r where r: "parse_hex s = Ok r" "nonce = char_of (16 * x + y) # r"
    by (auto simp: res_simps)
  have "byte (char_of (16 * x + y) :: char) = 16 * x + y" using x(1) y(1) by (simp add: of_char_of)
  then have "hex_byte (char_of (16 * x + y)) = [a, b]" using x y by (simp add: hex_byte_def)
  moreover have "s = concat (map hex_byte r)"
    using "3.IH" [of x y r] "3.prems"(2) r(1) x(2) y(2) by simp
  ultimately show ?case by (simp add: r(2))
qed auto

definition valid_cursor :: "package_cursor \<Rightarrow> bool" where
  "valid_cursor c \<longleftrightarrow> length (cur_nonce c) = 16 \<and> cur_nonce c \<noteq> zero_nonce
     \<and> 0 < cur_offset c \<and> cur_offset c < max_package_records \<and> cur_offset c mod package_page_records = 0"

text \<open>
  Property C21: cursors round-trip. A text is accepted with a given nonce and offset exactly when
  these are a valid cursor and the text is the encoding of them; so parsing inverts encoding
  and no two texts denote the same cursor.
\<close>

theorem cursor_parse_iff:
  "cursor_parse v = Ok c \<longleftrightarrow> valid_cursor c \<and> v = cursor_encode (cur_nonce c) (cur_offset c)"
proof
  assume "cursor_parse v = Ok c"
  then obtain hex offset nonce n where
    v: "v = hex @ CHR ''.'' # offset" and hex: "length hex = 32"
      "list_all (\<lambda>b. is_ascii_digit b \<or> (97 \<le> byte b \<and> byte b \<le> 102)) hex" "parse_hex hex = Ok nonce"
    and n: "nonce \<noteq> zero_nonce" "n \<noteq> 0" "n < max_package_records" "n mod package_page_records = 0"
      "dec_digits n = offset" "c = \<lparr>cur_nonce = nonce, cur_offset = n\<rparr>"
    by (auto simp: cursor_parse_def res_simps split_once_Some split: if_splits)
  have "hex = concat (map hex_byte nonce)" using parse_hex_canonical hex by blast
  moreover from this hex(1) have "length nonce = 16" by (simp add: length_hex)
  ultimately show "valid_cursor c \<and> v = cursor_encode (cur_nonce c) (cur_offset c)"
    using v n by (simp add: valid_cursor_def cursor_encode_def)
next
  assume asm: "valid_cursor c \<and> v = cursor_encode (cur_nonce c) (cur_offset c)"
  let ?hex = "concat (map hex_byte (cur_nonce c))" and ?n = "cur_offset c"
  have "list_all (\<lambda>b. is_ascii_digit b \<or> (97 \<le> byte b \<and> byte b \<le> 102)) ?hex" by (rule list_all_hex)
  then have "CHR ''.'' \<notin> set ?hex" unfolding list_all_iff is_ascii_digit_def by fastforce
  then have split: "split_once (CHR ''.'') v = Some (?hex, dec_digits ?n)"
    using asm by (simp add: split_once_Some cursor_encode_def)
  have "length (dec_digits ?n) \<le> 4"
    using asm by (intro length_dec_digits_le) (simp_all add: valid_cursor_def limit_defs)
  then have "length v \<le> 37" using asm by (simp add: cursor_encode_def length_hex valid_cursor_def)
  moreover have "?n \<le> usize_max" using asm by (simp add: valid_cursor_def limit_defs)
  ultimately show "cursor_parse v = Ok c"
    using asm split list_all_hex [of "cur_nonce c"] parse_hex_encode [of "cur_nonce c"]
    by (simp add: cursor_parse_def length_hex valid_cursor_def)
qed

section \<open>Observations\<close>

definition good_text :: "string \<times> nat \<Rightarrow> bool" where
  "good_text = (\<lambda>(t, m). t \<noteq> [] \<and> length t \<le> m \<and> \<not> has_control t)"

lemma retain_texts_Ok:
  "fold_res retain_text ts r = Ok r' \<Longrightarrow> list_all good_text ts \<and> r' = r + sum_list (map (length \<circ> fst) ts)"
proof (induction ts arbitrary: r)
  case (Cons t ts)
  obtain s m where t: "t = (s, m)" by (cases t)
  from Cons.prems obtain r1 where "retain_text t r = Ok r1" "fold_res retain_text ts r1 = Ok r'"
    by (auto simp: res_simps)
  with Cons.IH [OF this(2)] show ?case
    by (auto simp: t retain_text_def good_text_def res_simps split: if_splits)
qed simp

definition good_apk :: "package_record \<Rightarrow> bool" where
  "good_apk row \<longleftrightarrow> list_all good_text (apk_texts row) \<and> pr_layer row \<le> 1"

definition good_opkg :: "opkg_status_record \<Rightarrow> bool" where
  "good_opkg row \<longleftrightarrow> list_all good_text (opkg_texts row)"

fun good_records :: "package_records \<Rightarrow> bool" where
  "good_records (Apk rows) \<longleftrightarrow> length rows \<le> max_package_records \<and> list_all good_apk rows
     \<and> sorted_wrt (<) (map (\<lambda>r. (pr_layer r, pr_name r)) rows)"
| "good_records (Opkg rows) \<longleftrightarrow> length rows \<le> max_package_records \<and> list_all good_opkg rows
     \<and> sorted_wrt (<) (map os_name rows)"

lemma fold_retain_all:
  assumes "\<And>x r r'. f x r = Ok r' \<Longrightarrow> P x"
  shows "fold_res f xs r = Ok r' \<Longrightarrow> list_all P xs"
  by (induction xs arbitrary: r) (auto simp: res_simps dest: assms)

lemma sort_key_strict_pairs:
  assumes "\<not> windows2_any (\<lambda>a b. f a = f b) (sort_key f xs)"
  shows "sorted_wrt (<) (map f (sort_key f xs))"
  using assms strict_sorted_windows [of "map f (sort_key f xs)"] by (simp add: windows2_any_map)

lemma package_observation_new_good:
  assumes "package_observation_new rows = Ok ob"
  shows "\<exists>rs. po_records ob = Apk rs \<and> mset rs = mset rows \<and> good_records (po_records ob)"
proof -
  let ?rs = "sort_key (\<lambda>r. (pr_layer r, pr_name r)) rows"
  from assms obtain r where r: "fold_res retain_apk rows 0 = Ok r" "length rows \<le> max_package_records"
    and dup: "\<not> windows2_any (\<lambda>a b. (pr_layer a, pr_name a) = (pr_layer b, pr_name b)) ?rs"
    and ob: "ob = \<lparr>po_records = Apk ?rs\<rparr>"
    by (auto simp: package_observation_new_def res_simps Let_def split: if_splits)
  have "list_all good_apk rows" using r(1)
    by (rule fold_retain_all [rotated])
      (auto simp: retain_apk_def res_simps good_apk_def split: if_splits dest: retain_texts_Ok)
  then have "list_all good_apk ?rs" by (simp add: list_all_iff)
  moreover have "sorted_wrt (<) (map (\<lambda>r. (pr_layer r, pr_name r)) ?rs)" by (rule sort_key_strict_pairs [OF dup])
  ultimately show ?thesis using r(2) by (simp add: ob)
qed

text \<open>
  Property C20: an accepted package list keeps exactly the supplied records, each with bounded
  non-empty texts free of control characters, in strictly increasing order of layer and name,
  so that no package of a layer appears twice.
\<close>

theorem package_observation_new_sound:
  assumes "package_observation_new rows = Ok ob"
  shows "\<exists>rs. po_records ob = Apk rs \<and> mset rs = mset rows \<and> good_records (po_records ob)"
  using assms by (rule package_observation_new_good)

lemma new_opkg_status_sound:
  assumes "new_opkg_status rows = Ok ob"
  shows "\<exists>rs. po_records ob = Opkg rs \<and> mset rs = mset rows \<and> good_records (po_records ob)"
proof -
  let ?rs = "sort_key os_name rows"
  from assms obtain r where r: "fold_res retain_opkg rows 0 = Ok r" "length rows \<le> max_package_records"
    and dup: "\<not> windows2_any (\<lambda>a b. os_name a = os_name b) ?rs" and ob: "ob = \<lparr>po_records = Opkg ?rs\<rparr>"
    by (auto simp: new_opkg_status_def res_simps Let_def split: if_splits)
  have "list_all good_opkg rows" using r(1)
    by (rule fold_retain_all [rotated]) (auto simp: retain_opkg_def good_opkg_def dest: retain_texts_Ok)
  then have "list_all good_opkg ?rs" by (simp add: list_all_iff)
  moreover have "sorted_wrt (<) (map os_name ?rs)" by (rule sort_key_strict_pairs [OF dup])
  ultimately show ?thesis using r(2) by (simp add: ob)
qed

section \<open>A page always fits\<close>

lemma escape_cost_printable: "\<not> has_control (c # s) \<Longrightarrow> escape_cost c \<le> 2"
  by (auto simp: escape_cost_def)

lemma text_size_printable: "\<not> has_control s \<Longrightarrow> text_size s \<le> 2 + 2 * length s"
proof (induction s)
  case (Cons c s)
  then show ?case using escape_cost_printable [OF Cons.prems] by (simp add: text_size_def)
qed (simp add: text_size_def)

lemma good_text_size: "good_text (t, m) \<Longrightarrow> text_size t \<le> 2 + 2 * m"
  using text_size_printable [of t] by (simp add: good_text_def)

lemma json_nat_size: "json_size (json_nat n) \<le> 20"
proof -
  have "unat (of_nat n :: 64 word) < 2 ^ 64" by (rule order.strict_trans2 [OF unsigned_less]) simp
  then have "unat (of_nat n :: 64 word) < 10 ^ 20" by simp
  then show ?thesis unfolding json_nat_def by (simp only: json_text.simps number_text.simps) (rule length_dec_digits_le, simp_all)
qed

lemma plain_text_sizes [simp]:
  "text_size ''arch'' = 6" "text_size ''layer'' = 7" "text_size ''name'' = 6" "text_size ''version'' = 9"
  "text_size ''status'' = 8" "text_size ''source'' = 8" "text_size ''scope'' = 7"
  "text_size ''consistency'' = 13" "text_size ''whole_device_complete'' = 23"
  "text_size ''captured_count'' = 16" "text_size ''offset'' = 8" "text_size ''items'' = 7"
  "text_size ''next_cursor'' = 13" "text_size ''non_atomic_observation'' = 24"
  "text_size ''apk_3_0_5'' = 11" "text_size ''apk_query_installed_visible'' = 29"
  "text_size ''opkg_38eccbb1'' = 15" "text_size ''opkg_root_status_file'' = 23"
  by (simp_all add: text_size_def escape_cost_def)

lemma rows_json_bounds:
  assumes "good_records rs" and "v \<in> set (rows_json rs)"
  shows "json_size v \<le> 1500 \<and> json_nodes v = 5 \<and> json_depth v = 1"
proof (cases rs)
  case (Apk rows)
  with assms obtain row where row: "good_apk row" "v = apk_json row" by (auto simp: list_all_iff)
  then show ?thesis
    using good_text_size [of "pr_name row" 256] good_text_size [of "pr_version row" 256]
      good_text_size [of "pr_arch row" 64] json_nat_size [of "pr_layer row"]
    by (simp add: good_apk_def apk_texts_def apk_json_def commas_def) (simp add: json_nat_def)
next
  case (Opkg rows)
  with assms obtain row where row: "good_opkg row" "v = opkg_json row" by (auto simp: list_all_iff)
  then show ?thesis
    using good_text_size [of "os_name row" 256] good_text_size [of "os_version row" 256]
      good_text_size [of "os_arch row" 64] good_text_size [of "os_status row" 128]
    by (simp add: good_opkg_def opkg_texts_def opkg_json_def commas_def limit_defs)
qed

text \<open>Bounds for an object built by insertions.\<close>

lemma set_bt_insert_subset: "set (bt_insert k v m) \<subseteq> insert (k, v) (set m)"
  by (induction k v m rule: bt_insert.induct) auto

lemma set_bt_of_list_subset: "set (bt_of_list es) \<subseteq> set es"
proof -
  have "set (fold (\<lambda>(k, v). bt_insert k v) es m) \<subseteq> set es \<union> set m" for m
  proof (induction es arbitrary: m)
    case (Cons e es)
    obtain k v where e: "e = (k, v)" by (cases e)
    from Cons [of "bt_insert k v m"] set_bt_insert_subset [of k v m] show ?case by (auto simp: e)
  qed simp
  from this [of "[]"] show ?thesis by (simp add: bt_of_list_def)
qed

lemma sum_bt_insert:
  fixes f :: "'k::linorder \<times> 'v \<Rightarrow> nat"
  shows "sum_list (map f (bt_insert k v m)) \<le> f (k, v) + sum_list (map f m)"
  by (induction k v m rule: bt_insert.induct) auto

lemma sum_bt_of_list:
  fixes f :: "'k::linorder \<times> 'v \<Rightarrow> nat"
  shows "sum_list (map f (bt_of_list es)) \<le> sum_list (map f es)"
proof -
  have "sum_list (map f (fold (\<lambda>(k, v). bt_insert k v) es m)) \<le> sum_list (map f es) + sum_list (map f m)" for m
  proof (induction es arbitrary: m)
    case (Cons e es)
    obtain k v where e: "e = (k, v)" by (cases e)
    from Cons [of "bt_insert k v m"] sum_bt_insert [of f k v m] show ?case by (simp add: e)
  qed simp
  from this [of "[]"] show ?thesis by (simp add: bt_of_list_def)
qed

lemma json_size_of_list:
  "json_size (JObj (bt_of_list es)) \<le> 2 + sum_list (map (\<lambda>(k, v). text_size k + 2 + json_size v) es)"
proof -
  have "json_size (JObj fs) \<le> 2 + sum_list (map (\<lambda>(k, v). text_size k + 2 + json_size v) fs)" for fs
  proof -
    have "sum_list (map (\<lambda>(k, v). text_size k + 1 + json_size v) fs) + length fs
        = sum_list (map (\<lambda>(k, v). text_size k + 2 + json_size v) fs)"
      by (induction fs) auto
    then show ?thesis by (simp add: commas_def)
  qed
  from order_trans [OF this] sum_bt_of_list [of "\<lambda>(k, v). text_size k + 2 + json_size v" es]
  show ?thesis by (meson add_left_mono)
qed

lemma json_nodes_of_list:
  "json_nodes (JObj (bt_of_list es)) \<le> 1 + sum_list (map (\<lambda>(k, v). json_nodes v) es)"
  using sum_bt_of_list [of "\<lambda>(k, v). json_nodes v" es] by simp

lemma fields_depth_le: "\<forall>(k, v) \<in> set fs. json_depth v < d \<Longrightarrow> fields_depth fs \<le> d"
proof (induction fs)
  case (Cons f fs)
  obtain k v where "f = (k, v)" by (cases f)
  with Cons show ?case by simp
qed simp

lemma items_depth_le: "\<forall>v \<in> set xs. json_depth v < d \<Longrightarrow> items_depth xs \<le> d"
  by (induction xs) auto

lemma sum_list_le:
  fixes f :: "'a \<Rightarrow> nat"
  shows "\<forall>x \<in> set xs. f x \<le> c \<Longrightarrow> sum_list (map f xs) \<le> c * length xs"
  by (induction xs) auto

lemma page_items_bounds:
  assumes "good_records (po_records ob)" and "finish - offset \<le> 16"
  shows "json_size (JArr (page_items ob offset finish)) \<le> 24018"
    "json_nodes (JArr (page_items ob offset finish)) \<le> 81"
    "json_depth (JArr (page_items ob offset finish)) \<le> 2"
proof -
  let ?xs = "page_items ob offset finish"
  have len: "length ?xs \<le> 16" using assms(2) by (simp add: page_items_def min.coboundedI2)
  have "set ?xs \<subseteq> set (rows_json (po_records ob))"
    unfolding page_items_def by (meson set_drop_subset set_take_subset order_trans)
  then have rows: "\<forall>v \<in> set ?xs. json_size v \<le> 1500" "\<forall>v \<in> set ?xs. json_nodes v \<le> 5"
    "\<forall>v \<in> set ?xs. json_depth v < 2"
    using rows_json_bounds [OF assms(1)] by fastforce+
  show "json_size (JArr ?xs) \<le> 24018"
    using sum_list_le [OF rows(1)] len by (simp add: commas_def)
  show "json_nodes (JArr ?xs) \<le> 81" using sum_list_le [OF rows(2)] len by simp
  show "json_depth (JArr ?xs) \<le> 2" using items_depth_le [OF rows(3)] by simp
qed

lemma cursor_encode_size:
  assumes "length nonce = 16" and "n < 10 ^ 4"
  shows "text_size (cursor_encode nonce n) \<le> 76"
proof -
  have "length (cursor_encode nonce n) \<le> 37"
    using length_dec_digits_le [OF assms(2)] assms(1) by (simp add: cursor_encode_def length_hex)
  moreover have "\<not> has_control (cursor_encode nonce n)"
  proof -
    have digits: "list_all is_ascii_digit (dec_digits n)" by (rule dec_digits_all_digits)
    have "\<forall>c \<in> set (cursor_encode nonce n). 32 \<le> byte c \<and> byte c < 127"
      using list_all_hex [of nonce] digits
      unfolding cursor_encode_def list_all_iff is_ascii_digit_def by fastforce
    moreover have "\<forall>c \<in> set s. 32 \<le> byte c \<and> byte c < 127 \<Longrightarrow> \<not> has_control s" for s
      by (induction s) auto
    ultimately show ?thesis by blast
  qed
  ultimately show ?thesis using text_size_printable [of "cursor_encode nonce n"] by linarith
qed

lemma records_count_rows: "records_count rs = length (rows_json rs)"
  by (cases rs) simp_all

lemma good_records_count: "good_records rs \<Longrightarrow> records_count rs \<le> max_package_records"
  by (cases rs) simp_all

lemma page_body_fits:
  assumes "good_records (po_records ob)" and "length nonce = 16"
    and "finish - offset \<le> 16" and "finish \<le> records_count (po_records ob)"
  shows "check_normalized_result (page_body ob nonce offset finish) = Ok ()"
proof -
  let ?n = "records_count (po_records ob)"
  let ?es = "[(''source'', JStr (records_source (po_records ob))),
         (''scope'', JStr (records_scope (po_records ob))),
         (''consistency'', JStr ''non_atomic_observation''),
         (''whole_device_complete'', JBool False),
         (''captured_count'', json_nat ?n), (''offset'', json_nat offset),
         (''items'', JArr (page_items ob offset finish))]
        @ (if finish < ?n then [(''next_cursor'', JStr (cursor_encode nonce finish))] else [])"
  have body: "page_body ob nonce offset finish = JObj (bt_of_list ?es)"
    by (simp add: page_body_def Let_def)
  note items = page_items_bounds [OF assms(1,3)]
  have "finish < 10 ^ 4" using assms(4) good_records_count [OF assms(1)] by (simp add: limit_defs)
  note cur = cursor_encode_size [OF assms(2) this]
  have src: "text_size (records_source (po_records ob)) \<le> 30" "text_size (records_scope (po_records ob)) \<le> 30"
    by (cases "po_records ob"; simp)+
  have "sum_list (map (\<lambda>(k, v). text_size k + 2 + json_size v) ?es) \<le> 60000"
    using items(1) cur src json_nat_size [of ?n] json_nat_size [of offset] by auto
  then have "json_size (JObj (bt_of_list ?es)) \<le> max_normalized_bytes"
    using json_size_of_list [of ?es] unfolding limit_defs by linarith
  moreover have "json_nodes (JObj (bt_of_list ?es)) \<le> max_value_nodes"
  proof -
    have "sum_list (map (\<lambda>(k, v). json_nodes v) ?es) \<le> 100" using items(2) by (auto simp: json_nat_def)
    then show ?thesis using json_nodes_of_list [of ?es] unfolding limit_defs by linarith
  qed
  moreover have "json_depth (JObj (bt_of_list ?es)) \<le> max_value_depth"
  proof -
    have "\<forall>(k, v) \<in> set ?es. json_depth v < 3" using items(3) by (auto simp: json_nat_def)
    then have "\<forall>(k, v) \<in> set (bt_of_list ?es). json_depth v < 3" using set_bt_of_list_subset [of ?es] by blast
    from fields_depth_le [OF this] show ?thesis by (simp add: limit_defs)
  qed
  ultimately show ?thesis unfolding body check_normalized_result_eq by (simp only: simp_thms if_True)
qed

text \<open>
  For an observation built by either constructor, a page at every offset a cursor can
  hold succeeds: the sixteen records at worst still fit the normalized result limits. The only
  refusal is of invalid arguments.
\<close>

lemma page_total:
  assumes "package_observation_new rows = Ok ob \<or> new_opkg_status srows = Ok ob" and "length nonce = 16"
  shows "page ob nonce offset =
    (if nonce = zero_nonce \<or> offset mod 16 \<noteq> 0 \<or> (offset \<noteq> 0 \<and> records_count (po_records ob) \<le> offset)
     then Err InvalidArguments
     else Ok (page_body ob nonce offset (min (offset + 16) (records_count (po_records ob)))))"
proof -
  have good: "good_records (po_records ob)"
    using assms(1) package_observation_new_good new_opkg_status_sound by blast
  have count: "records_count (po_records ob) \<le> 4096"
    using good_records_count [OF good] by (simp add: limit_defs)
  show ?thesis
  proof (cases "nonce = zero_nonce \<or> offset mod 16 \<noteq> 0 \<or> (offset \<noteq> 0 \<and> records_count (po_records ob) \<le> offset)")
    case True
    then show ?thesis by (auto simp: page_def Let_def package_page_records_def)
  next
    case False
    then have "offset \<le> 4096" using count by auto
    then have "saturating_add offset 16 = offset + 16" by (simp add: saturating_add_def limit_defs)
    with False page_body_fits [OF good assms(2), of "min (offset + 16) (records_count (po_records ob))" offset]
    show ?thesis by (simp add: page_def Let_def package_page_records_def)
  qed
qed


definition sample_rows :: "package_record list" where
  "sample_rows = [\<lparr>pr_name = ''zlib'', pr_version = ''1.3'', pr_arch = ''mips'', pr_layer = 0\<rparr>,
     \<lparr>pr_name = ''busybox'', pr_version = ''1.36'', pr_arch = ''mips'', pr_layer = 0\<rparr>]"

definition sample_observation :: package_observation where
  "sample_observation = \<lparr>po_records = Apk (rev sample_rows)\<rparr>"

lemma sample_observation_built: "package_observation_new sample_rows = Ok sample_observation"
  by code_simp

lemma package_observation_new_sound_witness:
  "\<exists>rs. po_records sample_observation = Apk rs \<and> mset rs = mset sample_rows
     \<and> good_records (po_records sample_observation)"
  by (rule package_observation_new_sound [OF sample_observation_built])

end
