(* ===== verification/Uci.thy ===== *)
theory Uci
  imports Evaluate Capability Packages
begin

text \<open>
  Operation definitions (the types of \<^verbatim>\<open>core/src/operation.rs\<close>) and the closed list of
  configuration reads of \<^verbatim>\<open>core/src/uci.rs\<close>: an operation on the ubus object
  \<^verbatim>\<open>uci\<close> is admitted only as one of the reviewed, parameterless, typed reads.
\<close>

section \<open>Operations\<close>

datatype output_mode = Scalars | Structured | Typed typed_projection

record operation =
  op_name :: string
  description :: string
  requirements :: "requirement list"
  parameters :: "(string, parameter) btree_map"
  op_action :: action
  capability :: capability_requirement
  output_fields :: "string list"
  output_mode :: output_mode

section \<open>Read profiles\<close>

datatype uci_read_profile =
  UP_System | UP_NetworkInterfaces | UP_WirelessRadios | UP_FirewallDefaults | UP_Dnsmasq
| UP_Mounts | UP_Timeservers | UP_NetworkDevices | UP_BridgeVlans | UP_RoutesV4 | UP_RoutesV6
| UP_RulesV4 | UP_RulesV6 | UP_FirewallZones | UP_FirewallForwardings | UP_FirewallRules
| UP_FirewallRedirects | UP_FirewallNats | UP_DhcpPools | UP_DhcpHosts | UP_DnsDomains
| UP_DnsCnames | UP_StorageGlobals | UP_Swaps | UP_Leds | UP_Dropbear | UP_Uhttpd | UP_Odhcpd

definition all_profiles :: "uci_read_profile list" where
  "all_profiles = [UP_System, UP_NetworkInterfaces, UP_WirelessRadios, UP_FirewallDefaults,
     UP_Dnsmasq, UP_Mounts, UP_Timeservers, UP_NetworkDevices, UP_BridgeVlans, UP_RoutesV4,
     UP_RoutesV6, UP_RulesV4, UP_RulesV6, UP_FirewallZones, UP_FirewallForwardings,
     UP_FirewallRules, UP_FirewallRedirects, UP_FirewallNats, UP_DhcpPools, UP_DhcpHosts,
     UP_DnsDomains, UP_DnsCnames, UP_StorageGlobals, UP_Swaps, UP_Leds, UP_Dropbear, UP_Uhttpd,
     UP_Odhcpd]"

definition profile_config :: "uci_read_profile \<Rightarrow> string" where
  "profile_config p =
     (if p \<in> {UP_System, UP_Timeservers, UP_Leds} then ''system''
      else if p = UP_Dropbear then ''dropbear''
      else if p = UP_Uhttpd then ''uhttpd''
      else if p \<in> {UP_NetworkInterfaces, UP_NetworkDevices, UP_BridgeVlans, UP_RoutesV4,
                   UP_RoutesV6, UP_RulesV4, UP_RulesV6} then ''network''
      else if p = UP_WirelessRadios then ''wireless''
      else if p \<in> {UP_FirewallDefaults, UP_FirewallZones, UP_FirewallForwardings,
                   UP_FirewallRules, UP_FirewallRedirects, UP_FirewallNats} then ''firewall''
      else if p \<in> {UP_Dnsmasq, UP_DhcpPools, UP_DhcpHosts, UP_DnsDomains, UP_DnsCnames, UP_Odhcpd}
      then ''dhcp''
      else ''fstab'')"

fun profile_section_type :: "uci_read_profile \<Rightarrow> string" where
  "profile_section_type UP_System = ''system''"
| "profile_section_type UP_NetworkInterfaces = ''interface''"
| "profile_section_type UP_WirelessRadios = ''wifi-device''"
| "profile_section_type UP_FirewallDefaults = ''defaults''"
| "profile_section_type UP_Dnsmasq = ''dnsmasq''"
| "profile_section_type UP_Mounts = ''mount''"
| "profile_section_type UP_Timeservers = ''timeserver''"
| "profile_section_type UP_NetworkDevices = ''device''"
| "profile_section_type UP_BridgeVlans = ''bridge-vlan''"
| "profile_section_type UP_RoutesV4 = ''route''"
| "profile_section_type UP_RoutesV6 = ''route6''"
| "profile_section_type UP_RulesV4 = ''rule''"
| "profile_section_type UP_FirewallRules = ''rule''"
| "profile_section_type UP_RulesV6 = ''rule6''"
| "profile_section_type UP_FirewallZones = ''zone''"
| "profile_section_type UP_FirewallForwardings = ''forwarding''"
| "profile_section_type UP_FirewallRedirects = ''redirect''"
| "profile_section_type UP_FirewallNats = ''nat''"
| "profile_section_type UP_DhcpPools = ''dhcp''"
| "profile_section_type UP_DhcpHosts = ''host''"
| "profile_section_type UP_DnsDomains = ''domain''"
| "profile_section_type UP_DnsCnames = ''cname''"
| "profile_section_type UP_StorageGlobals = ''global''"
| "profile_section_type UP_Swaps = ''swap''"
| "profile_section_type UP_Leds = ''led''"
| "profile_section_type UP_Dropbear = ''dropbear''"
| "profile_section_type UP_Uhttpd = ''uhttpd''"
| "profile_section_type UP_Odhcpd = ''odhcpd''"

definition profile_category :: "uci_read_profile \<Rightarrow> category" where
  "profile_category p =
     (if p \<in> {UP_System, UP_Timeservers, UP_Leds, UP_Dropbear, UP_Uhttpd} then Cat_System
      else if p \<in> {UP_NetworkInterfaces, UP_NetworkDevices, UP_BridgeVlans, UP_RoutesV4,
                   UP_RoutesV6, UP_RulesV4, UP_RulesV6} then Cat_Network
      else if p = UP_WirelessRadios then Cat_Wireless
      else if p \<in> {UP_FirewallDefaults, UP_FirewallZones, UP_FirewallForwardings,
                   UP_FirewallRules, UP_FirewallRedirects, UP_FirewallNats} then Cat_Firewall
      else if p \<in> {UP_Dnsmasq, UP_DhcpPools, UP_DhcpHosts, UP_DnsDomains, UP_DnsCnames, UP_Odhcpd}
      then Cat_DhcpDns
      else Cat_Storage)"

definition find_profile :: "(string, json) btree_map \<Rightarrow> uci_read_profile option" where
  "find_profile arguments = List.find (\<lambda>p.
     Option.bind (map_of arguments ''config'') as_str = Some (profile_config p)
     \<and> Option.bind (map_of arguments ''type'') as_str = Some (profile_section_type p)) all_profiles"

fun is_text_option :: "'r collection \<Rightarrow> bool" where
  "is_text_option (TextOption _ _ _) = True"
| "is_text_option _ = False"

definition pins_section_type :: "uci_read_profile \<Rightarrow> scalar_field \<Rightarrow> bool" where
  "pins_section_type p field \<longleftrightarrow>
     f_source field = ''/.type'' \<and> f_presence field = Required
     \<and> (case f_value field of
          SK_TextEnum _ values \<Rightarrow> length values = 1 \<and> hd values = profile_section_type p
        | _ \<Rightarrow> False)"

definition validate_read :: "operation \<Rightarrow> core_error + unit" where
  "validate_read op = (case op_action op of
       Ubus object method arguments \<Rightarrow>
         if object \<noteq> ''uci'' then Ok ()
         else and_then (ok_or InvalidDefinition (find_profile arguments)) (\<lambda>profile.
           if method \<noteq> ''get'' \<or> length arguments \<noteq> 2 \<or> parameters op \<noteq> []
             \<or> \<lparr>category = profile_category profile, permission = Perm_Read\<rparr> \<notin> set (requirements op)
           then Err InvalidDefinition
           else (case output_mode op of
               Typed (TP_Collection guards (ObjectEntries source max_items key r) Sel_All) \<Rightarrow>
                 if source \<noteq> ''/values'' \<or> \<not> (1 \<le> max_items \<and> max_items \<le> 128)
                   \<or> \<not> (1 \<le> i_max_bytes key \<and> i_max_bytes key \<le> 256)
                   \<or> list_ex (\<lambda>f. \<not> is_text_option (c_collection f)) (r_collections r)
                   \<or> \<not> list_ex (\<lambda>path. path = ''/error'') guards
                   \<or> \<not> list_ex (pins_section_type profile) (r_fields r)
                 then Err InvalidDefinition else Ok ()
             | _ \<Rightarrow> Err InvalidDefinition))
     | _ \<Rightarrow> Ok ())"

section \<open>What an admitted configuration read is\<close>

text \<open>The profile is determined by the pair of configuration and section type.\<close>

lemma profile_key_inject:
  "profile_config p = profile_config q \<Longrightarrow> profile_section_type p = profile_section_type q \<Longrightarrow> p = q"
  by (cases p; cases q) (simp_all add: profile_config_def)

lemma all_profiles_complete: "p \<in> set all_profiles"
  by (cases p) (simp_all add: all_profiles_def)

lemma find_profile_Some:
  "find_profile arguments = Some p \<longleftrightarrow>
     map_of arguments ''config'' = Some (JStr (profile_config p))
     \<and> map_of arguments ''type'' = Some (JStr (profile_section_type p))" (is "?lhs \<longleftrightarrow> ?rhs")
proof
  assume ?lhs
  then show ?rhs by (auto simp: find_profile_def find_Some_iff bind_eq_Some_conv)
next
  assume rhs: ?rhs
  then have "find_profile arguments \<noteq> None"
    using all_profiles_complete [of p] by (auto simp: find_profile_def find_None_iff)
  then obtain q where q: "find_profile arguments = Some q" by auto
  then have "map_of arguments ''config'' = Some (JStr (profile_config q))"
    "map_of arguments ''type'' = Some (JStr (profile_section_type q))"
    by (auto simp: find_profile_def find_Some_iff bind_eq_Some_conv)
  with rhs have "p = q" by (intro profile_key_inject) simp_all
  with q show ?lhs by simp
qed

end
