(* ===== verification/Operation.thy ===== *)
theory Operation
  imports Uci
begin

text \<open>
  Validation, preparation and projection of operations: \<^verbatim>\<open>core/src/operation.rs\<close>,
  \<^verbatim>\<open>projection/legacy.rs\<close> and the invocation binding of \<^verbatim>\<open>projection.rs\<close>.

  Three functions of \<^verbatim>\<open>serde_json\<close> are parameters: \<open>encoded\<close> is the length of
  \<^verbatim>\<open>to_vec\<close> of a definition (\<open>None\<close> when it fails), \<open>pointer\<close> is
  \<^verbatim>\<open>Value::pointer\<close> and \<open>from_str\<close> is \<^verbatim>\<open>from_str\<close>.
\<close>

definition max_parameters :: nat where [limit_defs]: "max_parameters = 32"
definition max_arguments :: nat where [limit_defs]: "max_arguments = 64"
definition max_output_fields :: nat where [limit_defs]: "max_output_fields = 64"
definition max_definition_bytes :: nat where [limit_defs]: "max_definition_bytes = 16 * 1024"

fun package_profile_of :: "action \<Rightarrow> package_profile option" where
  "package_profile_of ApkInstalledPage = Some Apk3_0_5"
| "package_profile_of OpkgStatusPage = Some Opkg38eccbb1RootStatus"
| "package_profile_of _ = None"

fun package_page :: "prepared_action \<Rightarrow> (package_profile \<times> string option) option" where
  "package_page (PA_ApkInstalledPage c) = Some (Apk3_0_5, c)"
| "package_page (PA_OpkgStatusPage c) = Some (Opkg38eccbb1RootStatus, c)"
| "package_page _ = None"

fun is_ubus :: "action \<Rightarrow> bool" where
  "is_ubus (Ubus _ _ _) = True"
| "is_ubus _ = False"

section \<open>Lexical checks\<close>

definition valid_pointer :: "string \<Rightarrow> bool" where
  "valid_pointer pointer \<longleftrightarrow>
     take 1 pointer = ''/'' \<and> bounded_string pointer 512 \<and> valid_escapes pointer"

definition disjoint_output_fields :: "string list \<Rightarrow> bool" where
  "disjoint_output_fields pointers \<longleftrightarrow>
     length pointers \<le> max_output_fields \<and> list_all valid_pointer pointers
     \<and> \<not> overlapping (map (\<lambda>p. map decode_segment (pointer_parts p)) pointers)"

fun scalar_text :: "json \<Rightarrow> string option" where
  "scalar_text (JStr s) = Some s"
| "scalar_text (JNum (PosInt u)) = Some (number_text (PosInt u))"
| "scalar_text (JNum (NegInt i)) = Some (number_text (NegInt i))"
| "scalar_text (JBool b) = Some (if b then ''true'' else ''false'')"
| "scalar_text _ = None"

definition ends_with :: "string \<Rightarrow> string \<Rightarrow> bool" where
  "ends_with s t = (strip_suffix t s \<noteq> None)"

definition sensitive_key :: "string \<Rightarrow> bool" where
  "sensitive_key key = (let normalized = map to_ascii_lowercase (filter is_ascii_alphanumeric key) in
     ends_with normalized ''key'' \<or> contains_text ''psk'' normalized
     \<or> normalized = ''pin'' \<or> normalized = ''pwd'' \<or> normalized = ''sae''
     \<or> contains_text ''password'' normalized \<or> contains_text ''passwd'' normalized
     \<or> contains_text ''secret'' normalized \<or> contains_text ''token'' normalized
     \<or> contains_text ''privatekey'' normalized \<or> contains_text ''presharedkey'' normalized
     \<or> contains_text ''credential'' normalized \<or> contains_text ''qrcode'' normalized
     \<or> contains_text ''qrpayload'' normalized \<or> contains_text ''identity'' normalized
     \<or> contains_text ''authorization'' normalized \<or> contains_text ''cookie'' normalized)"

fun redact :: "json \<Rightarrow> json" where
  "redact (JObj fs) = JObj (map (\<lambda>(k, v). (k, redact v)) (filter (\<lambda>(k, _). \<not> sensitive_key k) fs))"
| "redact (JArr xs) = JArr (map redact xs)"
| "redact other = other"

section \<open>Validation\<close>

definition integer_text_ok :: "bool \<Rightarrow> string \<Rightarrow> bool" where
  "integer_text_ok ubus v =
     (if ubus then (case parse_signed 32 v of None \<Rightarrow> False | Some n \<Rightarrow> dec_int n = v)
      else (case parse_signed 64 v of None \<Rightarrow> False | Some n \<Rightarrow> dec_int n = v)
        \<or> (case parse_unsigned (2 ^ 64 - 1) v of None \<Rightarrow> False | Some n \<Rightarrow> dec_digits n = v))"

definition allowed_value_ok :: "action \<Rightarrow> parameter_kind \<Rightarrow> string \<Rightarrow> bool" where
  "allowed_value_ok act kind v = (case kind of
       PK_String \<Rightarrow> True
     | PK_Integer \<Rightarrow> integer_text_ok (is_ubus act) v
     | PK_Boolean \<Rightarrow> v = ''true'' \<or> v = ''false'')"

definition parameter_ok :: "action \<Rightarrow> string \<times> parameter \<Rightarrow> bool" where
  "parameter_ok act = (\<lambda>(name, p).
     identifier_ok name \<and> length (allowed_values p) \<le> 64
     \<and> list_all (\<lambda>v. bounded_string v max_value_bytes) (allowed_values p)
     \<and> \<not> has_duplicates (allowed_values p)
     \<and> list_all (allowed_value_ok act (p_kind p)) (allowed_values p))"

definition header_ok :: "operation \<Rightarrow> bool" where
  "header_ok op \<longleftrightarrow>
     identifier_ok (op_name op) \<and> op_name op \<noteq> capability_tool_name
     \<and> \<not> trims_to_empty (description op) \<and> bounded_string (description op) 512
     \<and> requirements op \<noteq> [] \<and> length (requirements op) \<le> 36
     \<and> length (parameters op) \<le> max_parameters
     \<and> \<not> has_duplicates (requirements op) \<and> disjoint_output_fields (output_fields op)"

definition validate_reference ::
    "(string, parameter) btree_map \<Rightarrow> string \<Rightarrow> string list \<Rightarrow> core_error + string list" where
  "validate_reference ps v used =
     (if \<not> bounded_string v max_value_bytes then Err InvalidDefinition
      else case parameter_reference v of
          None \<Rightarrow> Ok used
        | Some name \<Rightarrow>
            if \<not> identifier_ok name \<or> \<not> bt_contains_key ps name then Err InvalidDefinition
            else Ok (name # used))"

definition validate_argument ::
    "(string, parameter) btree_map \<Rightarrow> string \<times> json \<Rightarrow> string list \<Rightarrow> core_error + string list" where
  "validate_argument ps = (\<lambda>(key, v) used.
     if \<not> identifier_ok key then Err InvalidDefinition
     else case v of
         JStr s \<Rightarrow> validate_reference ps s used
       | JBool _ \<Rightarrow> Ok used
       | JNum _ \<Rightarrow> if checked_integer v then Ok used else Err InvalidDefinition
       | _ \<Rightarrow> Err InvalidDefinition)"

definition validate_process_argument ::
    "(string, parameter) btree_map \<Rightarrow> string \<Rightarrow> string list \<Rightarrow> core_error + string list" where
  "validate_process_argument ps arg used =
     and_then (validate_reference ps arg used) (\<lambda>used.
       case Option.bind (parameter_reference arg) (map_of ps) of
         Some p \<Rightarrow> if \<not> required p then Err InvalidDefinition else Ok used
       | None \<Rightarrow> Ok used)"

definition program_ok :: "string \<Rightarrow> bool" where
  "program_ok program \<longleftrightarrow>
     take 1 program = ''/'' \<and> \<not> ends_with program ''/'' \<and> bounded_string program 256
     \<and> list_all (\<lambda>b. is_ascii_alphanumeric b \<or> b \<in> set ''/_.-'') program
     \<and> \<not> list_ex (\<lambda>part. part = ''.'' \<or> part = ''..'') (split_char (CHR ''/'') program)"

definition packages_read :: requirement where
  "packages_read = \<lparr>category = Cat_Packages, permission = Perm_Read\<rparr>"

definition validate_page_action :: "operation \<Rightarrow> string list \<Rightarrow> core_error + string list" where
  "validate_page_action op used =
     and_then (ok_or InvalidDefinition (map_of (parameters op) ''cursor'')) (\<lambda>cursor.
       if length (parameters op) \<noteq> 1 \<or> required cursor \<or> p_kind cursor \<noteq> PK_String
         \<or> allowed_values cursor \<noteq> [] \<or> output_fields op \<noteq> [] \<or> output_mode op \<noteq> Scalars
         \<or> packages_read \<notin> set (requirements op)
       then Err InvalidDefinition else Ok (''cursor'' # used))"

definition validate_action :: "operation \<Rightarrow> string list \<Rightarrow> core_error + string list" where
  "validate_action op used = (case op_action op of
       ApkInstalledPage \<Rightarrow> validate_page_action op used
     | OpkgStatusPage \<Rightarrow> validate_page_action op used
     | Ubus object method arguments \<Rightarrow>
         if \<not> ubus_identifier object \<or> \<not> ubus_identifier method \<or> length arguments > max_arguments
         then Err InvalidDefinition
         else fold_res (validate_argument (parameters op)) arguments used
     | Process program args \<Rightarrow>
         if \<not> program_ok program \<or> length args > max_arguments then Err InvalidDefinition
         else fold_res (validate_process_argument (parameters op)) args used)"

definition validate_output :: "operation \<Rightarrow> core_error + string list" where
  "validate_output op = (case output_mode op of
       Typed projection \<Rightarrow>
         if output_fields op \<noteq> [] then Err InvalidDefinition
         else and_then (typed_validate projection (parameters op)) (\<lambda>_.
           Ok (case selector projection of None \<Rightarrow> [] | Some (name, _) \<Rightarrow> [name]))
     | _ \<Rightarrow> Ok [])"

definition validate :: "(operation \<Rightarrow> nat option) \<Rightarrow> operation \<Rightarrow> core_error + unit" where
  "validate encoded op =
     (if \<not> header_ok op then Err InvalidDefinition
      else if \<not> list_all (parameter_ok (op_action op)) (parameters op) then Err InvalidDefinition
      else and_then (validate_output op) (\<lambda>used.
           and_then (validate_action op used) (\<lambda>used.
             if list_ex (\<lambda>(name, _). name \<notin> set used) (parameters op) then Err InvalidDefinition
             else and_then (validate_read op) (\<lambda>_.
                  and_then (validate_for (capability op) (op_action op) (parameters op)) (\<lambda>_.
                  and_then (ok_or InvalidDefinition (encoded op)) (\<lambda>n.
                    if n > max_definition_bytes then Err InvalidDefinition else Ok ()))))))"

section \<open>Preparation\<close>

definition valid_type :: "action \<Rightarrow> parameter_kind \<Rightarrow> json \<Rightarrow> bool" where
  "valid_type act kind v = (case kind of
       PK_String \<Rightarrow> (case as_str v of None \<Rightarrow> False | Some s \<Rightarrow> bounded_string s max_value_bytes)
     | PK_Integer \<Rightarrow> if is_ubus act then checked_integer v else as_i64 v \<noteq> None \<or> as_u64 v \<noteq> None
     | PK_Boolean \<Rightarrow> is_boolean v)"

definition check_parameter ::
    "action \<Rightarrow> (string, json) btree_map \<Rightarrow> string \<times> parameter \<Rightarrow> core_error + unit" where
  "check_parameter act values = (\<lambda>(name, p).
     case map_of values name of
       None \<Rightarrow> if required p then Err MissingArgument else Ok ()
     | Some v \<Rightarrow>
         if \<not> valid_type act (p_kind p) v then Err InvalidArguments
         else if allowed_values p = [] then Ok ()
         else and_then (ok_or InvalidArguments (scalar_text v)) (\<lambda>t.
           if t \<notin> set (allowed_values p) then Err InvalidArguments else Ok ()))"

definition check_selector :: "operation \<Rightarrow> (string, json) btree_map \<Rightarrow> core_error + unit" where
  "check_selector op values = (case output_mode op of
       Typed projection \<Rightarrow> (case selector projection of
           None \<Rightarrow> Ok ()
         | Some (name, maximum) \<Rightarrow>
             and_then (ok_or InvalidArguments (Option.bind (map_of values name) as_str)) (\<lambda>t.
               if t = [] \<or> \<not> bounded_string t maximum then Err InvalidArguments else Ok ()))
     | _ \<Rightarrow> Ok ())"

definition prepare_argument ::
    "(string, json) btree_map \<Rightarrow> string \<times> json \<Rightarrow> (string, json) btree_map \<Rightarrow> (string, json) btree_map" where
  "prepare_argument values = (\<lambda>(key, v) prepared.
     case Option.bind (as_str v) parameter_reference of
       Some name \<Rightarrow> (case map_of values name of
           Some x \<Rightarrow> bt_insert key x prepared | None \<Rightarrow> prepared)
     | None \<Rightarrow> bt_insert key v prepared)"

definition prepare_process_argument :: "(string, json) btree_map \<Rightarrow> string \<Rightarrow> core_error + string" where
  "prepare_process_argument values arg = (case parameter_reference arg of
       Some name \<Rightarrow>
         and_then (ok_or MissingArgument (map_of values name)) (\<lambda>v. ok_or InvalidArguments (scalar_text v))
     | None \<Rightarrow> Ok arg)"

definition prepare_cursor :: "(string, json) btree_map \<Rightarrow> core_error + string option" where
  "prepare_cursor values = (case Option.bind (map_of values ''cursor'') as_str of
       None \<Rightarrow> Ok None
     | Some c \<Rightarrow> and_then (cursor_parse c) (\<lambda>_. Ok (Some c)))"

definition prepare_action :: "action \<Rightarrow> (string, json) btree_map \<Rightarrow> core_error + prepared_action" where
  "prepare_action act values = (case act of
       ApkInstalledPage \<Rightarrow> and_then (prepare_cursor values) (\<lambda>c. Ok (PA_ApkInstalledPage c))
     | OpkgStatusPage \<Rightarrow> and_then (prepare_cursor values) (\<lambda>c. Ok (PA_OpkgStatusPage c))
     | Ubus object method arguments \<Rightarrow>
         Ok (PA_Ubus object method (JObj (fold (prepare_argument values) arguments [])))
     | Process program args \<Rightarrow>
         and_then (map_res (prepare_process_argument values) args) (\<lambda>prepared.
           Ok (PA_Process program prepared)))"

definition prepare ::
    "(operation \<Rightarrow> nat option) \<Rightarrow> operation \<Rightarrow> json \<Rightarrow> core_error + prepared_action" where
  "prepare encoded op input =
     and_then (validate encoded op) (\<lambda>_.
     and_then (ok_or InvalidArguments (as_object input)) (\<lambda>values.
     and_then (check_all (\<lambda>(name, _). ensure (bt_contains_key (parameters op) name) UnknownArgument) values) (\<lambda>_.
     and_then (check_all (check_parameter (op_action op) values) (parameters op)) (\<lambda>_.
     and_then (check_selector op values) (\<lambda>_.
       prepare_action (op_action op) values)))))"

section \<open>The input schema\<close>

definition schema_text :: "nat \<Rightarrow> string" where
  "schema_text maximum = ''At most '' @ dec_digits maximum @ '' UTF-8 bytes; NUL is not permitted.''"

definition selector_limit :: "operation \<Rightarrow> string \<Rightarrow> nat option" where
  "selector_limit op name = (case output_mode op of
       Typed projection \<Rightarrow> (case selector projection of
           Some (p, maximum) \<Rightarrow> if p = name then Some maximum else None
         | None \<Rightarrow> None)
     | _ \<Rightarrow> None)"

definition kind_text :: "parameter_kind \<Rightarrow> string" where
  "kind_text kind = (case kind of
     PK_String \<Rightarrow> ''string'' | PK_Integer \<Rightarrow> ''integer'' | PK_Boolean \<Rightarrow> ''boolean'')"

definition string_schema :: "operation \<Rightarrow> string \<Rightarrow> (string \<times> json) list" where
  "string_schema op name = (let lim = selector_limit op name;
       package = package_profile_of (op_action op) \<noteq> None;
       maximum = (if package then 37 else case lim of Some m \<Rightarrow> m | None \<Rightarrow> max_value_bytes)
     in [(''maxLength'', json_nat maximum)]
        @ (if lim \<noteq> None then [(''minLength'', json_nat 1)] else [])
        @ (if package then [(''minLength'', json_nat 34),
             (''pattern'', JStr (''^[0-9a-f]{32}'' @ [CHR 0x5C] @ ''.[1-9][0-9]{0,3}$''))] else [])
        @ [(''description'', JStr (schema_text maximum))])"

definition allowed_json :: "(string \<Rightarrow> json option) \<Rightarrow> parameter_kind \<Rightarrow> string \<Rightarrow> json" where
  "allowed_json from_str kind v = (case kind of
       PK_String \<Rightarrow> JStr v
     | PK_Integer \<Rightarrow> (case from_str v of Some j \<Rightarrow> j | None \<Rightarrow> JNull)
     | PK_Boolean \<Rightarrow> JBool (v = ''true''))"

definition parameter_schema ::
    "(string \<Rightarrow> json option) \<Rightarrow> operation \<Rightarrow> string \<Rightarrow> parameter \<Rightarrow> json" where
  "parameter_schema from_str op name p =
     JObj (bt_of_list
       ([(''type'', JStr (kind_text (p_kind p)))]
        @ (if p_kind p = PK_String then string_schema op name else [])
        @ (if p_kind p = PK_Integer \<and> is_ubus (op_action op)
           then [(''minimum'', json_int ubus_integer_min), (''maximum'', json_int ubus_integer_max)] else [])
        @ (if allowed_values p \<noteq> []
           then [(''enum'', JArr (map (allowed_json from_str (p_kind p)) (allowed_values p)))] else [])))"

definition input_schema :: "(string \<Rightarrow> json option) \<Rightarrow> operation \<Rightarrow> json" where
  "input_schema from_str op =
     JObj (bt_of_list
       [(''type'', JStr ''object''),
        (''properties'', JObj (bt_of_list (map (\<lambda>(name, p).
            (name, parameter_schema from_str op name p)) (parameters op)))),
        (''required'', JArr (map (\<lambda>(name, _). JStr name) (filter (\<lambda>(_, p). required p) (parameters op)))),
        (''additionalProperties'', JBool False)])"

section \<open>Untyped projection\<close>

definition sensitive_pointer :: "string \<Rightarrow> bool" where
  "sensitive_pointer pointer = list_ex (\<lambda>part. sensitive_key (decode_segment part)) (pointer_parts pointer)"

definition operation_project :: "(json \<Rightarrow> string \<Rightarrow> json option) \<Rightarrow> operation \<Rightarrow> json \<Rightarrow> json" where
  "operation_project pointer op out =
     (if (case output_mode op of Typed _ \<Rightarrow> True | _ \<Rightarrow> False) then JObj []
      else if \<not> disjoint_output_fields (output_fields op) then JObj []
      else JObj (fold (\<lambda>p projected.
        if \<not> valid_pointer p \<or> sensitive_pointer p then projected
        else case pointer out p of
            None \<Rightarrow> projected
          | Some v \<Rightarrow>
              if output_mode op = Scalars \<and> (is_array v \<or> is_object v) then projected
              else bt_insert p (redact v) projected) (output_fields op) []))"

text \<open>The budgeted redaction of \<^verbatim>\<open>legacy.rs\<close>, with the map or vector built so far.\<close>

fun legacy_redact :: "json \<Rightarrow> nat \<Rightarrow> budget \<Rightarrow> core_error + json \<times> budget"
and redact_fields :: "(string \<times> json) list \<Rightarrow> nat \<Rightarrow> (string \<times> json) list \<Rightarrow> budget
  \<Rightarrow> core_error + (string \<times> json) list \<times> budget"
and redact_items :: "json list \<Rightarrow> nat \<Rightarrow> json list \<Rightarrow> budget \<Rightarrow> core_error + json list \<times> budget" where
  "legacy_redact (JObj fs) depth b =
     and_then (visit_node depth b) (\<lambda>b. and_then (bytes 2 b) (\<lambda>b.
     and_then (redact_fields fs depth [] b) (\<lambda>(result, b). Ok (JObj result, b))))"
| "legacy_redact (JArr xs) depth b =
     and_then (visit_node depth b) (\<lambda>b. and_then (bytes 2 b) (\<lambda>b.
     and_then (redact_items xs depth [] b) (\<lambda>(result, b). Ok (JArr result, b))))"
| "legacy_redact v depth b =
     and_then (visit_node depth b) (\<lambda>b. and_then (scalar_bytes v b) (\<lambda>b. Ok (v, b)))"
| "redact_fields [] depth result b = Ok (result, b)"
| "redact_fields ((k, v) # fs) depth result b =
     and_then (visit_node (depth + 1) b) (\<lambda>b.
       if length k > max_normalized_bytes then Err OutputLimit
       else if sensitive_key k then redact_fields fs depth result b
       else and_then (key_bytes k (result \<noteq> []) b) (\<lambda>b.
            and_then (legacy_redact v (depth + 1) b) (\<lambda>(v, b).
              redact_fields fs depth (bt_insert k v result) b)))"
| "redact_items [] depth result b = Ok (result, b)"
| "redact_items (v # xs) depth result b =
     and_then (bytes (of_bool (result \<noteq> [])) b) (\<lambda>b.
     and_then (legacy_redact v (depth + 1) b) (\<lambda>(v, b).
       redact_items xs depth (result @ [v]) b))"

definition legacy_field ::
    "(json \<Rightarrow> string \<Rightarrow> json option) \<Rightarrow> operation \<Rightarrow> json \<Rightarrow> string \<Rightarrow> (string \<times> json) list \<times> budget
     \<Rightarrow> core_error + (string \<times> json) list \<times> budget" where
  "legacy_field pointer op source p = (\<lambda>(result, b).
     if sensitive_pointer p then Ok (result, b)
     else case pointer source p of
         None \<Rightarrow> Ok (result, b)
       | Some v \<Rightarrow>
           if output_mode op = Scalars \<and> (is_object v \<or> is_array v) then Ok (result, b)
           else and_then (key_bytes p (result \<noteq> []) b) (\<lambda>b.
                and_then (legacy_redact v 1 b) (\<lambda>(v, b). Ok (bt_insert p v result, b))))"

definition legacy_project ::
    "(json \<Rightarrow> string \<Rightarrow> json option) \<Rightarrow> operation \<Rightarrow> json \<Rightarrow> core_error + json" where
  "legacy_project pointer op source =
     and_then (bytes 2 budget_default) (\<lambda>b.
     and_then (fold_res (legacy_field pointer op source) (output_fields op) ([], b)) (\<lambda>(result, _).
       Ok (JObj result)))"

section \<open>Invocations\<close>

datatype bound_projection =
  BP_Legacy operation
| BP_Typed typed_projection "string option"

record prepared_invocation =
  pi_action :: prepared_action
  pi_projection :: bound_projection

definition prepare_invocation ::
    "(operation \<Rightarrow> nat option) \<Rightarrow> operation \<Rightarrow> json \<Rightarrow> core_error + prepared_invocation" where
  "prepare_invocation encoded op input =
     and_then (prepare encoded op input) (\<lambda>act.
     and_then (case output_mode op of
         Typed tp \<Rightarrow>
           (case selector tp of
              None \<Rightarrow> Ok (BP_Typed tp None)
            | Some (name, _) \<Rightarrow>
                and_then (ok_or InvalidArguments (Option.bind (json_get input name) as_str)) (\<lambda>s.
                  Ok (BP_Typed tp (Some s))))
       | _ \<Rightarrow> Ok (BP_Legacy op)) (\<lambda>projection.
       Ok \<lparr>pi_action = act, pi_projection = projection\<rparr>))"

definition invocation_project ::
    "(json \<Rightarrow> string \<Rightarrow> json option) \<Rightarrow> prepared_invocation \<Rightarrow> json \<Rightarrow> core_error + json" where
  "invocation_project pointer pinv out =
     (if package_page (pi_action pinv) \<noteq> None then Err InvalidDefinition
      else case pi_projection pinv of
          BP_Legacy op \<Rightarrow> legacy_project pointer op out
        | BP_Typed tp sel \<Rightarrow> project tp sel out)"

section \<open>What preparation guarantees\<close>

lemma validate_Ok:
  assumes "validate encoded op = Ok ()"
  shows "header_ok op" "list_all (parameter_ok (op_action op)) (parameters op)"
    "\<exists>used used'. validate_output op = Ok used \<and> validate_action op used = Ok used'"
    "validate_read op = Ok ()" "validate_for (capability op) (op_action op) (parameters op) = Ok ()"
  using assms by (auto simp: validate_def res_simps split: if_splits)

definition arguments_accepted :: "operation \<Rightarrow> (string, json) btree_map \<Rightarrow> bool" where
  "arguments_accepted op vals \<longleftrightarrow>
     fst ` set vals \<subseteq> fst ` set (parameters op)
     \<and> (\<forall>(name, p) \<in> set (parameters op). case map_of vals name of
          None \<Rightarrow> \<not> required p
        | Some v \<Rightarrow> valid_type (op_action op) (p_kind p) v
            \<and> (allowed_values p = [] \<or> (\<exists>t \<in> set (allowed_values p). scalar_text v = Some t)))"

lemma check_parameter_Ok:
  "check_parameter act vals (name, p) = Ok () \<longleftrightarrow>
     (case map_of vals name of
        None \<Rightarrow> \<not> required p
      | Some v \<Rightarrow> valid_type act (p_kind p) v
          \<and> (allowed_values p = [] \<or> (\<exists>t \<in> set (allowed_values p). scalar_text v = Some t)))"
  by (cases "map_of vals name") (auto simp: check_parameter_def res_simps)

lemma prepare_Ok:
  "prepare encoded op input = Ok act \<longleftrightarrow>
     validate encoded op = Ok () \<and> (\<exists>vals. input = JObj vals \<and> arguments_accepted op vals
       \<and> check_selector op vals = Ok () \<and> prepare_action (op_action op) vals = Ok act)"
proof -
  have "(\<forall>x \<in> set (parameters op). check_parameter (op_action op) vals x = Ok ()) \<longleftrightarrow>
      (\<forall>(name, p) \<in> set (parameters op). case map_of vals name of
          None \<Rightarrow> \<not> required p
        | Some v \<Rightarrow> valid_type (op_action op) (p_kind p) v
            \<and> (allowed_values p = [] \<or> (\<exists>t \<in> set (allowed_values p). scalar_text v = Some t)))" for vals
    by (intro ball_cong refl) (auto simp: check_parameter_Ok simp del: One_nat_def split: prod.splits)
  moreover have "(\<forall>x \<in> set vals. (case x of (name, _) \<Rightarrow>
      ensure (bt_contains_key (parameters op) name) UnknownArgument) = Ok ())
      \<longleftrightarrow> fst ` set vals \<subseteq> fst ` set (parameters op)" for vals :: "(string, json) btree_map"
    unfolding image_subset_iff by (intro ball_cong refl) (auto split: prod.splits)
  ultimately show ?thesis
    by (auto simp: prepare_def res_simps arguments_accepted_def)
qed

lemma prepare_arguments_keys:
  "fst ` set (fold (prepare_argument vals) arguments m) \<subseteq> fst ` set m \<union> fst ` set arguments"
proof (induction arguments arbitrary: m)
  case (Cons a arguments)
  obtain k v where a: "a = (k, v)" by (cases a)
  have "fst ` set (prepare_argument vals a m) \<subseteq> insert k (fst ` set m)"
    by (auto simp: a prepare_argument_def split: option.splits)
  then have "fst ` set (fold (prepare_argument vals) arguments (prepare_argument vals a m))
      \<subseteq> insert k (fst ` set m) \<union> fst ` set arguments"
    using Cons [of "prepare_argument vals a m"] by (meson Un_mono order_refl order_trans)
  then show ?case by (simp add: a)
qed simp

lemma prepare_argument_wf: "bt_wf m \<Longrightarrow> bt_wf (prepare_argument vals a m)"
  by (cases a) (auto simp: prepare_argument_def split: option.splits)

lemma prepare_arguments_wf: "bt_wf m \<Longrightarrow> bt_wf (fold (prepare_argument vals) arguments m)"
  by (induction arguments arbitrary: m) (simp_all add: prepare_argument_wf)

text \<open>The value sent for one declared argument.\<close>

definition sent_value :: "(string, json) btree_map \<Rightarrow> json \<Rightarrow> json option" where
  "sent_value vals v = (case Option.bind (as_str v) parameter_reference of
       Some name \<Rightarrow> map_of vals name | None \<Rightarrow> Some v)"

lemma prepare_arguments_lookup:
  assumes "bt_wf m" and "distinct (map fst arguments)" and "fst ` set arguments \<inter> fst ` set m = {}"
  shows "map_of (fold (prepare_argument vals) arguments m) k =
    (case map_of arguments k of None \<Rightarrow> map_of m k | Some v \<Rightarrow> sent_value vals v)"
  using assms
proof (induction arguments arbitrary: m)
  case (Cons a arguments)
  obtain k' v where a: "a = (k', v)" by (cases a)
  let ?m = "prepare_argument vals a m"
  have keys: "fst ` set ?m \<subseteq> insert k' (fst ` set m)"
    by (auto simp: a prepare_argument_def split: option.splits)
  have k': "k' \<notin> fst ` set m" "k' \<notin> fst ` set arguments" using Cons.prems(2,3) by (auto simp: a)
  have "fst ` set arguments \<inter> fst ` set ?m = {}"
    by (rule disjoint_after [OF _ k'(2) keys]) (use Cons.prems(3) in auto)
  from Cons.IH [OF prepare_argument_wf [OF Cons.prems(1)] _ this] Cons.prems(2)
  have rest: "map_of (fold (prepare_argument vals) arguments ?m) k =
      (case map_of arguments k of None \<Rightarrow> map_of ?m k | Some v \<Rightarrow> sent_value vals v)" by simp
  have m: "map_of ?m k = (if k = k' then sent_value vals v else map_of m k)"
    using Cons.prems(1) map_of_eq_None_iff [of m k'] k'(1)
    by (auto simp: a prepare_argument_def sent_value_def split: option.splits)
  have "map_of arguments k' = None" using k'(2) by (simp add: map_of_eq_None_iff)
  with rest m show ?case by (auto simp: a split: option.splits)
qed simp

lemma map_of_prepared:
  "bt_wf arguments \<Longrightarrow> map_of (fold (prepare_argument vals) arguments []) k =
     Option.bind (map_of arguments k) (sent_value vals)"
  using prepare_arguments_lookup [of "[]" arguments vals k]
  by (auto simp: bt_wf_distinct split: option.splits)

text \<open>Definitions are read into ordered maps.\<close>

fun action_wf :: "action \<Rightarrow> bool" where
  "action_wf (Ubus _ _ arguments) = bt_wf arguments"
| "action_wf _ = True"

definition operation_wf :: "operation \<Rightarrow> bool" where
  "operation_wf op \<longleftrightarrow> bt_wf (parameters op) \<and> action_wf (op_action op)"

lemma accepted_parameter:
  assumes "arguments_accepted op vals" and "map_of (parameters op) p = Some q" and "map_of vals p = Some v"
  shows "valid_type (op_action op) (p_kind q) v"
  using assms(1,3) map_of_SomeD [OF assms(2)] by (auto simp: arguments_accepted_def)

lemma length_le_keys:
  assumes "bt_wf m" and "fst ` set m \<subseteq> fst ` set n"
  shows "length m \<le> length n"
proof -
  have "length m = card (fst ` set m)" using bt_wf_distinct [OF assms(1)] by (metis distinct_card length_map list.set_map)
  also have "\<dots> \<le> card (fst ` set n)" using assms(2) by (intro card_mono) auto
  also have "\<dots> \<le> length n" by (metis card_length length_map list.set_map)
  finally show ?thesis .
qed

lemma validate_arguments_bounded:
  "fold_res (validate_argument ps) arguments used = Ok used' \<Longrightarrow> (k, JStr s) \<in> set arguments
     \<Longrightarrow> bounded_string s max_value_bytes"
proof (induction arguments arbitrary: used)
  case (Cons a arguments)
  then show ?case
    by (auto simp: res_simps validate_argument_def validate_reference_def split: if_splits option.splits)
qed simp

lemma argument_kind_checked:
  "(case x of (name, v) \<Rightarrow> and_then (argument_kind ps v) (\<lambda>kind.
      ensure (map_of cargs name = Some kind) InvalidDefinition)) = Ok ()
   \<longleftrightarrow> (case x of (n, v) \<Rightarrow> \<exists>kind. argument_kind ps v = Ok kind \<and> map_of cargs n = Some kind)"
  by (cases x) (auto simp: res_simps)

lemma sent_value_matches:
  assumes accepted: "arguments_accepted op vals" and act: "op_action op = Ubus obj meth arguments"
    and run: "fold_res (validate_argument (parameters op)) arguments used = Ok used'"
    and a: "(k, a) \<in> set arguments" and kind: "argument_kind (parameters op) a = Ok kind"
    and sent: "sent_value vals a = Some v"
  shows "value_matches v kind"
proof (cases "Option.bind (as_str a) parameter_reference")
  case (Some p)
  then obtain s where s: "a = JStr s" "parameter_reference s = Some p"
    by (auto simp: bind_eq_Some_conv simp del: parameter_reference_Some)
  then obtain q where q: "map_of (parameters op) p = Some q" "kind = p_kind q"
    using kind by (auto simp: argument_kind_def res_simps simp del: parameter_reference_Some)
  have "valid_type (op_action op) (p_kind q) v"
    using accepted_parameter [OF accepted q(1)] sent Some by (simp add: sent_value_def)
  then show ?thesis
    by (cases "p_kind q") (auto simp: valid_type_def act q(2) bounded_string_def limit_defs split: option.splits)
next
  case None
  then have v: "v = a" using sent by (simp add: sent_value_def)
  show ?thesis
  proof (cases a)
    case (JStr s)
    with None have "parameter_reference s = None" by simp
    then have "kind = PK_String" using kind JStr by (simp add: argument_kind_def)
    with validate_arguments_bounded [OF run a [unfolded JStr]] show ?thesis
      by (simp add: v JStr bounded_string_def limit_defs)
  qed (use kind v in \<open>auto simp: argument_kind_def split: if_splits\<close>)
qed

lemma argument_loop_verdict:
  "verdict_or (and_then (fold_res (check_argument actual sig) cargs st) (\<lambda>(unknown_type, incomplete).
     Ok (if incomplete then V_Unknown IncompleteSignature
         else if unknown_type then V_Unknown UnrecognizedType else Compatible)))
   \<noteq> Incompatible InvalidPreparedAction"
  by (cases "fold_res (check_argument actual sig) cargs st") (auto dest: check_arguments_err split: if_splits)


lemma validate_process_argument_Ok:
  assumes "validate_process_argument ps arg used = Ok used'"
  shows "case parameter_reference arg of None \<Rightarrow> True
    | Some n \<Rightarrow> \<exists>p. map_of ps n = Some p \<and> required p"
  using assms
  by (cases "parameter_reference arg")
    (auto simp: validate_process_argument_def validate_reference_def res_simps map_of_eq_None_iff
      simp del: parameter_reference_Some split: if_splits option.splits)

lemma validate_process_arguments_Ok:
  "fold_res (validate_process_argument ps) args used = Ok used' \<Longrightarrow> arg \<in> set args
     \<Longrightarrow> case parameter_reference arg of None \<Rightarrow> True
       | Some n \<Rightarrow> \<exists>p. map_of ps n = Some p \<and> required p"
proof (induction args arbitrary: used)
  case (Cons a args)
  then show ?case using validate_process_argument_Ok [of ps arg]
    by (auto simp: res_simps simp del: parameter_reference_Some)
qed simp

lemma valid_type_scalar_text:
  assumes "valid_type act kind v"
  shows "\<exists>t. scalar_text v = Some t"
proof (cases kind)
  case PK_String
  with assms show ?thesis by (auto simp: valid_type_def split: option.splits)
next
  case PK_Boolean
  with assms show ?thesis by (auto simp: valid_type_def)
next
  case PK_Integer
  with assms have "as_i64 v \<noteq> None \<or> as_u64 v \<noteq> None"
    by (auto simp: valid_type_def checked_integer_def split: if_splits option.splits)
  then show ?thesis by (cases v rule: scalar_text.cases) auto
qed

definition argument_text :: "(string, json) btree_map \<Rightarrow> string \<Rightarrow> string \<Rightarrow> bool" where
  "argument_text vals arg t = (case parameter_reference arg of
       None \<Rightarrow> t = arg
     | Some n \<Rightarrow> \<exists>v. map_of vals n = Some v \<and> scalar_text v = Some t)"

text \<open>
  Preparing a process call with accepted arguments never drops, reorders or
  fails on a positional argument: the result has the declared program and, position by
  position, either the declared text or the text of the value supplied for the parameter
  named there.
\<close>

lemma prepare_process_positional:
  assumes "validate encoded op = Ok ()" and "op_action op = Process program args"
    and "arguments_accepted op vals"
  shows "\<exists>ts. prepare_action (op_action op) vals = Ok (PA_Process program ts)
    \<and> list_all2 (argument_text vals) args ts"
proof -
  obtain used used' where run: "fold_res (validate_process_argument (parameters op)) args used = Ok used'"
    using validate_Ok(3) [OF assms(1)] assms(2) by (auto simp: validate_action_def split: if_splits)
  have one: "\<exists>t. prepare_process_argument vals arg = Ok t \<and> argument_text vals arg t" if arg: "arg \<in> set args" for arg
  proof (cases "parameter_reference arg")
    case None
    then show ?thesis by (simp add: prepare_process_argument_def argument_text_def)
  next
    case (Some n)
    then obtain p where p: "map_of (parameters op) n = Some p" "required p"
      using validate_process_arguments_Ok [OF run arg] by (auto simp del: parameter_reference_Some)
    then obtain v where v: "map_of vals n = Some v"
      using assms(3) map_of_SomeD [OF p(1)] by (fastforce simp: arguments_accepted_def split: option.splits)
    from valid_type_scalar_text [OF accepted_parameter [OF assms(3) p(1) v]] obtain t where "scalar_text v = Some t" ..
    with Some v show ?thesis
      by (simp add: prepare_process_argument_def argument_text_def del: parameter_reference_Some)
  qed
  have "\<exists>ts. map_res (prepare_process_argument vals) as = Ok ts \<and> list_all2 (argument_text vals) as ts"
    if "set as \<subseteq> set args" for as
    using that
  proof (induction "as")
    case (Cons a as')
    then obtain ts where ts: "map_res (prepare_process_argument vals) as' = Ok ts" "list_all2 (argument_text vals) as' ts" by auto
    from one [of a] Cons.prems obtain t where t: "prepare_process_argument vals a = Ok t" "argument_text vals a t" by auto
    with ts show ?case by (intro exI [of _ "t # ts"]) simp
  qed simp
  from this [of args] show ?thesis using assms(2) by (auto simp: prepare_action_def)
qed

section \<open>Configuration reads\<close>

lemma two_entries:
  assumes "bt_wf m" and "length m = 2" and "map_of m ''config'' = Some a" and "map_of m ''type'' = Some b"
  shows "m = [(''config'', a), (''type'', b)]"
proof -
  obtain x y where m: "m = [x, y]" using assms(2) by (metis (no_types, lifting) One_nat_def Suc_1 length_0_conv length_Suc_conv)
  have "(''type'' :: string) < ''config'' \<longleftrightarrow> False" by code_simp
  with assms m show ?thesis by (cases x; cases y) (auto split: if_splits)
qed

lemma profile_texts_literal:
  "parameter_reference (profile_config p) = None" "parameter_reference (profile_section_type p) = None"
  by (cases p; simp add: profile_config_def parameter_reference_def strip_prefix_def)+

text \<open>
  Property C12: an operation on the ubus object \<^verbatim>\<open>uci\<close> that passes validation can only
  ever send one of the reviewed reads: the method is \<^verbatim>\<open>get\<close>, the arguments are exactly
  the configuration and section type of a profile, the caller supplies nothing, and the
  operation requires the read permission of the profile's category.
\<close>

theorem uci_operation_is_reviewed_read:
  assumes "operation_wf op" and "op_action op = Ubus ''uci'' method arguments"
    and "prepare encoded op input = Ok act"
  shows "\<exists>p. act = PA_Ubus ''uci'' ''get'' (JObj [(''config'', JStr (profile_config p)),
      (''type'', JStr (profile_section_type p))])
    \<and> input = JObj [] \<and> \<lparr>category = profile_category p, permission = Perm_Read\<rparr> \<in> set (requirements op)"
proof -
  from assms(3) obtain vals where valid: "validate encoded op = Ok ()" and input: "input = JObj vals"
    and accepted: "arguments_accepted op vals" and act: "prepare_action (op_action op) vals = Ok act"
    by (auto simp: prepare_Ok)
  from validate_Ok(4) [OF valid] assms(2) obtain p where p: "find_profile arguments = Some p"
    and shape: "method = ''get''" "length arguments = 2" "parameters op = []"
      "\<lparr>category = profile_category p, permission = Perm_Read\<rparr> \<in> set (requirements op)"
    by (auto simp: validate_read_def res_simps split: if_splits)
  have args: "arguments = [(''config'', JStr (profile_config p)), (''type'', JStr (profile_section_type p))]"
    using p shape(2) assms(1,2) by (intro two_entries) (simp_all add: find_profile_Some operation_wf_def)
  have "vals = []" using accepted shape(3) by (auto simp: arguments_accepted_def)
  moreover have "fold (prepare_argument vals) arguments [] = arguments"
  proof -
    have "(''type'' :: string) < ''config'' \<longleftrightarrow> False" "(''type'' :: string) = ''config'' \<longleftrightarrow> False" by code_simp+
    then show ?thesis by (simp add: args prepare_argument_def profile_texts_literal)
  qed
  ultimately show ?thesis using act assms(2) args shape input by (auto simp: prepare_action_def)
qed

section \<open>Redaction\<close>

lemma visit_node_charged: "visit_node d b = Ok b' \<Longrightarrow> charged b 0 b'"
  by (auto simp: visit_node_def charged_def Let_def split: if_splits)

definition redacts :: "json \<Rightarrow> bool" where
  "redacts v \<longleftrightarrow> (\<forall>d b v' b'. legacy_redact v d b = Ok (v', b') \<longrightarrow> v' = redact v \<and> charged b (json_size v') b')"

lemma bt_insert_last: "\<forall>k' \<in> fst ` set m. k' < k \<Longrightarrow> bt_insert k v m = m @ [(k, v)]"
  by (induction k v m rule: bt_insert.induct) (auto dest: less_asym)

definition kept :: "(string \<times> json) list \<Rightarrow> (string \<times> json) list" where
  "kept fs = map (\<lambda>(k, v). (k, redact v)) (filter (\<lambda>(k, _). \<not> sensitive_key k) fs)"

lemma redact_fields_kept:
  assumes "\<forall>(k, v) \<in> set fs. redacts v" and "bt_wf fs"
    and "\<forall>k \<in> fst ` set result. \<forall>k' \<in> fst ` set fs. k < k'"
    and "charged b0 (json_size (JObj result)) b" and "redact_fields fs d result b = Ok (res, b')"
  shows "res = result @ kept fs \<and> charged b0 (json_size (JObj res)) b'"
  using assms
proof (induction fs arbitrary: result b)
  case Nil
  then show ?case by (simp add: kept_def)
next
  case (Cons f fs)
  obtain k v where f: "f = (k, v)" by (cases f)
  from Cons.prems(5) obtain b1 where b1: "visit_node (d + 1) b = Ok b1"
    by (auto simp: f res_simps)
  have rest: "\<forall>(k, v) \<in> set fs. redacts v" "bt_wf fs" "\<forall>k' \<in> fst ` set fs. k < k'"
    using Cons.prems(1,2) by (auto simp: f)
  have c1: "charged b0 (json_size (JObj result)) b1"
    using charged_trans [OF Cons.prems(4) visit_node_charged [OF b1]] by simp
  show ?case
  proof (cases "sensitive_key k")
    case True
    with Cons.prems(5) b1 have "redact_fields fs d result b1 = Ok (res, b')"
      by (auto simp: f split: if_splits)
    moreover have "\<forall>k \<in> fst ` set result. \<forall>k' \<in> fst ` set fs. k < k'" using Cons.prems(3) by simp
    ultimately show ?thesis using Cons.IH [OF rest(1,2) _ c1] True by (auto simp: kept_def f simp del: json_size_simps)
  next
    case False
    with Cons.prems(5) b1 obtain b2 v' b3 where step: "key_bytes k (result \<noteq> []) b1 = Ok b2"
      "legacy_redact v (d + 1) b2 = Ok (v', b3)" "redact_fields fs d (bt_insert k v' result) b3 = Ok (res, b')"
      by (auto simp: f res_simps split: if_splits)
    have v': "v' = redact v" "charged b2 (json_size v') b3"
      using Cons.prems(1) step(2) by (auto simp: f redacts_def)
    have less: "\<forall>k' \<in> fst ` set result. k' < k" using Cons.prems(3) by (simp add: f)
    then have new: "k \<notin> fst ` set result" by auto
    have ins: "bt_insert k v' result = result @ [(k, v')]" by (rule bt_insert_last [OF less])
    have "charged b0 (json_size (JObj (bt_insert k v' result))) b3"
      using charged_trans [OF charged_trans [OF c1 bytes_charged(3) [OF step(1)]] v'(2)]
      by (simp only: json_size_insert [OF new] ac_simps)
    moreover have "\<forall>k' \<in> fst ` set (bt_insert k v' result). \<forall>k'' \<in> fst ` set fs. k' < k''"
      using rest(3) Cons.prems(3) by (auto simp: f)
    ultimately show ?thesis
      using Cons.IH [OF rest(1,2) _ _ step(3)] False by (auto simp: kept_def f ins [unfolded v'(1)] v'(1) simp del: json_size_simps)
  qed
qed

lemma redact_items_map:
  assumes "\<forall>v \<in> set xs. redacts v" and "charged b0 (json_size (JArr result)) b"
    and "redact_items xs d result b = Ok (res, b')"
  shows "res = result @ map redact xs \<and> charged b0 (json_size (JArr res)) b'"
  using assms
proof (induction xs arbitrary: result b)
  case (Cons v xs)
  then obtain b1 v' b2 where step: "bytes (of_bool (result \<noteq> [])) b = Ok b1"
    "legacy_redact v (d + 1) b1 = Ok (v', b2)" "redact_items xs d (result @ [v']) b2 = Ok (res, b')"
    by (auto simp: res_simps)
  have v': "v' = redact v" "charged b1 (json_size v') b2"
    using Cons.prems(1) step(2) by (auto simp: redacts_def)
  have "charged b0 (json_size (JArr (result @ [v']))) b2"
    using charged_trans [OF charged_trans [OF Cons.prems(2) bytes_charged(1) [OF step(1)]] v'(2)]
    by (simp only: json_size_snoc ac_simps)
  from Cons.IH [OF _ this step(3)] Cons.prems(1) show ?case by (auto simp: v'(1) simp del: json_size_simps)
qed simp

lemma scalar_bytes_charged: "scalar_bytes v b = Ok b' \<Longrightarrow> charged b (json_size v) b'"
  by (cases v) (auto simp: eval_nat_numeral dest!: bytes_charged split: if_splits)

lemma redact_all: "json_wf v \<Longrightarrow> redacts v"
proof (induction v)
  case (JObj fs)
  have ih: "\<forall>(k, v) \<in> set fs. redacts v" "bt_wf fs" using JObj by (fastforce simp: list_all_iff)+
  have "v' = redact (JObj fs) \<and> charged b (json_size v') b'" if run: "legacy_redact (JObj fs) d b = Ok (v', b')" for d b v' b'
  proof -
    from run obtain b1 b2 res where step: "visit_node d b = Ok b1" "bytes 2 b1 = Ok b2"
      "redact_fields fs d [] b2 = Ok (res, b')" "v' = JObj res"
      by (auto simp: res_simps)
    have "charged b (json_size (JObj [])) b2"
      using charged_trans [OF visit_node_charged [OF step(1)] bytes_charged(1) [OF step(2)]]
      by (simp add: commas_def numeral_2_eq_2)
    from redact_fields_kept [OF ih _ this step(3)] show ?thesis by (auto simp: step(4) kept_def simp del: json_size_simps)
  qed
  then show ?case by (simp add: redacts_def)
next
  case (JArr xs)
  have ih: "\<forall>v \<in> set xs. redacts v" using JArr by (simp add: list_all_iff)
  have "v' = redact (JArr xs) \<and> charged b (json_size v') b'" if run: "legacy_redact (JArr xs) d b = Ok (v', b')" for d b v' b'
  proof -
    from run obtain b1 b2 res where step: "visit_node d b = Ok b1" "bytes 2 b1 = Ok b2"
      "redact_items xs d [] b2 = Ok (res, b')" "v' = JArr res"
      by (auto simp: res_simps)
    have "charged b (json_size (JArr [])) b2"
      using charged_trans [OF visit_node_charged [OF step(1)] bytes_charged(1) [OF step(2)]]
      by (simp add: commas_def numeral_2_eq_2)
    from redact_items_map [OF ih this step(3)] show ?thesis by (auto simp: step(4) simp del: json_size_simps)
  qed
  then show ?case by (simp add: redacts_def)
qed (auto simp: redacts_def res_simps simp del: scalar_bytes.simps json_text.simps
    dest!: visit_node_charged scalar_bytes_charged dest: charged_trans)

fun clean :: "json \<Rightarrow> bool" where
  "clean (JObj fs) = list_all (\<lambda>(k, v). \<not> sensitive_key k \<and> clean v) fs"
| "clean (JArr xs) = list_all clean xs"
| "clean _ = True"

lemma clean_redact: "clean (redact v)"
  by (induction v) (auto simp: list_all_iff)

text \<open>What is relied on of \<^verbatim>\<open>Value::pointer\<close>: it finds a part of the value.\<close>

definition pointer_into :: "(json \<Rightarrow> string \<Rightarrow> json option) \<Rightarrow> bool" where
  "pointer_into pointer \<longleftrightarrow> (\<forall>v p x. json_wf v \<longrightarrow> pointer v p = Some x \<longrightarrow> json_wf x)"

definition legacy_step ::
    "(json \<Rightarrow> string \<Rightarrow> json option) \<Rightarrow> operation \<Rightarrow> json \<Rightarrow> string \<Rightarrow> (string \<times> json) list \<Rightarrow> (string \<times> json) list" where
  "legacy_step pointer op source p m =
     (if \<not> valid_pointer p \<or> sensitive_pointer p then m
      else case pointer source p of
          None \<Rightarrow> m
        | Some v \<Rightarrow>
            if output_mode op = Scalars \<and> (is_array v \<or> is_object v) then m
            else bt_insert p (redact v) m)"

lemma legacy_field_step:
  assumes "pointer_into pointer" and "json_wf source" and "valid_pointer p" and "p \<notin> fst ` set m"
    and "charged b0 (json_size (JObj m)) b" and "legacy_field pointer op source p (m, b) = Ok (m', b')"
  shows "m' = legacy_step pointer op source p m \<and> charged b0 (json_size (JObj m')) b'"
proof (cases "sensitive_pointer p")
  case True
  with assms(5,6) show ?thesis by (simp add: legacy_field_def legacy_step_def)
next
  case False
  note ns = this
  show ?thesis
  proof (cases "pointer source p")
    case None
    with False assms(5,6) show ?thesis by (simp add: legacy_field_def legacy_step_def)
  next
    case (Some v)
    show ?thesis
    proof (cases "output_mode op = Scalars \<and> (is_object v \<or> is_array v)")
      case True
      with False Some assms(5,6) show ?thesis
        by (auto simp: legacy_field_def legacy_step_def simp del: json_size_simps)
    next
      case no: False
      with False Some assms(6) obtain b1 v' where step: "key_bytes p (m \<noteq> []) b = Ok b1"
        "legacy_redact v 1 b1 = Ok (v', b')" "m' = bt_insert p v' m"
        by (auto simp: legacy_field_def res_simps)
      have "json_wf v" using assms(1,2) Some by (auto simp: pointer_into_def)
      then have v': "v' = redact v" "charged b1 (json_size v') b'"
        using redact_all [of v] step(2) by (auto simp: redacts_def)
      have "charged b0 (json_size (JObj m')) b'"
        using charged_trans [OF charged_trans [OF assms(5) bytes_charged(3) [OF step(1)]] v'(2)]
        by (simp only: step(3) json_size_insert [OF assms(4)] ac_simps)
      moreover have "m' = legacy_step pointer op source p m"
        using ns no Some assms(3) step(3) v'(1) by (auto simp: legacy_step_def)
      ultimately show ?thesis by simp
    qed
  qed
qed

lemma legacy_step_keys: "fst ` set (legacy_step pointer op source p m) \<subseteq> insert p (fst ` set m)"
  by (auto simp: legacy_step_def split: option.splits)

lemma legacy_fields_fold:
  assumes "pointer_into pointer" and "json_wf source" and "\<forall>p \<in> set ps. valid_pointer p"
    and "distinct ps" and "set ps \<inter> fst ` set m = {}"
    and "charged b0 (json_size (JObj m)) b" and "fold_res (legacy_field pointer op source) ps (m, b) = Ok (m', b')"
  shows "m' = fold (legacy_step pointer op source) ps m \<and> charged b0 (json_size (JObj m')) b'"
  using assms(3-)
proof (induction ps arbitrary: m b)
  case (Cons p ps)
  from Cons.prems(5) obtain m1 b1 where step: "legacy_field pointer op source p (m, b) = Ok (m1, b1)"
    "fold_res (legacy_field pointer op source) ps (m1, b1) = Ok (m', b')"
    by (auto simp: res_simps)
  have one: "m1 = legacy_step pointer op source p m" "charged b0 (json_size (JObj m1)) b1"
    using legacy_field_step [OF assms(1,2) _ _ Cons.prems(4) step(1)] Cons.prems(1,3) by auto
  have "set ps \<inter> fst ` set m1 = {}"
    by (rule disjoint_after [of _ "fst ` set m" p]) (use Cons.prems(2,3) legacy_step_keys one(1) in auto)
  from Cons.IH [OF _ _ this one(2) step(2)] Cons.prems(1,2) show ?case
    by (auto simp: one(1) simp del: json_size_simps)
qed simp

lemma disjoint_distinct:
  assumes "disjoint_output_fields ps"
  shows "distinct ps"
proof (rule ccontr)
  assume "\<not> distinct ps"
  then obtain xs ys zs p where ps: "ps = xs @ [p] @ ys @ [p] @ zs" using not_distinct_decomp by blast
  let ?f = "\<lambda>p. map decode_segment (pointer_parts p)"
  have "{#?f p, ?f p#} \<subseteq># mset (map ?f ps)" by (simp add: ps)
  then have "overlapping (map ?f ps)" unfolding overlapping_iff by blast
  with assms show False by (simp add: disjoint_output_fields_def)
qed

lemma operation_project_fold:
  assumes "disjoint_output_fields (output_fields op)" and "\<forall>tp. output_mode op \<noteq> Typed tp"
  shows "operation_project pointer op source
    = JObj (fold (legacy_step pointer op source) (output_fields op) [])"
  using assms by (cases "output_mode op") (simp_all add: operation_project_def legacy_step_def [abs_def])

lemma legacy_steps_clean:
  "list_all (\<lambda>(k, v). clean v) m \<Longrightarrow> list_all (\<lambda>(k, v). clean v) (fold (legacy_step pointer op source) ps m)"
proof (induction ps arbitrary: m)
  case (Cons p ps)
  have "list_all (\<lambda>(k, v). clean v) (legacy_step pointer op source p m)"
    using Cons.prems set_bt_insert_subset [of p _ m]
    by (fastforce simp: legacy_step_def list_all_iff clean_redact split: option.splits)
  from Cons.IH [OF this] show ?case by simp
qed simp

lemma legacy_project_result:
  assumes "pointer_into pointer" and "json_wf source"
    and "disjoint_output_fields (output_fields op)" and "\<forall>tp. output_mode op \<noteq> Typed tp"
    and "legacy_project pointer op source = Ok v"
  shows "v = operation_project pointer op source \<and> length (json_text v) \<le> max_normalized_bytes
    \<and> (\<exists>fs. v = JObj fs \<and> list_all (\<lambda>(_, x). clean x) fs)"
proof -
  from assms(5) obtain b m b' where step: "bytes 2 budget_default = Ok b"
    "fold_res (legacy_field pointer op source) (output_fields op) ([], b) = Ok (m, b')" "v = JObj m"
    by (auto simp: legacy_project_def res_simps)
  have start: "charged budget_default (json_size (JObj [])) b"
    using bytes_charged(1) [OF step(1)] by (simp add: commas_def numeral_2_eq_2)
  have valid: "\<forall>p \<in> set (output_fields op). valid_pointer p"
    using assms(3) by (simp add: disjoint_output_fields_def list_all_iff)
  have m: "m = fold (legacy_step pointer op source) (output_fields op) []"
    "charged budget_default (json_size v) b'"
    using legacy_fields_fold [OF assms(1,2) valid disjoint_distinct [OF assms(3)] _ start step(2)]
    by (auto simp: step(3))
  then show ?thesis
    using operation_project_fold [OF assms(3,4), of pointer source] legacy_steps_clean [of "[]" pointer op source "output_fields op"]
    by (auto simp: step(3) charged_def budget_default_def simp del: json_size_simps)
qed

text \<open>
  Property C17: for an operation with scalar or structured output, the budgeted projection,
  when it succeeds, equals the plain projection of the operation, is at most 65536 bytes
  encoded, and contains no object key that looks like a credential at any depth below the
  selected pointers.
\<close>

theorem legacy_project_refines:
  assumes "pointer_into pointer" and "json_wf source"
    and "disjoint_output_fields (output_fields op)" and "\<forall>tp. output_mode op \<noteq> Typed tp"
    and "legacy_project pointer op source = Ok v"
  shows "v = operation_project pointer op source \<and> length (json_text v) \<le> max_normalized_bytes
    \<and> (\<exists>fs. v = JObj fs \<and> list_all (\<lambda>(_, x). clean x) fs)"
  using assms by (rule legacy_project_result)

text \<open>
  Output pointers are accepted exactly when they are at most 64 well-formed
  pointers and no one of them addresses the same place as, or a place inside, another.
\<close>

lemma disjoint_output_fields_iff:
  "disjoint_output_fields ps \<longleftrightarrow> length ps \<le> 64 \<and> list_all valid_pointer ps
     \<and> \<not> (\<exists>p q. {#p, q#} \<subseteq># mset (map (\<lambda>p. map decode_segment (pointer_parts p)) ps) \<and> prefix p q)"
  by (simp add: disjoint_output_fields_def overlapping_iff limit_defs)

section \<open>Sample operations\<close>

definition sample_encoded :: "operation \<Rightarrow> nat option" where "sample_encoded = (\<lambda>_. Some 100)"

definition sample_ping :: operation where
  "sample_ping = \<lparr>op_name = ''ping'', description = ''Ping a host'',
     requirements = [\<lparr>category = Cat_Diagnostics, permission = Perm_Execute\<rparr>],
     parameters = [(''n'', \<lparr>p_kind = PK_Integer, required = True, allowed_values = []\<rparr>)],
     op_action = Process ''/bin/ping'' [''-c'', ''{n}''], capability = Unverified,
     output_fields = [''/stdout''], output_mode = Scalars\<rparr>"

definition sample_uci :: operation where
  "sample_uci = \<lparr>op_name = ''system_config'', description = ''System configuration'',
     requirements = [\<lparr>category = Cat_System, permission = Perm_Read\<rparr>], parameters = [],
     op_action = Ubus ''uci'' ''get'' [(''config'', JStr ''system''), (''type'', JStr ''system'')],
     capability = UbusMethod ''uci'' ''get'' [(''config'', PK_String), (''type'', PK_String)] ''uci_get.v1'',
     output_fields = [],
     output_mode = Typed (TP_Collection [''/error''] (ObjectEntries ''/values'' 8
       \<lparr>i_name = ''section'', i_max_bytes = 64\<rparr>
       \<lparr>r_fields = [\<lparr>f_name = ''kind'', f_source = ''/.type'', f_presence = Required,
           f_value = SK_TextEnum 16 [''system'']\<rparr>], r_collections = []\<rparr>) Sel_All)\<rparr>"

lemma sample_ping_valid: "validate sample_encoded sample_ping = Ok ()"
  by code_simp

lemma sample_uci_prepared:
  "prepare sample_encoded sample_uci (JObj []) = Ok (PA_Ubus ''uci'' ''get''
     (JObj [(''config'', JStr ''system''), (''type'', JStr ''system'')]))"
  by code_simp


lemma uci_operation_is_reviewed_read_witness:
  "\<exists>p. PA_Ubus ''uci'' ''get'' (JObj [(''config'', JStr ''system''), (''type'', JStr ''system'')])
    = PA_Ubus ''uci'' ''get'' (JObj [(''config'', JStr (profile_config p)), (''type'', JStr (profile_section_type p))])
    \<and> JObj [] = JObj ([] :: (string \<times> json) list)
    \<and> \<lparr>category = profile_category p, permission = Perm_Read\<rparr> \<in> set (requirements sample_uci)"
proof (rule uci_operation_is_reviewed_read [OF _ _ sample_uci_prepared])
  show "operation_wf sample_uci" by code_simp
  show "op_action sample_uci = Ubus ''uci'' ''get'' [(''config'', JStr ''system''), (''type'', JStr ''system'')]"
    by (simp add: sample_uci_def)
qed

definition sample_pointer :: "json \<Rightarrow> string \<Rightarrow> json option" where
  "sample_pointer v p = (case v of JObj fs \<Rightarrow> map_of fs (drop 1 p) | _ \<Rightarrow> None)"

lemma sample_pointer_into: "pointer_into sample_pointer"
  unfolding pointer_into_def
proof (intro allI impI)
  fix v p x
  assume "sample_pointer v p = Some x" "json_wf v"
  then show "json_wf x"
    by (cases v) (auto simp: sample_pointer_def simp del: json_wf.simps intro: json_wf_entry)
qed

lemma legacy_project_refines_witness:
  "JObj [(''/stdout'', JStr ''ok'')] = operation_project sample_pointer sample_ping (JObj [(''stdout'', JStr ''ok'')])
   \<and> length (json_text (JObj [(''/stdout'', JStr ''ok'')])) \<le> max_normalized_bytes
   \<and> (\<exists>fs. JObj [(''/stdout'', JStr ''ok'')] = JObj fs \<and> list_all (\<lambda>(_, x). clean x) fs)"
proof (rule legacy_project_refines [OF sample_pointer_into])
  show "json_wf (JObj [(''stdout'', JStr ''ok'')])" "disjoint_output_fields (output_fields sample_ping)"
    "legacy_project sample_pointer sample_ping (JObj [(''stdout'', JStr ''ok'')]) = Ok (JObj [(''/stdout'', JStr ''ok'')])"
    by code_simp+
  show "\<forall>tp. output_mode sample_ping \<noteq> Typed tp" by (simp add: sample_ping_def)
qed

end
