(* ===== verification/Command.thy ===== *)
theory Command
  imports Operation
begin

text \<open>
  Command templates (\<^verbatim>\<open>device-codec/src/command.rs\<close>): a prepared action becomes a program
  with its argument vector, and for a remote target one line of POSIX shell in which every
  element is single-quoted. The reference for the quoting is \<open>sh_words\<close>, the field
  splitting of the shell on the characters the encoder can produce.

  The arguments of a ubus call are written by serde_json's compact encoder, \<open>json_text\<close>;
  only objects of strings, booleans and 32-bit integers reach it.
\<close>

section \<open>Errors and limits\<close>

datatype codec_error = InvalidAction | Codec_OutputLimit | InvalidObservation | InvalidResponse

definition max_command_bytes :: nat where [limit_defs]: "max_command_bytes = 256 * 1024"

record command_spec =
  cs_program :: string
  cs_arguments :: "string list"

section \<open>The bounded buffer\<close>

type_synonym command_buffer = string

definition buffer_append :: "string \<Rightarrow> command_buffer \<Rightarrow> codec_error + command_buffer" where
  "buffer_append bs buf =
     (if length bs > max_command_bytes - length buf then Err InvalidAction else Ok (buf @ bs))"

text \<open>\<^verbatim>\<open>str::split_inclusive(c)\<close>: each part keeps its separator; no empty last part.\<close>

fun split_inclusive :: "char \<Rightarrow> string \<Rightarrow> string list" where
  "split_inclusive sep [] = []"
| "split_inclusive sep (c # cs) =
     (if c = sep then [c] # split_inclusive sep cs
      else (case split_inclusive sep cs of [] \<Rightarrow> [[c]] | p # ps \<Rightarrow> (c # p) # ps))"

abbreviation quote :: char where "quote \<equiv> CHR 0x27"

definition append_part :: "string \<Rightarrow> command_buffer \<Rightarrow> codec_error + command_buffer" where
  "append_part part buf = (case strip_suffix [quote] part of
       Some p \<Rightarrow> and_then (buffer_append p buf) (buffer_append [quote, CHR 0x5C, quote, quote])
     | None \<Rightarrow> buffer_append part buf)"

definition buffer_argument :: "string \<Rightarrow> command_buffer \<Rightarrow> codec_error + command_buffer" where
  "buffer_argument v buf =
     and_then (buffer_append [CHR '' '', quote] buf) (\<lambda>buf.
     and_then (fold_res append_part (split_inclusive quote v) buf) (buffer_append [quote]))"

section \<open>Compilation\<close>

definition codec_identifier :: "string \<Rightarrow> nat \<Rightarrow> bool" where
  "codec_identifier v maximum \<longleftrightarrow>
     v \<noteq> [] \<and> length v \<le> maximum \<and> is_ascii_alphabetic (hd v)
     \<and> list_all (\<lambda>b. is_ascii_alphanumeric b \<or> b \<in> set ''_.-'') v"

definition argument_name :: "string \<Rightarrow> bool" where
  "argument_name v \<longleftrightarrow> codec_identifier v 64
     \<and> list_all (\<lambda>b. is_ascii_alphanumeric b \<or> b = CHR ''_'') v"

fun argument_value_valid :: "json \<Rightarrow> bool" where
  "argument_value_valid (JStr s) = (length s \<le> 1024 \<and> NUL \<notin> set s)"
| "argument_value_valid (JNum n) =
     (case as_i64 (JNum n) of None \<Rightarrow> False | Some i \<Rightarrow> - (2 ^ 31) \<le> i \<and> i < 2 ^ 31)"
| "argument_value_valid (JBool _) = True"
| "argument_value_valid _ = False"

definition arguments_valid :: "json \<Rightarrow> bool" where
  "arguments_valid v = (case as_object v of
       None \<Rightarrow> False
     | Some arguments \<Rightarrow> length arguments \<le> 64
         \<and> list_all (\<lambda>(k, x). argument_name k \<and> argument_value_valid x) arguments)"

definition program_path :: "string \<Rightarrow> bool" where
  "program_path v \<longleftrightarrow>
     take 1 v = ''/'' \<and> \<not> ends_with v ''/'' \<and> length v \<le> 256
     \<and> list_all (\<lambda>b. is_ascii_alphanumeric b \<or> b \<in> set ''/_.-'') v
     \<and> \<not> list_ex (\<lambda>part. part = ''.'' \<or> part = ''..'') (split_char (CHR ''/'') v)"

definition quotes :: "string \<Rightarrow> nat" where
  "quotes v = length (filter (\<lambda>b. b = quote) v)"

definition add_size :: "nat option \<Rightarrow> string \<Rightarrow> nat option" where
  "add_size sofar v = Option.bind sofar (\<lambda>sofar.
     Option.bind (checked_add sofar (length v)) (\<lambda>n.
     Option.bind (checked_add n 3) (\<lambda>n.
     Option.bind (checked_mul (quotes v) 3) (checked_add n))))"

definition command_size :: "command_spec \<Rightarrow> nat option" where
  "command_size cmd = foldl add_size (Some 4) (cs_program cmd # cs_arguments cmd)"

definition action_command :: "prepared_action \<Rightarrow> codec_error + command_spec" where
  "action_command action = (case action of
       PA_ApkInstalledPage _ \<Rightarrow> Err InvalidAction
     | PA_OpkgStatusPage _ \<Rightarrow> Err InvalidAction
     | PA_Ubus object meth arguments \<Rightarrow>
         if \<not> codec_identifier object 128 \<or> \<not> codec_identifier meth 128 \<or> \<not> arguments_valid arguments
         then Err InvalidAction
         else and_then (buffer_append (json_text arguments) []) (\<lambda>text.
           Ok \<lparr>cs_program = ''/bin/ubus'', cs_arguments = [''-S'', ''call'', object, meth, text]\<rparr>)
     | PA_Process program args \<Rightarrow>
         if \<not> program_path program \<or> length args > 64
           \<or> list_ex (\<lambda>v. length v > 1024 \<or> NUL \<in> set v) args
         then Err InvalidAction
         else Ok \<lparr>cs_program = program, cs_arguments = args\<rparr>)"

definition compile_action :: "prepared_action \<Rightarrow> codec_error + command_spec" where
  "compile_action action =
     and_then (action_command action) (\<lambda>command.
       case command_size command of
         None \<Rightarrow> Err InvalidAction
       | Some n \<Rightarrow> if n > max_command_bytes then Err InvalidAction else Ok command)"

fun compile_probe :: "probe_request \<Rightarrow> command_spec" where
  "compile_probe (DescribeUbusObject object) =
     \<lparr>cs_program = ''/bin/ubus'', cs_arguments = [''-v'', ''list'', reviewed_name object]\<rparr>"

definition encode_remote :: "command_spec \<Rightarrow> codec_error + string" where
  "encode_remote command =
     and_then (buffer_argument (cs_program command) ''exec'') (\<lambda>output.
       fold_res buffer_argument (cs_arguments command) output)"

section \<open>The shell's view of the line\<close>

text \<open>
  Field splitting of a simple command (POSIX shell, 2.2 and 2.3) restricted to what needs no
  expansion: blanks separate words, a single-quoted run is literal, a backslash makes the
  next character literal (unless it is a newline, which gives no reading here), and an unquoted character is part of a word only when it is a
  letter, a digit or one of \<^verbatim>\<open>/_.-\<close>; anything else unquoted gives no reading.
  The accumulator is the word being read, if any.
\<close>

fun sh_quoted :: "string \<Rightarrow> string \<Rightarrow> (string \<times> string) option" where
  "sh_quoted w [] = None"
| "sh_quoted w (c # cs) = (if c = quote then Some (w, cs) else sh_quoted (w @ [c]) cs)"

lemma sh_quoted_shorter: "sh_quoted w s = Some (w', r) \<Longrightarrow> length r < length s"
  by (induction w s rule: sh_quoted.induct) (auto split: if_splits)

definition flush_word :: "string option \<Rightarrow> string list \<Rightarrow> string list" where
  "flush_word w ws = (case w of None \<Rightarrow> ws | Some w \<Rightarrow> ws @ [w])"

definition word_text :: "string option \<Rightarrow> string" where
  "word_text w = (case w of None \<Rightarrow> [] | Some w \<Rightarrow> w)"

function sh_scan :: "string option \<Rightarrow> string list \<Rightarrow> string \<Rightarrow> string list option" where
  "sh_scan w ws [] = Some (flush_word w ws)"
| "sh_scan w ws (c # cs) =
     (if c = CHR '' '' then sh_scan None (flush_word w ws) cs
      else if c = quote then
        (case sh_quoted (word_text w) cs of
           None \<Rightarrow> None
         | Some (w', r) \<Rightarrow> sh_scan (Some w') ws r)
      else if c = CHR 0x5C then
        (case cs of
           [] \<Rightarrow> None
         | d # ds \<Rightarrow> if d = CHR 0x0A then None else sh_scan (Some (word_text w @ [d])) ws ds)
      else if is_ascii_alphanumeric c \<or> c \<in> set ''/_.-''
      then sh_scan (Some (word_text w @ [c])) ws cs
      else None)"
  by pat_completeness auto
termination
  by (relation "measure (\<lambda>(_, _, s). length s)") (auto dest: sh_quoted_shorter)

definition sh_words :: "string \<Rightarrow> string list option" where
  "sh_words s = sh_scan None [] s"

section \<open>What the buffer holds\<close>

definition quoted :: "string \<Rightarrow> string" where
  "quoted v = concat (map (\<lambda>c. if c = quote then [quote, CHR 0x5C, quote, quote] else [c]) v)"

definition shell_word :: "string \<Rightarrow> string" where
  "shell_word v = [CHR '' '', quote] @ quoted v @ [quote]"

definition remote_line :: "command_spec \<Rightarrow> string" where
  "remote_line cmd = ''exec'' @ concat (map shell_word (cs_program cmd # cs_arguments cmd))"

lemma quoted_simps [simp]:
  "quoted [] = []"
  "quoted (c # v) = (if c = quote then [quote, CHR 0x5C, quote, quote] else [c]) @ quoted v"
  "quoted (v @ u) = quoted v @ quoted u"
  by (simp_all add: quoted_def)

lemma length_quoted: "length (quoted v) = length v + 3 * quotes v"
  by (induction v) (auto simp: quotes_def)

lemma length_shell_word: "length (shell_word v) = length v + 3 + 3 * quotes v"
  by (simp add: shell_word_def length_quoted)

text \<open>A sequence of appends fails exactly when the whole text does not fit.\<close>

definition fits_into :: "command_buffer \<Rightarrow> string \<Rightarrow> codec_error + command_buffer" where
  "fits_into buf bs = (if length buf + length bs \<le> max_command_bytes then Ok (buf @ bs) else Err InvalidAction)"

lemma buffer_append_fits: "length buf \<le> max_command_bytes \<Longrightarrow> buffer_append bs buf = fits_into buf bs"
  by (auto simp: buffer_append_def fits_into_def)

lemma fits_into_then:
  assumes "\<And>b. length b \<le> max_command_bytes \<Longrightarrow> f b = fits_into b ys"
  shows "and_then (fits_into buf xs) f = fits_into buf (xs @ ys)"
  using assms by (auto simp: fits_into_def)

lemma quoted_plain: "quote \<notin> set v \<Longrightarrow> quoted v = v"
  by (induction v) auto

lemma split_inclusive_plain: "c \<notin> set v \<Longrightarrow> split_inclusive c v = (if v = [] then [] else [v])"
  by (induction v) auto

lemma split_inclusive_first:
  "c \<notin> set a \<Longrightarrow> split_inclusive c (a @ c # b) = (a @ [c]) # split_inclusive c b"
  by (induction a) auto

lemma append_parts_fits:
  "length buf \<le> max_command_bytes \<Longrightarrow> fold_res append_part (split_inclusive quote v) buf = fits_into buf (quoted v)"
proof (induction v arbitrary: buf rule: length_induct)
  case (1 v)
  show ?case
  proof (cases "quote \<in> set v")
    case False
    then have "strip_suffix [quote] v = None"
      by (cases "strip_suffix [quote] v") auto
    with False 1(2) show ?thesis
      by (simp add: split_inclusive_plain quoted_plain append_part_def buffer_append_fits fits_into_then fits_into_def)
  next
    case True
    then obtain a b where v: "v = a @ quote # b" "quote \<notin> set a" using split_list_first by metis
    have "append_part (a @ [quote]) buf = fits_into buf (a @ [quote, CHR 0x5C, quote, quote])"
      using 1(2) by (simp add: append_part_def strip_suffix_def buffer_append_fits fits_into_then)
    with v 1 show ?thesis
      by (simp add: split_inclusive_first quoted_plain fits_into_then)
  qed
qed

lemma buffer_argument_fits:
  "length buf \<le> max_command_bytes \<Longrightarrow> buffer_argument v buf = fits_into buf (shell_word v)"
  unfolding buffer_argument_def shell_word_def
  by (simp add: buffer_append_fits fits_into_then append_parts_fits del: append_Cons append_Nil append_assoc
      add: append_assoc [symmetric])

lemma fold_argument_fits:
  "length buf \<le> max_command_bytes \<Longrightarrow> fold_res buffer_argument vs buf = fits_into buf (concat (map shell_word vs))"
proof (induction vs arbitrary: buf)
  case Nil
  then show ?case by (simp add: fits_into_def)
next
  case (Cons v vs)
  then show ?case by (simp add: buffer_argument_fits fits_into_then)
qed

lemma encode_remote_eq:
  "encode_remote cmd = (if length (remote_line cmd) \<le> max_command_bytes then Ok (remote_line cmd) else Err InvalidAction)"
proof -
  have "encode_remote cmd = fits_into ''exec'' (concat (map shell_word (cs_program cmd # cs_arguments cmd)))"
    using fits_into_then [OF fold_argument_fits]
    by (simp add: encode_remote_def buffer_argument_fits limit_defs)
  then show ?thesis by (simp add: fits_into_def remote_line_def)
qed

section \<open>The size computed in advance\<close>

lemma add_size_Some:
  "add_size (Some n) v = (if n + length (shell_word v) \<le> usize_max then Some (n + length (shell_word v)) else None)"
  by (auto simp: add_size_def length_shell_word checked_add_def checked_mul_def)

lemma foldl_add_size:
  "foldl add_size (Some n) vs =
    (if n + length (concat (map shell_word vs)) \<le> usize_max then Some (n + length (concat (map shell_word vs))) else None)"
  if "n \<le> usize_max" for n
  using that
proof (induction vs arbitrary: n)
  case (Cons v vs)
  have "foldl add_size None vs = None" by (induction vs) (simp_all add: add_size_def)
  with Cons show ?case by (auto simp: add_size_Some)
qed simp

lemma command_size_eq:
  "command_size cmd = (if length (remote_line cmd) \<le> usize_max then Some (length (remote_line cmd)) else None)"
  unfolding command_size_def by (subst foldl_add_size) (simp_all add: remote_line_def limit_defs)

section \<open>What the shell reads\<close>

lemma sh_scan_quoted:
  "(case sh_quoted w (quoted v @ quote # r) of None \<Rightarrow> None | Some (w', r) \<Rightarrow> sh_scan (Some w') ws r)
   = sh_scan (Some (w @ v)) ws r"
  by (induction v arbitrary: w) (auto simp: word_text_def)

lemma sh_scan_word: "sh_scan (Some w) ws (shell_word v @ r) = sh_scan (Some v) (ws @ [w]) r"
  using sh_scan_quoted [where w = "[]" and v = v and r = r and ws = "ws @ [w]"] by (simp add: shell_word_def flush_word_def word_text_def)

lemma sh_scan_words: "sh_scan (Some w) ws (concat (map shell_word vs)) = Some (ws @ w # vs)"
  by (induction vs arbitrary: w ws) (simp_all add: sh_scan_word flush_word_def)

lemma sh_words_remote_line: "sh_words (remote_line cmd) = Some (''exec'' # cs_program cmd # cs_arguments cmd)"
proof -
  have "sh_words (''exec'' @ r) = sh_scan (Some ''exec'') [] r" for r
    by (simp add: sh_words_def word_text_def ascii_defs)
  then show ?thesis by (simp add: remote_line_def sh_scan_words del: append_Cons append_Nil list.map concat.simps)
qed

section \<open>Properties\<close>

text \<open>
  Property C24: no argument can change the meaning of a remote command. Whatever characters
  the program and the arguments contain, the line the encoder emits is read by the shell as
  exactly the word \<^verbatim>\<open>exec\<close>, the program, and the arguments, one word each.
\<close>

theorem encode_remote_words:
  assumes "encode_remote cmd = Ok line"
  shows "sh_words line = Some (''exec'' # cs_program cmd # cs_arguments cmd)"
  using assms by (auto simp: encode_remote_eq sh_words_remote_line split: if_splits)

text \<open>
  The size computed before a command is spawned or encoded is exact. Remote
  encoding succeeds precisely when the checked sum exists and is within the limit, and then
  the sum is the number of bytes written; a compiled action therefore always encodes.
\<close>

lemma command_size_exact:
  "(encode_remote cmd = Ok line \<longleftrightarrow> command_size cmd = Some (length line) \<and> length line \<le> max_command_bytes
      \<and> line = ''exec'' @ concat (map shell_word (cs_program cmd # cs_arguments cmd)))
   \<and> is_ok (compile_action action) = (\<exists>cmd. action_command action = Ok cmd \<and> is_ok (encode_remote cmd))"
proof -
  have l: "max_command_bytes \<le> usize_max" by (simp add: limit_defs)
  then have "is_ok (compile_action action) = (\<exists>cmd. action_command action = Ok cmd \<and> is_ok (encode_remote cmd))"
    by (cases "action_command action") (auto simp: compile_action_def encode_remote_eq command_size_eq)
  with l show ?thesis
    by (auto simp: encode_remote_eq command_size_eq remote_line_def)
qed

lemma encode_remote_words_witness:
  "sh_words (remote_line \<lparr>cs_program = ''/bin/echo'', cs_arguments = [''a b'', [quote, CHR '';'', quote]]\<rparr>)
   = Some [''exec'', ''/bin/echo'', ''a b'', [quote, CHR '';'', quote]]"
  using encode_remote_words [of "\<lparr>cs_program = ''/bin/echo'', cs_arguments = [''a b'', [quote, CHR '';'', quote]]\<rparr>"]
  by (simp add: encode_remote_eq remote_line_def shell_word_def limit_defs)

end
