(* ===== verification/Effect.thy ===== *)
theory Effect
  imports Prelude
begin

text \<open>
  Functions of the source that change a state through \<^verbatim>\<open>&mut\<close> references and may return
  early: \<open>'s \<Rightarrow> ('e + 'a) \<times> 's\<close>, the result beside the state left behind, on every path. A port
  that the caller injects is a function on the unknown part of that state. The predicate
  \<open>meets\<close> states what holds after a normal and after an early return; its rules follow the
  composition of the code.
\<close>

type_synonym ('s, 'e, 'a) eff = "'s \<Rightarrow> ('e + 'a) \<times> 's"

definition give :: "'a \<Rightarrow> ('s, 'e, 'a) eff" where
  "give x = (\<lambda>s. (Inr x, s))"

definition raise :: "'e \<Rightarrow> ('s, 'e, 'a) eff" where
  "raise e = (\<lambda>s. (Inl e, s))"

definition get :: "('s \<Rightarrow> 'a) \<Rightarrow> ('s, 'e, 'a) eff" where
  "get f = (\<lambda>s. (Inr (f s), s))"

definition change :: "('s \<Rightarrow> 's) \<Rightarrow> ('s, 'e, unit) eff" where
  "change f = (\<lambda>s. (Inr (), f s))"

definition seq :: "('s, 'e, 'a) eff \<Rightarrow> ('a \<Rightarrow> ('s, 'e, 'b) eff) \<Rightarrow> ('s, 'e, 'b) eff" where
  "seq m f = (\<lambda>s. case m s of (Inl e, s') \<Rightarrow> (Inl e, s') | (Inr x, s') \<Rightarrow> f x s')"

text \<open>\<^verbatim>\<open>match\<close> on a result: nothing returns early here.\<close>

definition caught :: "('s, 'e, 'a) eff \<Rightarrow> ('s, 'f, 'e + 'a) eff" where
  "caught m = (\<lambda>s. case m s of (r, s') \<Rightarrow> (Inr r, s'))"

definition refuse :: "bool \<Rightarrow> 'e \<Rightarrow> ('s, 'e, unit) eff" where
  "refuse b e = (if b then raise e else give ())"

primrec each :: "('a \<Rightarrow> ('s, 'e, unit) eff) \<Rightarrow> 'a list \<Rightarrow> ('s, 'e, unit) eff" where
  "each f [] = give ()"
| "each f (x # xs) = seq (f x) (\<lambda>_. each f xs)"

named_theorems eff_defs "the definitions of the effect combinators"

lemmas [eff_defs] = give_def raise_def get_def change_def seq_def caught_def refuse_def

lemma seq_Ok: "seq m f b = (Inr v, b') \<longleftrightarrow> (\<exists>x b1. m b = (Inr x, b1) \<and> f x b1 = (Inr v, b'))"
  by (auto simp: seq_def split: prod.splits sum.splits)

lemma refuse_Ok: "refuse c e b = (Inr x, b') \<longleftrightarrow> \<not> c \<and> b' = b"
  by (auto simp: refuse_def eff_defs)

section \<open>What a function ensures\<close>

definition meets ::
    "('s \<Rightarrow> bool) \<Rightarrow> ('s, 'e, 'a) eff \<Rightarrow> ('a \<Rightarrow> 's \<Rightarrow> bool) \<Rightarrow> ('e \<Rightarrow> 's \<Rightarrow> bool) \<Rightarrow> bool" where
  "meets P m Q E \<longleftrightarrow> (\<forall>s. P s \<longrightarrow> (case m s of (Inr x, s') \<Rightarrow> Q x s' | (Inl e, s') \<Rightarrow> E e s'))"

lemma meetsD: "meets P m Q E \<Longrightarrow> P s \<Longrightarrow> m s = (Inr x, s') \<Longrightarrow> Q x s'"
  by (auto simp: meets_def)

lemma meetsD_early: "meets P m Q E \<Longrightarrow> P s \<Longrightarrow> m s = (Inl e, s') \<Longrightarrow> E e s'"
  by (fastforce simp: meets_def)

lemma meets_weaken:
  assumes "meets P m Q E" and "\<And>s. P' s \<Longrightarrow> P s"
    and "\<And>x s. Q x s \<Longrightarrow> Q' x s" and "\<And>e s. E e s \<Longrightarrow> E' e s"
  shows "meets P' m Q' E'"
  using assms unfolding meets_def by (fastforce split: prod.splits sum.splits)

lemma meets_pre: "meets P m Q E \<Longrightarrow> (\<And>s. P' s \<Longrightarrow> P s) \<Longrightarrow> meets P' m Q E"
  by (rule meets_weaken)

lemma meets_give: "meets (\<lambda>s. Q x s) (give x) Q E"
  by (simp add: meets_def give_def)

lemma meets_raise: "meets (\<lambda>s. E e s) (raise e) Q E"
  by (simp add: meets_def raise_def)

lemma meets_get: "meets (\<lambda>s. Q (f s) s) (get f) Q E"
  by (simp add: meets_def get_def)

lemma meets_change: "meets (\<lambda>s. Q () (f s)) (change f) Q E"
  by (simp add: meets_def change_def)

lemma meets_refuse: "meets (\<lambda>s. if b then E e s else Q () s) (refuse b e) Q E"
  by (simp add: meets_def refuse_def raise_def give_def)

lemma meets_seq:
  assumes "meets P m R E" and "\<And>x. meets (R x) (f x) Q E"
  shows "meets P (seq m f) Q E"
  using assms unfolding meets_def seq_def by (fastforce split: prod.splits sum.splits)

lemma meets_caught:
  assumes "meets P m (\<lambda>x. Q (Inr x)) (\<lambda>e. Q (Inl e))"
  shows "meets P (caught m) Q E"
  using assms unfolding meets_def caught_def by (fastforce split: prod.splits sum.splits)

lemma meets_if:
  assumes "b \<Longrightarrow> meets P m Q E" and "\<not> b \<Longrightarrow> meets P n Q E"
  shows "meets P (if b then m else n) Q E"
  using assms by simp

lemma meets_each:
  assumes "\<And>x. x \<in> set xs \<Longrightarrow> meets I (f x) (\<lambda>_. I) E"
  shows "meets I (each f xs) (\<lambda>_. I) E"
  using assms
proof (induction xs)
  case (Cons x xs)
  have "meets I (each f xs) (\<lambda>_. I) E" using Cons by simp
  then show ?case using Cons.prems by (auto intro: meets_seq)
qed (simp add: meets_def give_def)

lemma meets_and:
  "meets P m Q E \<Longrightarrow> meets P' m Q' E'
     \<Longrightarrow> meets (\<lambda>s. P s \<and> P' s) m (\<lambda>x s. Q x s \<and> Q' x s) (\<lambda>e s. E e s \<and> E' e s)"
  unfolding meets_def by (auto split: prod.splits sum.splits)

end
