(* ===== verification/Response.thy ===== *)
theory Response
  imports Command Effect
begin

text \<open>
  The bounded decoder of device responses (\<^verbatim>\<open>device-codec/src/response.rs\<close>). The JSON reader
  of serde_json calls the visitor value by value; what it reads of a text is a tree of such calls,
  \<open>raw\<close>, in which a value may be malformed and a container may lack its end, beside whether only
  white space follows. The reader is the parameter \<open>reader\<close>; strings and keys in the tree are decoded.
\<close>

section \<open>What the reader offers\<close>

datatype raw =
  Raw_Unit
| Raw_Bool bool
| Raw_I64 int
| Raw_U64 nat
| Raw_F64 "string option"
| Raw_Str string
| Raw_Seq "raw list" bool
| Raw_Map "(string \<times> raw) list" bool
| Raw_Malformed

type_synonym lexer = "string \<Rightarrow> raw \<times> bool"

section \<open>Limits\<close>

definition max_action_bytes :: nat where [limit_defs]: "max_action_bytes = 16777216"
definition max_action_depth :: nat where [limit_defs]: "max_action_depth = 32"
definition max_action_nodes :: nat where [limit_defs]: "max_action_nodes = 65536"

record response_budget =
  rb_remaining :: nat
  rb_failure :: "codec_error option"

definition exhausted :: "(response_budget, unit, 'a) eff" where
  "exhausted = (\<lambda>b. (Inl (), b\<lparr>rb_failure := Some Codec_OutputLimit\<rparr>))"

section \<open>The visitor\<close>

definition charge_value :: "(response_budget, unit, unit) eff" where
  "charge_value = seq (get rb_remaining) (\<lambda>remaining.
     if remaining = 0 then exhausted
     else change (\<lambda>b. b\<lparr>rb_remaining := remaining - 1\<rparr>))"

definition enter_container :: "nat \<Rightarrow> (response_budget, unit, unit) eff" where
  "enter_container depth = (if depth = max_action_depth then exhausted else give ())"

fun value_seed :: "nat \<Rightarrow> raw \<Rightarrow> (response_budget, unit, json) eff"
  and elements_seed :: "nat \<Rightarrow> raw list \<Rightarrow> json list \<Rightarrow> (response_budget, unit, json list) eff"
  and entries_seed :: "nat \<Rightarrow> (string \<times> raw) list \<Rightarrow> (string, json) btree_map
    \<Rightarrow> (response_budget, unit, (string, json) btree_map) eff"
where
  "value_seed depth Raw_Unit = seq charge_value (\<lambda>_. give JNull)"
| "value_seed depth (Raw_Bool v) = seq charge_value (\<lambda>_. give (JBool v))"
| "value_seed depth (Raw_I64 v) = seq charge_value (\<lambda>_. give (json_int v))"
| "value_seed depth (Raw_U64 v) = seq charge_value (\<lambda>_. give (json_nat v))"
| "value_seed depth (Raw_F64 v) = seq charge_value (\<lambda>_. case v of
       None \<Rightarrow> raise ()
     | Some text \<Rightarrow> give (JNum (Float text)))"
| "value_seed depth (Raw_Str v) = seq charge_value (\<lambda>_. give (JStr v))"
| "value_seed depth (Raw_Seq rs ended) =
     seq charge_value (\<lambda>_.
     seq (enter_container depth) (\<lambda>_.
     seq (elements_seed (depth + 1) rs []) (\<lambda>values.
     seq (refuse (\<not> ended) ()) (\<lambda>_.
     give (JArr values)))))"
| "value_seed depth (Raw_Map es ended) =
     seq charge_value (\<lambda>_.
     seq (enter_container depth) (\<lambda>_.
     seq (entries_seed (depth + 1) es []) (\<lambda>values.
     seq (refuse (\<not> ended) ()) (\<lambda>_.
     give (JObj values)))))"
| "value_seed depth Raw_Malformed = seq charge_value (\<lambda>_. raise ())"
| "elements_seed depth [] values = give values"
| "elements_seed depth (r # rs) values =
     seq (value_seed depth r) (\<lambda>v. elements_seed depth rs (values @ [v]))"
| "entries_seed depth [] values = give values"
| "entries_seed depth ((key, r) # es) values =
     seq (refuse (bt_contains_key values key) ()) (\<lambda>_.
     seq (value_seed depth r) (\<lambda>v.
     entries_seed depth es (bt_insert key v values)))"

definition json_blank :: "char \<Rightarrow> bool" where
  "json_blank c \<longleftrightarrow> c = CHR '' '' \<or> c = CHR 0x09 \<or> c = CHR 0x0D \<or> c = CHR 0x0A"

definition parse_action_response :: "lexer \<Rightarrow> string \<Rightarrow> nat \<Rightarrow> codec_error + json" where
  "parse_action_response reader bs configured_limit =
     (if configured_limit = 0 \<or> length bs > min configured_limit max_action_bytes then Err Codec_OutputLimit
      else if list_all json_blank bs then Ok JNull
      else case reader bs of (r, ended) \<Rightarrow>
        (case value_seed 0 r \<lparr>rb_remaining = max_action_nodes, rb_failure = None\<rparr> of
           (Inl _, b) \<Rightarrow> Err (case rb_failure b of Some e \<Rightarrow> e | None \<Rightarrow> InvalidResponse)
         | (Inr v, _) \<Rightarrow> if ended then Ok v else Err InvalidResponse))"

section \<open>What is decoded\<close>

text \<open>A complete value with unique keys, its size, its nesting and what it stands for.\<close>

fun raw_sound :: "raw \<Rightarrow> bool" where
  "raw_sound (Raw_F64 v) = (v \<noteq> None)"
| "raw_sound (Raw_Seq rs ended) = (ended \<and> (\<forall>r \<in> set rs. raw_sound r))"
| "raw_sound (Raw_Map es ended) = (ended \<and> distinct (map fst es) \<and> (\<forall>e \<in> set es. raw_sound (snd e)))"
| "raw_sound Raw_Malformed = False"
| "raw_sound _ = True"

fun raw_nodes :: "raw \<Rightarrow> nat" where
  "raw_nodes (Raw_Seq rs _) = Suc (sum_list (map raw_nodes rs))"
| "raw_nodes (Raw_Map es _) = Suc (sum_list (map (\<lambda>e. raw_nodes (snd e)) es))"
| "raw_nodes _ = 1"

fun raw_depth :: "raw \<Rightarrow> nat" where
  "raw_depth (Raw_Seq rs _) = Suc (foldr max (map raw_depth rs) 0)"
| "raw_depth (Raw_Map es _) = Suc (foldr max (map (\<lambda>e. raw_depth (snd e)) es) 0)"
| "raw_depth _ = 0"

fun raw_value :: "raw \<Rightarrow> json" where
  "raw_value Raw_Unit = JNull"
| "raw_value (Raw_Bool v) = JBool v"
| "raw_value (Raw_I64 v) = json_int v"
| "raw_value (Raw_U64 v) = json_nat v"
| "raw_value (Raw_F64 v) = JNum (Float (the v))"
| "raw_value (Raw_Str v) = JStr v"
| "raw_value (Raw_Seq rs _) = JArr (map raw_value rs)"
| "raw_value (Raw_Map es _) = JObj (bt_of_list (map (\<lambda>e. (fst e, raw_value (snd e))) es))"
| "raw_value Raw_Malformed = JNull"

lemma foldr_max_le: "Suc (d + foldr max xs 0) \<le> n \<longleftrightarrow> Suc d \<le> n \<and> (\<forall>x \<in> set xs. Suc (d + x) \<le> n)"
  by (induction xs) (auto simp: max_def)

definition spends :: "nat \<Rightarrow> response_budget \<Rightarrow> response_budget" where
  "spends n b = b\<lparr>rb_remaining := rb_remaining b - n\<rparr>"

lemma charge_value_eq:
  "charge_value b = (if rb_remaining b = 0 then (Inl (), b\<lparr>rb_failure := Some Codec_OutputLimit\<rparr>) else (Inr (), spends 1 b))"
  by (simp add: charge_value_def exhausted_def eff_defs spends_def)

lemma enter_container_eq:
  "enter_container d b = (if d = max_action_depth then (Inl (), b\<lparr>rb_failure := Some Codec_OutputLimit\<rparr>) else (Inr (), b))"
  by (simp add: enter_container_def exhausted_def eff_defs)

lemma spends_simps [simp]: "spends m (spends n b) = spends (n + m) b" "spends 0 b = b" "rb_remaining (spends n b) = rb_remaining b - n"
  by (simp_all add: spends_def)

lemma bt_fold_insert:
  "fold (\<lambda>(k, v). bt_insert k v) (map (\<lambda>e. (fst e, f (snd e))) es) m = fold (\<lambda>e. bt_insert (fst e) (f (snd e))) es m"
  by (induction es arbitrary: m) simp_all

lemma seeds_iff:
  "d \<le> max_action_depth \<Longrightarrow> value_seed d r b = (Inr v, b') \<longleftrightarrow>
     raw_sound r \<and> raw_nodes r \<le> rb_remaining b \<and> d + raw_depth r \<le> max_action_depth
     \<and> v = raw_value r \<and> b' = spends (raw_nodes r) b"
  "d \<le> max_action_depth \<Longrightarrow> elements_seed d rs vs b = (Inr ws, b') \<longleftrightarrow>
     (\<forall>r \<in> set rs. raw_sound r \<and> d + raw_depth r \<le> max_action_depth)
     \<and> sum_list (map raw_nodes rs) \<le> rb_remaining b
     \<and> ws = vs @ map raw_value rs \<and> b' = spends (sum_list (map raw_nodes rs)) b"
  "d \<le> max_action_depth \<Longrightarrow> entries_seed d es m b = (Inr m', b') \<longleftrightarrow>
     distinct (map fst es) \<and> fst ` set es \<inter> fst ` set m = {}
     \<and> (\<forall>e \<in> set es. raw_sound (snd e) \<and> d + raw_depth (snd e) \<le> max_action_depth)
     \<and> sum_list (map (\<lambda>e. raw_nodes (snd e)) es) \<le> rb_remaining b
     \<and> m' = fold (\<lambda>e. bt_insert (fst e) (raw_value (snd e))) es m
     \<and> b' = spends (sum_list (map (\<lambda>e. raw_nodes (snd e)) es)) b"
proof (induction d r and d rs vs and d es m arbitrary: b v b' and b ws b' and b m' b'
    rule: value_seed_elements_seed_entries_seed.induct)
  case (5 depth number)
  then show ?case by (cases number) (auto simp: seq_Ok charge_value_eq eff_defs)
next
  case (7 depth rs ended)
  then show ?case
    by (auto simp: seq_Ok charge_value_eq enter_container_eq refuse_Ok give_def foldr_max_le split: if_splits)
next
  case (8 depth es ended)
  then show ?case
    by (auto simp: seq_Ok charge_value_eq enter_container_eq refuse_Ok give_def foldr_max_le bt_of_list_def bt_fold_insert
        split: if_splits)
next
  case (11 depth r rs vs)
  then show ?case by (auto simp: seq_Ok)
next
  case (13 depth key r es m)
  then show ?case by (auto simp: seq_Ok refuse_Ok)
qed (auto simp: seq_Ok charge_value_eq eff_defs)

text \<open>
  Property C36: a response is decoded exactly or refused. Within the byte limit, blank output is
  null; any other output is accepted exactly when it is one complete JSON value, no object in it
  repeats a key, it has at most 65536 values and containers nest at most 32 deep, and then the
  result is the value that was read: nothing is dropped and no duplicate overwrites another.
\<close>

theorem parse_action_response_iff:
  "parse_action_response reader bs configured_limit = Ok v \<longleftrightarrow>
     0 < configured_limit \<and> length bs \<le> min configured_limit max_action_bytes
     \<and> (if list_all json_blank bs then v = JNull
         else \<exists>r. reader bs = (r, True) \<and> raw_sound r \<and> raw_nodes r \<le> max_action_nodes
           \<and> raw_depth r \<le> max_action_depth \<and> v = raw_value r)"
proof -
  obtain r ended where r: "reader bs = (r, ended)" by (cases "reader bs")
  let ?b = "\<lparr>rb_remaining = max_action_nodes, rb_failure = None\<rparr>"
  obtain x b where x: "value_seed 0 r ?b = (x, b)" by (cases "value_seed 0 r ?b")
  have ok: "x = Inr w \<longleftrightarrow> raw_sound r \<and> raw_nodes r \<le> max_action_nodes \<and> raw_depth r \<le> max_action_depth
      \<and> w = raw_value r" for w
  proof
    assume "x = Inr w"
    with x seeds_iff(1) [of 0 r ?b w b] show "raw_sound r \<and> raw_nodes r \<le> max_action_nodes
        \<and> raw_depth r \<le> max_action_depth \<and> w = raw_value r" by simp
  next
    assume "raw_sound r \<and> raw_nodes r \<le> max_action_nodes \<and> raw_depth r \<le> max_action_depth \<and> w = raw_value r"
    with x seeds_iff(1) [of 0 r ?b w "spends (raw_nodes r) ?b"] show "x = Inr w" by simp
  qed
  show ?thesis
  proof (cases x)
    case (Inl e)
    with ok r x show ?thesis by (auto simp: parse_action_response_def)
  next
    case (Inr w)
    with ok [of w] r x show ?thesis by (auto simp: parse_action_response_def)
  qed
qed

end
