(* ===== verification/PackageCodec.thy ===== *)
theory PackageCodec
  imports Response
begin

text \<open>
  The package observations of \<^verbatim>\<open>device-codec/src/packages.rs\<close> and
  \<^verbatim>\<open>packages/opkg.rs\<close>: the fixed commands, the version banners, and the parser of the
  opkg status file. The reader and \<^verbatim>\<open>serde_json::from_value\<close>, which belong to serde_json,
  are parameters of \<open>parse_apk_installed\<close>.
\<close>

section \<open>UTF-8\<close>

text \<open>\<^verbatim>\<open>std::str::from_utf8(bytes).is_ok()\<close>: the well-formed sequences of the Unicode standard.\<close>

definition continuation :: "char \<Rightarrow> bool" where
  "continuation b \<longleftrightarrow> 128 \<le> byte b \<and> byte b \<le> 191"

fun valid_utf8 :: "string \<Rightarrow> bool" where
  "valid_utf8 [] = True"
| "valid_utf8 (a # bs) =
     (if byte a < 128 then valid_utf8 bs
      else if 194 \<le> byte a \<and> byte a \<le> 223 then
        (case bs of b # r \<Rightarrow> continuation b \<and> valid_utf8 r | _ \<Rightarrow> False)
      else if 224 \<le> byte a \<and> byte a \<le> 239 then
        (case bs of b # c # r \<Rightarrow>
             (if byte a = 224 then 160 \<le> byte b \<and> byte b \<le> 191
              else if byte a = 237 then 128 \<le> byte b \<and> byte b \<le> 159
              else continuation b) \<and> continuation c \<and> valid_utf8 r
           | _ \<Rightarrow> False)
      else if 240 \<le> byte a \<and> byte a \<le> 244 then
        (case bs of b # c # d # r \<Rightarrow>
             (if byte a = 240 then 144 \<le> byte b \<and> byte b \<le> 191
              else if byte a = 244 then 128 \<le> byte b \<and> byte b \<le> 143
              else continuation b) \<and> continuation c \<and> continuation d \<and> valid_utf8 r
           | _ \<Rightarrow> False)
      else False)"

text \<open>\<^verbatim>\<open>chars().any(|c| c.is_control() && c != '\n' && c != '\t')\<close> on valid text.\<close>

fun has_layout_control :: "string \<Rightarrow> bool" where
  "has_layout_control [] = False"
| "has_layout_control (c # cs) =
     (((byte c < 32 \<or> byte c = 127) \<and> byte c \<noteq> 10 \<and> byte c \<noteq> 9)
      \<or> (byte c = 194 \<and> (case cs of [] \<Rightarrow> False | d # _ \<Rightarrow> 128 \<le> byte d \<and> byte d \<le> 159))
      \<or> has_layout_control cs)"

section \<open>Fixed commands\<close>

definition apk_command :: "string list \<Rightarrow> command_spec" where
  "apk_command args = \<lparr>cs_program = ''/usr/bin/env'', cs_arguments =
     [''-i'', ''PATH=/usr/sbin:/usr/bin:/sbin:/bin'', ''LANG=C'', ''APK_CONFIG=/dev/null'',
      ''/usr/bin/apk'', ''--no-network'', ''--no-cache'', ''--no-logfile''] @ args\<rparr>"

definition apk_version_command :: command_spec where
  "apk_version_command = apk_command [''--version'']"

definition apk_installed_command :: command_spec where
  "apk_installed_command = apk_command
     [''query'', ''--from'', ''installed'', ''--installed'', ''--all-matches'', ''--format'', ''json'',
      ''--fields'', ''name,version,arch,layer'', ''*'']"

definition opkg_command :: "string \<Rightarrow> string \<Rightarrow> command_spec" where
  "opkg_command program argument = \<lparr>cs_program = ''/usr/bin/env'', cs_arguments =
     [''-i'', ''PATH=/usr/sbin:/usr/bin:/sbin:/bin'', ''LANG=C'', program, argument]\<rparr>"

definition opkg_version_command :: command_spec where
  "opkg_version_command = opkg_command ''/bin/opkg'' ''--version''"

definition opkg_status_command :: command_spec where
  "opkg_status_command = opkg_command ''/bin/cat'' ''/usr/lib/opkg/status''"

section \<open>Version banners\<close>

definition max_apk_version_bytes :: nat where [limit_defs]: "max_apk_version_bytes = 256"
definition max_opkg_version_bytes :: nat where [limit_defs]: "max_opkg_version_bytes = 256"

definition newline :: char where "newline = CHR 0x0A"

definition validate_apk_version :: "string \<Rightarrow> codec_error + unit" where
  "validate_apk_version bs =
     (if length bs > max_apk_version_bytes then Err Codec_OutputLimit
      else if \<not> valid_utf8 bs then Err InvalidObservation
      else and_then (ok_or InvalidObservation
             (Option.bind (strip_prefix ''apk-tools 3.0.5, compiled for '' bs) (strip_suffix [CHR ''.'', newline]))) (\<lambda>arch.
        if arch = [] \<or> length arch > 64
          \<or> \<not> list_all (\<lambda>b. is_ascii_alphanumeric b \<or> b \<in> set ''_-'') arch
        then Err InvalidObservation else Ok ()))"

definition opkg_banner :: string where
  "opkg_banner = ''opkg version 38eccbb1fd694d4798ac1baf88f9ba83d1eac616 (2024-10-16)'' @ [newline]"

definition validate_opkg_version :: "string \<Rightarrow> codec_error + unit" where
  "validate_opkg_version bs =
     (if length bs > max_opkg_version_bytes then Err Codec_OutputLimit
      else if bs \<noteq> opkg_banner then Err InvalidObservation else Ok ())"

fun observation_error :: "core_error \<Rightarrow> codec_error" where
  "observation_error OutputLimit = Codec_OutputLimit"
| "observation_error _ = InvalidResponse"

definition parse_apk_installed ::
    "lexer \<Rightarrow> (json \<Rightarrow> package_record list option) \<Rightarrow> string \<Rightarrow> nat
     \<Rightarrow> codec_error + package_observation" where
  "parse_apk_installed reader from_value bs maximum =
     and_then (parse_action_response reader bs (min maximum max_package_source_bytes)) (\<lambda>v.
     and_then (ok_or InvalidResponse (as_array v)) (\<lambda>rows.
     if length rows > max_package_records then Err Codec_OutputLimit
     else and_then (ok_or InvalidResponse (from_value v)) (\<lambda>records.
       map_err observation_error (package_observation_new records))))"

section \<open>The opkg status file\<close>

definition max_line_bytes :: nat where [limit_defs]: "max_line_bytes = 8192"
definition max_fields :: nat where [limit_defs]: "max_fields = 64"
definition max_field_name_bytes :: nat where [limit_defs]: "max_field_name_bytes = 64"

text \<open>\<^verbatim>\<open>str::split_terminator(c)\<close>: a final empty part is dropped.\<close>

definition split_terminator :: "char \<Rightarrow> string \<Rightarrow> string list" where
  "split_terminator sep s =
     (let parts = split_char sep s in if last parts = [] then butlast parts else parts)"

record opkg_state =
  ok_rows :: "opkg_status_record list"
  ok_fields :: "string list"
  ok_package :: "string option"
  ok_version :: "string option"
  ok_arch :: "string option"
  ok_status :: "string option"
  ok_previous :: bool

definition opkg_start :: "opkg_status_record list \<Rightarrow> opkg_state" where
  "opkg_start rows = \<lparr>ok_rows = rows, ok_fields = [], ok_package = None, ok_version = None,
     ok_arch = None, ok_status = None, ok_previous = False\<rparr>"

definition field_name_ok :: "string \<Rightarrow> bool" where
  "field_name_ok name \<longleftrightarrow>
     name \<noteq> [] \<and> length name \<le> max_field_name_bytes \<and> is_ascii_alphabetic (hd name)
     \<and> list_all (\<lambda>b. is_ascii_alphanumeric b \<or> b = CHR ''-'') name"

text \<open>The stored field, if the name is one of the four, with the limit of its value.\<close>

definition select_field :: "string \<Rightarrow> (nat \<times> (string \<Rightarrow> opkg_state \<Rightarrow> opkg_state)) option" where
  "select_field name =
     (if name = ''package'' then Some (256, \<lambda>v st. st\<lparr>ok_package := Some v\<rparr>)
      else if name = ''version'' then Some (256, \<lambda>v st. st\<lparr>ok_version := Some v\<rparr>)
      else if name = ''architecture'' then Some (64, \<lambda>v st. st\<lparr>ok_arch := Some v\<rparr>)
      else if name = ''status'' then Some (max_opkg_status_bytes, \<lambda>v st. st\<lparr>ok_status := Some v\<rparr>)
      else None)"

definition end_stanza :: "opkg_state \<Rightarrow> codec_error + opkg_state" where
  "end_stanza st =
     (if ok_fields st = [] then Ok st
      else if length (ok_rows st) \<ge> max_package_records then Err Codec_OutputLimit
      else case (ok_package st, ok_version st, ok_arch st, ok_status st) of
          (Some name, Some version, Some arch, Some status) \<Rightarrow>
            Ok (opkg_start (ok_rows st @
              [\<lparr>os_name = name, os_version = version, os_arch = arch, os_status = status\<rparr>]))
        | _ \<Rightarrow> Err InvalidResponse)"

definition field_line :: "string \<Rightarrow> opkg_state \<Rightarrow> codec_error + opkg_state" where
  "field_line line st =
     and_then (ok_or InvalidResponse (split_once (CHR '':'') line)) (\<lambda>(name, raw).
     if \<not> field_name_ok name then Err InvalidResponse
     else if length (ok_fields st) \<ge> max_fields then Err Codec_OutputLimit
     else let name = map to_ascii_lowercase name in
       and_then (if raw = [] then Ok raw else ok_or InvalidResponse (strip_prefix '' '' raw)) (\<lambda>v.
       and_then (case select_field name of
            Some (bound, store) \<Rightarrow>
              if v = [] \<or> length v > bound \<or> has_control v then Err InvalidResponse
              else Ok ((store v st)\<lparr>ok_previous := True\<rparr>)
          | None \<Rightarrow> Ok (st\<lparr>ok_previous := False\<rparr>)) (\<lambda>st.
       if name \<in> set (ok_fields st) then Err InvalidResponse
       else Ok (st\<lparr>ok_fields := name # ok_fields st\<rparr>))))"

definition status_line :: "string \<Rightarrow> opkg_state \<Rightarrow> codec_error + opkg_state" where
  "status_line line st =
     (if length line > max_line_bytes then Err Codec_OutputLimit
      else if line = [] then end_stanza st
      else if hd line = CHR '' '' \<or> hd line = CHR 0x09 then
        (if ok_fields st = [] \<or> ok_previous st then Err InvalidResponse else Ok st)
      else field_line line st)"

definition parse_opkg_status :: "string \<Rightarrow> nat \<Rightarrow> codec_error + package_observation" where
  "parse_opkg_status bs maximum =
     (if length bs > min maximum max_package_source_bytes then Err Codec_OutputLimit
      else if \<not> valid_utf8 bs then Err InvalidResponse
      else if (bs \<noteq> [] \<and> \<not> ends_with bs [newline, newline]) \<or> has_layout_control bs then Err InvalidResponse
      else and_then (fold_res status_line (split_terminator newline bs) (opkg_start [])) (\<lambda>st.
        map_err observation_error (new_opkg_status (ok_rows st))))"

section \<open>Printing a status file\<close>

definition status_lines :: "opkg_status_record \<Rightarrow> string list" where
  "status_lines r = [''Package: '' @ os_name r, ''Version: '' @ os_version r,
     ''Architecture: '' @ os_arch r, ''Status: '' @ os_status r, []]"

definition status_text :: "opkg_status_record list \<Rightarrow> string" where
  "status_text rows = concat (map (\<lambda>l. l @ [newline]) (concat (map status_lines rows)))"

definition text_record :: "opkg_status_record \<Rightarrow> bool" where
  "text_record r \<longleftrightarrow> good_opkg r \<and> list_all valid_utf8 [os_name r, os_version r, os_arch r, os_status r]"

lemma split_char_first: "sep \<notin> set a \<Longrightarrow> split_char sep (a @ sep # b) = a # split_char sep b"
  by (induction a) (auto split: list.splits)

lemma split_terminator_lines:
  assumes "\<forall>l \<in> set ls. sep \<notin> set l"
  shows "split_terminator sep (concat (map (\<lambda>l. l @ [sep]) ls)) = ls"
proof -
  have "split_char sep (concat (map (\<lambda>l. l @ [sep]) ls)) = ls @ [[]]"
    using assms by (induction ls) (simp_all add: split_char_first)
  then show ?thesis by (simp add: split_terminator_def)
qed

text \<open>The sequences as a relation, for induction over a text.\<close>

inductive utf8_char :: "string \<Rightarrow> bool" where
  "byte a < 128 \<Longrightarrow> utf8_char [a]"
| "194 \<le> byte a \<Longrightarrow> byte a \<le> 223 \<Longrightarrow> continuation b \<Longrightarrow> utf8_char [a, b]"
| "224 \<le> byte a \<Longrightarrow> byte a \<le> 239 \<Longrightarrow>
   (if byte a = 224 then 160 \<le> byte b \<and> byte b \<le> 191
    else if byte a = 237 then 128 \<le> byte b \<and> byte b \<le> 159 else continuation b) \<Longrightarrow>
   continuation c \<Longrightarrow> utf8_char [a, b, c]"
| "240 \<le> byte a \<Longrightarrow> byte a \<le> 244 \<Longrightarrow>
   (if byte a = 240 then 144 \<le> byte b \<and> byte b \<le> 191
    else if byte a = 244 then 128 \<le> byte b \<and> byte b \<le> 143 else continuation b) \<Longrightarrow>
   continuation c \<Longrightarrow> continuation d \<Longrightarrow> utf8_char [a, b, c, d]"

lemma valid_utf8_char: "utf8_char u \<Longrightarrow> valid_utf8 (u @ s) = valid_utf8 s"
  by (induction rule: utf8_char.induct) simp_all

lemma valid_utf8_cases:
  assumes "valid_utf8 s"
  obtains "s = []" | u r where "s = u @ r" "utf8_char u" "valid_utf8 r"
proof (cases s)
  case (Cons a bs)
  consider "byte a < 128" | "194 \<le> byte a" "byte a \<le> 223" | "224 \<le> byte a" "byte a \<le> 239"
    | "240 \<le> byte a" "byte a \<le> 244"
    using assms Cons by (auto simp: not_less split: if_splits)
  then show thesis
  proof cases
    case 1
    with assms Cons that(2) [of "[a]" bs] show ?thesis by (simp add: utf8_char.intros)
  next
    case 2
    with assms Cons obtain b r where "bs = b # r" "continuation b" "valid_utf8 r"
      by (auto split: list.splits)
    with 2 Cons that(2) [of "[a, b]" r] show ?thesis by (simp add: utf8_char.intros)
  next
    case 3
    with assms Cons obtain b c r where "bs = b # c # r" "continuation c" "valid_utf8 r"
      "if byte a = 224 then 160 \<le> byte b \<and> byte b \<le> 191
       else if byte a = 237 then 128 \<le> byte b \<and> byte b \<le> 159 else continuation b"
      by (auto split: list.splits)
    with 3 Cons that(2) [of "[a, b, c]" r] show ?thesis by (simp add: utf8_char.intros)
  next
    case 4
    with assms Cons obtain b c d r where "bs = b # c # d # r" "continuation c" "continuation d" "valid_utf8 r"
      "if byte a = 240 then 144 \<le> byte b \<and> byte b \<le> 191
       else if byte a = 244 then 128 \<le> byte b \<and> byte b \<le> 143 else continuation b"
      by (auto split: list.splits)
    with 4 Cons that(2) [of "[a, b, c, d]" r] show ?thesis by (simp add: utf8_char.intros)
  qed
qed (use that in simp)

lemma valid_utf8_append: "valid_utf8 a \<Longrightarrow> valid_utf8 b \<Longrightarrow> valid_utf8 (a @ b)"
proof (induction a rule: length_induct)
  case (1 a)
  from 1(2) show ?case
  proof (cases rule: valid_utf8_cases)
    case (2 u r)
    then have "length r < length a" by (auto elim: utf8_char.cases)
    with 1 2 show ?thesis by (simp add: valid_utf8_char)
  qed (use 1 in simp)
qed

lemma valid_utf8_ascii: "list_all (\<lambda>c. byte c < 128) a \<Longrightarrow> valid_utf8 (a @ b) = valid_utf8 b"
  by (induction a) auto

lemma has_layout_control_append:
  "\<not> has_control t \<Longrightarrow> (case rest of [] \<Rightarrow> True | c # _ \<Rightarrow> byte c < 128)
   \<Longrightarrow> has_layout_control (t @ rest) = has_layout_control rest"
proof (induction t)
  case (Cons c t)
  show ?case
  proof (cases t)
    case Nil
    with Cons.prems show ?thesis by (cases rest) simp_all
  next
    case (Cons d u)
    with Cons.prems have c: "\<not> byte c < 32" "byte c \<noteq> 127" "byte c = 194 \<Longrightarrow> \<not> (128 \<le> byte d \<and> byte d \<le> 159)"
      "\<not> has_control t" by simp_all
    then have "has_layout_control ((c # t) @ rest) = has_layout_control (t @ rest)"
      using Cons by (simp only: append_Cons has_layout_control.simps list.case) blast
    with Cons.IH c(4) Cons.prems(2) show ?thesis by simp
  qed
qed simp

lemma has_control_append_printable:
  "list_all (\<lambda>c. 32 \<le> byte c \<and> byte c < 127) a \<Longrightarrow> has_control (a @ b) = has_control b"
  by (induction a) auto

lemma no_newline: "\<not> has_control t \<Longrightarrow> newline \<notin> set t"
  by (induction t) (auto simp: newline_def)

lemma text_record_texts:
  assumes "text_record r" and "t \<in> {os_name r, os_version r, os_arch r, os_status r}"
  shows "\<not> has_control t" "valid_utf8 t" "t \<noteq> []" "length t \<le> 256"
  using assms by (auto simp: text_record_def good_opkg_def opkg_texts_def good_text_def limit_defs)

lemma status_line_texts:
  assumes "text_record r" and "l \<in> set (status_lines r)"
  shows "\<not> has_control l \<and> valid_utf8 l \<and> length l \<le> 8192"
proof -
  have "\<exists>p t. l = p @ t \<and> list_all (\<lambda>c. 32 \<le> byte c \<and> byte c < 127) p \<and> length p \<le> 14
      \<and> (t = [] \<or> t \<in> {os_name r, os_version r, os_arch r, os_status r})"
    using assms(2) unfolding status_lines_def
    by (auto intro: exI [of _ "''Package: ''"] exI [of _ "''Version: ''"] exI [of _ "''Architecture: ''"]
        exI [of _ "''Status: ''"] exI [of _ "[]"])
  then obtain p t where l: "l = p @ t" "list_all (\<lambda>c. 32 \<le> byte c \<and> byte c < 127) p" "length p \<le> 14"
    "t = [] \<or> t \<in> {os_name r, os_version r, os_arch r, os_status r}" by blast
  moreover from l(2) have "list_all (\<lambda>c. byte c < 128) p" by (auto simp: list_all_iff)
  ultimately show ?thesis
    using text_record_texts [OF assms(1), of t]
    by (auto simp: has_control_append_printable valid_utf8_ascii)
qed

lemma status_text_clean:
  assumes "list_all text_record rows"
  shows "valid_utf8 (status_text rows)" "\<not> has_layout_control (status_text rows)"
    "split_terminator newline (status_text rows) = concat (map status_lines rows)"
proof -
  let ?ls = "concat (map status_lines rows)"
  have ls: "\<forall>l \<in> set ?ls. \<not> has_control l \<and> valid_utf8 l"
    using assms status_line_texts by (auto simp: list_all_iff)
  have nl: "byte newline < 128" "byte newline = 10" by (simp_all add: newline_def)
  have "valid_utf8 (concat (map (\<lambda>l. l @ [newline]) ls)) \<and> \<not> has_layout_control (concat (map (\<lambda>l. l @ [newline]) ls))"
    if "\<forall>l \<in> set ls. \<not> has_control l \<and> valid_utf8 l" for ls
    using that by (induction ls) (auto intro!: valid_utf8_append simp: has_layout_control_append nl)
  with ls show "valid_utf8 (status_text rows)" "\<not> has_layout_control (status_text rows)"
    unfolding status_text_def by blast+
  show "split_terminator newline (status_text rows) = ?ls"
    unfolding status_text_def by (rule split_terminator_lines) (use ls no_newline in blast)
qed

lemma to_lower_names:
  "map to_ascii_lowercase ''Package'' = ''package''" "map to_ascii_lowercase ''Version'' = ''version''"
  "map to_ascii_lowercase ''Architecture'' = ''architecture''" "map to_ascii_lowercase ''Status'' = ''status''"
  by code_simp+

lemma field_names_ok:
  "field_name_ok ''Package''" "field_name_ok ''Version''" "field_name_ok ''Architecture''" "field_name_ok ''Status''"
  by code_simp+

lemma field_line_selected:
  assumes "field_name_ok name" "CHR '':'' \<notin> set name" "length (ok_fields st) < max_fields"
    and "select_field (map to_ascii_lowercase name) = Some (bound, store)"
    and "v \<noteq> []" "length v \<le> bound" "\<not> has_control v"
    and "map to_ascii_lowercase name \<notin> set (ok_fields (store v st))"
  shows "field_line (name @ '': '' @ v) st =
    Ok ((store v st)\<lparr>ok_previous := True, ok_fields := map to_ascii_lowercase name # ok_fields (store v st)\<rparr>)"
proof -
  have "split_once (CHR '':'') (name @ '': '' @ v) = Some (name, '' '' @ v)"
    using assms(2) by (simp add: split_once_Some)
  then show ?thesis using assms by (simp add: field_line_def not_le Let_def strip_prefix_def)
qed

lemma status_line_field:
  assumes "name \<noteq> []" "\<not> (hd name = CHR '' '' \<or> hd name = CHR 0x09)" "length (name @ rest) \<le> 8192"
  shows "status_line (name @ rest) st = field_line (name @ rest) st"
  using assms by (simp add: status_line_def limit_defs)

lemma status_stanza:
  assumes "text_record r"
  shows "fold_res status_line (status_lines r) (opkg_start rows) =
    (if length rows < max_package_records then Ok (opkg_start (rows @ [r])) else Err Codec_OutputLimit)"
proof -
  have f: "status_line (name @ '': '' @ v) st =
      Ok ((store v st)\<lparr>ok_previous := True, ok_fields := low # ok_fields (store v st)\<rparr>)"
    if "map to_ascii_lowercase name = low" "name \<in> {''Package'', ''Version'', ''Architecture'', ''Status''}"
      "v \<in> {os_name r, os_version r, os_arch r, os_status r}" "select_field low = Some (bound, store)"
      "length v \<le> bound" "length (ok_fields st) < 4" "low \<notin> set (ok_fields (store v st))" for name low v st bound store
  proof -
    have v: "v \<noteq> []" "\<not> has_control v" "length v \<le> 256" using text_record_texts [OF assms that(3)] by blast+
    have "status_line (name @ '': '' @ v) st = field_line (name @ '': '' @ v) st"
      using that(2) v(3) by (intro status_line_field) auto
    also have "\<dots> = Ok ((store v st)\<lparr>ok_previous := True, ok_fields := low # ok_fields (store v st)\<rparr>)"
      using that v field_names_ok unfolding that(1) [symmetric] by (intro field_line_selected) (auto simp: limit_defs)
    finally show ?thesis .
  qed
  have l: "length (os_name r) \<le> 256" "length (os_version r) \<le> 256" "length (os_arch r) \<le> 64"
    "length (os_status r) \<le> max_opkg_status_bytes"
    using assms by (simp_all add: text_record_def good_opkg_def opkg_texts_def good_text_def)
  have "fold_res status_line
      [''Package: '' @ os_name r, ''Version: '' @ os_version r, ''Architecture: '' @ os_arch r, ''Status: '' @ os_status r]
      (opkg_start rows) =
    Ok (opkg_start rows\<lparr>ok_package := Some (os_name r), ok_version := Some (os_version r), ok_arch := Some (os_arch r),
      ok_status := Some (os_status r), ok_previous := True,
      ok_fields := [''status'', ''architecture'', ''version'', ''package'']\<rparr>)"
    using l by (simp add: f [OF to_lower_names(1), of "os_name r", simplified select_field_def, simplified]
        f [OF to_lower_names(2), of "os_version r", simplified select_field_def, simplified]
        f [OF to_lower_names(3), of "os_arch r", simplified select_field_def, simplified]
        f [OF to_lower_names(4), of "os_status r", simplified select_field_def, simplified] opkg_start_def)
  moreover have "status_line [] st = end_stanza st" for st by (simp add: status_line_def)
  moreover have "status_lines r = [''Package: '' @ os_name r, ''Version: '' @ os_version r,
      ''Architecture: '' @ os_arch r, ''Status: '' @ os_status r] @ [[]]" by (simp add: status_lines_def)
  ultimately show ?thesis
    by (simp only: fold_res_append) (simp add: end_stanza_def opkg_start_def not_le res_simps)
qed

lemma status_stanzas:
  "list_all text_record rs \<Longrightarrow> length rows \<le> max_package_records \<Longrightarrow>
   fold_res status_line (concat (map status_lines rs)) (opkg_start rows) =
    (if length (rows @ rs) \<le> max_package_records then Ok (opkg_start (rows @ rs)) else Err Codec_OutputLimit)"
proof (induction rs arbitrary: rows)
  case (Cons r rs)
  have "fold_res status_line (concat (map status_lines (r # rs))) (opkg_start rows)
      = and_then (fold_res status_line (status_lines r) (opkg_start rows)) (fold_res status_line (concat (map status_lines rs)))"
    by (simp add: fold_res_append)
  with Cons.prems show ?case
    using Cons.IH [of "rows @ [r]"] by (auto simp: status_stanza Suc_le_eq)
qed (simp add: opkg_start_def)

text \<open>
  Property C26: the status-file parser inverts printing. For records whose texts are valid,
  bounded and free of control characters, parsing the printed file gives what the checked
  constructor gives on those records, in order: no stanza is lost, merged or invented, and
  the only failures are the limits and duplicates the constructor itself reports.
\<close>

theorem opkg_status_roundtrip:
  assumes "list_all text_record rows" and "length (status_text rows) \<le> min maximum max_package_source_bytes"
  shows "parse_opkg_status (status_text rows) maximum = map_err observation_error (new_opkg_status rows)"
proof -
  note clean = status_text_clean [OF assms(1)]
  have "ends_with (status_text rows) [newline, newline]" if "rows \<noteq> []"
    using that by (cases rows rule: rev_cases) (auto simp: status_text_def status_lines_def ends_with_def)
  moreover have "status_text rows = [] \<longleftrightarrow> rows = []" by (cases rows) (auto simp: status_text_def status_lines_def)
  ultimately have "parse_opkg_status (status_text rows) maximum =
      and_then (fold_res status_line (concat (map status_lines rows)) (opkg_start []))
        (\<lambda>st. map_err observation_error (new_opkg_status (ok_rows st)))"
    using assms(2) clean by (auto simp: parse_opkg_status_def)
  then show ?thesis
    using status_stanzas [OF assms(1), of "[]"] by (auto simp: opkg_start_def new_opkg_status_def)
qed

section \<open>Where the records come from\<close>

definition line_of :: "string list \<Rightarrow> string \<Rightarrow> string \<Rightarrow> bool" where
  "line_of ls name v \<longleftrightarrow> (\<exists>n. map to_ascii_lowercase n = name \<and> n @ '': '' @ v \<in> set ls)"

definition row_from :: "string list \<Rightarrow> opkg_status_record \<Rightarrow> bool" where
  "row_from ls r \<longleftrightarrow> line_of ls ''package'' (os_name r) \<and> line_of ls ''version'' (os_version r)
     \<and> line_of ls ''architecture'' (os_arch r) \<and> line_of ls ''status'' (os_status r)"

definition traced :: "string list \<Rightarrow> opkg_state \<Rightarrow> bool" where
  "traced ls st \<longleftrightarrow> list_all (row_from ls) (ok_rows st)
     \<and> list_all (\<lambda>(name, v). case v of None \<Rightarrow> True | Some v \<Rightarrow> line_of ls name v)
         [(''package'', ok_package st), (''version'', ok_version st), (''architecture'', ok_arch st), (''status'', ok_status st)]"

lemma field_line_traced:
  assumes "traced ls st" and "line \<in> set ls" and "field_line line st = Ok st'"
  shows "traced ls st'"
proof -
  from assms(3) obtain n raw v where split: "split_once (CHR '':'') line = Some (n, raw)"
    and v: "raw = [] \<and> v = [] \<or> raw = '' '' @ v"
    and st': "(select_field (map to_ascii_lowercase n) = None \<and> (\<exists>fs. st' = st\<lparr>ok_previous := False, ok_fields := fs\<rparr>))
      \<or> (\<exists>bound store. select_field (map to_ascii_lowercase n) = Some (bound, store) \<and> v \<noteq> []
          \<and> (\<exists>fs. st' = (store v st)\<lparr>ok_previous := True, ok_fields := fs\<rparr>))"
    by (auto simp: field_line_def res_simps Let_def split: if_splits option.splits) blast+
  from st' show ?thesis
  proof (elim disjE exE conjE)
    fix bound store fs
    assume s: "select_field (map to_ascii_lowercase n) = Some (bound, store)" "v \<noteq> []"
      "st' = (store v st)\<lparr>ok_previous := True, ok_fields := fs\<rparr>"
    have "line = n @ '': '' @ v" using split v s(2) by (auto simp: split_once_Some)
    then have "line_of ls (map to_ascii_lowercase n) v" using assms(2) by (auto simp: line_of_def)
    with s assms(1) show ?thesis
      by (auto simp: traced_def select_field_def split: if_splits)
  qed (use assms(1) in \<open>simp add: traced_def\<close>)
qed

lemma status_line_traced:
  assumes "traced ls st" and "line \<in> set ls" and "status_line line st = Ok st'"
  shows "traced ls st'"
  using assms field_line_traced [OF assms(1,2)]
  by (auto simp: status_line_def end_stanza_def traced_def opkg_start_def row_from_def split: if_splits option.splits)

lemma parse_opkg_traced:
  assumes "fold_res status_line xs st = Ok st'" and "set xs \<subseteq> set ls" and "traced ls st"
  shows "traced ls st'"
  using assms
proof (induction xs arbitrary: st)
  case (Cons x xs)
  then show ?case by (auto simp: res_simps dest: status_line_traced)
qed simp

text \<open>
  The status-file parser only reports what the file says. Every record of an
  accepted observation is within its bounds, records are in strict name order, and each of
  the four values of a record is, verbatim, the value of a line of the input with that field
  name (compared without case).
\<close>

lemma opkg_records_from_source:
  assumes "parse_opkg_status bs maximum = Ok ob"
  shows "\<exists>rows. po_records ob = Opkg rows \<and> good_records (po_records ob) \<and> length bs \<le> maximum
    \<and> (\<forall>r \<in> set rows. row_from (split_terminator newline bs) r)"
proof -
  let ?ls = "split_terminator newline bs"
  from assms obtain st where st: "fold_res status_line ?ls (opkg_start []) = Ok st"
    and ob: "new_opkg_status (ok_rows st) = Ok ob" and len: "length bs \<le> maximum"
    by (auto simp: parse_opkg_status_def res_simps split: if_splits)
  have "traced ?ls (opkg_start [])" by (simp add: traced_def opkg_start_def)
  with st have "traced ?ls st" using parse_opkg_traced by blast
  with new_opkg_status_sound [OF ob] len show ?thesis
    by (metis list_all_iff mset_eq_setD traced_def)
qed

definition sample_status :: "opkg_status_record list" where
  "sample_status = [\<lparr>os_name = ''base-files'', os_version = ''1'', os_arch = ''all'', os_status = ''install user installed''\<rparr>]"

lemma opkg_status_roundtrip_witness:
  "parse_opkg_status (status_text sample_status) 1000 = Ok \<lparr>po_records = Opkg sample_status\<rparr>"
proof -
  have "list_all text_record sample_status" "length (status_text sample_status) \<le> min 1000 max_package_source_bytes"
    by code_simp+
  moreover have "new_opkg_status sample_status = Ok \<lparr>po_records = Opkg sample_status\<rparr>" by code_simp
  ultimately show ?thesis using opkg_status_roundtrip [of sample_status 1000] by simp
qed

end
