(* ===== verification/Describe.thy ===== *)
theory Describe
  imports PackageCodec
begin

text \<open>
  The parser of ubus object descriptions (\<^verbatim>\<open>device-codec/src/describe.rs\<close>). A line becomes one
  JSON object that serde's map visitors read; the JSON reader is a parameter, as in \<open>Response\<close>.
  Every error of the visitors becomes the same error of the parser, so they return an option.
\<close>

definition max_probe_bytes :: nat where [limit_defs]: "max_probe_bytes = 65536"

section \<open>The visitors\<close>

definition argument_type :: "string \<Rightarrow> ubus_argument_type" where
  "argument_type label =
     (if label = ''String'' then UT_String
      else if label = ''Integer'' then UT_Integer
      else if label = ''Boolean'' then UT_Boolean
      else if label = ''Array'' then UT_Array
      else if label = ''Table'' then UT_Table
      else UT_Unknown)"

fun argument_entries ::
    "(string \<times> raw) list \<Rightarrow> (string, ubus_argument_type) btree_map \<Rightarrow> (string, ubus_argument_type) btree_map option" where
  "argument_entries [] arguments = Some arguments"
| "argument_entries ((name, r) # es) arguments =
     (if length arguments = 64 \<or> \<not> codec_identifier name 64 \<or> bt_contains_key arguments name then None
      else case r of
        Raw_Str label \<Rightarrow>
          if label = [] \<or> length label > 64 \<or> has_control label then None
          else argument_entries es (bt_insert name (argument_type label) arguments)
      | _ \<Rightarrow> None)"

fun arguments_of :: "raw \<Rightarrow> (string, ubus_argument_type) btree_map option" where
  "arguments_of (Raw_Map es ended) =
     Option.bind (argument_entries es []) (\<lambda>arguments. if ended then Some arguments else None)"
| "arguments_of _ = None"

fun method_of :: "raw \<Rightarrow> (string \<times> method_signature) option" where
  "method_of (Raw_Map ((name, r) # es) ended) =
     (if \<not> codec_identifier name 128 then None
      else Option.bind (arguments_of r) (\<lambda>arguments.
        if es = [] \<and> ended then Some (name, \<lparr>sig_arguments = arguments\<rparr>) else None))"
| "method_of _ = None"

section \<open>The lines\<close>

text \<open>\<^verbatim>\<open>str::lines\<close>: a line ends in a newline, with a carriage return before it or not.\<close>

definition text_lines :: "string \<Rightarrow> string list" where
  "text_lines s = map (\<lambda>l. case strip_suffix [newline] l of
       None \<Rightarrow> l
     | Some l \<Rightarrow> (case strip_suffix [CHR 0x0D] l of None \<Rightarrow> l | Some l \<Rightarrow> l)) (split_inclusive newline s)"

definition describe_header :: "reviewed_object \<Rightarrow> string \<Rightarrow> bool" where
  "describe_header object header = (case strip_prefix (quote # reviewed_name object @ quote # '' @'') header of
       None \<Rightarrow> False
     | Some i \<Rightarrow> length i = 8 \<and> list_all is_ascii_hexdigit i)"

definition describe_line :: "lexer \<Rightarrow> string \<Rightarrow> (string \<times> method_signature) option" where
  "describe_line reader line =
     Option.bind (strip_prefix [CHR 0x09] line) (\<lambda>fragment.
     case reader (CHR 0x7B # fragment @ [CHR 0x7D]) of (r, ended) \<Rightarrow>
       Option.bind (method_of r) (\<lambda>m. if ended then Some m else None))"

definition add_method ::
    "lexer \<Rightarrow> string \<Rightarrow> (string, method_signature) btree_map \<Rightarrow> codec_error + (string, method_signature) btree_map" where
  "add_method reader line methods =
     (if length methods = 128 then Err InvalidObservation
      else and_then (ok_or InvalidObservation (describe_line reader line)) (\<lambda>(name, signature).
        if bt_contains_key methods name then Err InvalidObservation
        else Ok (bt_insert name signature methods)))"

definition parse_ubus_describe ::
    "lexer \<Rightarrow> reviewed_object \<Rightarrow> string \<Rightarrow> nat \<Rightarrow> codec_error + capability_observation" where
  "parse_ubus_describe reader object bs maximum =
     (if maximum = 0 \<or> length bs > min maximum max_probe_bytes then Err Codec_OutputLimit
      else if bs = [] then Ok (CO_Unknown NotObservedOrHidden)
      else if last bs \<noteq> newline \<or> \<not> valid_utf8 bs then Err InvalidObservation
      else case text_lines bs of
        [] \<Rightarrow> Err InvalidObservation
      | header # rest \<Rightarrow>
          if \<not> describe_header object header then Err InvalidObservation
          else and_then (fold_res (add_method reader) rest []) (\<lambda>methods.
            let observation = \<lparr>obs_object = object, obs_methods = methods\<rparr> in
            and_then (map_err (\<lambda>_. InvalidObservation) (object_observation_validate observation)) (\<lambda>_.
            Ok (CO_Ubus observation))))"

section \<open>What is observed\<close>

lemma add_method_Ok:
  "add_method reader line m = Ok m' \<longleftrightarrow> length m \<noteq> 128 \<and> (\<exists>k v. describe_line reader line = Some (k, v)
     \<and> k \<notin> fst ` set m \<and> m' = bt_insert k v m)"
  by (cases "describe_line reader line") (auto simp: add_method_def res_simps split: if_splits)

lemma add_methods_iff:
  "length m \<le> 128 \<Longrightarrow> fold_res (add_method reader) ls m = Ok m' \<longleftrightarrow>
    (\<exists>es. map (describe_line reader) ls = map Some es \<and> distinct (map fst es) \<and> fst ` set es \<inter> fst ` set m = {}
      \<and> length m + length ls \<le> 128 \<and> m' = fold (\<lambda>(k, v). bt_insert k v) es m)"
proof (induction ls arbitrary: m)
  case Nil
  then show ?case by auto
next
  case (Cons l ls)
  have "fold_res (add_method reader) (l # ls) m = Ok m' \<longleftrightarrow>
      (\<exists>k v. length m < 128 \<and> describe_line reader l = Some (k, v) \<and> k \<notin> fst ` set m
        \<and> fold_res (add_method reader) ls (bt_insert k v m) = Ok m')"
    using Cons.prems by (auto simp: and_then_Ok add_method_Ok)
  also have "\<dots> \<longleftrightarrow> (\<exists>k v es. length m < 128 \<and> describe_line reader l = Some (k, v) \<and> k \<notin> fst ` set m
        \<and> map (describe_line reader) ls = map Some es \<and> distinct (map fst es)
        \<and> fst ` set es \<inter> fst ` set (bt_insert k v m) = {}
        \<and> Suc (length m) + length ls \<le> 128 \<and> m' = fold (\<lambda>(k, v). bt_insert k v) es (bt_insert k v m))"
  proof -
    have rest: "fold_res (add_method reader) ls (bt_insert k v m) = Ok m' \<longleftrightarrow>
      (\<exists>es. map (describe_line reader) ls = map Some es \<and> distinct (map fst es)
        \<and> fst ` set es \<inter> fst ` set (bt_insert k v m) = {}
        \<and> Suc (length m) + length ls \<le> 128 \<and> m' = fold (\<lambda>(k, v). bt_insert k v) es (bt_insert k v m))"
      if "length m < 128" "k \<notin> fst ` set m" for k v
      using Cons.IH [of "bt_insert k v m"] that by (simp add: bt_insert_new_length)
    show ?thesis by (simp only: rest ex_simps simp_thms cong: conj_cong)
  qed
  also have "\<dots> \<longleftrightarrow> (\<exists>es. map (describe_line reader) (l # ls) = map Some es \<and> distinct (map fst es)
        \<and> fst ` set es \<inter> fst ` set m = {}
        \<and> length m + length (l # ls) \<le> 128 \<and> m' = fold (\<lambda>(k, v). bt_insert k v) es m)" (is "?L \<longleftrightarrow> ?R")
  proof
    assume ?L
    then obtain k v es where "describe_line reader l = Some (k, v)" "k \<notin> fst ` set m"
      "map (describe_line reader) ls = map Some es" "distinct (map fst es)"
      "fst ` set es \<inter> fst ` set (bt_insert k v m) = {}" "Suc (length m) + length ls \<le> 128"
      "m' = fold (\<lambda>(k, v). bt_insert k v) es (bt_insert k v m)" by blast
    then show ?R by (intro exI [of _ "(k, v) # es"]) auto
  next
    assume ?R
    then obtain k v es where "map (describe_line reader) (l # ls) = map Some ((k, v) # es)" "distinct (map fst ((k, v) # es))"
      "fst ` set ((k, v) # es) \<inter> fst ` set m = {}" "length m + length (l # ls) \<le> 128"
      "m' = fold (\<lambda>(k, v). bt_insert k v) ((k, v) # es) m"
      by (metis (no_types, lifting) list.distinct(1) list.exhaust list.simps(8) list.simps(9) surj_pair)
    then show ?L by (intro exI [of _ k] exI [of _ v] exI [of _ es]) auto
  qed
  finally show ?case .
qed


end
