(* ===== verification/Catalog.thy ===== *)
theory Catalog
  imports Operation
begin

text \<open>
  The operation catalog (\<^verbatim>\<open>core/src/catalog.rs\<close>) and the permission policy
  (\<^verbatim>\<open>core/src/policy.rs\<close>). A catalog is built once from the reviewed definitions and the
  operator's extensions; the policy decides which of its operations may run. A
  \<^verbatim>\<open>BTreeSet<String>\<close> is the list of its elements in order. The locale \<open>directory\<close>
  states what clients of a catalog rely on.
\<close>

section \<open>Catalog\<close>

definition max_custom_operations :: nat where [limit_defs]: "max_custom_operations = 1024"

record catalog =
  operations :: "operation list"
  index :: "(string, nat) btree_map"

definition uci_action :: "action \<Rightarrow> bool" where
  "uci_action a = (case a of Ubus object _ _ \<Rightarrow> object = ''uci'' | _ \<Rightarrow> False)"

definition require_extension :: "permission \<Rightarrow> operation \<Rightarrow> operation" where
  "require_extension p op =
     (let need = \<lparr>category = Cat_Extensions, permission = p\<rparr>
      in if need \<in> set (requirements op) then op
         else op\<lparr>requirements := requirements op @ [need]\<rparr>)"

text \<open>One round of the loop over the extensions: the names seen and the operations so far.\<close>

definition install_custom ::
    "(operation \<Rightarrow> nat option) \<Rightarrow> operation \<Rightarrow> string set \<times> operation list
     \<Rightarrow> core_error + string set \<times> operation list" where
  "install_custom encoded op st =
     (if uci_action (op_action op) then Err InvalidDefinition
      else if op_name op \<in> fst st then Err DuplicateOperation
      else and_then (validate encoded op) (\<lambda>_.
           let op' = fold require_extension [Perm_Write, Perm_Execute] op
           in and_then (validate encoded op') (\<lambda>_.
                Ok (insert (op_name op) (fst st), snd st @ [op']))))"

definition with_builtins ::
    "(operation \<Rightarrow> nat option) \<Rightarrow> operation list \<Rightarrow> operation list \<Rightarrow> core_error + catalog" where
  "with_builtins encoded builtins custom =
     (if length custom > max_custom_operations then Err CatalogLimitExceeded
      else if list_ex (\<lambda>op. output_mode op = Structured) builtins then Err InvalidDefinition
      else if has_duplicates (map op_name builtins) then Err DuplicateOperation
      else and_then (fold_res (install_custom encoded) custom (set (map op_name builtins), builtins))
        (\<lambda>st. and_then (check_all (validate encoded) (snd st))
        (\<lambda>_. Ok \<lparr>operations = snd st,
                  index = bt_of_list (zip (map op_name (snd st)) [0..<length (snd st)])\<rparr>)))"

definition catalog_new :: "(operation \<Rightarrow> nat option) \<Rightarrow> operation list \<Rightarrow> core_error + catalog" where
  "catalog_new encoded custom = with_builtins encoded [] custom"

definition catalog_get :: "catalog \<Rightarrow> string \<Rightarrow> core_error stop + operation option" where
  "catalog_get cat name =
     (case map_of (index cat) name of
        None \<Rightarrow> Ok None
      | Some i \<Rightarrow> and_then (at (operations cat) i) (\<lambda>op. Ok (Some op)))"

section \<open>Policy\<close>

record grant =
  g_access :: access
  g_execute :: bool

definition default_grant :: grant where
  "default_grant = \<lparr>g_access = Acc_Deny, g_execute = False\<rparr>"

definition permits :: "grant \<Rightarrow> permission \<Rightarrow> bool" where
  "permits g p =
     (if g_access g = Acc_Deny then False
      else case p of
        Perm_Read \<Rightarrow> True
      | Perm_Write \<Rightarrow> g_access g = Acc_ReadWrite
      | Perm_Execute \<Rightarrow> g_execute g)"

record policy =
  categories :: "(category, grant) btree_map"
  allow_operations :: "string list option"
  deny_operations :: "string list"

definition policy_references :: "policy \<Rightarrow> string list" where
  "policy_references pol =
     deny_operations pol @ (case allow_operations pol of None \<Rightarrow> [] | Some names \<Rightarrow> names)"

definition policy_validate :: "policy \<Rightarrow> catalog \<Rightarrow> core_error stop + unit" where
  "policy_validate pol cat =
     check_all (\<lambda>name. and_then (catalog_get cat name)
       (\<lambda>found. ensure (found \<noteq> None) (Returned UnknownOperationReference))) (policy_references pol)"

definition authorize :: "policy \<Rightarrow> operation \<Rightarrow> core_error + unit" where
  "authorize pol op =
     (if requirements op = [] \<or> op_name op \<in> set (deny_operations pol)
         \<or> (case allow_operations pol of None \<Rightarrow> False | Some allowed \<Rightarrow> op_name op \<notin> set allowed)
      then Err PermissionDenied
      else check_all (\<lambda>r.
        let g = (case map_of (categories pol) (category r) of None \<Rightarrow> default_grant | Some g \<Rightarrow> g)
        in ensure (permits g (permission r)) PermissionDenied) (requirements op))"

section \<open>What a built catalog holds\<close>

definition extended :: "operation \<Rightarrow> bool" where
  "extended op \<longleftrightarrow>
     \<lparr>category = Cat_Extensions, permission = Perm_Write\<rparr> \<in> set (requirements op)
     \<and> \<lparr>category = Cat_Extensions, permission = Perm_Execute\<rparr> \<in> set (requirements op)
     \<and> \<not> uci_action (op_action op)"

lemma require_extension_simps [simp]:
  "op_name (require_extension p op) = op_name op"
  "op_action (require_extension p op) = op_action op"
  "set (requirements (require_extension p op))
   = insert \<lparr>category = Cat_Extensions, permission = p\<rparr> (set (requirements op))"
  by (auto simp: require_extension_def Let_def)

text \<open>The operations after the loop, and the names it has collected.\<close>

definition installed :: "operation list \<Rightarrow> string set \<times> operation list \<Rightarrow> bool" where
  "installed builtins st \<longleftrightarrow>
     fst st = op_name ` set (snd st) \<and> distinct (map op_name (snd st))
     \<and> (\<exists>ext. snd st = builtins @ ext \<and> list_all extended ext)"

lemma install_custom_installed:
  assumes "installed builtins st" and "install_custom encoded op st = Ok st'"
  shows "installed builtins st'"
  using assms by (fastforce simp: installed_def install_custom_def extended_def res_simps Let_def split: if_splits)

lemma install_all:
  assumes "distinct (map op_name builtins)"
    and "fold_res (install_custom encoded) custom (set (map op_name builtins), builtins) = Ok st"
  shows "installed builtins st"
proof (rule fold_res_invariant [OF assms(2), where P = "installed builtins"])
  show "installed builtins (set (map op_name builtins), builtins)"
    using assms(1) by (simp add: installed_def)
qed (blast intro: install_custom_installed)

lemma with_builtins_Ok:
  assumes "with_builtins encoded builtins custom = Ok cat"
  obtains ext where "operations cat = builtins @ ext" "list_all extended ext"
    "distinct (map op_name (operations cat))" "\<forall>op \<in> set (operations cat). validate encoded op = Ok ()"
    "index cat = bt_of_list (zip (map op_name (operations cat)) [0..<length (operations cat)])"
proof -
  from assms obtain st where "distinct (map op_name builtins)"
    and f: "fold_res (install_custom encoded) custom (set (map op_name builtins), builtins) = Ok st"
    and c: "check_all (validate encoded) (snd st) = Ok ()" and "operations cat = snd st"
    and "index cat = bt_of_list (zip (map op_name (snd st)) [0..<length (snd st)])"
    by (auto simp: with_builtins_def res_simps split: if_splits)
  with install_all [OF \<open>distinct (map op_name builtins)\<close> f] that show thesis
    by (auto simp: installed_def res_simps)
qed

lemma map_of_index:
  assumes "distinct names"
  shows "map_of (bt_of_list (zip names [0..<length names])) name = Some i
    \<longleftrightarrow> i < length names \<and> names ! i = name"
proof -
  let ?es = "zip names [0..<length names]"
  have d: "distinct (map fst ?es)" using assms by simp
  have "map_of (bt_of_list ?es) = map_of ?es"
    unfolding map_of_bt_of_list using d by (intro map_of_inject_set [THEN iffD2]) (simp_all add: rev_map [symmetric])
  with d show ?thesis by (auto simp: map_of_eq_Some_iff in_set_zip)
qed

section \<open>The directory interface\<close>

locale directory =
  fixes built :: "'c \<Rightarrow> bool"
    and entries :: "'c \<Rightarrow> operation list"
    and look :: "'c \<Rightarrow> string \<Rightarrow> 'e stop + operation option"
  assumes names_distinct: "built c \<Longrightarrow> distinct (map op_name (entries c))"
    and look_entry: "built c \<Longrightarrow> op \<in> set (entries c) \<Longrightarrow> look c (op_name op) = Ok (Some op)"
    and look_absent: "built c \<Longrightarrow> name \<notin> op_name ` set (entries c) \<Longrightarrow> look c name = Ok None"
begin

lemma look_Some:
  assumes "built c"
  shows "look c name = Ok (Some op) \<longleftrightarrow> op \<in> set (entries c) \<and> op_name op = name"
proof (cases "name \<in> op_name ` set (entries c)")
  case True
  then obtain op' where "op' \<in> set (entries c)" "name = op_name op'" by blast
  with assms show ?thesis
    using names_distinct [OF assms] by (auto simp: look_entry distinct_map dest: inj_onD)
qed (use assms look_absent in auto)

lemma look_total: "built c \<Longrightarrow> \<exists>found. look c name = Ok found"
  by (cases "name \<in> op_name ` set (entries c)") (auto simp: look_entry look_absent)

lemma references_checked:
  assumes "built c"
  shows "check_all (\<lambda>name. and_then (look c name) (\<lambda>found. ensure (found \<noteq> None) e)) names
    = (if set names \<subseteq> op_name ` set (entries c) then Ok () else Err e)"
proof (induction names)
  case (Cons name names)
  show ?case
  proof (cases "name \<in> op_name ` set (entries c)")
    case True
    then show ?thesis using assms Cons.IH by (auto simp: look_entry ensure_def)
  next
    case False
    then show ?thesis using assms by (simp add: look_absent ensure_def)
  qed
qed simp

end

definition catalog_built :: "catalog \<Rightarrow> bool" where
  "catalog_built cat \<longleftrightarrow> (\<exists>encoded builtins custom. with_builtins encoded builtins custom = Ok cat)"

interpretation cat: directory catalog_built operations catalog_get
proof unfold_locales
  fix c op name
  assume "catalog_built c"
  then obtain ext b where d: "distinct (map op_name (operations c))"
    and i: "index c = bt_of_list (zip (map op_name (operations c)) [0..<length (map op_name (operations c))])"
    by (auto simp: catalog_built_def elim: with_builtins_Ok)
  show "distinct (map op_name (operations c))" by (fact d)
  show "op \<in> set (operations c) \<Longrightarrow> catalog_get c (op_name op) = Ok (Some op)"
  proof -
    assume "op \<in> set (operations c)"
    then obtain k where k: "k < length (operations c)" "operations c ! k = op" by (auto simp: in_set_conv_nth)
    then have "map_of (index c) (op_name op) = Some k"
      unfolding i map_of_index [OF d] by auto
    with k show ?thesis by (simp add: catalog_get_def)
  qed
  show "name \<notin> op_name ` set (operations c) \<Longrightarrow> catalog_get c name = Ok None"
  proof -
    assume a: "name \<notin> op_name ` set (operations c)"
    have "map_of (index c) name = None"
    proof (rule ccontr)
      assume "map_of (index c) name \<noteq> None"
      then obtain k where "k < length (operations c)" "op_name (operations c ! k) = name"
        unfolding i by (auto simp: map_of_index [OF d, simplified])
      with a show False by (metis imageI nth_mem)
    qed
    then show ?thesis by (simp add: catalog_get_def)
  qed
qed

section \<open>Policy decisions\<close>

lemma permits_iff:
  "permits g p \<longleftrightarrow> g_access g \<noteq> Acc_Deny
     \<and> (p = Perm_Read \<or> p = Perm_Write \<and> g_access g = Acc_ReadWrite \<or> p = Perm_Execute \<and> g_execute g)"
  by (cases p) (auto simp: permits_def)

definition granted :: "policy \<Rightarrow> requirement \<Rightarrow> bool" where
  "granted pol r \<longleftrightarrow> (\<exists>g. (category r, g) \<in> set (categories pol) \<and> permits g (permission r))"

lemma grant_lookup:
  assumes "bt_wf (categories pol)"
  shows "permits (case map_of (categories pol) (category r) of None \<Rightarrow> default_grant | Some g \<Rightarrow> g) (permission r)
    \<longleftrightarrow> granted pol r"
proof -
  have e: "(c, g) \<in> set (categories pol) \<longleftrightarrow> map_of (categories pol) c = Some g" for c g
    using bt_wf_distinct [OF assms] by simp
  show ?thesis
    unfolding granted_def e by (auto simp: permits_iff default_grant_def split: option.splits)
qed

text \<open>
  Property C14: authorization is exactly the policy's rule: an operation runs only when it
  declares requirements, is not on the deny list, is on the allow list if there is one, and
  every requirement is permitted by the grant recorded for its category; every other case is
  \<^verbatim>\<open>permission_denied\<close>.
\<close>

theorem authorize_rule:
  assumes "bt_wf (categories pol)"
  shows "authorize pol op =
    (if requirements op \<noteq> [] \<and> op_name op \<notin> set (deny_operations pol)
        \<and> (case allow_operations pol of None \<Rightarrow> True | Some names \<Rightarrow> op_name op \<in> set names)
        \<and> (\<forall>r \<in> set (requirements op). \<exists>g. (category r, g) \<in> set (categories pol)
             \<and> g_access g \<noteq> Acc_Deny
             \<and> (permission r = Perm_Write \<longrightarrow> g_access g = Acc_ReadWrite)
             \<and> (permission r = Perm_Execute \<longrightarrow> g_execute g))
     then Ok () else Err PermissionDenied)"
proof -
  have "granted pol r \<longleftrightarrow> (\<exists>g. (category r, g) \<in> set (categories pol) \<and> g_access g \<noteq> Acc_Deny
      \<and> (permission r = Perm_Write \<longrightarrow> g_access g = Acc_ReadWrite)
      \<and> (permission r = Perm_Execute \<longrightarrow> g_execute g))" for r
    by (cases "permission r") (auto simp: granted_def permits_iff)
  then show ?thesis
    by (auto simp: authorize_def grant_lookup [OF assms] check_all_ensure Let_def split: option.splits)
qed

lemma granted_if_authorized:
  assumes "bt_wf (categories pol)" "authorize pol op = Ok ()" "r \<in> set (requirements op)"
  shows "granted pol r"
  using assms by (auto simp: authorize_def grant_lookup [OF assms(1)] check_all_ensure Let_def split: if_splits)

text \<open>
  Property C13: an operator extension never widens what the policy grants. Any operation of a
  built catalog that is not one of the reviewed definitions runs only under a policy whose
  grant for the extensions category is both read-write and executable, and it never reaches
  the configuration object \<^verbatim>\<open>uci\<close>.
\<close>

theorem extension_needs_grant:
  assumes "with_builtins encoded builtins custom = Ok cat"
    and "catalog_get cat name = Ok (Some op)" and "name \<notin> op_name ` set builtins"
    and "bt_wf (categories pol)" and "authorize pol op = Ok ()"
  shows "(\<exists>g. (Cat_Extensions, g) \<in> set (categories pol) \<and> g_access g = Acc_ReadWrite \<and> g_execute g)
    \<and> (\<forall>object method arguments. op_action op = Ubus object method arguments \<longrightarrow> object \<noteq> ''uci'')"
proof -
  have built: "catalog_built cat" using assms(1) by (auto simp: catalog_built_def)
  with assms(2) have op: "op \<in> set (operations cat)" "op_name op = name" by (simp_all add: cat.look_Some)
  obtain ext where ext: "operations cat = builtins @ ext" "list_all extended ext"
    using with_builtins_Ok [OF assms(1)] by metis
  with op assms(3) have e: "extended op" by (auto simp: list_all_iff)
  have r: "granted pol \<lparr>category = Cat_Extensions, permission = Perm_Write\<rparr>"
      "granted pol \<lparr>category = Cat_Extensions, permission = Perm_Execute\<rparr>"
    using e granted_if_authorized [OF assms(4,5)] by (simp_all add: extended_def)
  then obtain g where "(Cat_Extensions, g) \<in> set (categories pol)" "g_access g = Acc_ReadWrite" "g_execute g"
    using bt_wf_distinct [OF assms(4)] by (auto simp: granted_def permits_iff dest: eq_key_imp_eq_value)
  with e show ?thesis by (auto simp: extended_def uci_action_def)
qed

text \<open>
  A catalog that was built resolves names exactly: names are unique, lookup
  never panics and returns an operation exactly when the catalog lists one under that name,
  and everything it lists has passed validation.
\<close>

lemma catalog_lookup:
  assumes "with_builtins encoded builtins custom = Ok cat"
  shows "distinct (map op_name (operations cat))
    \<and> (\<exists>found. catalog_get cat name = Ok found)
    \<and> (catalog_get cat name = Ok (Some op) \<longleftrightarrow> op \<in> set (operations cat) \<and> op_name op = name)
    \<and> (\<forall>op \<in> set (operations cat). validate encoded op = Ok ())"
proof -
  have built: "catalog_built cat" using assms by (auto simp: catalog_built_def)
  show ?thesis
    using cat.names_distinct [OF built] cat.look_total [OF built, of name] cat.look_Some [OF built, of name op]
      with_builtins_Ok [OF assms] by metis
qed

text \<open>
  A policy is accepted against a built catalog exactly when every operation its
  lists name exists; the check itself never panics.
\<close>

lemma policy_validate_iff:
  assumes "with_builtins encoded builtins custom = Ok cat"
  shows "policy_validate pol cat =
    (if \<forall>name \<in> set (deny_operations pol)
          \<union> (case allow_operations pol of None \<Rightarrow> {} | Some names \<Rightarrow> set names).
          \<exists>op \<in> set (operations cat). op_name op = name
     then Ok () else Err (Returned UnknownOperationReference))"
proof -
  have built: "catalog_built cat" using assms by (auto simp: catalog_built_def)
  have "set (policy_references pol) \<subseteq> op_name ` set (operations cat) \<longleftrightarrow>
      (\<forall>name \<in> set (deny_operations pol) \<union> (case allow_operations pol of None \<Rightarrow> {} | Some names \<Rightarrow> set names).
        \<exists>op \<in> set (operations cat). op_name op = name)"
    by (cases "allow_operations pol") (auto simp: policy_references_def image_iff subset_iff dest: sym)
  then show ?thesis unfolding policy_validate_def cat.references_checked [OF built] by simp
qed

section \<open>A sample catalog\<close>

definition sample_policy :: policy where
  "sample_policy = \<lparr>categories =
       [(Cat_System, \<lparr>g_access = Acc_Read, g_execute = False\<rparr>),
        (Cat_Diagnostics, \<lparr>g_access = Acc_Read, g_execute = True\<rparr>),
        (Cat_Extensions, \<lparr>g_access = Acc_ReadWrite, g_execute = True\<rparr>)],
     allow_operations = None, deny_operations = [''ping'']\<rparr>"

definition sample_custom :: operation where
  "sample_custom = fold require_extension [Perm_Write, Perm_Execute] sample_ping"

definition sample_catalog :: catalog where
  "sample_catalog = \<lparr>operations = [sample_uci, sample_custom], index = [(''ping'', 1), (''system_config'', 0)]\<rparr>"

lemma sample_catalog_built: "with_builtins sample_encoded [sample_uci] [sample_ping] = Ok sample_catalog"
  by code_simp

lemma authorize_rule_witness:
  "bt_wf (categories sample_policy) \<and> authorize sample_policy sample_uci = Ok ()
   \<and> authorize sample_policy sample_ping = Err PermissionDenied"
proof -
  have "bt_wf (categories sample_policy)" by code_simp
  note r = authorize_rule [OF this]
  show ?thesis
    unfolding r by (simp add: sample_policy_def sample_uci_def sample_ping_def less_category_def)
qed

lemma extension_needs_grant_witness:
  "\<exists>g. (Cat_Extensions, g) \<in> set (categories (sample_policy\<lparr>deny_operations := []\<rparr>))
     \<and> g_access g = Acc_ReadWrite \<and> g_execute g"
proof -
  have "catalog_get sample_catalog ''ping'' = Ok (Some sample_custom)"
    "''ping'' \<notin> op_name ` set [sample_uci]" "bt_wf (categories (sample_policy\<lparr>deny_operations := []\<rparr>))"
    "authorize (sample_policy\<lparr>deny_operations := []\<rparr>) sample_custom = Ok ()" by code_simp+
  from extension_needs_grant [OF sample_catalog_built this] show ?thesis by blast
qed

lemma policy_validate_iff_witness: "policy_validate sample_policy sample_catalog = Ok ()"
  unfolding policy_validate_iff [OF sample_catalog_built]
  by (simp add: sample_policy_def sample_catalog_def sample_custom_def sample_ping_def)

end
