(* ===== verification/Pipeline.thy ===== *)
theory Pipeline
  imports Catalog PackageCodec
begin

text \<open>
  The two independent checks of a call meet here: what \<open>prepare\<close> of the core crate produces,
  \<open>compile_action\<close> of the device codec accepts.
\<close>

section \<open>What the core prepares, the codec compiles\<close>

definition intended_command :: "prepared_action \<Rightarrow> command_spec option" where
  "intended_command act = (case act of
       PA_Ubus object meth arguments \<Rightarrow> Some \<lparr>cs_program = ''/bin/ubus'',
         cs_arguments = [''-S'', ''call'', object, meth, json_text arguments]\<rparr>
     | PA_Process program args \<Rightarrow> Some \<lparr>cs_program = program, cs_arguments = args\<rparr>
     | _ \<Rightarrow> None)"

lemma json_arguments_fit:
  "length t \<le> length (remote_line \<lparr>cs_program = p, cs_arguments = [a, b, c, d, t]\<rparr>)"
  by (simp add: remote_line_def length_shell_word)

lemma compile_intended:
  assumes "intended_command act = Some cmd"
    and "case act of PA_Ubus object meth arguments \<Rightarrow> codec_identifier object 128 \<and> codec_identifier meth 128
           \<and> arguments_valid arguments
         | PA_Process program args \<Rightarrow> program_path program \<and> length args \<le> 64
           \<and> (\<forall>v \<in> set args. length v \<le> 1024 \<and> NUL \<notin> set v)
         | _ \<Rightarrow> True"
  shows "compile_action act = (if length (remote_line cmd) \<le> max_command_bytes then Ok cmd else Err InvalidAction)"
proof -
  have l: "max_command_bytes \<le> usize_max" by (simp add: limit_defs)
  have "action_command act = Ok cmd \<or> action_command act = Err InvalidAction \<and> \<not> length (remote_line cmd) \<le> max_command_bytes"
  proof (cases act)
    case (PA_Ubus object meth arguments)
    with assms json_arguments_fit [of "json_text arguments" "''/bin/ubus''" "''-S''" "''call''" object meth]
    show ?thesis by (auto simp: action_command_def intended_command_def buffer_append_def)
  next
    case (PA_Process program args)
    with assms show ?thesis by (auto simp: action_command_def intended_command_def list_ex_iff)
  qed (use assms in \<open>simp_all add: intended_command_def\<close>)
  then show ?thesis
    using l by (auto simp: compile_action_def command_size_eq)
qed

lemma codec_names:
  "ubus_identifier v \<Longrightarrow> codec_identifier v 128" "identifier_ok v \<Longrightarrow> argument_name v"
  by (auto simp: ubus_identifier_def codec_identifier_def identifier_ok_def argument_name_def list_all_iff)

lemma argument_valid_kind: "value_matches v kind \<Longrightarrow> argument_value_valid v"
  by (cases kind; cases v) (auto simp: checked_integer_def limit_defs split: option.splits)

lemma validated_argument_kind:
  "fold_res (validate_argument ps) arguments used = Ok used' \<Longrightarrow> (k, a) \<in> set arguments
   \<Longrightarrow> identifier_ok k \<and> (\<exists>kind. argument_kind ps a = Ok kind)"
proof (induction arguments arbitrary: used)
  case (Cons e arguments)
  have "identifier_ok k \<and> (\<exists>kind. argument_kind ps a = Ok kind)" if "validate_argument ps (k, a) used = Ok u" for u
    using that
    by (auto simp: validate_argument_def validate_reference_def argument_kind_def res_simps map_of_eq_None_iff
        simp del: parameter_reference_Some split: if_splits option.splits json.splits intro: weak_map_of_SomeI)
  with Cons show ?case by (auto simp: res_simps)
qed simp

lemma prepared_ubus_valid:
  assumes "operation_wf op" "validate encoded op = Ok ()" "op_action op = Ubus object meth arguments"
    "arguments_accepted op vals"
  shows "codec_identifier object 128 \<and> codec_identifier meth 128
    \<and> arguments_valid (JObj (fold (prepare_argument vals) arguments []))"
proof -
  let ?m = "fold (prepare_argument vals) arguments []"
  obtain used used' where ids: "ubus_identifier object" "ubus_identifier meth" "length arguments \<le> 64"
    and run: "fold_res (validate_argument (parameters op)) arguments used = Ok used'"
    using validate_Ok(3) [OF assms(2)] assms(3) by (auto simp: validate_action_def limit_defs split: if_splits)
  have wf: "bt_wf arguments" "bt_wf ?m" using assms(1,3) by (simp_all add: operation_wf_def prepare_arguments_wf)
  have len: "length ?m \<le> 64"
    using length_le_keys [OF wf(2), of arguments] prepare_arguments_keys [of vals arguments "[]"] ids(3) by simp
  have "argument_name k \<and> argument_value_valid x" if kx: "(k, x) \<in> set ?m" for k x
  proof -
    from kx have "map_of ?m k = Some x" using bt_wf_distinct [OF wf(2)] by simp
    then obtain a where a: "(k, a) \<in> set arguments" "sent_value vals a = Some x"
      using map_of_prepared [OF wf(1), of vals k] by (auto simp: bind_eq_Some_conv dest: map_of_SomeD)
    with validated_argument_kind [OF run a(1)] sent_value_matches [OF assms(4,3) run a(1)] show ?thesis
      by (auto intro: codec_names(2) argument_valid_kind)
  qed
  with ids len show ?thesis by (auto simp: codec_names arguments_valid_def list_all_iff)
qed

lemma number_text_short:
  assumes "as_i64 (JNum n) \<noteq> None \<or> as_u64 (JNum n) \<noteq> None"
  shows "length (number_text n) \<le> 1024" "NUL \<notin> set (number_text n)"
proof -
  have d: "length (dec_digits m) \<le> 20 \<and> NUL \<notin> set (dec_digits m)" if "m < 10 ^ 20" for m
    using length_dec_digits_le [OF that] dec_digits_all_digits [of m] by (auto simp: list_all_iff is_ascii_digit_def)
  have "length (number_text n) \<le> 21 \<and> NUL \<notin> set (number_text n)"
  proof (cases n)
    case (PosInt u)
    have "unat u < 2 ^ 64" using unsigned_less [of u, where 'a = nat] by simp
    then show ?thesis using d [of "unat u"] by (simp add: PosInt)
  next
    case (NegInt i)
    have "- (2 ^ 63) \<le> sint i" "sint i < 2 ^ 63" using sint_range_size [of i] by (simp_all add: word_size)
    then have "nat (- sint i) < 10 ^ 20" "nat (sint i) < 10 ^ 20" by simp_all
    then show ?thesis using d [of "nat (- sint i)"] d [of "nat (sint i)"] by (simp add: NegInt dec_int_def)
  qed (use assms in simp)
  then show "length (number_text n) \<le> 1024" "NUL \<notin> set (number_text n)" by simp_all
qed

lemma scalar_text_short:
  assumes "valid_type act kind v" "scalar_text v = Some t"
  shows "length t \<le> 1024 \<and> NUL \<notin> set t"
proof (cases v rule: scalar_text.cases)
  case (1 s)
  with assms show ?thesis
    by (cases kind) (auto simp: valid_type_def bounded_string_def limit_defs checked_integer_def split: if_splits)
next
  case (2 u)
  with assms number_text_short [of "PosInt u"] show ?thesis by auto
next
  case (3 i)
  with assms number_text_short [of "NegInt i"] show ?thesis by auto
qed (use assms in \<open>auto split: if_splits\<close>)

lemma validated_process_argument:
  "fold_res (validate_process_argument ps) args used = Ok used' \<Longrightarrow> arg \<in> set args \<Longrightarrow> bounded_string arg max_value_bytes"
proof (induction args arbitrary: used)
  case (Cons a args)
  then show ?case by (auto simp: res_simps validate_process_argument_def validate_reference_def split: if_splits)
qed simp

lemma prepared_process_valid:
  assumes "validate encoded op = Ok ()" "op_action op = Process program args" "arguments_accepted op vals"
    and "map_res (prepare_process_argument vals) args = Ok ts"
  shows "program_path program \<and> length ts \<le> 64 \<and> (\<forall>t \<in> set ts. length t \<le> 1024 \<and> NUL \<notin> set t)"
proof -
  obtain used used' where p: "program_ok program" "length args \<le> 64"
    and run: "fold_res (validate_process_argument (parameters op)) args used = Ok used'"
    using validate_Ok(3) [OF assms(1)] assms(2) by (auto simp: validate_action_def limit_defs split: if_splits)
  have "length t \<le> 1024 \<and> NUL \<notin> set t" if arg: "arg \<in> set args" and ready: "prepare_process_argument vals arg = Ok t" for arg t
  proof (cases "parameter_reference arg")
    case None
    with ready validated_process_argument [OF run arg] show ?thesis
      by (simp add: prepare_process_argument_def bounded_string_def limit_defs)
  next
    case (Some n)
    then obtain q v where "map_of (parameters op) n = Some q" "map_of vals n = Some v" "scalar_text v = Some t"
      using validate_process_arguments_Ok [OF run arg] ready
      by (auto simp: prepare_process_argument_def res_simps simp del: parameter_reference_Some)
    with scalar_text_short [OF accepted_parameter [OF assms(3)]] show ?thesis by blast
  qed
  note short = this
  have ts: "list_all2 (\<lambda>arg t. prepare_process_argument vals arg = Ok t) args ts"
    using assms(4) by (simp add: map_res_Ok)
  have "length t \<le> 1024 \<and> NUL \<notin> set t" if "t \<in> set ts" for t
  proof -
    from that obtain i where i: "i < length ts" "ts ! i = t" by (auto simp: in_set_conv_nth)
    show ?thesis
      using short [of "args ! i" t] list_all2_nthD2 [OF ts i(1)] list_all2_lengthD [OF ts] i by simp
  qed
  moreover have "program_path program" using p(1) by (simp add: program_ok_def program_path_def bounded_string_def)
  ultimately show ?thesis using p(2) list_all2_lengthD [OF ts] by simp
qed

text \<open>
  Property C25: the core and the device codec agree. Every ubus or process call the core
  prepares from a validated definition passes the codec's independent checks: it compiles to
  the intended command line, and the only reason it may be refused is that the line would not
  fit the transport's byte limit.
\<close>

theorem prepared_action_compiles:
  assumes "operation_wf op" and "prepare encoded op input = Ok act" and "intended_command act = Some cmd"
  shows "compile_action act = (if length (remote_line cmd) \<le> max_command_bytes then Ok cmd else Err InvalidAction)"
proof (rule compile_intended [OF assms(3)])
  from assms(2) obtain vals where v: "validate encoded op = Ok ()" "arguments_accepted op vals"
    and act: "prepare_action (op_action op) vals = Ok act" by (auto simp: prepare_Ok)
  show "case act of PA_Ubus object meth arguments \<Rightarrow> codec_identifier object 128 \<and> codec_identifier meth 128
           \<and> arguments_valid arguments
         | PA_Process program args \<Rightarrow> program_path program \<and> length args \<le> 64
           \<and> (\<forall>v \<in> set args. length v \<le> 1024 \<and> NUL \<notin> set v)
         | _ \<Rightarrow> True"
  proof (cases "op_action op")
    case (Ubus object meth arguments)
    with act prepared_ubus_valid [OF assms(1) v(1) Ubus v(2)] show ?thesis by (auto simp: prepare_action_def)
  next
    case (Process program args)
    with act prepared_process_valid [OF v(1) Process v(2)] show ?thesis by (auto simp: prepare_action_def res_simps)
  qed (use act in \<open>auto simp: prepare_action_def res_simps\<close>)
qed

lemma prepared_action_compiles_witness:
  "compile_action (PA_Ubus ''uci'' ''get'' (JObj [(''config'', JStr ''system''), (''type'', JStr ''system'')]))
   = Ok \<lparr>cs_program = ''/bin/ubus'', cs_arguments = [''-S'', ''call'', ''uci'', ''get'',
        json_text (JObj [(''config'', JStr ''system''), (''type'', JStr ''system'')])]\<rparr>"
proof -
  let ?cmd = "\<lparr>cs_program = ''/bin/ubus'', cs_arguments = [''-S'', ''call'', ''uci'', ''get'',
        json_text (JObj [(''config'', JStr ''system''), (''type'', JStr ''system'')])]\<rparr>"
  have "operation_wf sample_uci" "length (remote_line ?cmd) \<le> max_command_bytes" by code_simp+
  then show ?thesis
    using prepared_action_compiles [OF _ sample_uci_prepared, of ?cmd] by (simp add: intended_command_def)
qed

end
