(* ===== verification/Runtime.thy ===== *)
theory Runtime
  imports Catalog
begin

text \<open>
  The ports and the shared state of the runtime (\<^verbatim>\<open>runtime/src/error.rs\<close>,
  \<^verbatim>\<open>backend.rs\<close>, \<^verbatim>\<open>audit.rs\<close>, the data of \<^verbatim>\<open>capability.rs\<close> and
  \<^verbatim>\<open>packages.rs\<close>), and the language in which its asynchronous functions are written.

  An \<^verbatim>\<open>async fn\<close> is a tree, type \<open>prog\<close>. A \<open>Step\<close> is one atomic access to the state the
  requests share (an atomic, a semaphore, a map behind a lock, a clock); an \<open>Await\<close> is a
  suspension point that waits for a condition under the deadline of the enclosing
  \<^verbatim>\<open>tokio::time::timeout\<close>; a \<open>Call\<close> is a suspension point that waits for the backend or the
  entropy source, again under a deadline. Requests interleave between nodes. The replies of
  the backend, the instants of the clock and the epoch of the connection are the
  environment's: nothing is assumed about them beyond the clock being monotone.
\<close>

section \<open>Errors and limits\<close>

datatype runtime_error =
  RE_InvalidCursor | RE_EntropyUnavailable | RE_Core core_error | RE_UnknownOperation
| RE_CapabilityUnknown | RE_CapabilityUnsupported | RE_InvalidConfig | RE_TargetNotConfigured
| RE_UnsupportedTarget | RE_HostKeyRejected | RE_AuthenticationFailed
| RE_UnsupportedAuditDestination | RE_Busy | RE_BackendFailed | RE_Timeout | RE_OutputLimit
| RE_InvalidOutput | RE_AuditUnavailable | RE_CompletionAuditFailed

fun runtime_error_code :: "runtime_error \<Rightarrow> string" where
  "runtime_error_code RE_InvalidCursor = ''invalid_cursor''"
| "runtime_error_code RE_EntropyUnavailable = ''entropy_unavailable''"
| "runtime_error_code (RE_Core e) = core_error_code e"
| "runtime_error_code RE_UnknownOperation = ''unknown_operation''"
| "runtime_error_code RE_CapabilityUnknown = ''capability_unknown''"
| "runtime_error_code RE_CapabilityUnsupported = ''capability_unsupported''"
| "runtime_error_code RE_InvalidConfig = ''invalid_config''"
| "runtime_error_code RE_TargetNotConfigured = ''target_not_configured''"
| "runtime_error_code RE_UnsupportedTarget = ''unsupported_target''"
| "runtime_error_code RE_HostKeyRejected = ''host_key_rejected''"
| "runtime_error_code RE_AuthenticationFailed = ''authentication_failed''"
| "runtime_error_code RE_UnsupportedAuditDestination = ''unsupported_audit_destination''"
| "runtime_error_code RE_Busy = ''busy''"
| "runtime_error_code RE_BackendFailed = ''backend_failed''"
| "runtime_error_code RE_Timeout = ''timeout''"
| "runtime_error_code RE_OutputLimit = ''output_limit''"
| "runtime_error_code RE_InvalidOutput = ''invalid_output''"
| "runtime_error_code RE_AuditUnavailable = ''audit_unavailable''"
| "runtime_error_code RE_CompletionAuditFailed = ''audit_completion_failed''"

record limits =
  timeout_ms :: nat
  max_output_bytes :: nat
  max_concurrent :: nat

definition default_limits :: limits where
  "default_limits = \<lparr>timeout_ms = 10000, max_output_bytes = 65536, max_concurrent = 2\<rparr>"

definition limits_validate :: "limits \<Rightarrow> runtime_error + unit" where
  "limits_validate l =
     (if \<not> (1 \<le> timeout_ms l \<and> timeout_ms l \<le> 300000)
         \<or> \<not> (1 \<le> max_output_bytes l \<and> max_output_bytes l \<le> 16777216)
         \<or> \<not> (1 \<le> max_concurrent l \<and> max_concurrent l \<le> 64)
      then Err RE_InvalidConfig else Ok ())"

section \<open>Audit events\<close>

datatype audit_kind = AK_Invocation | AK_Capability

datatype audit_phase = AP_Start | AP_Finish | AP_Rejection

datatype audit_outcome =
  AO_Attempt | AO_Success | AO_Denied | AO_InvalidArguments | AO_UnknownOperation | AO_Busy | AO_Failed

record audit_event =
  ae_kind :: audit_kind
  ae_timestamp_ms :: nat
  ae_request_sequence :: nat
  ae_phase :: audit_phase
  ae_operation :: string
  ae_outcome :: audit_outcome
  ae_duration_ms :: "nat option"

definition safe_operation_name :: "string \<Rightarrow> string" where
  "safe_operation_name name =
     (if name \<noteq> [] \<and> length name \<le> 128
         \<and> list_all (\<lambda>b. is_ascii_alphanumeric b \<or> b \<in> set ''._-'') name
      then name else ''unknown'')"

definition u64_max :: nat where [limit_defs]: "u64_max = 2 ^ 64 - 1"

text \<open>\<open>timestamp\<close> is the reading of the system clock in milliseconds.\<close>

definition audit_event_new ::
    "nat \<Rightarrow> nat \<Rightarrow> audit_phase \<Rightarrow> string \<Rightarrow> audit_outcome \<Rightarrow> nat option \<Rightarrow> audit_event" where
  "audit_event_new timestamp request_sequence phase operation outcome duration =
     \<lparr>ae_kind = AK_Invocation, ae_timestamp_ms = min timestamp u64_max,
      ae_request_sequence = request_sequence, ae_phase = phase,
      ae_operation = safe_operation_name operation, ae_outcome = outcome,
      ae_duration_ms = duration\<rparr>"

definition with_kind :: "audit_event \<Rightarrow> audit_kind \<Rightarrow> audit_event" where
  "with_kind event kind = event\<lparr>ae_kind := kind\<rparr>"

section \<open>Observations and snapshots\<close>

text \<open>Instants and durations are nanoseconds.\<close>

definition millis :: "nat \<Rightarrow> nat" where "millis n = n * 1000000"
definition as_millis :: "nat \<Rightarrow> nat" where "as_millis d = d div 1000000"
definition capability_ttl :: nat where "capability_ttl = millis 30000"
definition snapshot_ttl :: nat where "snapshot_ttl = millis 120000"

text \<open>
  An observation shares its flag \<^verbatim>\<open>valid: Arc<AtomicBool>\<close> with all its clones:
  \<open>ob_valid\<close> is the address of that flag.
\<close>

record observation =
  ob_value :: capability_observation
  ob_epoch :: "nat option"
  ob_started :: nat
  ob_valid :: nat

record capability_status =
  cs_compatibility :: string
  cs_reason :: string
  cs_scope :: string
  cs_response_contract :: "string option"
  cs_remaining_ttl_ms :: "nat option"

record snapshot =
  sn_records :: package_observation
  sn_nonce :: string
  sn_operation :: string
  sn_epoch :: nat
  sn_started :: nat

section \<open>The shared state\<close>

type_synonym tid = nat

text \<open>What a request may ask of the backend or of the entropy source, and the replies.\<close>

datatype call =
  C_Probe probe_request | C_Execute prepared_action | C_Capture package_profile | C_Nonce

datatype reply =
  R_Probe "runtime_error + capability_observation"
| R_Execute "runtime_error + json"
| R_Capture "runtime_error + package_observation"
| R_Nonce "runtime_error + string"

fun fits :: "call \<Rightarrow> reply \<Rightarrow> bool" where
  "fits (C_Probe _) (R_Probe _) = True"
| "fits (C_Execute _) (R_Execute _) = True"
| "fits (C_Capture _) (R_Capture _) = True"
| "fits C_Nonce (R_Nonce (Inl _)) = True"
| "fits C_Nonce (R_Nonce (Inr nonce)) = (length nonce = 16)"
| "fits _ _ = False"

text \<open>How the thread that writes one audit event ends: \<^verbatim>\<open>record\<close> returns, or it panics.\<close>

datatype worker_end = W_Recorded | W_Refused | W_Panicked

text \<open>
  The history is an auxiliary variable: no operation reads it. It keeps the requests in the
  order of their arrival, each call at the moment it is made, each reply, each audit event the
  sink has accepted, and each observation a request found fresh.
\<close>

datatype request = Invoke string json | Capability_Status json

datatype happening =
  H_Arrived tid request
| H_Called tid call
| H_Replied tid call reply
| H_Recorded tid audit_event
| H_Fresh tid observation nat
| H_Kept tid

text \<open>
  A semaphore is the list of the requests that hold one of its permits; a lock is the request
  that holds it. \<open>worker\<close> is the blocking thread with the event it writes, \<open>joined\<close> the results
  that \<^verbatim>\<open>JoinHandle\<close>s deliver, \<open>flags\<close> the heap of the observations' flags. \<open>clock\<close> is
  \<^verbatim>\<open>Instant::now\<close>, \<open>wall\<close> is \<^verbatim>\<open>SystemTime::now\<close> and \<open>epoch\<close> is what
  \<^verbatim>\<open>Backend::capability_epoch\<close> answers.
\<close>

record world =
  sequence :: nat
  permit_holders :: "tid list"
  audit_waiters :: "tid list"
  audit_gate :: "tid option"
  worker :: "(tid \<times> audit_event) option"
  joined :: "tid \<Rightarrow> worker_end option"
  audit_failed :: bool
  entries_lock :: "tid option"
  entries :: "(reviewed_object \<times> observation) list"
  flags :: "bool list"
  slot_lock :: "tid option"
  slot :: "snapshot option"
  clock :: nat
  wall :: nat
  epoch :: "nat option"
  history :: "happening list"

section \<open>Asynchronous programs\<close>

datatype 'a prog =
  Return 'a
| Abort
| Step "world \<Rightarrow> world \<times> 'a prog"
| Await nat "world \<Rightarrow> (world \<times> 'a prog) option" "'a prog"
| Call call nat "reply option \<Rightarrow> 'a prog"

text \<open>
  \<open>Abort\<close> is a panic. \<open>Await d ready late\<close> goes on when \<open>ready\<close> gives \<open>Some\<close>, or with \<open>late\<close> once
  the deadline \<open>d\<close> has passed; \<open>Call c d k\<close> goes on with the reply, or with \<open>None\<close> once the deadline
  has passed.
\<close>

primrec bind :: "'a prog \<Rightarrow> ('a \<Rightarrow> 'b prog) \<Rightarrow> 'b prog" where
  "bind (Return x) k = k x"
| "bind Abort k = Abort"
| "bind (Step f) k = Step (\<lambda>w. map_prod id (\<lambda>p. bind p k) (f w))"
| "bind (Await d f p) k =
     Await d (\<lambda>w. map_option (map_prod id (\<lambda>p. bind p k)) (f w)) (bind p k)"
| "bind (Call c d g) k = Call c d (\<lambda>r. bind (g r) k)"

text \<open>The \<^verbatim>\<open>?\<close> operator on the result of an awaited future.\<close>

definition attempt :: "('e + 'a) prog \<Rightarrow> ('a \<Rightarrow> ('e + 'b) prog) \<Rightarrow> ('e + 'b) prog" where
  "attempt m k = bind m (\<lambda>r. case r of Inl e \<Rightarrow> Return (Err e) | Inr x \<Rightarrow> k x)"

definition reads :: "(world \<Rightarrow> 'a) \<Rightarrow> 'a prog" where
  "reads g = Step (\<lambda>w. (w, Return (g w)))"

definition writes :: "(world \<Rightarrow> world) \<Rightarrow> unit prog" where
  "writes f = Step (\<lambda>w. (f w, Return ()))"

definition happens :: "happening \<Rightarrow> world \<Rightarrow> world" where
  "happens h w = w\<lparr>history := history w @ [h]\<rparr>"

text \<open>A call to a port: it is made, then awaited.\<close>

definition calls :: "tid \<Rightarrow> call \<Rightarrow> nat \<Rightarrow> (reply option \<Rightarrow> 'a prog) \<Rightarrow> 'a prog" where
  "calls me c deadline k = Step (\<lambda>w. (happens (H_Called me c) w, Call c deadline k))"

definition probe ::
    "tid \<Rightarrow> reviewed_object \<Rightarrow> nat \<Rightarrow> (runtime_error + capability_observation) prog" where
  "probe me object deadline = calls me (C_Probe (DescribeUbusObject object)) deadline
     (\<lambda>r. case r of Some (R_Probe x) \<Rightarrow> Return x | _ \<Rightarrow> Return (Err RE_Timeout))"

definition execute :: "tid \<Rightarrow> prepared_action \<Rightarrow> nat \<Rightarrow> (runtime_error + json) option prog" where
  "execute me act deadline = calls me (C_Execute act) deadline
     (\<lambda>r. case r of Some (R_Execute x) \<Rightarrow> Return (Some x) | _ \<Rightarrow> Return None)"

definition capture ::
    "tid \<Rightarrow> package_profile \<Rightarrow> nat \<Rightarrow> (runtime_error + package_observation) prog" where
  "capture me profile deadline = calls me (C_Capture profile) deadline
     (\<lambda>r. case r of Some (R_Capture x) \<Rightarrow> Return x | _ \<Rightarrow> Return (Err RE_Timeout))"

definition nonce :: "tid \<Rightarrow> nat \<Rightarrow> (runtime_error + string) prog" where
  "nonce me deadline = calls me C_Nonce deadline
     (\<lambda>r. case r of Some (R_Nonce x) \<Rightarrow> Return x | _ \<Rightarrow> Return (Err RE_Timeout))"

end
