(* ===== verification/Dispatcher.thy ===== *)
theory Dispatcher
  imports Runtime "HOL-Library.AList"
begin

text \<open>
  The runtime's use cases: the capability cache (\<^verbatim>\<open>runtime/src/capability.rs\<close>), the
  package snapshot (\<^verbatim>\<open>packages.rs\<close>) and the dispatcher (\<^verbatim>\<open>dispatcher.rs\<close>), each
  \<^verbatim>\<open>async fn\<close> as a program over the shared state, and the step relation that interleaves
  the requests with one another, with the audit thread and with the environment.

  The guards of Rust (permits, locks, the lease) carry the request that holds them, so that
  dropping a future releases what that request holds. \<open>encoded\<close> and \<open>pointer\<close> are the
  \<^verbatim>\<open>serde_json\<close> parameters of \<open>prepare_invocation\<close> and \<open>invocation_project\<close>.
\<close>

section \<open>Observations\<close>

definition revoke :: "observation \<Rightarrow> unit prog" where
  "revoke ob = writes (\<lambda>w. w\<lparr>flags := (flags w)[ob_valid ob := False]\<rparr>)"

definition observation_unknown :: "unknown_reason \<Rightarrow> observation prog" where
  "observation_unknown reason = Step (\<lambda>w.
     (w\<lparr>flags := flags w @ [True]\<rparr>,
      Return \<lparr>ob_value = CO_Unknown reason, ob_epoch = None, ob_started = clock w,
              ob_valid = length (flags w)\<rparr>))"

definition fresh :: "tid \<Rightarrow> observation \<Rightarrow> bool prog" where
  "fresh me ob =
     (if ob_epoch ob = None then Return False
      else bind (reads (\<lambda>w. flags w ! ob_valid ob)) (\<lambda>valid.
        if \<not> valid then Return False
        else bind (reads epoch) (\<lambda>now_epoch.
          if ob_epoch ob \<noteq> now_epoch then Return False
          else Step (\<lambda>w. if clock w - ob_started ob < capability_ttl
                 then (happens (H_Fresh me ob (clock w)) w, Return True)
                 else (w, Return False)))))"

definition observation_verdict ::
    "tid \<Rightarrow> observation \<Rightarrow> capability_requirement \<Rightarrow> prepared_action option \<Rightarrow> verdict prog" where
  "observation_verdict me ob requirement act =
     (if ob_epoch ob \<noteq> None
      then bind (fresh me ob) (\<lambda>ok.
        if ok then Return (evaluate requirement (ob_value ob) act)
        else Return (V_Unknown StaleObservation))
      else Return (evaluate requirement (ob_value ob) act))"

fun verdict_codes :: "verdict \<Rightarrow> string \<times> string" where
  "verdict_codes Compatible = (''compatible'', ''signature_matched'')"
| "verdict_codes (Incompatible reason) = (''incompatible'', incompatibility_reason_code reason)"
| "verdict_codes (V_Unknown reason) = (''unknown'', unknown_reason_code reason)"

definition observation_status ::
    "tid \<Rightarrow> observation \<Rightarrow> capability_requirement \<Rightarrow> capability_status prog" where
  "observation_status me ob requirement =
     bind (observation_verdict me ob requirement None) (\<lambda>verdict.
     bind (fresh me ob) (\<lambda>ok.
     bind (if ok then reads (\<lambda>w. Some (as_millis (capability_ttl - (clock w - ob_started ob))))
           else Return None) (\<lambda>remaining.
       Return \<lparr>cs_compatibility = fst (verdict_codes verdict), cs_reason = snd (verdict_codes verdict),
               cs_scope = ''input_signature_only'',
               cs_response_contract = response_contract requirement,
               cs_remaining_ttl_ms = remaining\<rparr>)))"

section \<open>The capability cache\<close>

definition unlock_entries :: "tid \<Rightarrow> world \<Rightarrow> world" where
  "unlock_entries me w = (if entries_lock w = Some me then w\<lparr>entries_lock := None\<rparr> else w)"

text \<open>\<^verbatim>\<open>BTreeMap::retain\<close> with the closure of \<^verbatim>\<open>observe\<close>, entry by entry.\<close>

primrec retain_fresh ::
    "tid \<Rightarrow> (reviewed_object \<times> observation) list \<Rightarrow> (reviewed_object \<times> observation) list prog" where
  "retain_fresh me [] = Return []"
| "retain_fresh me (e # es) =
     bind (fresh me (snd e)) (\<lambda>ok.
     bind (if ok then Return () else revoke (snd e)) (\<lambda>_.
     bind (retain_fresh me es) (\<lambda>kept. Return (if ok then e # kept else kept))))"

definition checked_value :: "reviewed_object \<Rightarrow> capability_observation \<Rightarrow> capability_observation" where
  "checked_value object v = (case v of
       CO_Ubus observed \<Rightarrow>
         if obs_object observed \<noteq> object \<or> \<not> is_ok (object_observation_validate observed)
         then CO_Unknown InvalidObservation else v
     | _ \<Rightarrow> v)"

definition store_observation ::
    "reviewed_object \<Rightarrow> capability_observation \<Rightarrow> nat \<Rightarrow> nat \<Rightarrow> (runtime_error + observation) prog" where
  "store_observation object v current started = Step (\<lambda>w.
     let ob = \<lparr>ob_value = checked_value object v, ob_epoch = Some current,
               ob_started = started, ob_valid = length (flags w)\<rparr>
     in (w\<lparr>flags := flags w @ [True], entries := AList.update object ob (entries w)\<rparr>, Return (Ok ob)))"

text \<open>The part of \<^verbatim>\<open>observe\<close> after the cached entry was found unusable: the probe.\<close>

definition probed ::
    "reviewed_object \<Rightarrow> nat \<Rightarrow> nat option \<Rightarrow> capability_observation \<Rightarrow> (runtime_error + observation) prog" where
  "probed object started previous_epoch v =
     bind (reads epoch) (\<lambda>now_epoch. case now_epoch of
       None \<Rightarrow> bind (observation_unknown ProbeUnavailable) (\<lambda>ob. Return (Ok ob))
     | Some current \<Rightarrow>
         if previous_epoch \<noteq> None \<and> previous_epoch \<noteq> Some current
         then bind (observation_unknown StaleObservation) (\<lambda>ob. Return (Ok ob))
         else bind (reads clock) (\<lambda>t.
           if t - started \<ge> capability_ttl
           then bind (observation_unknown StaleObservation) (\<lambda>ob. Return (Ok ob))
           else store_observation object v current started))"

definition observe_probe ::
    "tid \<Rightarrow> reviewed_object \<Rightarrow> nat \<Rightarrow> (runtime_error + observation) prog" where
  "observe_probe me object deadline =
     bind (reads clock) (\<lambda>started.
     bind (reads epoch) (\<lambda>previous_epoch.
     attempt (probe me object deadline) (probed object started previous_epoch)))"

text \<open>A prior entry is removed and revoked before the probe.\<close>

definition forget ::
    "reviewed_object \<Rightarrow> (reviewed_object \<times> observation) list \<Rightarrow> unit prog" where
  "forget object es = (case map_of es object of
       None \<Rightarrow> Return ()
     | Some previous \<Rightarrow>
         bind (writes (\<lambda>w. w\<lparr>entries := AList.delete object es\<rparr>)) (\<lambda>_. revoke previous))"

definition observe_locked ::
    "tid \<Rightarrow> reviewed_object \<Rightarrow> bool \<Rightarrow> nat \<Rightarrow> (runtime_error + observation) prog" where
  "observe_locked me object refresh deadline =
     bind (bind (reads entries) (retain_fresh me)) (\<lambda>kept.
     bind (writes (\<lambda>w. w\<lparr>entries := kept\<rparr>)) (\<lambda>_.
     case (if refresh then None else map_of kept object) of
       Some entry \<Rightarrow> Return (Ok entry)
     | None \<Rightarrow>
         bind (forget object kept) (\<lambda>_. observe_probe me object deadline)))"

definition observe ::
    "tid \<Rightarrow> capability_requirement \<Rightarrow> bool \<Rightarrow> nat \<Rightarrow> (runtime_error + observation) prog" where
  "observe me requirement refresh deadline = (case probe_object requirement of
       None \<Rightarrow> bind (observation_unknown UnreviewedProbe) (\<lambda>ob. Return (Ok ob))
     | Some object \<Rightarrow>
         Await deadline
           (\<lambda>w. if entries_lock w = None
                then Some (w\<lparr>entries_lock := Some me\<rparr>,
                  bind (observe_locked me object refresh deadline) (\<lambda>r.
                  bind (writes (unlock_entries me)) (\<lambda>_. Return r)))
                else None)
           (Return (Err RE_Timeout)))"

section \<open>The package snapshot\<close>

definition lease :: "tid \<Rightarrow> (runtime_error + unit) prog" where
  "lease me = Step (\<lambda>w. if slot_lock w = None then (w\<lparr>slot_lock := Some me\<rparr>, Return (Ok ()))
                        else (w, Return (Err RE_Busy)))"

text \<open>\<^verbatim>\<open>Drop for PageLease\<close>, when it was not kept and when it was.\<close>

definition drop_lease :: "tid \<Rightarrow> world \<Rightarrow> world" where
  "drop_lease me w = (if slot_lock w = Some me then w\<lparr>slot := None, slot_lock := None\<rparr> else w)"

definition keep_lease :: "tid \<Rightarrow> world \<Rightarrow> world" where
  "keep_lease me w = happens (H_Kept me) (w\<lparr>slot_lock := None\<rparr>)"

definition snapshot_expired :: "snapshot \<Rightarrow> bool prog" where
  "snapshot_expired sn =
     bind (reads clock) (\<lambda>t.
     if t - sn_started sn \<ge> snapshot_ttl then Return True
     else bind (reads epoch) (\<lambda>e. Return (e \<noteq> Some (sn_epoch sn))))"

definition preserve :: "tid \<Rightarrow> (runtime_error + unit) prog" where
  "preserve me = bind (reads slot) (\<lambda>s. case s of
       None \<Rightarrow> bind (writes (drop_lease me)) (\<lambda>_. Return (Err RE_InvalidCursor))
     | Some sn \<Rightarrow> bind (snapshot_expired sn) (\<lambda>expired.
         if expired then bind (writes (drop_lease me)) (\<lambda>_. Return (Err RE_InvalidCursor))
         else bind (writes (keep_lease me)) (\<lambda>_. Return (Ok ()))))"

definition continue_page ::
    "string \<Rightarrow> package_profile \<Rightarrow> string \<Rightarrow> (runtime_error + nat) prog" where
  "continue_page operation profile cursor =
     attempt (Return (map_err RE_Core (cursor_parse cursor))) (\<lambda>cur.
     attempt (bind (reads slot) (\<lambda>s. Return (ok_or RE_InvalidCursor s))) (\<lambda>sn.
     if cur_nonce cur \<noteq> sn_nonce sn \<or> profile \<noteq> observation_profile (sn_records sn)
       \<or> operation \<noteq> sn_operation sn
     then Return (Err RE_InvalidCursor)
     else bind (snapshot_expired sn) (\<lambda>expired.
       if expired then Return (Err RE_InvalidCursor) else Return (Ok (cur_offset cur)))))"

text \<open>The end of a capture: the observation is kept only when its profile, its epoch and its age fit.\<close>

definition store_snapshot ::
    "string \<Rightarrow> package_profile \<Rightarrow> nat \<Rightarrow> nat \<Rightarrow> string \<Rightarrow> nat option \<Rightarrow> package_observation
     \<Rightarrow> (runtime_error + nat) prog" where
  "store_snapshot operation profile deadline started n previous records =
     (if observation_profile records \<noteq> profile then Return (Err RE_InvalidOutput)
      else attempt (bind (reads epoch) (\<lambda>e. Return (ok_or RE_CapabilityUnknown e))) (\<lambda>current.
      bind (reads clock) (\<lambda>t.
      if deadline \<le> t then Return (Err RE_Timeout)
      else if previous \<noteq> None \<and> previous \<noteq> Some current then Return (Err RE_InvalidCursor)
      else bind (reads clock) (\<lambda>t.
      if t - started \<ge> snapshot_ttl then Return (Err RE_InvalidCursor)
      else bind (writes (\<lambda>w. w\<lparr>slot := Some \<lparr>sn_records = records, sn_nonce = n,
             sn_operation = operation, sn_epoch = current, sn_started = started\<rparr>\<rparr>)) (\<lambda>_.
           Return (Ok 0))))))"

definition capture_page ::
    "tid \<Rightarrow> bool \<Rightarrow> string \<Rightarrow> package_profile \<Rightarrow> nat \<Rightarrow> (runtime_error + nat) prog" where
  "capture_page me tokens operation profile deadline =
     bind (writes (\<lambda>w. w\<lparr>slot := None\<rparr>)) (\<lambda>_.
     bind (reads clock) (\<lambda>started.
     if \<not> tokens then Return (Err RE_EntropyUnavailable)
     else attempt (nonce me deadline) (\<lambda>n.
     bind (reads clock) (\<lambda>t.
     if deadline \<le> t then Return (Err RE_Timeout)
     else if n = zero_nonce then Return (Err RE_EntropyUnavailable)
     else bind (reads epoch) (\<lambda>previous.
     attempt (capture me profile deadline) (\<lambda>records.
       store_snapshot operation profile deadline started n previous records))))))"

definition packages_page ::
    "tid \<Rightarrow> bool \<Rightarrow> string \<Rightarrow> package_profile \<times> string option \<Rightarrow> nat \<Rightarrow> (runtime_error + json) prog" where
  "packages_page me tokens operation = (\<lambda>(profile, cursor) deadline.
     attempt (case cursor of
         Some text \<Rightarrow> continue_page operation profile text
       | None \<Rightarrow> capture_page me tokens operation profile deadline) (\<lambda>offset.
     attempt (bind (reads slot) (\<lambda>s. Return (ok_or RE_InvalidCursor s))) (\<lambda>sn.
       Return (map_err RE_Core (page (sn_records sn) (sn_nonce sn) offset)))))"

section \<open>The audit\<close>

definition enforce_deadline ::
    "nat \<Rightarrow> observation option \<Rightarrow> runtime_error + 'a \<Rightarrow> (runtime_error + 'a) prog" where
  "enforce_deadline deadline ob result =
     bind (reads clock) (\<lambda>t.
     if deadline \<le> t
     then bind (case ob of Some ob \<Rightarrow> revoke ob | None \<Rightarrow> Return ()) (\<lambda>_. Return (Err RE_Timeout))
     else Return result)"

text \<open>The waiting half of \<^verbatim>\<open>record_audit\<close>; \<open>None\<close> is the timeout.\<close>

definition await_worker :: "tid \<Rightarrow> nat \<Rightarrow> (runtime_error + unit) option prog" where
  "await_worker me deadline = Await deadline
     (\<lambda>w. case joined w me of
         None \<Rightarrow> None
       | Some r \<Rightarrow> Some (w\<lparr>joined := (joined w)(me := None)\<rparr>,
           Return (Some (if r = W_Recorded then Ok () else Err RE_AuditUnavailable))))
     (Return None)"

definition await_record :: "tid \<Rightarrow> audit_event \<Rightarrow> nat \<Rightarrow> (runtime_error + unit) option prog" where
  "await_record me event deadline = Await deadline
     (\<lambda>w. if audit_gate w = None
          then Some (w\<lparr>audit_gate := Some me\<rparr>,
            bind (reads audit_failed) (\<lambda>failed.
            if failed
            then bind (writes (\<lambda>w. w\<lparr>audit_gate := None\<rparr>)) (\<lambda>_. Return (Some (Err RE_AuditUnavailable)))
            else bind (writes (\<lambda>w. w\<lparr>worker := Some (me, event)\<rparr>)) (\<lambda>_. await_worker me deadline)))
          else None)
     (Return None)"

definition drop_waiter :: "tid \<Rightarrow> world \<Rightarrow> world" where
  "drop_waiter me w = w\<lparr>audit_waiters := remove1 me (audit_waiters w)\<rparr>"

text \<open>Anything but a recorded event latches the failure.\<close>

definition settle_audit :: "tid \<Rightarrow> (runtime_error + unit) option \<Rightarrow> (runtime_error + unit) prog" where
  "settle_audit me r =
     bind (if r = Some (Ok ()) then Return (Ok ())
           else bind (writes (\<lambda>w. w\<lparr>audit_failed := True\<rparr>)) (\<lambda>_. Return (Err RE_AuditUnavailable)))
       (\<lambda>result. bind (writes (drop_waiter me)) (\<lambda>_. Return result))"

definition record_audit :: "limits \<Rightarrow> tid \<Rightarrow> audit_event \<Rightarrow> (runtime_error + unit) prog" where
  "record_audit lim me event =
     bind (reads audit_failed) (\<lambda>failed.
     if failed then Return (Err RE_AuditUnavailable)
     else attempt (Step (\<lambda>w. if length (audit_waiters w) < max_concurrent lim + 1
            then (w\<lparr>audit_waiters := me # audit_waiters w\<rparr>, Return (Ok ()))
            else (w, Return (Err RE_AuditUnavailable)))) (\<lambda>_.
     bind (reads (\<lambda>w. clock w + millis (min (timeout_ms lim) 1000))) (\<lambda>deadline.
     bind (await_record me event deadline) (settle_audit me))))"

definition reject ::
    "limits \<Rightarrow> tid \<Rightarrow> nat \<Rightarrow> string \<Rightarrow> audit_outcome \<Rightarrow> audit_kind \<Rightarrow> (runtime_error + unit) prog" where
  "reject lim me seq operation outcome kind =
     bind (reads wall) (\<lambda>t. record_audit lim me
       (with_kind (audit_event_new t seq AP_Rejection operation outcome None) kind))"

definition finish ::
    "limits \<Rightarrow> tid \<Rightarrow> nat \<Rightarrow> operation \<Rightarrow> audit_kind \<Rightarrow> nat \<Rightarrow> runtime_error + 'a
     \<Rightarrow> (runtime_error + 'a) prog" where
  "finish lim me seq op kind started result =
     bind (reads clock) (\<lambda>t.
     bind (reads wall) (\<lambda>stamp.
     bind (record_audit lim me
       (with_kind (audit_event_new stamp seq AP_Finish (op_name op)
          (if is_ok result then AO_Success else AO_Failed)
          (Some (min (as_millis (t - started)) u64_max))) kind)) (\<lambda>r.
       case r of Inl _ \<Rightarrow> Return (Err RE_CompletionAuditFailed) | Inr _ \<Rightarrow> Return result)))"

section \<open>The dispatcher\<close>

record dispatcher =
  d_catalog :: catalog
  d_policy :: policy
  d_limits :: limits
  d_tokens :: bool

definition dispatcher_new :: "catalog \<Rightarrow> policy \<Rightarrow> limits \<Rightarrow> runtime_error stop + dispatcher" where
  "dispatcher_new cat pol lim =
     and_then (map_err Returned (limits_validate lim)) (\<lambda>_.
     and_then (map_err (\<lambda>s. case s of Returned e \<Rightarrow> Returned (RE_Core e) | Panicked \<Rightarrow> Panicked)
       (policy_validate pol cat)) (\<lambda>_.
     Ok \<lparr>d_catalog = cat, d_policy = pol, d_limits = lim, d_tokens = False\<rparr>))"

definition with_snapshot_tokens :: "dispatcher \<Rightarrow> dispatcher" where
  "with_snapshot_tokens d = d\<lparr>d_tokens := True\<rparr>"

definition available_operations :: "dispatcher \<Rightarrow> operation list" where
  "available_operations d =
     filter (\<lambda>op. is_ok (authorize (d_policy d) op)) (operations (d_catalog d))"

text \<open>The fields of a new dispatcher that change; the clocks and the epoch are the environment's.\<close>

definition initial_world :: "nat \<Rightarrow> nat \<Rightarrow> nat option \<Rightarrow> world" where
  "initial_world t stamp e =
     \<lparr>sequence = 1, permit_holders = [], audit_waiters = [], audit_gate = None, worker = None,
      joined = (\<lambda>_. None), audit_failed = False, entries_lock = None, entries = [], flags = [],
      slot_lock = None, slot = None, clock = t, wall = stamp, epoch = e, history = []\<rparr>"

definition next_sequence :: "nat prog" where
  "next_sequence = Step (\<lambda>w. (w\<lparr>sequence := (sequence w + 1) mod 2 ^ 64\<rparr>, Return (sequence w)))"

definition authorize_request ::
    "dispatcher \<Rightarrow> tid \<Rightarrow> string \<Rightarrow> nat \<Rightarrow> audit_kind \<Rightarrow> (runtime_error + operation) prog" where
  "authorize_request d me name seq kind = (case catalog_get (d_catalog d) name of
       Inl _ \<Rightarrow> Abort
     | Inr None \<Rightarrow>
         attempt (reject (d_limits d) me seq ''unknown'' AO_UnknownOperation kind) (\<lambda>_.
           Return (Err RE_UnknownOperation))
     | Inr (Some op) \<Rightarrow> (case authorize (d_policy d) op of
           Inl e \<Rightarrow> attempt (reject (d_limits d) me seq (op_name op) AO_Denied kind) (\<lambda>_.
             Return (Err (RE_Core e)))
         | Inr _ \<Rightarrow> Return (Ok op)))"

definition drop_permit :: "tid \<Rightarrow> world \<Rightarrow> world" where
  "drop_permit me w = w\<lparr>permit_holders := remove1 me (permit_holders w)\<rparr>"

text \<open>
  \<^verbatim>\<open>admit\<close>: the permit is taken first, so that when the start event cannot be recorded
  it is dropped again on the way out.
\<close>

definition admit ::
    "dispatcher \<Rightarrow> tid \<Rightarrow> operation \<Rightarrow> nat \<Rightarrow> audit_kind \<Rightarrow> (runtime_error + unit) prog" where
  "admit d me op seq kind =
     bind (Step (\<lambda>w. if length (permit_holders w) < max_concurrent (d_limits d)
       then (w\<lparr>permit_holders := me # permit_holders w\<rparr>, Return True) else (w, Return False))) (\<lambda>ok.
     if \<not> ok
     then attempt (reject (d_limits d) me seq (op_name op) AO_Busy kind) (\<lambda>_. Return (Err RE_Busy))
     else bind (reads wall) (\<lambda>stamp.
       bind (record_audit (d_limits d) me
         (with_kind (audit_event_new stamp seq AP_Start (op_name op) AO_Attempt None) kind)) (\<lambda>r.
         case r of Inl e \<Rightarrow> bind (writes (drop_permit me)) (\<lambda>_. Return (Err e))
           | Inr _ \<Rightarrow> Return (Ok ()))))"

text \<open>The end of a page: a successful one preserves the lease, any other drops it.\<close>

definition settle_lease :: "tid \<Rightarrow> runtime_error + json \<Rightarrow> (runtime_error + json) prog" where
  "settle_lease me r = (case r of
       Inl e \<Rightarrow> bind (writes (drop_lease me)) (\<lambda>_. Return (Err e))
     | Inr v \<Rightarrow> attempt (preserve me) (\<lambda>_. Return (Ok v)))"

text \<open>The part of \<^verbatim>\<open>invoke\<close> that serves a package page, under the lease.\<close>

definition invoke_page ::
    "dispatcher \<Rightarrow> tid \<Rightarrow> nat \<Rightarrow> operation \<Rightarrow> nat \<Rightarrow> nat \<Rightarrow> package_profile \<times> string option
     \<Rightarrow> (runtime_error + json) prog" where
  "invoke_page d me seq op started deadline package_request =
     bind (lease me) (\<lambda>leased. case leased of
       Inl e \<Rightarrow> finish (d_limits d) me seq op AK_Invocation started (Err e)
     | Inr _ \<Rightarrow>
         bind (packages_page me (d_tokens d) (op_name op) package_request deadline) (\<lambda>r.
         bind (enforce_deadline deadline None r) (\<lambda>r.
         bind (finish (d_limits d) me seq op AK_Invocation started r) (settle_lease me))))"

text \<open>The timed block of \<^verbatim>\<open>invoke\<close>, from its end: execution, verdict, observation.\<close>

definition run_action ::
    "(json \<Rightarrow> string \<Rightarrow> json option) \<Rightarrow> tid \<Rightarrow> prepared_invocation \<Rightarrow> observation \<Rightarrow> nat
     \<Rightarrow> (runtime_error + json) prog" where
  "run_action pointer me invocation ob deadline =
     bind (execute me (pi_action invocation) deadline) (\<lambda>reply. case reply of
       None \<Rightarrow> Return (Err RE_Timeout)
     | Some r \<Rightarrow>
         attempt (enforce_deadline deadline (Some ob) r) (\<lambda>out.
         enforce_deadline deadline (Some ob)
           (map_err RE_Core (invocation_project pointer invocation out))))"

definition checked_action ::
    "(json \<Rightarrow> string \<Rightarrow> json option) \<Rightarrow> tid \<Rightarrow> operation \<Rightarrow> prepared_invocation \<Rightarrow> observation \<Rightarrow> nat
     \<Rightarrow> (runtime_error + json) prog" where
  "checked_action pointer me op invocation ob deadline =
     attempt (enforce_deadline deadline (Some ob) (Ok ())) (\<lambda>_.
     bind (observation_verdict me ob (capability op) (Some (pi_action invocation))) (\<lambda>v. case v of
       V_Unknown _ \<Rightarrow> Return (Err RE_CapabilityUnknown)
     | Incompatible _ \<Rightarrow> Return (Err RE_CapabilityUnsupported)
     | Compatible \<Rightarrow>
         attempt (enforce_deadline deadline (Some ob) (Ok ())) (\<lambda>_.
         run_action pointer me invocation ob deadline)))"

text \<open>The pair is \<^verbatim>\<open>(issued, result)\<close>: the observation handed out, and what the block returned.\<close>

definition invoke_timed ::
    "(json \<Rightarrow> string \<Rightarrow> json option) \<Rightarrow> tid \<Rightarrow> operation \<Rightarrow> prepared_invocation \<Rightarrow> nat
     \<Rightarrow> (observation option \<times> (runtime_error + json)) prog" where
  "invoke_timed pointer me op invocation deadline =
     bind (observe me (capability op) False deadline) (\<lambda>observed. case observed of
       Inl e \<Rightarrow> Return (None, Err e)
     | Inr ob \<Rightarrow> bind (checked_action pointer me op invocation ob deadline) (\<lambda>r. Return (Some ob, r)))"

definition invoke_action ::
    "(json \<Rightarrow> string \<Rightarrow> json option) \<Rightarrow> dispatcher \<Rightarrow> tid \<Rightarrow> nat \<Rightarrow> operation \<Rightarrow> prepared_invocation
     \<Rightarrow> nat \<Rightarrow> nat \<Rightarrow> (runtime_error + json) prog" where
  "invoke_action pointer d me seq op invocation started deadline =
     bind (invoke_timed pointer me op invocation deadline) (\<lambda>(issued, r).
     bind (enforce_deadline deadline issued r) (\<lambda>r.
       finish (d_limits d) me seq op AK_Invocation started r))"

text \<open>What runs under the permit; the permit is dropped when it returns.\<close>

definition under_permit :: "tid \<Rightarrow> 'a prog \<Rightarrow> 'a prog" where
  "under_permit me body = bind body (\<lambda>r. bind (writes (drop_permit me)) (\<lambda>_. Return r))"

definition invoke_permitted ::
    "(json \<Rightarrow> string \<Rightarrow> json option) \<Rightarrow> dispatcher \<Rightarrow> tid \<Rightarrow> nat \<Rightarrow> operation \<Rightarrow> prepared_invocation
     \<Rightarrow> (runtime_error + json) prog" where
  "invoke_permitted pointer d me seq op invocation =
     bind (reads clock) (\<lambda>started.
     bind (reads (\<lambda>w. clock w + millis (timeout_ms (d_limits d)))) (\<lambda>deadline.
     case package_page (pi_action invocation) of
       Some package_request \<Rightarrow> invoke_page d me seq op started deadline package_request
     | None \<Rightarrow> invoke_action pointer d me seq op invocation started deadline))"

definition invoke ::
    "(operation \<Rightarrow> nat option) \<Rightarrow> (json \<Rightarrow> string \<Rightarrow> json option) \<Rightarrow> dispatcher \<Rightarrow> tid \<Rightarrow> string \<Rightarrow> json
     \<Rightarrow> (runtime_error + json) prog" where
  "invoke encoded pointer d me name arguments =
     bind next_sequence (\<lambda>seq.
     attempt (authorize_request d me name seq AK_Invocation) (\<lambda>op.
     case prepare_invocation encoded op arguments of
       Inl e \<Rightarrow> attempt (reject (d_limits d) me seq (op_name op) AO_InvalidArguments AK_Invocation) (\<lambda>_.
           Return (Err (RE_Core e)))
     | Inr invocation \<Rightarrow>
         attempt (admit d me op seq AK_Invocation) (\<lambda>_.
           under_permit me (invoke_permitted pointer d me seq op invocation))))"

text \<open>\<^verbatim>\<open>capability_status\<close>.\<close>

definition capture_required :: "capability_requirement \<Rightarrow> bool" where
  "capture_required req = (case req of ApkInstalledQuery \<Rightarrow> True | OpkgRootStatusFile \<Rightarrow> True | _ \<Rightarrow> False)"

definition capture_status :: "capability_requirement \<Rightarrow> capability_status" where
  "capture_status req =
     \<lparr>cs_compatibility = ''unknown'', cs_reason = ''capture_required'',
      cs_scope = (if req = OpkgRootStatusFile then ''closed_file_response'' else ''closed_query_response''),
      cs_response_contract = response_contract req, cs_remaining_ttl_ms = None\<rparr>"

definition status_timed ::
    "tid \<Rightarrow> operation \<Rightarrow> bool \<Rightarrow> nat \<Rightarrow> (observation option \<times> (runtime_error + capability_status)) prog" where
  "status_timed me op refresh deadline =
     bind (observe me (capability op) refresh deadline) (\<lambda>observed. case observed of
       Inl e \<Rightarrow> Return (None, Err e)
     | Inr ob \<Rightarrow> bind
         (attempt (enforce_deadline deadline (Some ob) (Ok ())) (\<lambda>_.
          bind (observation_status me ob (capability op)) (\<lambda>st.
            enforce_deadline deadline (Some ob) (Ok st)))) (\<lambda>r. Return (Some ob, r)))"

definition status_action ::
    "dispatcher \<Rightarrow> tid \<Rightarrow> nat \<Rightarrow> operation \<Rightarrow> bool \<Rightarrow> nat \<Rightarrow> (runtime_error + capability_status) prog" where
  "status_action d me seq op refresh started =
     (if capture_required (capability op)
      then finish (d_limits d) me seq op AK_Capability started (Ok (capture_status (capability op)))
      else bind (reads (\<lambda>w. clock w + millis (timeout_ms (d_limits d)))) (\<lambda>deadline.
        bind (status_timed me op refresh deadline) (\<lambda>(issued, r).
        bind (enforce_deadline deadline issued r) (\<lambda>r.
          finish (d_limits d) me seq op AK_Capability started r))))"

definition status_fields_ok :: "(string \<times> json) list \<Rightarrow> bool" where
  "status_fields_ok fs \<longleftrightarrow>
     \<not> (list_ex (\<lambda>(key, _). key \<noteq> ''operation'' \<and> key \<noteq> ''refresh'') fs
        \<or> (case map_of fs ''refresh'' of None \<Rightarrow> False | Some v \<Rightarrow> \<not> is_boolean v))"

definition refresh_field :: "(string \<times> json) list \<Rightarrow> bool" where
  "refresh_field fs = (case Option.bind (map_of fs ''refresh'') as_bool of None \<Rightarrow> False | Some b \<Rightarrow> b)"

definition invalid_status ::
    "dispatcher \<Rightarrow> tid \<Rightarrow> nat \<Rightarrow> string \<Rightarrow> (runtime_error + capability_status) prog" where
  "invalid_status d me seq name =
     attempt (reject (d_limits d) me seq name AO_InvalidArguments AK_Capability)
       (\<lambda>_. Return (Err (RE_Core InvalidArguments)))"

definition status_named ::
    "dispatcher \<Rightarrow> tid \<Rightarrow> nat \<Rightarrow> string \<Rightarrow> (string \<times> json) list \<Rightarrow> (runtime_error + capability_status) prog" where
  "status_named d me seq name fs =
     attempt (authorize_request d me name seq AK_Capability) (\<lambda>op.
     if \<not> status_fields_ok fs then invalid_status d me seq (op_name op)
     else attempt (admit d me op seq AK_Capability) (\<lambda>_. under_permit me
       (bind (reads clock) (\<lambda>started. status_action d me seq op (refresh_field fs) started))))"

definition capability_status_request ::
    "dispatcher \<Rightarrow> tid \<Rightarrow> json \<Rightarrow> (runtime_error + capability_status) prog" where
  "capability_status_request d me arguments =
     bind next_sequence (\<lambda>seq. case as_object arguments of
       None \<Rightarrow> invalid_status d me seq ''unknown''
     | Some fs \<Rightarrow> (case Option.bind (map_of fs ''operation'') as_str of
           None \<Rightarrow> invalid_status d me seq ''unknown''
         | Some name \<Rightarrow> status_named d me seq name fs))"

section \<open>Interleaving\<close>

datatype answer = A_Value "runtime_error + json" | A_Status "runtime_error + capability_status"

datatype task = Live "answer prog" | Answered answer | Cancelled

fun program_of ::
    "(operation \<Rightarrow> nat option) \<Rightarrow> (json \<Rightarrow> string \<Rightarrow> json option) \<Rightarrow> dispatcher \<Rightarrow> tid \<Rightarrow> request
     \<Rightarrow> answer prog" where
  "program_of encoded pointer d me (Invoke name arguments) =
     bind (invoke encoded pointer d me name arguments) (\<lambda>r. Return (A_Value r))"
| "program_of encoded pointer d me (Capability_Status arguments) =
     bind (capability_status_request d me arguments) (\<lambda>r. Return (A_Status r))"

text \<open>Dropping the future of a request drops the guards it holds, in any order.\<close>

definition drop_guards :: "tid \<Rightarrow> world \<Rightarrow> world" where
  "drop_guards me w = drop_permit me (drop_waiter me (drop_lease me (unlock_entries me w)))"

text \<open>The blocking thread ends: its permit of the gate is released with it.\<close>

definition worker_ends :: "worker_end \<Rightarrow> world \<Rightarrow> world" where
  "worker_ends e w = (case worker w of
       None \<Rightarrow> w
     | Some (me, event) \<Rightarrow>
         (let w' = w\<lparr>worker := None, audit_gate := None, joined := (joined w)(me := Some e),
                     audit_failed := (audit_failed w \<or> e = W_Refused)\<rparr>
          in if e = W_Recorded then happens (H_Recorded me event) w' else w'))"

type_synonym machine = "world \<times> (tid \<Rightarrow> task option)"

text \<open>Moves of a request or of the audit thread.\<close>

inductive moves :: "machine \<Rightarrow> machine \<Rightarrow> bool" where
  steps: "ts i = Some (Live (Step f)) \<Longrightarrow> f w = (w', p) \<Longrightarrow> moves (w, ts) (w', ts(i \<mapsto> Live p))"
| resumes: "ts i = Some (Live (Await dl f late)) \<Longrightarrow> f w = Some (w', p)
    \<Longrightarrow> moves (w, ts) (w', ts(i \<mapsto> Live p))"
| elapses: "ts i = Some (Live (Await dl f late)) \<Longrightarrow> dl \<le> clock w
    \<Longrightarrow> moves (w, ts) (w, ts(i \<mapsto> Live late))"
| replies: "ts i = Some (Live (Call c dl k)) \<Longrightarrow> fits c r
    \<Longrightarrow> moves (w, ts) (happens (H_Replied i c r) w, ts(i \<mapsto> Live (k (Some r))))"
| expires: "ts i = Some (Live (Call c dl k)) \<Longrightarrow> dl \<le> clock w
    \<Longrightarrow> moves (w, ts) (w, ts(i \<mapsto> Live (k None)))"
| answers: "ts i = Some (Live (Return a)) \<Longrightarrow> moves (w, ts) (w, ts(i \<mapsto> Answered a))"
| audits: "worker w \<noteq> None \<Longrightarrow> moves (w, ts) (worker_ends e w, ts)"

text \<open>
  Moves of the environment: a request arrives, a client drops the future of one that is
  suspended, time passes, the connection changes.
\<close>

inductive disturbs ::
    "(operation \<Rightarrow> nat option) \<Rightarrow> (json \<Rightarrow> string \<Rightarrow> json option) \<Rightarrow> dispatcher
     \<Rightarrow> machine \<Rightarrow> machine \<Rightarrow> bool" for encoded pointer d where
  arrives: "ts i = None
    \<Longrightarrow> disturbs encoded pointer d (w, ts)
          (happens (H_Arrived i q) w, ts(i \<mapsto> Live (program_of encoded pointer d i q)))"
| drops_wait: "ts i = Some (Live (Await dl f late))
    \<Longrightarrow> disturbs encoded pointer d (w, ts) (drop_guards i w, ts(i \<mapsto> Cancelled))"
| drops_call: "ts i = Some (Live (Call c dl k))
    \<Longrightarrow> disturbs encoded pointer d (w, ts) (drop_guards i w, ts(i \<mapsto> Cancelled))"
| passes: "clock w \<le> t \<Longrightarrow> disturbs encoded pointer d (w, ts) (w\<lparr>clock := t\<rparr>, ts)"
| reset: "disturbs encoded pointer d (w, ts) (w\<lparr>wall := t\<rparr>, ts)"
| reconnects: "disturbs encoded pointer d (w, ts) (w\<lparr>epoch := e\<rparr>, ts)"

inductive reachable ::
    "(operation \<Rightarrow> nat option) \<Rightarrow> (json \<Rightarrow> string \<Rightarrow> json option) \<Rightarrow> dispatcher \<Rightarrow> machine \<Rightarrow> bool"
    for encoded pointer d where
  initially: "reachable encoded pointer d (initial_world t stamp e, \<lambda>_. None)"
| moving: "reachable encoded pointer d m \<Longrightarrow> moves m m' \<Longrightarrow> reachable encoded pointer d m'"
| disturbed: "reachable encoded pointer d m \<Longrightarrow> disturbs encoded pointer d m m' \<Longrightarrow> reachable encoded pointer d m'"

end
