(* ===== verification/Interleaving.thy ===== *)
theory Interleaving
  imports Dispatcher
begin

text \<open>
  Thread-modular reasoning about the requests. \<open>sat I R i p Q\<close> is the set of states from which
  the program \<open>p\<close> of request \<open>i\<close>, run among others that respect \<open>R i\<close>, keeps the invariant \<open>I\<close>
  and what the others rely on, never panics, calls a port only while it holds a permit, and
  ends in a state that satisfies \<open>Q\<close>. The
  locale \<open>rely_guarantee\<close> states what the rely relation and the invariant owe each other; from
  it follows that what holds of each program alone holds of every interleaving.
\<close>

section \<open>Safe programs\<close>

definition kept_by :: "(world \<Rightarrow> bool) \<Rightarrow> (tid \<Rightarrow> world \<Rightarrow> world \<Rightarrow> bool) \<Rightarrow> tid \<Rightarrow> world \<Rightarrow> world \<Rightarrow> bool" where
  "kept_by I R i w w' \<longleftrightarrow> I w' \<and> (\<forall>j. j \<noteq> i \<longrightarrow> R j w w')"

primrec sat ::
    "(world \<Rightarrow> bool) \<Rightarrow> (tid \<Rightarrow> world \<Rightarrow> world \<Rightarrow> bool) \<Rightarrow> tid \<Rightarrow> 'a prog
     \<Rightarrow> ('a \<Rightarrow> world \<Rightarrow> bool) \<Rightarrow> world \<Rightarrow> bool" where
  "sat I R i (Return x) = (\<lambda>Q w. \<forall>w'. R i w w' \<longrightarrow> I w' \<longrightarrow> Q x w')"
| "sat I R i Abort = (\<lambda>Q w. \<forall>w'. R i w w' \<longrightarrow> \<not> I w')"
| "sat I R i (Step f) = (\<lambda>Q w. \<forall>w'. R i w w' \<longrightarrow> I w' \<longrightarrow>
     (case map_prod id (sat I R i) (f w') of (w'', s) \<Rightarrow> kept_by I R i w' w'' \<and> s Q w''))"
| "sat I R i (Await dl f late) = (\<lambda>Q w. \<forall>w'. R i w w' \<longrightarrow> I w' \<longrightarrow>
     (case map_option (map_prod id (sat I R i)) (f w') of
        None \<Rightarrow> True | Some (w'', s) \<Rightarrow> kept_by I R i w' w'' \<and> s Q w'')
     \<and> (dl \<le> clock w' \<longrightarrow> sat I R i late Q w') \<and> kept_by I R i w' (drop_guards i w'))"
| "sat I R i (Call c dl k) = (\<lambda>Q w. \<forall>w'. R i w w' \<longrightarrow> I w' \<longrightarrow> i \<in> set (permit_holders w') \<and>
     (\<forall>r. fits c r \<longrightarrow> kept_by I R i w' (happens (H_Replied i c r) w')
        \<and> sat I R i (k (Some r)) Q (happens (H_Replied i c r) w'))
     \<and> (dl \<le> clock w' \<longrightarrow> sat I R i (k None) Q w') \<and> kept_by I R i w' (drop_guards i w'))"

lemma sat_Step:
  "sat I R i (Step f) Q w \<longleftrightarrow> (\<forall>w'. R i w w' \<longrightarrow> I w' \<longrightarrow>
     kept_by I R i w' (fst (f w')) \<and> sat I R i (snd (f w')) Q (fst (f w')))"
  by (simp add: map_prod_def case_prod_beta)

lemma sat_Await:
  "sat I R i (Await dl f late) Q w \<longleftrightarrow> (\<forall>w'. R i w w' \<longrightarrow> I w' \<longrightarrow>
     (\<forall>w'' p. f w' = Some (w'', p) \<longrightarrow> kept_by I R i w' w'' \<and> sat I R i p Q w'')
     \<and> (dl \<le> clock w' \<longrightarrow> sat I R i late Q w') \<and> kept_by I R i w' (drop_guards i w'))"
proof -
  have ready: "(case map_option (map_prod id (sat I R i)) (f v) of
        None \<Rightarrow> True | Some (w'', s) \<Rightarrow> kept_by I R i v w'' \<and> s Q w'')
      = (\<forall>w'' p. f v = Some (w'', p) \<longrightarrow> kept_by I R i v w'' \<and> sat I R i p Q w'')" for v
    by (cases "f v") (auto split: prod.splits)
  show ?thesis by (simp only: sat.simps ready)
qed

declare sat.simps(3,4) [simp del]

section \<open>Soundness\<close>

locale rely_guarantee =
  fixes I :: "world \<Rightarrow> bool" and R :: "tid \<Rightarrow> world \<Rightarrow> world \<Rightarrow> bool" and untouched :: "tid \<Rightarrow> world \<Rightarrow> bool"
  assumes R_refl: "R i w w"
    and R_trans: "R i w w' \<Longrightarrow> R i w' w'' \<Longrightarrow> R i w w''"
    and initial: "I (initial_world t stamp e)" "untouched i (initial_world t stamp e)"
    and arrival: "I w \<Longrightarrow> untouched i w
      \<Longrightarrow> I (happens (H_Arrived i q) w) \<and> (j \<noteq> i \<longrightarrow> R j w (happens (H_Arrived i q) w))"
    and audit: "I w \<Longrightarrow> worker w \<noteq> None \<Longrightarrow> I (worker_ends ending w) \<and> R i w (worker_ends ending w)"
    and ticking: "I w \<Longrightarrow> clock w \<le> t \<Longrightarrow> I (w\<lparr>clock := t\<rparr>) \<and> R i w (w\<lparr>clock := t\<rparr>)"
    and stamping: "I w \<Longrightarrow> I (w\<lparr>wall := t\<rparr>) \<and> R i w (w\<lparr>wall := t\<rparr>)"
    and connecting: "I w \<Longrightarrow> I (w\<lparr>epoch := e\<rparr>) \<and> R i w (w\<lparr>epoch := e\<rparr>)"
    and untouched_stable: "untouched i w \<Longrightarrow> R i w w' \<Longrightarrow> untouched i w'"
begin

lemma sat_weaken:
  "sat I R i p Q w \<Longrightarrow> R i w w' \<Longrightarrow> sat I R i p Q w'"
  by (cases p) (auto simp: sat_Step sat_Await intro: R_trans)

lemma sat_mono:
  "sat I R i p Q w \<Longrightarrow> (\<And>x w. I w \<Longrightarrow> Q x w \<Longrightarrow> Q' x w) \<Longrightarrow> sat I R i p Q' w"
proof (induction p arbitrary: w)
  case (Step f)
  have "sat I R i (snd (f v)) Q (fst (f v)) \<Longrightarrow> sat I R i (snd (f v)) Q' (fst (f v))" for v
    using Step.IH [of "f v" "snd (f v)" "fst (f v)"] Step.prems(2) by (simp add: snds.simps prod_eq_iff)
  with Step.prems(1) show ?case by (auto simp: sat_Step)
next
  case (Await dl f late)
  have "f v = Some (w'', p) \<Longrightarrow> sat I R i p Q w'' \<Longrightarrow> sat I R i p Q' w''" for v w'' p
    using Await.IH(1) [of "f v" "(w'', p)" p w''] Await.prems(2) rangeI [of f v] by auto
  with Await.prems(1) Await.IH(2) [OF _ Await.prems(2)] show ?case unfolding sat_Await by meson
qed auto

lemma sat_bind:
  "sat I R i p (\<lambda>x. sat I R i (k x) Q) w \<Longrightarrow> sat I R i (bind p k) Q w"
proof (induction p arbitrary: w)
  case (Return x)
  then show ?case
  proof -
    have "sat I R i (k x) Q w'" if "R i w w'" "I w'" for w' using Return that by auto
    then show ?thesis by (cases "k x") (auto simp: sat_Step sat_Await intro: R_refl)
  qed
next
  case (Step f)
  have "sat I R i (snd (f v)) (\<lambda>x. sat I R i (k x) Q) (fst (f v)) \<Longrightarrow> sat I R i (bind (snd (f v)) k) Q (fst (f v))" for v
    using Step.IH [of "f v" "snd (f v)" "fst (f v)"] by (simp add: snds.simps prod_eq_iff)
  with Step.prems show ?case by (auto simp: sat_Step)
next
  case (Await dl f late)
  have "f v = Some (w'', p) \<Longrightarrow> sat I R i p (\<lambda>x. sat I R i (k x) Q) w'' \<Longrightarrow> sat I R i (bind p k) Q w''" for v w'' p
    using Await.IH(1) [of "f v" "(w'', p)" p w''] rangeI [of f v] by auto
  with Await show ?case by (auto simp: sat_Await)
qed auto

lemma sat_seq:
  assumes "sat I R i p M w" and "\<And>x v. I v \<Longrightarrow> M x v \<Longrightarrow> sat I R i (k x) Q v"
  shows "sat I R i (bind p k) Q w"
  by (rule sat_bind, rule sat_mono [OF assms(1)]) (rule assms(2))

lemma sat_attempt:
  assumes "sat I R i p M w" and "\<And>e v. I v \<Longrightarrow> M (Err e) v \<Longrightarrow> sat I R i (Return (Err e)) Q v"
    and "\<And>x v. I v \<Longrightarrow> M (Ok x) v \<Longrightarrow> sat I R i (k x) Q v"
  shows "sat I R i (attempt p k) Q w"
proof -
  have "sat I R i (case r of Inl e \<Rightarrow> Return (Err e) | Inr x \<Rightarrow> k x) Q v" if "I v" "M r v" for r v
    using that assms(2,3) by (cases r) simp_all
  then show ?thesis unfolding attempt_def by (rule sat_seq [OF assms(1)])
qed

text \<open>The state of the machine: each live program is safe, each answer satisfies its specification.\<close>

definition task_ok :: "(tid \<Rightarrow> answer \<Rightarrow> world \<Rightarrow> bool) \<Rightarrow> tid \<Rightarrow> task option \<Rightarrow> world \<Rightarrow> bool" where
  "task_ok Q i t w = (case t of
       None \<Rightarrow> untouched i w
     | Some (Live p) \<Rightarrow> sat I R i p (Q i) w
     | Some (Answered a) \<Rightarrow> Q i a w
     | Some Cancelled \<Rightarrow> True)"

definition good :: "(tid \<Rightarrow> answer \<Rightarrow> world \<Rightarrow> bool) \<Rightarrow> machine \<Rightarrow> bool" where
  "good Q m \<longleftrightarrow> I (fst m) \<and> (\<forall>i. task_ok Q i (snd m i) (fst m))"

definition stable :: "(tid \<Rightarrow> answer \<Rightarrow> world \<Rightarrow> bool) \<Rightarrow> bool" where
  "stable Q \<longleftrightarrow> (\<forall>i a w w'. Q i a w \<longrightarrow> R i w w' \<longrightarrow> Q i a w')"

lemma task_ok_stable:
  "stable Q \<Longrightarrow> task_ok Q i t w \<Longrightarrow> R i w w' \<Longrightarrow> task_ok Q i t w'"
  by (auto simp: task_ok_def stable_def split: option.splits task.splits intro: untouched_stable sat_weaken)

lemma good_update:
  assumes "good Q (w, ts)" and "stable Q" and "kept_by I R i w w'" and "task_ok Q i (Some t) w'"
  shows "good Q (w', ts(i \<mapsto> t))"
  using assms(1,3,4) by (auto simp: good_def kept_by_def intro: task_ok_stable [OF assms(2)])

lemma good_outside:
  assumes "good Q (w, ts)" and "stable Q" and "I w'" and "\<And>i. R i w w'"
  shows "good Q (w', ts)"
  using assms(1,3,4) by (auto simp: good_def intro: task_ok_stable [OF assms(2)])

lemma kept_refl: "I w \<Longrightarrow> kept_by I R i w w"
  by (simp add: kept_by_def R_refl)

lemma good_live:
  assumes "good Q (w, ts)" and "ts i = Some (Live p)"
  shows "I w" and "sat I R i p (Q i) w"
proof -
  have "I w" and "task_ok Q i (ts i) w" using assms(1) by (simp_all add: good_def)
  then show "I w" and "sat I R i p (Q i) w" using assms(2) by (simp_all add: task_ok_def)
qed

lemma sat_now:
  assumes "good Q (w, ts)"
  shows "ts i = Some (Live (Step f)) \<Longrightarrow>
      kept_by I R i w (fst (f w)) \<and> sat I R i (snd (f w)) (Q i) (fst (f w))"
    and "ts i = Some (Live (Await dl f' late)) \<Longrightarrow>
      (f' w = Some (w', p) \<longrightarrow> kept_by I R i w w' \<and> sat I R i p (Q i) w')
      \<and> (dl \<le> clock w \<longrightarrow> sat I R i late (Q i) w) \<and> kept_by I R i w (drop_guards i w)"
    and "ts i = Some (Live (Call c dl k)) \<Longrightarrow> i \<in> set (permit_holders w) \<and>
      (fits c r \<longrightarrow> kept_by I R i w (happens (H_Replied i c r) w)
        \<and> sat I R i (k (Some r)) (Q i) (happens (H_Replied i c r) w))
      \<and> (dl \<le> clock w \<longrightarrow> sat I R i (k None) (Q i) w) \<and> kept_by I R i w (drop_guards i w)"
    and "ts i = Some (Live (Return a)) \<Longrightarrow> Q i a w"
proof -
  note live = good_live [OF assms]
  show "ts i = Some (Live (Step f)) \<Longrightarrow>
      kept_by I R i w (fst (f w)) \<and> sat I R i (snd (f w)) (Q i) (fst (f w))"
    using live [of i "Step f"] R_refl [of i w] unfolding sat_Step by blast
  show "ts i = Some (Live (Await dl f' late)) \<Longrightarrow>
      (f' w = Some (w', p) \<longrightarrow> kept_by I R i w w' \<and> sat I R i p (Q i) w')
      \<and> (dl \<le> clock w \<longrightarrow> sat I R i late (Q i) w) \<and> kept_by I R i w (drop_guards i w)"
    using live [of i "Await dl f' late"] R_refl [of i w] unfolding sat_Await by blast
  show "ts i = Some (Live (Call c dl k)) \<Longrightarrow> i \<in> set (permit_holders w) \<and>
      (fits c r \<longrightarrow> kept_by I R i w (happens (H_Replied i c r) w)
        \<and> sat I R i (k (Some r)) (Q i) (happens (H_Replied i c r) w))
      \<and> (dl \<le> clock w \<longrightarrow> sat I R i (k None) (Q i) w) \<and> kept_by I R i w (drop_guards i w)"
    using live [of i "Call c dl k"] R_refl [of i w] unfolding sat.simps by blast
  show "ts i = Some (Live (Return a)) \<Longrightarrow> Q i a w"
    using live [of i "Return a"] R_refl [of i w] unfolding sat.simps by blast
qed

lemma good_moves:
  assumes "good Q m" and "stable Q" and "moves m m'"
  shows "good Q m'"
  using assms(3)
proof cases
  case (steps ts i f w w' p)
  have good: "good Q (w, ts)" using assms(1) steps(1) by simp
  show ?thesis unfolding steps(2)
    by (rule good_update [OF good assms(2)]) (use steps sat_now(1) [OF good steps(3)] in \<open>auto simp: task_ok_def\<close>)
next
  case (resumes ts i dl f late w w' p)
  have good: "good Q (w, ts)" using assms(1) resumes(1) by simp
  show ?thesis unfolding resumes(2)
    by (rule good_update [OF good assms(2)]) (use resumes sat_now(2) [OF good resumes(3)] in \<open>auto simp: task_ok_def\<close>)
next
  case (elapses ts i dl f late w)
  have good: "good Q (w, ts)" using assms(1) elapses(1) by simp
  show ?thesis unfolding elapses(2)
    by (rule good_update [OF good assms(2) kept_refl [OF good_live(1) [OF good elapses(3)]]])
      (use elapses sat_now(2) [OF good elapses(3)] in \<open>auto simp: task_ok_def\<close>)
next
  case (replies ts i c dl k r w)
  have good: "good Q (w, ts)" using assms(1) replies(1) by simp
  show ?thesis unfolding replies(2)
    by (rule good_update [OF good assms(2)]) (use replies sat_now(3) [OF good replies(3)] in \<open>auto simp: task_ok_def\<close>)
next
  case (expires ts i c dl k w)
  have good: "good Q (w, ts)" using assms(1) expires(1) by simp
  show ?thesis unfolding expires(2)
    by (rule good_update [OF good assms(2) kept_refl [OF good_live(1) [OF good expires(3)]]])
      (use expires sat_now(3) [OF good expires(3)] in \<open>auto simp: task_ok_def\<close>)
next
  case (answers ts i a w)
  have good: "good Q (w, ts)" using assms(1) answers(1) by simp
  show ?thesis unfolding answers(2)
    by (rule good_update [OF good assms(2) kept_refl [OF good_live(1) [OF good answers(3)]]])
      (use answers sat_now(4) [OF good answers(3)] in \<open>auto simp: task_ok_def\<close>)
next
  case (audits w ts ending)
  have good: "good Q (w, ts)" using assms(1) audits(1) by simp
  then have "I w" by (simp add: good_def)
  then show ?thesis unfolding audits(2)
    using audits audit by (intro good_outside [OF good assms(2)]) blast+
qed

lemma good_disturbs:
  assumes "good Q m" and "stable Q" and "disturbs encoded pointer d m m'"
    and start: "\<And>w i q. I w \<Longrightarrow> untouched i w
      \<Longrightarrow> sat I R i (program_of encoded pointer d i q) (Q i) (happens (H_Arrived i q) w)"
  shows "good Q m'"
  using assms(3)
proof cases
  case (arrives ts i w q)
  have good: "good Q (w, ts)" using assms(1) arrives(1) by simp
  then have "I w" and "task_ok Q i (ts i) w" by (simp_all add: good_def)
  then have "I w" "untouched i w" using arrives(3) by (simp_all add: task_ok_def)
  then show ?thesis unfolding arrives(2)
    using arrival start by (intro good_update [OF good assms(2)]) (auto simp: kept_by_def task_ok_def)
next
  case (drops_wait ts i dl f late w)
  have good: "good Q (w, ts)" using assms(1) drops_wait(1) by simp
  show ?thesis unfolding drops_wait(2)
    by (rule good_update [OF good assms(2)]) (use drops_wait sat_now(2) [OF good drops_wait(3)] in \<open>auto simp: task_ok_def\<close>)
next
  case (drops_call ts i c dl k w)
  have good: "good Q (w, ts)" using assms(1) drops_call(1) by simp
  show ?thesis unfolding drops_call(2)
    by (rule good_update [OF good assms(2)]) (use drops_call sat_now(3) [OF good drops_call(3)] in \<open>auto simp: task_ok_def\<close>)
next
  case (passes w t ts)
  have good: "good Q (w, ts)" using assms(1) passes(1) by simp
  then have "I w" by (simp add: good_def)
  then show ?thesis unfolding passes(2) using passes ticking by (intro good_outside [OF good assms(2)]) blast+
next
  case (reset w ts t)
  have good: "good Q (w, ts)" using assms(1) reset(1) by simp
  then have "I w" by (simp add: good_def)
  then show ?thesis unfolding reset(2) using reset stamping by (intro good_outside [OF good assms(2)]) blast+
next
  case (reconnects w ts e)
  have good: "good Q (w, ts)" using assms(1) reconnects(1) by simp
  then have "I w" by (simp add: good_def)
  then show ?thesis unfolding reconnects(2) using reconnects connecting by (intro good_outside [OF good assms(2)]) blast+
qed

theorem reachable_good:
  assumes "reachable encoded pointer d m" and "stable Q"
    and start: "\<And>w i q. I w \<Longrightarrow> untouched i w
      \<Longrightarrow> sat I R i (program_of encoded pointer d i q) (Q i) (happens (H_Arrived i q) w)"
  shows "good Q m"
  using assms(1)
proof induction
  case (initially t stamp e)
  then show ?case by (simp add: good_def task_ok_def initial)
qed (blast intro: good_moves good_disturbs assms(2) start)+

end

end
