(* ===== verification/Safety.thy ===== *)
theory Safety
  imports Interleaving
begin

text \<open>
  What the dispatcher guarantees under every interleaving. The history of a dispatcher is
  \<^emph>\<open>justified\<close>: whatever a request asked of the backend was preceded by what entitles it to ask
  (its policy decision, its recorded start event, a fresh and compatible observation). The
  relation \<open>rely\<close> is what a request may count on while others run, \<open>sound\<close> the invariant of the
  shared state.
\<close>

section \<open>Justified histories\<close>

fun by_request :: "happening \<Rightarrow> tid" where
  "by_request (H_Arrived i _) = i"
| "by_request (H_Called i _) = i"
| "by_request (H_Replied i _ _) = i"
| "by_request (H_Recorded i _) = i"
| "by_request (H_Fresh i _ _) = i"
| "by_request (H_Kept i) = i"

fun called :: "tid \<Rightarrow> happening list \<Rightarrow> call list" where
  "called i [] = []"
| "called i (H_Called j c # hs) = (if j = i then c # called i hs else called i hs)"
| "called i (_ # hs) = called i hs"

fun same_port :: "call \<Rightarrow> call \<Rightarrow> bool" where
  "same_port (C_Probe _) (C_Probe _) = True"
| "same_port (C_Execute _) (C_Execute _) = True"
| "same_port (C_Capture _) (C_Capture _) = True"
| "same_port C_Nonce C_Nonce = True"
| "same_port _ _ = False"

fun request_name :: "request \<Rightarrow> string option" where
  "request_name (Invoke name _) = Some name"
| "request_name (Capability_Status arguments) =
     Option.bind (as_object arguments) (\<lambda>fs. Option.bind (map_of fs ''operation'') as_str)"

fun request_kind :: "request \<Rightarrow> audit_kind" where
  "request_kind (Invoke _ _) = AK_Invocation"
| "request_kind (Capability_Status _) = AK_Capability"

definition recorded ::
    "happening list \<Rightarrow> tid \<Rightarrow> audit_kind \<Rightarrow> audit_phase \<Rightarrow> string \<Rightarrow> audit_outcome \<Rightarrow> bool" where
  "recorded pre i kind phase name outcome \<longleftrightarrow> (\<exists>ev. H_Recorded i ev \<in> set pre \<and> ae_kind ev = kind
     \<and> ae_phase ev = phase \<and> ae_operation ev = safe_operation_name name \<and> ae_outcome ev = outcome)"

definition permitted :: "dispatcher \<Rightarrow> request \<Rightarrow> operation \<Rightarrow> bool" where
  "permitted d q op \<longleftrightarrow> (\<exists>name. request_name q = Some name
     \<and> catalog_get (d_catalog d) name = Ok (Some op) \<and> authorize (d_policy d) op = Ok ())"

definition admitted :: "dispatcher \<Rightarrow> happening list \<Rightarrow> tid \<Rightarrow> request \<Rightarrow> operation \<Rightarrow> bool" where
  "admitted d pre i q op \<longleftrightarrow> H_Arrived i q \<in> set pre \<and> permitted d q op
     \<and> recorded pre i (request_kind q) AP_Start (op_name op) AO_Attempt"

definition observed :: "happening list \<Rightarrow> reviewed_object \<Rightarrow> observation \<Rightarrow> bool" where
  "observed pre object ob \<longleftrightarrow> (\<exists>j v.
     H_Replied j (C_Probe (DescribeUbusObject object)) (R_Probe (Ok v)) \<in> set pre
     \<and> ob_value ob = checked_value object v)"

definition prepared ::
    "(operation \<Rightarrow> nat option) \<Rightarrow> request \<Rightarrow> operation \<Rightarrow> prepared_invocation \<Rightarrow> bool" where
  "prepared encoded q op pinv \<longleftrightarrow>
     (\<exists>name arguments. q = Invoke name arguments \<and> prepare_invocation encoded op arguments = Ok pinv)"

fun call_justified ::
    "(operation \<Rightarrow> nat option) \<Rightarrow> dispatcher \<Rightarrow> happening list \<Rightarrow> tid \<Rightarrow> request \<Rightarrow> operation \<Rightarrow> call \<Rightarrow> bool" where
  "call_justified encoded d pre i q op (C_Probe (DescribeUbusObject object)) =
     (probe_object (capability op) = Some object)"
| "call_justified encoded d pre i q op (C_Execute act) =
     (\<exists>pinv ob t object. prepared encoded q op pinv \<and> act = pi_action pinv \<and> package_page act = None
        \<and> H_Fresh i ob t \<in> set pre \<and> probe_object (capability op) = Some object
        \<and> observed pre object ob \<and> evaluate (capability op) (ob_value ob) (Some act) = Compatible)"
| "call_justified encoded d pre i q op (C_Capture profile) =
     (\<exists>pinv. prepared encoded q op pinv \<and> package_page (pi_action pinv) = Some (profile, None))"
| "call_justified encoded d pre i q op C_Nonce =
     (d_tokens d \<and> (\<exists>pinv profile. prepared encoded q op pinv
        \<and> package_page (pi_action pinv) = Some (profile, None)))"

fun justified :: "(operation \<Rightarrow> nat option) \<Rightarrow> dispatcher \<Rightarrow> happening list \<Rightarrow> happening \<Rightarrow> bool" where
  "justified encoded d pre (H_Called i c) = (list_all (\<lambda>c'. \<not> same_port c c') (called i pre)
     \<and> (\<exists>q op. admitted d pre i q op \<and> call_justified encoded d pre i q op c))"
| "justified encoded d pre (H_Fresh i ob t) = (ob_epoch ob \<noteq> None \<and> t - ob_started ob < capability_ttl)"
| "justified encoded d pre (H_Kept i) =
     (\<exists>name. recorded pre i AK_Invocation AP_Finish name AO_Success)"
| "justified encoded d pre (H_Arrived i q) = (\<forall>q'. H_Arrived i q' \<notin> set pre)"
| "justified encoded d pre _ = True"

definition history_justified :: "(operation \<Rightarrow> nat option) \<Rightarrow> dispatcher \<Rightarrow> happening list \<Rightarrow> bool" where
  "history_justified encoded d hs \<longleftrightarrow> (\<forall>k < length hs. justified encoded d (take k hs) (hs ! k))"

lemma history_justified_snoc [simp]:
  "history_justified encoded d (hs @ [h]) \<longleftrightarrow> history_justified encoded d hs \<and> justified encoded d hs h"
  by (auto simp: history_justified_def nth_append less_Suc_eq)

lemma history_justified_Nil [simp]: "history_justified encoded d []"
  by (simp add: history_justified_def)

lemma called_append [simp]: "called i (hs @ hs') = called i hs @ called i hs'"
  by (induction i hs rule: called.induct) auto

lemma called_others: "(\<And>h. h \<in> set hs \<Longrightarrow> by_request h = i \<Longrightarrow> \<exists>ev. h = H_Recorded i ev) \<Longrightarrow> called i hs = []"
  by (induction i hs rule: called.induct) force+

section \<open>The invariant of the shared state\<close>

definition captured :: "happening list \<Rightarrow> snapshot \<Rightarrow> bool" where
  "captured pre sn \<longleftrightarrow> sn_nonce sn \<noteq> zero_nonce \<and> (\<exists>j.
     H_Replied j (C_Capture (observation_profile (sn_records sn))) (R_Capture (Ok (sn_records sn))) \<in> set pre)"

definition entry_ok :: "world \<Rightarrow> reviewed_object \<times> observation \<Rightarrow> bool" where
  "entry_ok w = (\<lambda>(object, ob). observed (history w) object ob \<and> ob_epoch ob \<noteq> None
     \<and> ob_valid ob < length (flags w))"

definition sound :: "(operation \<Rightarrow> nat option) \<Rightarrow> dispatcher \<Rightarrow> world \<Rightarrow> bool" where
  "sound encoded d w \<longleftrightarrow>
     history_justified encoded d (history w)
     \<and> length (permit_holders w) \<le> max_concurrent (d_limits d)
     \<and> length (audit_waiters w) \<le> max_concurrent (d_limits d) + 1
     \<and> (\<forall>i ev. worker w = Some (i, ev) \<longrightarrow> audit_gate w = Some i)
     \<and> (\<forall>e \<in> set (entries w). entry_ok w e)
     \<and> (\<forall>sn. slot w = Some sn \<longrightarrow> captured (history w) sn)"

section \<open>What a request relies on\<close>

text \<open>The event the audit thread writes for a request.\<close>

definition written :: "tid \<Rightarrow> world \<Rightarrow> audit_event option" where
  "written i w = (case worker w of None \<Rightarrow> None | Some (j, ev) \<Rightarrow> if j = i then Some ev else None)"

definition audit_rely :: "tid \<Rightarrow> world \<Rightarrow> world \<Rightarrow> bool" where
  "audit_rely i w w' \<longleftrightarrow>
     (written i w' = written i w \<and> joined w' i = joined w i
        \<and> (audit_gate w' = Some i \<longleftrightarrow> audit_gate w = Some i))
     \<or> (\<exists>ev r. written i w = Some ev \<and> written i w' = None \<and> audit_gate w' \<noteq> Some i
          \<and> joined w' i = Some r \<and> (r = W_Recorded \<longrightarrow> H_Recorded i ev \<in> set (history w')))"

text \<open>Others add to the history only what is theirs, and the audit thread what it wrote.\<close>

definition extends :: "tid \<Rightarrow> happening list \<Rightarrow> happening list \<Rightarrow> bool" where
  "extends i pre post \<longleftrightarrow> (\<exists>hs. post = pre @ hs
     \<and> (\<forall>h \<in> set hs. by_request h = i \<longrightarrow> (\<exists>ev. h = H_Recorded i ev)))"

definition guards_rely :: "tid \<Rightarrow> world \<Rightarrow> world \<Rightarrow> bool" where
  "guards_rely i w w' \<longleftrightarrow>
     count_list (permit_holders w') i = count_list (permit_holders w) i
     \<and> count_list (audit_waiters w') i = count_list (audit_waiters w) i
     \<and> (entries_lock w' = Some i \<longleftrightarrow> entries_lock w = Some i)
     \<and> (entries_lock w = Some i \<longrightarrow> entries w' = entries w)
     \<and> (slot_lock w' = Some i \<longleftrightarrow> slot_lock w = Some i)
     \<and> (slot_lock w = Some i \<longrightarrow> slot w' = slot w)"

definition grows :: "world \<Rightarrow> world \<Rightarrow> bool" where
  "grows w w' \<longleftrightarrow> length (flags w) \<le> length (flags w') \<and> (audit_failed w \<longrightarrow> audit_failed w')
     \<and> clock w \<le> clock w'"

definition rely :: "tid \<Rightarrow> world \<Rightarrow> world \<Rightarrow> bool" where
  "rely i w w' \<longleftrightarrow> extends i (history w) (history w') \<and> guards_rely i w w' \<and> grows w w'
     \<and> audit_rely i w w'"

lemma extends_refl [simp]: "extends i hs hs"
  by (simp add: extends_def)

lemma extends_snoc [simp]:
  "extends i hs (hs @ [h]) \<longleftrightarrow> (by_request h = i \<longrightarrow> (\<exists>ev. h = H_Recorded i ev))"
  by (auto simp: extends_def)

lemma extends_trans: "extends i a b \<Longrightarrow> extends i b c \<Longrightarrow> extends i a c"
  by (fastforce simp: extends_def)

lemma extends_subset: "extends i a b \<Longrightarrow> set a \<subseteq> set b"
  by (auto simp: extends_def)

lemma extends_called: "extends i a b \<Longrightarrow> called i b = called i a"
  by (auto simp: extends_def intro!: called_others)

lemma audit_rely_trans:
  "audit_rely i w w' \<Longrightarrow> audit_rely i w' w'' \<Longrightarrow> set (history w') \<subseteq> set (history w'')
     \<Longrightarrow> audit_rely i w w''"
  unfolding audit_rely_def by (elim disjE exE conjE) auto

lemma rely_refl: "rely i w w"
  by (simp add: rely_def audit_rely_def guards_rely_def grows_def)

lemma guards_rely_trans: "guards_rely i w w' \<Longrightarrow> guards_rely i w' w'' \<Longrightarrow> guards_rely i w w''"
  by (simp add: guards_rely_def)

lemma grows_trans: "grows w w' \<Longrightarrow> grows w' w'' \<Longrightarrow> grows w w''"
  by (auto simp: grows_def)

lemma rely_trans: "rely i w w' \<Longrightarrow> rely i w' w'' \<Longrightarrow> rely i w w''"
  unfolding rely_def using extends_trans guards_rely_trans grows_trans audit_rely_trans extends_subset
  by blast

section \<open>The view of one request\<close>

definition audit_idle :: "tid \<Rightarrow> world \<Rightarrow> bool" where
  "audit_idle i w \<longleftrightarrow> written i w = None \<and> joined w i = None \<and> audit_gate w \<noteq> Some i"

text \<open>
  The guards a request holds (its permit, the lock of the cache, the lease) and the calls it
  has made; between audit events it waits for nothing, or the audit has failed for good.
\<close>

definition view :: "tid \<Rightarrow> bool \<Rightarrow> bool \<Rightarrow> bool \<Rightarrow> call list \<Rightarrow> world \<Rightarrow> bool" where
  "view i permit elock slock cs w \<longleftrightarrow>
     count_list (permit_holders w) i = (if permit then 1 else 0) \<and> count_list (audit_waiters w) i = 0
     \<and> (entries_lock w = Some i \<longleftrightarrow> elock) \<and> (slot_lock w = Some i \<longleftrightarrow> slock)
     \<and> (audit_failed w \<or> audit_idle i w) \<and> called i (history w) = cs"

lemma idle_rely: "audit_idle i w \<Longrightarrow> audit_rely i w w' \<Longrightarrow> audit_idle i w'"
  by (auto simp: audit_idle_def audit_rely_def)

lemma view_rely:
  assumes "view i permit elock slock cs w" and "rely i w w'"
  shows "view i permit elock slock cs w'"
proof -
  have "called i (history w') = called i (history w)" using assms(2) extends_called by (auto simp: rely_def)
  moreover have "audit_failed w' \<or> audit_idle i w'"
    using assms idle_rely by (auto simp: view_def rely_def grows_def)
  ultimately show ?thesis using assms by (simp add: view_def rely_def guards_rely_def)
qed

lemma history_rely: "rely i w w' \<Longrightarrow> set (history w) \<subseteq> set (history w')"
  unfolding rely_def using extends_subset by blast

lemma recorded_mono: "recorded pre i k ph n out \<Longrightarrow> set pre \<subseteq> set pre' \<Longrightarrow> recorded pre' i k ph n out"
  by (auto simp: recorded_def)

lemma observed_mono: "observed pre object ob \<Longrightarrow> set pre \<subseteq> set pre' \<Longrightarrow> observed pre' object ob"
  by (auto simp: observed_def)

lemma captured_mono: "captured pre sn \<Longrightarrow> set pre \<subseteq> set pre' \<Longrightarrow> captured pre' sn"
  by (auto simp: captured_def)

lemma admitted_mono: "admitted d pre i q op \<Longrightarrow> set pre \<subseteq> set pre' \<Longrightarrow> admitted d pre' i q op"
  by (auto simp: admitted_def intro: recorded_mono)

lemma entry_ok_mono:
  "entry_ok w e \<Longrightarrow> set (history w) \<subseteq> set (history w') \<Longrightarrow> length (flags w) \<le> length (flags w')
     \<Longrightarrow> entry_ok w' e"
  by (auto simp: entry_ok_def intro: observed_mono)

lemmas rely_unfold = rely_def guards_rely_def grows_def audit_rely_def written_def

lemma count_list_remove1 [simp]:
  "count_list (remove1 x xs) y = (if x = y then count_list xs y - 1 else count_list xs y)"
  by (induction xs) auto

lemma count_list_length: "count_list xs x \<le> length xs"
  by (induction xs) auto

abbreviation safe ::
    "(operation \<Rightarrow> nat option) \<Rightarrow> dispatcher \<Rightarrow> tid \<Rightarrow> 'a prog \<Rightarrow> ('a \<Rightarrow> world \<Rightarrow> bool) \<Rightarrow> world \<Rightarrow> bool" where
  "safe encoded d i p Q w \<equiv> sat (sound encoded d) rely i p Q w"

abbreviation keeps :: "(operation \<Rightarrow> nat option) \<Rightarrow> dispatcher \<Rightarrow> tid \<Rightarrow> world \<Rightarrow> world \<Rightarrow> bool" where
  "keeps encoded d i w w' \<equiv> kept_by (sound encoded d) rely i w w'"

text \<open>Adding a justified happening to the history.\<close>

lemma sound_happens:
  assumes "sound encoded d w" and "justified encoded d (history w) h"
  shows "sound encoded d (happens h w)"
proof -
  have "entry_ok (happens h w) e" if "entry_ok w e" for e
    using that by (rule entry_ok_mono) (auto simp: happens_def)
  moreover have "captured (history (happens h w)) sn" if "captured (history w) sn" for sn
    using that by (rule captured_mono) (auto simp: happens_def)
  ultimately show ?thesis using assms by (simp add: sound_def happens_def)
qed

lemma rely_happens: "by_request h \<noteq> i \<Longrightarrow> rely i w (happens h w)"
  by (simp add: rely_unfold happens_def)

lemma keeps_happens:
  "sound encoded d w \<Longrightarrow> justified encoded d (history w) h \<Longrightarrow> by_request h = i
     \<Longrightarrow> keeps encoded d i w (happens h w)"
  by (auto simp: kept_by_def sound_happens rely_happens)

section \<open>The environment keeps the invariant\<close>

lemma sound_worker:
  assumes "sound encoded d w" and "worker w \<noteq> None"
  shows "sound encoded d (worker_ends ending w)" and "rely i w (worker_ends ending w)"
proof -
  obtain j ev where w: "worker w = Some (j, ev)" using assms(2) by auto
  let ?w = "w\<lparr>worker := None, audit_gate := None, joined := (joined w)(j := Some ending),
              audit_failed := (audit_failed w \<or> ending = W_Refused)\<rparr>"
  have "sound encoded d ?w" using assms(1) by (auto simp: sound_def entry_ok_def)
  then show "sound encoded d (worker_ends ending w)"
    by (auto simp: worker_ends_def w Let_def intro: sound_happens)
  have gate: "audit_gate w = Some j" using assms(1) w by (simp add: sound_def)
  show "rely i w (worker_ends ending w)"
    by (auto simp: worker_ends_def w gate Let_def rely_unfold happens_def)
qed

definition untouched :: "tid \<Rightarrow> world \<Rightarrow> bool" where
  "untouched i w \<longleftrightarrow> view i False False False [] w \<and> (\<forall>q. H_Arrived i q \<notin> set (history w))"

lemma untouched_rely: "untouched i w \<Longrightarrow> rely i w w' \<Longrightarrow> untouched i w'"
  using view_rely [of i False False False "[]" w w'] by (fastforce simp: untouched_def rely_def extends_def)

lemma initial_sound: "sound encoded d (initial_world t stamp e)" "untouched i (initial_world t stamp e)"
  by (simp_all add: untouched_def sound_def initial_world_def view_def audit_idle_def written_def)

lemma environment:
  assumes "sound encoded d w"
  shows "clock w \<le> t \<Longrightarrow> sound encoded d (w\<lparr>clock := t\<rparr>) \<and> rely i w (w\<lparr>clock := t\<rparr>)"
    and "sound encoded d (w\<lparr>wall := t\<rparr>) \<and> rely i w (w\<lparr>wall := t\<rparr>)"
    and "sound encoded d (w\<lparr>epoch := e\<rparr>) \<and> rely i w (w\<lparr>epoch := e\<rparr>)"
  using assms by (auto simp: sound_def entry_ok_def rely_unfold)

interpretation rg: rely_guarantee "sound encoded d" rely untouched for encoded d
proof (unfold_locales, goal_cases)
  case (1 i w) show ?case by (rule rely_refl)
next
  case (2 i w w' w'') then show ?case by (rule rely_trans)
next
  case (5 w i q j) then show ?case by (auto simp: untouched_def intro: sound_happens rely_happens)
next
  case (6 w ending i) then show ?case by (simp add: sound_worker)
next
  case (10 i w w') then show ?case by (rule untouched_rely)
qed (simp_all only: initial_sound environment)

section \<open>Rules for single steps\<close>

lemma safe_return:
  "(\<And>v. rely i w v \<Longrightarrow> sound encoded d v \<Longrightarrow> Q x v) \<Longrightarrow> safe encoded d i (Return x) Q w"
  by simp

lemma safe_step:
  "(\<And>v. rely i w v \<Longrightarrow> sound encoded d v
      \<Longrightarrow> keeps encoded d i v (fst (f v)) \<and> safe encoded d i (snd (f v)) Q (fst (f v)))
   \<Longrightarrow> safe encoded d i (Step f) Q w"
  by (simp add: sat_Step)

lemma safe_read:
  "(\<And>v. rely i w v \<Longrightarrow> sound encoded d v \<Longrightarrow> safe encoded d i (k (g v)) Q v)
   \<Longrightarrow> safe encoded d i (bind (reads g) k) Q w"
  by (simp add: reads_def sat_Step rg.kept_refl)

lemma safe_write:
  "(\<And>v. rely i w v \<Longrightarrow> sound encoded d v \<Longrightarrow> keeps encoded d i v (f v))
   \<Longrightarrow> (\<And>v. rely i w v \<Longrightarrow> sound encoded d v \<Longrightarrow> safe encoded d i (k ()) Q (f v))
   \<Longrightarrow> safe encoded d i (bind (writes f) k) Q w"
  by (simp add: writes_def sat_Step)

section \<open>Quiet programs\<close>

text \<open>What a program leaves alone that neither calls a port nor takes or drops a guard.\<close>

definition calm :: "tid \<Rightarrow> world \<Rightarrow> world \<Rightarrow> bool" where
  "calm i w w' \<longleftrightarrow>
     (\<forall>permit elock slock cs. view i permit elock slock cs w \<longrightarrow> view i permit elock slock cs w')
     \<and> set (history w) \<subseteq> set (history w') \<and> grows w w'
     \<and> (entries_lock w = Some i \<longrightarrow> entries_lock w' = Some i \<and> entries w' = entries w)
     \<and> (slot_lock w = Some i \<longrightarrow> slot_lock w' = Some i \<and> slot w' = slot w)"

lemma calm_refl [simp]: "calm i w w"
  by (simp add: calm_def grows_def)

lemma calm_rely: "rely i w w' \<Longrightarrow> calm i w w'"
  using view_rely [of i _ _ _ _ w w'] history_rely [of i w w']
  by (simp add: calm_def rely_def guards_rely_def)

lemma calm_trans: "calm i w w' \<Longrightarrow> calm i w' w'' \<Longrightarrow> calm i w w''"
  unfolding calm_def using grows_trans [of w w' w''] by auto

lemma calm_rely2: "calm i w w' \<Longrightarrow> rely i w' w'' \<Longrightarrow> calm i w w''"
  by (rule calm_trans [OF _ calm_rely])

lemma calm_then: "rely i w' w'' \<Longrightarrow> calm i w w' \<Longrightarrow> calm i w w''"
  by (rule calm_rely2)

lemma calm_between: "rely i u w'' \<Longrightarrow> rely i w w' \<Longrightarrow> calm i w' u \<Longrightarrow> calm i w w''"
  by (blast intro: calm_then calm_trans calm_rely)

lemma calm_view: "calm i w w' \<Longrightarrow> view i permit elock slock cs w \<Longrightarrow> view i permit elock slock cs w'"
  by (simp add: calm_def)

lemma calm_history: "calm i w w' \<Longrightarrow> h \<in> set (history w) \<Longrightarrow> h \<in> set (history w')"
  by (auto simp: calm_def)

lemma calm_flags: "grows w (w\<lparr>flags := fs\<rparr>) \<Longrightarrow> calm i w (w\<lparr>flags := fs\<rparr>)"
  by (simp add: calm_def view_def audit_idle_def written_def)

lemma calm_happens: "called i [h] = [] \<Longrightarrow> calm i w (happens h w)"
  by (simp add: calm_def view_def audit_idle_def written_def happens_def grows_def subset_insertI)

lemma keeps_flags:
  assumes "sound encoded d w" and "length (flags w) \<le> length fs"
  shows "keeps encoded d i w (w\<lparr>flags := fs\<rparr>)"
proof -
  have "entry_ok (w\<lparr>flags := fs\<rparr>) e" if "entry_ok w e" for e
    using that by (rule entry_ok_mono) (use assms(2) in simp_all)
  with assms show ?thesis by (simp add: kept_by_def sound_def rely_unfold)
qed

lemma safe_revoke: "safe encoded d i (revoke ob) (\<lambda>_. calm i w) w"
  unfolding revoke_def writes_def
  by (intro safe_step) (auto intro!: keeps_flags calm_flags elim!: calm_between simp: grows_def)

lemma safe_unknown:
  "safe encoded d i (observation_unknown reason) (\<lambda>ob v. calm i w v \<and> ob_epoch ob = None
     \<and> ob_value ob = CO_Unknown reason) w"
  unfolding observation_unknown_def
  by (intro safe_step) (auto intro!: keeps_flags calm_flags elim!: calm_between simp: grows_def)

lemma safe_fresh:
  "safe encoded d i (fresh i ob) (\<lambda>ok v. calm i w v \<and> (ok \<longrightarrow> (\<exists>t. H_Fresh i ob t \<in> set (history v)))) w"
proof (cases "ob_epoch ob = None")
  case False
  have last: "safe encoded d i (Step (\<lambda>w. if clock w - ob_started ob < capability_ttl
       then (happens (H_Fresh i ob (clock w)) w, Return True) else (w, Return False)))
     (\<lambda>ok v. calm i w v \<and> (ok \<longrightarrow> (\<exists>t. H_Fresh i ob t \<in> set (history v)))) u" if "calm i w u" for u
  proof (rule safe_step)
    fix v assume v: "rely i u v" "sound encoded d v"
    have calm: "calm i w v" using that v(1) by (rule calm_rely2)
    let ?v = "happens (H_Fresh i ob (clock v)) v"
    have calm': "calm i w ?v" by (rule calm_trans [OF calm calm_happens]) simp
    have "calm i w u \<and> H_Fresh i ob (clock v) \<in> set (history u)" if "rely i ?v u" for u
      using calm_rely2 [OF calm' that] calm_history [OF calm_rely [OF that], of "H_Fresh i ob (clock v)"]
      by (simp add: happens_def)
    then show "keeps encoded d i v (fst (if clock v - ob_started ob < capability_ttl
           then (happens (H_Fresh i ob (clock v)) v, Return True) else (v, Return False)))
       \<and> safe encoded d i (snd (if clock v - ob_started ob < capability_ttl
           then (happens (H_Fresh i ob (clock v)) v, Return True) else (v, Return False)))
         (\<lambda>ok v. calm i w v \<and> (ok \<longrightarrow> (\<exists>t. H_Fresh i ob t \<in> set (history v))))
         (fst (if clock v - ob_started ob < capability_ttl
           then (happens (H_Fresh i ob (clock v)) v, Return True) else (v, Return False)))"
      using calm v False by (auto intro!: keeps_happens rg.kept_refl calm_rely2 [OF calm] exI)
  qed
  show ?thesis unfolding fresh_def using False
    by (auto intro!: safe_read safe_return last) (meson calm_trans calm_rely)+
qed (auto simp: fresh_def intro: calm_rely)

lemma safe_verdict:
  "safe encoded d i (observation_verdict i ob req act) (\<lambda>r v. calm i w v \<and>
     (r = V_Unknown StaleObservation \<or> r = evaluate req (ob_value ob) act
        \<and> (ob_epoch ob \<noteq> None \<longrightarrow> (\<exists>t. H_Fresh i ob t \<in> set (history v))))) w"
proof (cases "ob_epoch ob = None")
  case False
  then show ?thesis unfolding observation_verdict_def
    by (auto intro!: rg.sat_seq [OF safe_fresh]) (meson calm_trans calm_rely calm_history)+
qed (auto simp: observation_verdict_def intro: calm_rely)

lemma safe_status: "safe encoded d i (observation_status i ob req) (\<lambda>_. calm i w) w"
  unfolding observation_status_def
  by (rule rg.sat_seq [OF safe_verdict], rule rg.sat_seq [OF safe_fresh])
    (auto intro!: safe_read simp: reads_def sat_Step rg.kept_refl; meson calm_trans calm_rely)

lemma safe_deadline:
  "safe encoded d i (enforce_deadline dl ob r) (\<lambda>r' v. calm i w v \<and> (r' = r \<or> r' = Err RE_Timeout)) w"
  unfolding enforce_deadline_def
proof (rule safe_read)
  fix v assume "rely i w v"
  then have calm: "calm i w v" by (rule calm_rely)
  have "safe encoded d i (bind (revoke ob) (\<lambda>_. Return (Err RE_Timeout)))
     (\<lambda>r' v. calm i w v \<and> (r' = r \<or> r' = Err RE_Timeout)) v" for ob
    by (rule rg.sat_seq [OF safe_revoke]) (auto elim: calm_then intro: calm_trans [OF calm])
  then show "safe encoded d i (if dl \<le> clock v
       then bind (case ob of None \<Rightarrow> Return () | Some ob \<Rightarrow> revoke ob) (\<lambda>_. Return (Err RE_Timeout))
       else Return r) (\<lambda>r' v. calm i w v \<and> (r' = r \<or> r' = Err RE_Timeout)) v"
    by (cases ob) (auto intro: calm_rely2 [OF calm])
qed

lemma safe_retain:
  "safe encoded d i (retain_fresh i es) (\<lambda>kept v. calm i w v \<and> set kept \<subseteq> set es) w"
proof (induction es arbitrary: w)
  case Nil
  then show ?case by (auto intro: calm_rely)
next
  case (Cons e es)
  have rest: "safe encoded d i (bind (retain_fresh i es) (\<lambda>kept. Return (if ok then e # kept else kept)))
     (\<lambda>kept v. calm i w v \<and> set kept \<subseteq> set (e # es)) v" if "calm i w v" for v ok
    by (rule rg.sat_seq [OF Cons.IH]) (auto elim: calm_then intro: calm_trans [OF that])
  show ?case unfolding retain_fresh.simps
  proof (rule rg.sat_seq [OF safe_fresh])
    fix ok v assume v: "calm i w v \<and> (ok \<longrightarrow> (\<exists>t. H_Fresh i (snd e) t \<in> set (history v)))"
    show "safe encoded d i (bind (if ok then Return () else revoke (snd e)) (\<lambda>_.
        bind (retain_fresh i es) (\<lambda>kept. Return (if ok then e # kept else kept))))
      (\<lambda>kept v. calm i w v \<and> set kept \<subseteq> set (e # es)) v"
    proof (cases ok)
      case True
      then show ?thesis using rest [of v True] v by simp
    next
      case False
      then show ?thesis
        by simp (rule rg.sat_seq [OF safe_revoke], use rest [of _ False] v in \<open>auto intro: calm_trans\<close>)
    qed
  qed
qed

section \<open>Recording an audit event\<close>

definition based :: "tid \<Rightarrow> world \<Rightarrow> world \<Rightarrow> bool" where
  "based i w w' \<longleftrightarrow>
     count_list (permit_holders w') i = count_list (permit_holders w) i
     \<and> (entries_lock w' = Some i \<longleftrightarrow> entries_lock w = Some i)
     \<and> (entries_lock w = Some i \<longrightarrow> entries w' = entries w)
     \<and> (slot_lock w' = Some i \<longleftrightarrow> slot_lock w = Some i)
     \<and> (slot_lock w = Some i \<longrightarrow> slot w' = slot w)
     \<and> called i (history w') = called i (history w) \<and> set (history w) \<subseteq> set (history w') \<and> grows w w'"

lemma based_refl [simp]: "based i w w"
  by (simp add: based_def grows_def)

lemma based_trans: "based i w w' \<Longrightarrow> based i w' w'' \<Longrightarrow> based i w w''"
  unfolding based_def using grows_trans [of w w' w''] by auto

lemma based_rely: "rely i w w' \<Longrightarrow> based i w w'"
  using history_rely [of i w w'] extends_called [of i "history w" "history w'"]
  by (simp add: based_def rely_def guards_rely_def)

lemma based_then: "based i w w' \<Longrightarrow> rely i w' w'' \<Longrightarrow> based i w w''"
  by (rule based_trans [OF _ based_rely])

lemma calm_based:
  assumes "view i permit elock slock cs w" and "based i w w'" and "count_list (audit_waiters w') i = 0"
    and "audit_failed w' \<or> audit_idle i w'"
  shows "calm i w w'"
  using assms by (auto simp: calm_def view_def based_def)

lemma waiters_rely: "rely i w w' \<Longrightarrow> count_list (audit_waiters w') i = count_list (audit_waiters w) i"
  by (simp add: rely_def guards_rely_def)

text \<open>The steps of the protocol keep the invariant and what the other requests rely on.\<close>

lemma keeps_waiter:
  assumes "sound encoded d w"
  shows "length (audit_waiters w) < max_concurrent (d_limits d) + 1
      \<Longrightarrow> keeps encoded d i w (w\<lparr>audit_waiters := i # audit_waiters w\<rparr>)"
    and "keeps encoded d i w (drop_waiter i w)"
  using assms by (auto simp: kept_by_def sound_def entry_ok_def rely_unfold drop_waiter_def length_remove1)

lemma keeps_failed: "sound encoded d w \<Longrightarrow> keeps encoded d i w (w\<lparr>audit_failed := True\<rparr>)"
  by (auto simp: kept_by_def sound_def entry_ok_def rely_unfold)

lemma keeps_gate:
  assumes "sound encoded d w"
  shows "audit_gate w = None \<Longrightarrow> keeps encoded d i w (w\<lparr>audit_gate := Some i\<rparr>)"
    and "audit_gate w = Some i \<Longrightarrow> written i w = None \<Longrightarrow> keeps encoded d i w (w\<lparr>audit_gate := None\<rparr>)"
    and "audit_gate w = Some i \<Longrightarrow> written i w = None \<Longrightarrow> keeps encoded d i w (w\<lparr>worker := Some (i, ev)\<rparr>)"
  using assms by (auto simp: kept_by_def sound_def entry_ok_def rely_unfold split: option.splits if_splits)

lemma keeps_joined: "sound encoded d w \<Longrightarrow> keeps encoded d i w (w\<lparr>joined := (joined w)(i := None)\<rparr>)"
  by (auto simp: kept_by_def sound_def entry_ok_def rely_unfold)

lemma keeps_drop: "sound encoded d w \<Longrightarrow> keeps encoded d i w (drop_guards i w)"
  by (auto simp: kept_by_def sound_def entry_ok_def rely_unfold drop_guards_def drop_permit_def
      drop_waiter_def drop_lease_def unlock_entries_def length_remove1)

text \<open>The request has handed the event to the audit thread, or the thread has ended.\<close>

definition pending :: "tid \<Rightarrow> audit_event \<Rightarrow> world \<Rightarrow> bool" where
  "pending i ev w \<longleftrightarrow> written i w = Some ev \<and> joined w i = None
     \<or> written i w = None \<and> audit_gate w \<noteq> Some i
       \<and> (\<exists>r. joined w i = Some r \<and> (r = W_Recorded \<longrightarrow> H_Recorded i ev \<in> set (history w)))"

lemma pending_rely:
  assumes "pending i ev w" and "rely i w w'"
  shows "pending i ev w'"
proof -
  have "audit_rely i w w'" "set (history w) \<subseteq> set (history w')"
    using assms(2) history_rely by (auto simp: rely_def)
  with assms(1) show ?thesis unfolding pending_def audit_rely_def
    by (elim disjE exE conjE) auto
qed

definition audited :: "tid \<Rightarrow> audit_event \<Rightarrow> world \<Rightarrow> (runtime_error + unit) option \<Rightarrow> world \<Rightarrow> bool" where
  "audited i ev w r w' \<longleftrightarrow> based i w w' \<and> count_list (audit_waiters w') i = 1
     \<and> (r = Some (Ok ()) \<longrightarrow> H_Recorded i ev \<in> set (history w') \<and> audit_idle i w')"

lemma safe_worker:
  assumes "based i w0 w" and "count_list (audit_waiters w) i = 1" and "pending i ev w"
  shows "safe encoded d i (await_worker i dl) (audited i ev w0) w"
  unfolding await_worker_def sat_Await
proof (intro allI impI conjI)
  fix v assume v: "rely i w v" "sound encoded d v"
  note based = based_then [OF assms(1) v(1)]
  have waiters: "count_list (audit_waiters v) i = 1" using waiters_rely [OF v(1)] assms(2) by simp
  have pending: "pending i ev v" using assms(3) v(1) by (rule pending_rely)
  show "keeps encoded d i v (drop_guards i v)" using v(2) by (rule keeps_drop)
  { assume "dl \<le> clock v"
    show "safe encoded d i (Return None) (audited i ev w0) v"
      using based_then [OF based] waiters waiters_rely by (auto simp: audited_def) }
  fix w' p
  assume ready: "(case joined v i of None \<Rightarrow> None | Some r \<Rightarrow> Some (v\<lparr>joined := (joined v)(i := None)\<rparr>,
     Return (Some (if r = W_Recorded then Ok () else Err RE_AuditUnavailable)))) = Some (w', p)"
  then obtain r where r: "joined v i = Some r" "w' = v\<lparr>joined := (joined v)(i := None)\<rparr>"
    "p = Return (Some (if r = W_Recorded then Ok () else Err RE_AuditUnavailable))"
    by (auto split: option.splits)
  show "keeps encoded d i v w'" unfolding r(2) using v(2) by (rule keeps_joined)
  have "based i v w'" by (simp add: r(2) based_def grows_def)
  then have based': "based i w0 w'" by (rule based_trans [OF based])
  have idle: "audit_idle i w'" and hist: "r = W_Recorded \<longrightarrow> H_Recorded i ev \<in> set (history w')"
    using pending r by (auto simp: pending_def audit_idle_def written_def split: option.splits if_splits)
  show "safe encoded d i p (audited i ev w0) w'" unfolding r(3)
  proof (rule safe_return)
    fix u assume u: "rely i w' u"
    have "audit_idle i u" using idle u by (auto simp: rely_def intro: idle_rely)
    then show "audited i ev w0 (Some (if r = W_Recorded then Ok () else Err RE_AuditUnavailable)) u"
      using based_then [OF based' u] waiters_rely [OF u] waiters hist history_rely [OF u]
      by (auto simp: audited_def r(2))
  qed
qed

lemma safe_await_record:
  assumes "based i w0 w" and "count_list (audit_waiters w) i = 1" and "audit_idle i w"
  shows "safe encoded d i (await_record i ev dl) (audited i ev w0) w"
  unfolding await_record_def sat_Await
proof (intro allI impI conjI)
  fix v assume v: "rely i w v" "sound encoded d v"
  note based = based_then [OF assms(1) v(1)]
  have waiters: "count_list (audit_waiters v) i = 1" using waiters_rely [OF v(1)] assms(2) by simp
  have idle: "audit_idle i v" using assms(3) v(1) by (auto simp: rely_def intro: idle_rely)
  show "keeps encoded d i v (drop_guards i v)" using v(2) by (rule keeps_drop)
  { assume "dl \<le> clock v"
    show "safe encoded d i (Return None) (audited i ev w0) v"
      using based_then [OF based] waiters waiters_rely by (auto simp: audited_def) }
  fix w' p
  let ?p = "bind (reads audit_failed) (\<lambda>failed. if failed
      then bind (writes (\<lambda>w. w\<lparr>audit_gate := None\<rparr>)) (\<lambda>_. Return (Some (Err RE_AuditUnavailable)))
      else bind (writes (\<lambda>w. w\<lparr>worker := Some (i, ev)\<rparr>)) (\<lambda>_. await_worker i dl))"
  assume "(if audit_gate v = None then Some (v\<lparr>audit_gate := Some i\<rparr>, ?p) else None) = Some (w', p)"
  then have r: "audit_gate v = None" "w' = v\<lparr>audit_gate := Some i\<rparr>" "p = ?p"
    by (auto split: if_splits)
  show "keeps encoded d i v w'" unfolding r(2) using v(2) r(1) by (rule keeps_gate)
  have "based i v w'" by (simp add: r(2) based_def grows_def)
  then have based': "based i w0 w'" by (rule based_trans [OF based])
  have gate: "audit_gate w' = Some i" "written i w' = None" "joined w' i = None"
    using idle by (simp_all add: r(2) audit_idle_def written_def)
  define held where "held u \<longleftrightarrow> audit_gate u = Some i \<and> written i u = None \<and> joined u i = None
     \<and> count_list (audit_waiters u) i = 1 \<and> based i w0 u" for u
  have held: "held u'" if "held u" "rely i u u'" for u u'
    using that based_then [OF _ that(2)] waiters_rely [OF that(2)] by (auto simp: held_def rely_def audit_rely_def)
  have "held w'" using gate waiters based' by (simp add: held_def r(2))
  then show "safe encoded d i p (audited i ev w0) w'" unfolding r(3)
  proof (intro safe_read)
    fix u assume u: "rely i w' u" "sound encoded d u" and "held w'"
    then have hu: "held u" by (blast intro: held)
    show "safe encoded d i (if audit_failed u
        then bind (writes (\<lambda>w. w\<lparr>audit_gate := None\<rparr>)) (\<lambda>_. Return (Some (Err RE_AuditUnavailable)))
        else bind (writes (\<lambda>w. w\<lparr>worker := Some (i, ev)\<rparr>)) (\<lambda>_. await_worker i dl)) (audited i ev w0) u"
    proof (cases "audit_failed u")
      case True
      have "safe encoded d i (Return (Some (Err RE_AuditUnavailable))) (audited i ev w0) (x\<lparr>audit_gate := None\<rparr>)"
        if "held x" for x
      proof (rule safe_return)
        fix y assume y: "rely i (x\<lparr>audit_gate := None\<rparr>) y"
        have "based i w0 (x\<lparr>audit_gate := None\<rparr>)"
          by (rule based_trans [of _ _ x]) (use that in \<open>simp_all add: held_def based_def grows_def\<close>)
        then show "audited i ev w0 (Some (Err RE_AuditUnavailable)) y"
          using based_then [OF _ y] waiters_rely [OF y] that by (simp add: audited_def held_def)
      qed
      moreover have "held x" if "rely i u x" for x using hu that by (rule held)
      ultimately show ?thesis unfolding if_P [OF True]
        by (intro safe_write keeps_gate) (auto simp: held_def)
    next
      case False
      have "safe encoded d i (await_worker i dl) (audited i ev w0) (x\<lparr>worker := Some (i, ev)\<rparr>)" if "held x" for x
      proof (rule safe_worker)
        show "based i w0 (x\<lparr>worker := Some (i, ev)\<rparr>)"
          by (rule based_trans [of _ _ x]) (use that in \<open>simp_all add: held_def based_def grows_def\<close>)
      qed (use that in \<open>simp_all add: held_def pending_def written_def\<close>)
      moreover have "held x" if "rely i u x" for x using hu that by (rule held)
      ultimately show ?thesis unfolding if_not_P [OF False]
        by (intro safe_write keeps_gate) (auto simp: held_def)
    qed
  qed
qed

lemma safe_drop_waiter:
  assumes "view i permit elock slock cs w0" and "based i w0 w" and "count_list (audit_waiters w) i = 1"
    and "audit_failed w \<or> audit_idle i w" and "r = Ok () \<Longrightarrow> H_Recorded i ev \<in> set (history w)"
  shows "safe encoded d i (bind (writes (drop_waiter i)) (\<lambda>_. Return r))
     (\<lambda>r v. calm i w0 v \<and> (r = Ok () \<longrightarrow> H_Recorded i ev \<in> set (history v))) w"
proof (rule safe_write)
  fix x assume x: "rely i w x" "sound encoded d x"
  show "keeps encoded d i x (drop_waiter i x)" using x(2) by (rule keeps_waiter)
  have ready: "audit_failed x \<or> audit_idle i x"
    using assms(4) x(1) idle_rely by (auto simp: rely_def grows_def)
  have "based i w0 (drop_waiter i x)"
    by (rule based_trans [OF based_then [OF assms(2) x(1)]]) (simp add: drop_waiter_def based_def grows_def)
  then have "calm i w0 (drop_waiter i x)"
    by (rule calm_based [OF assms(1)])
      (use waiters_rely [OF x(1)] assms(3) ready in \<open>simp_all add: drop_waiter_def audit_idle_def written_def\<close>)
  moreover have "r = Ok () \<Longrightarrow> H_Recorded i ev \<in> set (history (drop_waiter i x))"
    using assms(5) history_rely [OF x(1)] by (auto simp: drop_waiter_def)
  ultimately show "safe encoded d i (Return r) (\<lambda>r v. calm i w0 v \<and> (r = Ok () \<longrightarrow> H_Recorded i ev \<in> set (history v)))
      (drop_waiter i x)"
    by (auto intro: calm_rely2 calm_history [OF calm_rely])
qed

lemma safe_settle_audit:
  assumes view: "view i permit elock slock cs w" and y: "audited i ev w r y"
  shows "safe encoded d i (settle_audit i r)
     (\<lambda>r v. calm i w v \<and> (r = Ok () \<longrightarrow> H_Recorded i ev \<in> set (history v))) y"
proof (cases "r = Some (Ok ())")
  case True
  have "safe encoded d i (bind (writes (drop_waiter i)) (\<lambda>_. Return (Ok ())))
     (\<lambda>r v. calm i w v \<and> (r = Ok () \<longrightarrow> H_Recorded i ev \<in> set (history v))) y"
    by (rule safe_drop_waiter [OF view]) (use y True in \<open>simp_all add: audited_def\<close>)
  then show ?thesis using True by (simp add: settle_audit_def)
next
  case False
  have "safe encoded d i (bind (writes (drop_waiter i)) (\<lambda>_. Return (Err RE_AuditUnavailable)))
     (\<lambda>r v. calm i w v \<and> (r = Ok () \<longrightarrow> H_Recorded i ev \<in> set (history v))) (z\<lparr>audit_failed := True\<rparr>)"
    if "rely i y z" for z
  proof (rule safe_drop_waiter [OF view])
    show "based i w (z\<lparr>audit_failed := True\<rparr>)"
      by (rule based_trans [OF based_then [OF _ that]])
        (use y in \<open>simp_all add: audited_def based_def grows_def\<close>)
  qed (use waiters_rely [OF that] y in \<open>simp_all add: audited_def\<close>)
  then show ?thesis using False by (simp add: settle_audit_def writes_def sat_Step keeps_failed)
qed

lemma safe_record_audit:
  assumes "view i permit elock slock cs w"
  shows "safe encoded d i (record_audit (d_limits d) i ev)
     (\<lambda>r v. calm i w v \<and> (r = Ok () \<longrightarrow> H_Recorded i ev \<in> set (history v))) w"
    (is "safe encoded d i _ ?Q w")
proof -
  let ?M = "\<lambda>r u. (r = Ok () \<longrightarrow> based i w u \<and> count_list (audit_waiters u) i = 1 \<and> audit_idle i u)
     \<and> (\<forall>e. r = Err e \<longrightarrow> calm i w u)"
  let ?enter = "\<lambda>w. if length (audit_waiters w) < max_concurrent (d_limits d) + 1
     then (w\<lparr>audit_waiters := i # audit_waiters w\<rparr>, Return (Ok ())) else (w, Return (Err RE_AuditUnavailable))"
  have enter: "safe encoded d i (Step ?enter) ?M v" if v: "rely i w v" "\<not> audit_failed v" for v
  proof (rule safe_step)
    fix x assume x: "rely i v x" "sound encoded d x"
    let ?x = "x\<lparr>audit_waiters := i # audit_waiters x\<rparr>"
    have view: "view i permit elock slock cs v" using assms v(1) by (rule view_rely)
    have wx: "rely i w x" using v(1) x(1) by (rule rely_trans)
    have "based i w ?x" by (rule based_trans [OF based_rely [OF wx]]) (simp add: based_def grows_def)
    moreover have "count_list (audit_waiters x) i = 0" using view_rely [OF assms wx] by (simp add: view_def)
    moreover have "audit_idle i ?x" using view v(2) idle_rely [of i v x] x(1)
      by (simp add: view_def rely_def audit_idle_def written_def)
    ultimately have "?M (Ok ()) y" if y: "rely i ?x y" for y
      using based_then [OF _ y] waiters_rely [OF y] idle_rely [of i ?x y] y by (simp add: rely_def)
    then show "keeps encoded d i x (fst (?enter x)) \<and> safe encoded d i (snd (?enter x)) ?M (fst (?enter x))"
      using x(2) keeps_waiter(1) [OF x(2)] rg.kept_refl [OF x(2)] calm_rely2 [OF calm_rely [OF wx]] by simp
  qed
  have wait: "safe encoded d i (bind (reads (\<lambda>w. clock w + millis (min (timeout_ms (d_limits d)) 1000)))
     (\<lambda>deadline. bind (await_record i ev deadline) (settle_audit i))) ?Q u" if u: "?M (Ok ()) u" for u
  proof (rule safe_read, rule rg.sat_seq [OF safe_await_record safe_settle_audit [OF assms]])
    fix x assume x: "rely i u x"
    show "based i w x" using u based_then [OF _ x] by simp
    show "count_list (audit_waiters x) i = 1" using waiters_rely [OF x] u by simp
    show "audit_idle i x" using u x by (auto simp: rely_def intro: idle_rely)
  qed
  have failing: "safe encoded d i (Return (Err e)) ?Q u" if "calm i w u" for e u
    using that by (auto intro: calm_rely2)
  show ?thesis unfolding record_audit_def
  proof (rule safe_read)
    fix v assume v: "rely i w v"
    show "safe encoded d i (if audit_failed v then Return (Err RE_AuditUnavailable)
       else attempt (Step ?enter) (\<lambda>_. bind (reads (\<lambda>w. clock w + millis (min (timeout_ms (d_limits d)) 1000)))
         (\<lambda>deadline. bind (await_record i ev deadline) (settle_audit i)))) ?Q v"
      using failing [OF calm_rely [OF v]] rg.sat_attempt [OF enter [OF v] failing wait] by simp
  qed
qed

end
