(* ===== verification/Actions.thy ===== *)
theory Actions
  imports Safety
begin

text \<open>
  The programs of the dispatcher are safe among the others, one lemma per function of
  \<open>Dispatcher\<close>: rejection, admission, the calls to the ports, the capability cache and the
  execution of an action. \<open>onward\<close> is what survives when a request takes guards or makes calls.
\<close>

section \<open>Requests between guards\<close>

lemma safe_reject:
  assumes "view i permit elock slock cs w"
  shows "safe encoded d i (reject (d_limits d) i seq name outcome kind) (\<lambda>_. calm i w) w"
  unfolding reject_def
proof (rule safe_read)
  fix v assume v: "rely i w v"
  show "safe encoded d i (record_audit (d_limits d) i
      (with_kind (audit_event_new (wall v) seq AP_Rejection name outcome None) kind)) (\<lambda>_. calm i w) v"
    by (rule rg.sat_mono [OF safe_record_audit [OF view_rely [OF assms v]]])
      (use calm_rely [OF v] in \<open>blast intro: calm_trans\<close>)
qed

lemma safe_rejected:
  assumes "view i permit elock slock cs w"
  shows "safe encoded d i (attempt (reject (d_limits d) i seq name outcome kind) (\<lambda>_. Return (Err e)))
     (\<lambda>r v. calm i w v \<and> (\<exists>e. r = Err e)) w"
  by (rule rg.sat_attempt [OF safe_reject [OF assms]]) (auto intro: calm_rely2)

lemma recorded_new:
  "H_Recorded i (with_kind (audit_event_new t seq phase name outcome dur) kind) \<in> set pre
     \<Longrightarrow> recorded pre i kind phase name outcome"
  by (force simp: recorded_def with_kind_def audit_event_new_def)

lemma safe_finish:
  assumes "view i permit elock slock cs w"
  shows "safe encoded d i (finish (d_limits d) i seq op kind started result) (\<lambda>r v. calm i w v \<and>
     (r = Err RE_CompletionAuditFailed \<or> r = result \<and> recorded (history v) i kind AP_Finish (op_name op)
        (if is_ok result then AO_Success else AO_Failed))) w"
    (is "safe encoded d i _ ?Q w")
  unfolding finish_def
proof (intro safe_read)
  fix v u assume "rely i w v" "rely i v u"
  then have view: "view i permit elock slock cs u" and calm: "calm i w u"
    using view_rely [OF assms] by (blast intro: rely_trans view_rely calm_rely)+
  let ?ev = "with_kind (audit_event_new (wall u) seq AP_Finish (op_name op)
      (if is_ok result then AO_Success else AO_Failed) (Some (min (as_millis (clock v - started)) u64_max))) kind"
  show "safe encoded d i (bind (record_audit (d_limits d) i ?ev) (\<lambda>r.
      case r of Inl _ \<Rightarrow> Return (Err RE_CompletionAuditFailed) | Inr _ \<Rightarrow> Return result)) ?Q u"
  proof (rule rg.sat_seq [OF safe_record_audit [OF view]])
    fix r x assume "calm i u x \<and> (r = Ok () \<longrightarrow> H_Recorded i ?ev \<in> set (history x))"
    moreover from this have "calm i w x" using calm by (blast intro: calm_trans)
    ultimately show "safe encoded d i (case r of Inl _ \<Rightarrow> Return (Err RE_CompletionAuditFailed)
        | Inr _ \<Rightarrow> Return result) ?Q x"
      by (cases r) (auto intro: calm_rely2 intro!: recorded_new dest: calm_history [OF calm_rely])
  qed
qed

lemma catalog_total: "catalog_built cat \<Longrightarrow> catalog_get cat name \<noteq> Inl e"
  by (cases "name \<in> op_name ` set (operations cat)") (auto simp: cat.look_absent cat.look_entry)

lemma safe_authorize:
  assumes "view i permit elock slock cs w" and "catalog_built (d_catalog d)" and "request_name q = Some name"
  shows "safe encoded d i (authorize_request d i name seq kind)
     (\<lambda>r v. calm i w v \<and> (\<forall>op. r = Ok op \<longrightarrow> permitted d q op)) w"
proof (cases "catalog_get (d_catalog d) name")
  case (Inr found)
  show ?thesis
  proof (cases found)
    case None
    then show ?thesis using Inr unfolding authorize_request_def
      by (simp, intro rg.sat_mono [OF safe_rejected [OF assms(1)]]) auto
  next
    case (Some op)
    show ?thesis
    proof (cases "authorize (d_policy d) op")
      case (Inl e)
      then show ?thesis using Inr Some unfolding authorize_request_def
        by (simp, intro rg.sat_mono [OF safe_rejected [OF assms(1)]]) auto
    next
      case (Inr u)
      then show ?thesis using \<open>catalog_get _ _ = _\<close> Some assms(3) unfolding authorize_request_def
        by (auto simp: permitted_def intro: calm_rely)
    qed
  qed
qed (use assms(2) catalog_total in auto)

text \<open>What survives when guards are taken or calls are made.\<close>

definition onward :: "tid \<Rightarrow> world \<Rightarrow> world \<Rightarrow> bool" where
  "onward i w w' \<longleftrightarrow> set (history w) \<subseteq> set (history w') \<and> grows w w'"

lemma onward_trans: "onward i w w' \<Longrightarrow> onward i w' w'' \<Longrightarrow> onward i w w''"
  unfolding onward_def using grows_trans by blast

lemma calm_onward: "calm i w w' \<Longrightarrow> onward i w w'"
  by (simp add: calm_def onward_def)

lemma rely_onward: "rely i w w' \<Longrightarrow> onward i w w'"
  by (rule calm_onward [OF calm_rely])

lemma keeps_permit:
  assumes "sound encoded d w"
  shows "length (permit_holders w) < max_concurrent (d_limits d)
      \<Longrightarrow> keeps encoded d i w (w\<lparr>permit_holders := i # permit_holders w\<rparr>)"
    and "keeps encoded d i w (drop_permit i w)"
  using assms by (auto simp: kept_by_def sound_def entry_ok_def rely_unfold drop_permit_def length_remove1)

lemma view_permit:
  "view i False elock slock cs w \<Longrightarrow> view i True elock slock cs (w\<lparr>permit_holders := i # permit_holders w\<rparr>)"
  "view i permit elock slock cs w \<Longrightarrow> view i False elock slock cs (drop_permit i w)"
  by (auto simp: view_def drop_permit_def audit_idle_def written_def)

lemma safe_admit:
  assumes "view i False False False cs w"
  shows "safe encoded d i (admit d i op seq kind) (\<lambda>r v. set (history w) \<subseteq> set (history v)
     \<and> (\<forall>e. r = Err e \<longrightarrow> view i False False False cs v)
     \<and> (r = Ok () \<longrightarrow> view i True False False cs v \<and> recorded (history v) i kind AP_Start (op_name op) AO_Attempt)) w"
    (is "safe encoded d i _ ?Q w")
  unfolding admit_def
proof (rule rg.sat_seq [where M = "\<lambda>ok v. view i ok False False cs v \<and> onward i w v"])
  show "safe encoded d i (Step (\<lambda>w. if length (permit_holders w) < max_concurrent (d_limits d)
      then (w\<lparr>permit_holders := i # permit_holders w\<rparr>, Return True) else (w, Return False)))
      (\<lambda>ok v. view i ok False False cs v \<and> onward i w v) w"
  proof (rule safe_step)
    fix v assume v: "rely i w v" "sound encoded d v"
    let ?v = "v\<lparr>permit_holders := i # permit_holders v\<rparr>"
    have view: "view i False False False cs v" using assms v(1) by (rule view_rely)
    have "onward i v ?v" by (simp add: onward_def grows_def)
    then have "onward i w u" if "rely i ?v u" for u
      using v(1) that by (blast intro: onward_trans rely_onward)
    then show "keeps encoded d i v (fst (if length (permit_holders v) < max_concurrent (d_limits d)
          then (?v, Return True) else (v, Return False))) \<and>
       safe encoded d i (snd (if length (permit_holders v) < max_concurrent (d_limits d)
          then (?v, Return True) else (v, Return False))) (\<lambda>ok v. view i ok False False cs v \<and> onward i w v)
         (fst (if length (permit_holders v) < max_concurrent (d_limits d)
          then (?v, Return True) else (v, Return False)))"
      using v view view_permit(1) [OF view] keeps_permit(1) [OF v(2)]
      by (auto intro: rg.kept_refl view_rely rely_onward rely_trans)
  qed
next
  fix ok v assume ok: "view i ok False False cs v \<and> onward i w v"
  show "safe encoded d i (if \<not> ok
       then attempt (reject (d_limits d) i seq (op_name op) AO_Busy kind) (\<lambda>_. Return (Err RE_Busy))
       else bind (reads wall) (\<lambda>stamp. bind (record_audit (d_limits d) i
         (with_kind (audit_event_new stamp seq AP_Start (op_name op) AO_Attempt None) kind)) (\<lambda>r.
         case r of Inl e \<Rightarrow> bind (writes (drop_permit i)) (\<lambda>_. Return (Err e)) | Inr _ \<Rightarrow> Return (Ok ())))) ?Q v"
  proof (cases ok)
    case False
    then have view: "view i False False False cs v" using ok by simp
    have "?Q r u" if "calm i v u \<and> (\<exists>e. r = Err e)" for r u
      using that ok view calm_view [of i v u] calm_onward [of i v u] by (auto simp: onward_def)
    then show ?thesis using False by (simp, intro rg.sat_mono [OF safe_rejected [OF view]]) blast
  next
    case True
    then have view: "view i True False False cs v" using ok by simp
    have "safe encoded d i (bind (record_audit (d_limits d) i
         (with_kind (audit_event_new stamp seq AP_Start (op_name op) AO_Attempt None) kind)) (\<lambda>r.
         case r of Inl e \<Rightarrow> bind (writes (drop_permit i)) (\<lambda>_. Return (Err e)) | Inr _ \<Rightarrow> Return (Ok ()))) ?Q u"
      if u: "rely i v u" for stamp u
    proof (rule rg.sat_seq [OF safe_record_audit [OF view_rely [OF view u]]])
      fix r :: "runtime_error + unit" and x
      let ?ev = "with_kind (audit_event_new stamp seq AP_Start (op_name op) AO_Attempt None) kind"
      assume x: "calm i u x \<and> (r = Ok () \<longrightarrow> H_Recorded i ?ev \<in> set (history x))"
      have viewx: "view i True False False cs x" using x view_rely [OF view u] by (blast intro: calm_view)
      have keptx: "onward i w x" using ok u x by (blast intro: onward_trans rely_onward calm_onward)
      show "safe encoded d i (case r of Inl e \<Rightarrow> bind (writes (drop_permit i)) (\<lambda>_. Return (Err e))
          | Inr _ \<Rightarrow> Return (Ok ())) ?Q x"
      proof (cases r)
        case (Inl e)
        have "?Q (Err e) z" if y: "rely i x y" and z: "rely i (drop_permit i y) z" for y z
        proof -
          have "onward i w y" using keptx y by (blast intro: onward_trans rely_onward)
          then have "set (history w) \<subseteq> set (history z)"
            using history_rely [OF z] by (auto simp: onward_def drop_permit_def)
          then show ?thesis using view_rely [OF view_permit(2) [OF view_rely [OF viewx y]] z] by simp
        qed
        then show ?thesis using Inl keeps_permit(2) by (auto intro!: safe_write safe_return)
      next
        case (Inr a)
        have "?Q (Ok ()) y" if "rely i x y" for y
          using x Inr view_rely [OF viewx that] onward_trans [OF keptx rely_onward [OF that]]
            recorded_new [of i stamp seq AP_Start "op_name op" AO_Attempt None kind "history y"]
            calm_history [OF calm_rely [OF that]]
          by (auto simp: onward_def)
        then show ?thesis using Inr by simp
      qed
    qed
    then show ?thesis using True by (auto intro!: safe_read)
  qed
qed

section \<open>Calls\<close>

lemma view_called:
  "view i permit elock slock cs w \<Longrightarrow> view i permit elock slock (cs @ [c]) (happens (H_Called i c) w)"
  by (simp add: view_def happens_def audit_idle_def written_def)

lemma view_happens:
  "called i [h] = [] \<Longrightarrow> view i permit elock slock cs w \<Longrightarrow> view i permit elock slock cs (happens h w)"
  by (blast intro: calm_view calm_happens)

text \<open>After a call the locked data is as before.\<close>

definition same_data :: "tid \<Rightarrow> world \<Rightarrow> world \<Rightarrow> bool" where
  "same_data i w w' \<longleftrightarrow> (entries_lock w = Some i \<longrightarrow> entries w' = entries w)
     \<and> (slot_lock w = Some i \<longrightarrow> slot w' = slot w)"

lemma safe_calls:
  assumes view: "view i True elock slock cs w"
    and just: "\<And>v. onward i w v \<Longrightarrow> view i True elock slock cs v \<Longrightarrow> justified encoded d (history v) (H_Called i c)"
    and reply: "\<And>r v. fits c r \<Longrightarrow> sound encoded d v \<Longrightarrow> view i True elock slock (cs @ [c]) v \<Longrightarrow> onward i w v
      \<Longrightarrow> same_data i w v \<Longrightarrow> H_Replied i c r \<in> set (history v) \<Longrightarrow> safe encoded d i (k (Some r)) Q v"
    and late: "\<And>v. sound encoded d v \<Longrightarrow> view i True elock slock (cs @ [c]) v \<Longrightarrow> onward i w v
      \<Longrightarrow> same_data i w v \<Longrightarrow> safe encoded d i (k None) Q v"
  shows "safe encoded d i (calls i c dl k) Q w"
  unfolding calls_def
proof (rule safe_step)
  fix v assume v: "rely i w v" "sound encoded d v"
  let ?v = "happens (H_Called i c) v"
  have viewv: "view i True elock slock cs v" using view v(1) by (rule view_rely)
  have viewv': "view i True elock slock (cs @ [c]) ?v" using viewv by (rule view_called)
  have keptv: "onward i w ?v" using rely_onward [OF v(1)] by (auto simp: onward_def happens_def grows_def)
  have datav: "same_data i w ?v" and locksv: "entries_lock w = Some i \<Longrightarrow> entries_lock ?v = Some i"
      "slot_lock w = Some i \<Longrightarrow> slot_lock ?v = Some i"
    using calm_rely [OF v(1)] by (auto simp: calm_def happens_def same_data_def)
  have keeps: "keeps encoded d i v ?v"
    using v(2) just [OF rely_onward [OF v(1)] viewv] by (rule keeps_happens) simp
  have data: "same_data i w u" if "rely i ?v u" for u
    using calm_rely [OF that] datav locksv by (auto simp: calm_def same_data_def)
  have "safe encoded d i (Call c dl k) Q ?v"
    unfolding sat.simps
  proof (intro allI impI conjI)
    fix u assume u: "rely i ?v u" "sound encoded d u"
    have viewu: "view i True elock slock (cs @ [c]) u" using viewv' u(1) by (rule view_rely)
    have keptu: "onward i w u" using keptv rely_onward [OF u(1)] by (rule onward_trans)
    have "count_list (permit_holders u) i \<noteq> 0" using viewu by (simp add: view_def)
    then show "i \<in> set (permit_holders u)" by (simp add: count_list_0_iff)
    show "keeps encoded d i u (drop_guards i u)" using u(2) by (rule keeps_drop)
    show "safe encoded d i (k None) Q u" using late [OF u(2) viewu keptu data [OF u(1)]] .
    fix r assume r: "fits c r"
    let ?u = "happens (H_Replied i c r) u"
    show kept: "keeps encoded d i u ?u" using u(2) by (rule keeps_happens) simp_all
    show "safe encoded d i (k (Some r)) Q ?u"
    proof (rule reply [OF r])
      show "sound encoded d ?u" using kept by (simp add: kept_by_def)
      show "view i True elock slock (cs @ [c]) ?u" using viewu by (simp add: view_happens)
      show "onward i w ?u" using keptu by (auto simp: onward_def happens_def grows_def)
      show "same_data i w ?u" using data [OF u(1)] by (simp add: same_data_def happens_def)
    qed (simp add: happens_def)
  qed
  with keeps show "keeps encoded d i v (fst (?v, Call c dl k)) \<and> safe encoded d i (snd (?v, Call c dl k)) Q (fst (?v, Call c dl k))"
    by simp
qed

section \<open>Observations\<close>

definition obs_ok :: "happening list \<Rightarrow> capability_requirement \<Rightarrow> observation \<Rightarrow> bool" where
  "obs_ok pre req ob \<longleftrightarrow> (ob_epoch ob = None \<and> (\<exists>r. ob_value ob = CO_Unknown r))
     \<or> (ob_epoch ob \<noteq> None \<and> (\<exists>object. probe_object req = Some object \<and> observed pre object ob))"

lemma obs_ok_mono: "obs_ok pre req ob \<Longrightarrow> set pre \<subseteq> set pre' \<Longrightarrow> obs_ok pre' req ob"
  unfolding obs_ok_def using observed_mono by blast

fun is_probe :: "call \<Rightarrow> bool" where
  "is_probe (C_Probe _) = True"
| "is_probe _ = False"

lemma set_update: "set (AList.update k v xs) \<subseteq> insert (k, v) (set xs)"
  by (induction xs) auto

lemma set_delete: "set (AList.delete k xs) \<subseteq> set xs"
  by (induction xs) auto

lemma keeps_entries:
  assumes "sound encoded d w" and "entries_lock w = Some i" and "\<forall>e \<in> set es. entry_ok w e"
  shows "keeps encoded d i w (w\<lparr>entries := es\<rparr>)"
  using assms by (auto simp: kept_by_def sound_def entry_ok_def rely_unfold)

lemma keeps_lock:
  assumes "sound encoded d w"
  shows "entries_lock w = None \<Longrightarrow> keeps encoded d i w (w\<lparr>entries_lock := Some i\<rparr>)"
    and "keeps encoded d i w (unlock_entries i w)"
  using assms by (auto simp: kept_by_def sound_def entry_ok_def rely_unfold unlock_entries_def)

lemma view_lock:
  "view i permit False slock cs w \<Longrightarrow> view i permit True slock cs (w\<lparr>entries_lock := Some i\<rparr>)"
  "view i permit True slock cs w \<Longrightarrow> view i permit False slock cs (unlock_entries i w)"
  by (auto simp: view_def unlock_entries_def audit_idle_def written_def)

lemma view_entries: "view i permit elock slock cs w \<Longrightarrow> view i permit elock slock cs (w\<lparr>entries := es\<rparr>)"
  by (auto simp: view_def audit_idle_def written_def)

text \<open>Under the lock of the cache, while a probe may be made.\<close>

abbreviation probing :: "tid \<Rightarrow> bool \<Rightarrow> world \<Rightarrow> world \<Rightarrow> bool" where
  "probing i elock w v \<equiv> (\<exists>cs. view i True elock False cs v \<and> list_all is_probe cs) \<and> onward i w v"

definition observing ::
    "tid \<Rightarrow> bool \<Rightarrow> capability_requirement \<Rightarrow> world \<Rightarrow> runtime_error + observation \<Rightarrow> world \<Rightarrow> bool" where
  "observing i elock req w r v \<longleftrightarrow> probing i elock w v \<and> (\<forall>ob. r = Ok ob \<longrightarrow> obs_ok (history v) req ob)"

lemma calm_subset: "calm i w w' \<Longrightarrow> set (history w) \<subseteq> set (history w')"
  by (simp add: calm_def)

lemma observing_rely: "observing i elock req w r v \<Longrightarrow> rely i v u \<Longrightarrow> observing i elock req w r u"
  unfolding observing_def using view_rely onward_trans [OF _ rely_onward] obs_ok_mono [OF _ history_rely] by blast

lemma observing_calm: "observing i elock req w r v \<Longrightarrow> calm i v u \<Longrightarrow> observing i elock req w r u"
  unfolding observing_def using calm_view onward_trans [OF _ calm_onward] obs_ok_mono [OF _ calm_subset] by blast

lemma safe_observed_unknown:
  assumes "probing i elock w v"
  shows "safe encoded d i (bind (observation_unknown reason) (\<lambda>ob. Return (Ok ob))) (observing i elock req w) v"
proof (rule rg.sat_seq [OF safe_unknown], rule safe_return)
  fix ob :: observation and x u
  assume x: "calm i v x \<and> ob_epoch ob = None \<and> ob_value ob = CO_Unknown reason" and u: "rely i x u"
  have "calm i v u" using x u by (blast intro: calm_rely2)
  moreover have "observing i elock req w (Err RE_Timeout) v" using assms by (simp add: observing_def)
  ultimately have "observing i elock req w (Err RE_Timeout) u" by (blast intro: observing_calm)
  then show "observing i elock req w (Ok ob) u" using x by (auto simp: observing_def obs_ok_def)
qed

text \<open>After the probe was made, with its reply on record.\<close>

definition probing_done :: "tid \<Rightarrow> reviewed_object \<Rightarrow> world \<Rightarrow> runtime_error + capability_observation \<Rightarrow> world \<Rightarrow> bool" where
  "probing_done i object w r v \<longleftrightarrow> view i True True False [C_Probe (DescribeUbusObject object)] v \<and> onward i w v
     \<and> (\<forall>val. r = Ok val \<longrightarrow>
          H_Replied i (C_Probe (DescribeUbusObject object)) (R_Probe (Ok val)) \<in> set (history v))"

lemma probing_done_rely: "probing_done i object w r v \<Longrightarrow> rely i v u \<Longrightarrow> probing_done i object w r u"
  unfolding probing_done_def using view_rely onward_trans [OF _ rely_onward] history_rely [of i v u] by blast

lemma probing_done_probing: "probing_done i object w r v \<Longrightarrow> probing i True w v"
  by (auto simp: probing_done_def intro!: exI [of _ "[C_Probe (DescribeUbusObject object)]"])

lemma safe_probe:
  assumes view: "view i True True False [] w" and adm: "admitted d (history w) i q op"
    and object: "probe_object (capability op) = Some object"
  shows "safe encoded d i (probe i object dl) (probing_done i object w) w"
  unfolding probe_def
proof (rule safe_calls [OF view])
  fix v assume "onward i w v" "view i True True False [] v"
  then show "justified encoded d (history v) (H_Called i (C_Probe (DescribeUbusObject object)))"
    using admitted_mono [OF adm, of "history v"] object by (auto simp: onward_def view_def)
next
  fix r v
  let ?c = "C_Probe (DescribeUbusObject object)"
  assume r: "fits ?c r" and v: "view i True True False ([] @ [?c]) v" "onward i w v" "H_Replied i ?c r \<in> set (history v)"
  then obtain y where y: "r = R_Probe y" by (cases r) auto
  have "probing_done i object w y v" using v y by (auto simp: probing_done_def)
  then show "safe encoded d i (case Some r of Some (R_Probe x) \<Rightarrow> Return x | _ \<Rightarrow> Return (Err RE_Timeout))
     (probing_done i object w) v"
    using y probing_done_rely by auto
next
  fix v assume "view i True True False ([] @ [C_Probe (DescribeUbusObject object)]) v" "onward i w v"
  then have "probing_done i object w (Err RE_Timeout) v" by (simp add: probing_done_def)
  then show "safe encoded d i (case None of Some (R_Probe x) \<Rightarrow> Return x | _ \<Rightarrow> Return (Err RE_Timeout))
     (probing_done i object w) v"
    using probing_done_rely by auto
qed

lemma safe_store_observation:
  assumes x: "probing_done i object w (Ok val) v" and object: "probe_object req = Some object"
  shows "safe encoded d i (store_observation object val current started) (observing i True req w) v"
  unfolding store_observation_def
proof (rule safe_step)
  fix y assume y: "rely i v y" "sound encoded d y"
  let ?ob = "\<lparr>ob_value = checked_value object val, ob_epoch = Some current,
              ob_started = started, ob_valid = length (flags y)\<rparr>"
  let ?f = "y\<lparr>flags := flags y @ [True]\<rparr>" and ?es = "AList.update object ?ob (entries y)"
  have dy: "probing_done i object w (Ok val) y" using x y(1) by (rule probing_done_rely)
  then have seen: "observed (history y) object ?ob" by (auto simp: probing_done_def observed_def)
  have flags: "keeps encoded d i y ?f" using y(2) by (rule keeps_flags) simp
  have "\<forall>e \<in> set (entries y). entry_ok ?f e" using flags by (simp add: kept_by_def sound_def)
  moreover have "entry_ok ?f (object, ?ob)" using seen by (simp add: entry_ok_def)
  ultimately have "\<forall>e \<in> set ?es. entry_ok ?f e" using set_update [of object ?ob "entries y"] by auto
  moreover have "entries_lock ?f = Some i" using dy by (simp add: probing_done_def view_def)
  ultimately have "keeps encoded d i ?f (?f\<lparr>entries := ?es\<rparr>)"
    using flags by (intro keeps_entries) (auto simp: kept_by_def)
  then have keeps: "keeps encoded d i y (?f\<lparr>entries := ?es\<rparr>)" using flags rely_trans by (auto simp: kept_by_def)
  have "calm i y ?f" by (rule calm_flags) (simp add: grows_def)
  moreover have "probing i True w y" using dy by (rule probing_done_probing)
  ultimately have "probing i True w ?f" using calm_view onward_trans [OF _ calm_onward] by blast
  then have "probing i True w (?f\<lparr>entries := ?es\<rparr>)" using view_entries [of i True True False _ ?f]
    by (auto simp: onward_def grows_def)
  then have "observing i True req w (Ok ?ob) (?f\<lparr>entries := ?es\<rparr>)"
    using seen object by (auto simp: observing_def obs_ok_def)
  with keeps show "keeps encoded d i y (fst (let ob = ?ob in (y\<lparr>flags := flags y @ [True],
        entries := AList.update object ob (entries y)\<rparr>, Return (Ok ob)))) \<and>
     safe encoded d i (snd (let ob = ?ob in (y\<lparr>flags := flags y @ [True],
        entries := AList.update object ob (entries y)\<rparr>, Return (Ok ob)))) (observing i True req w)
      (fst (let ob = ?ob in (y\<lparr>flags := flags y @ [True],
        entries := AList.update object ob (entries y)\<rparr>, Return (Ok ob))))"
    using observing_rely by (auto simp: Let_def)
qed

lemma safe_probed:
  assumes "probing_done i object w (Ok val) v" and "probe_object req = Some object"
  shows "safe encoded d i (probed object started previous val) (observing i True req w) v"
  unfolding probed_def
proof (rule safe_read)
  fix y assume "rely i v y"
  then have dy: "probing_done i object w (Ok val) y" by (rule probing_done_rely [OF assms(1)])
  note unknown = safe_observed_unknown [OF probing_done_probing [OF dy]]
  have "safe encoded d i (bind (reads clock) (\<lambda>t. if t - started \<ge> capability_ttl
      then bind (observation_unknown StaleObservation) (\<lambda>ob. Return (Ok ob))
      else store_observation object val current started)) (observing i True req w) y" for current
  proof (rule safe_read)
    fix z assume "rely i y z"
    then have dz: "probing_done i object w (Ok val) z" by (rule probing_done_rely [OF dy])
    show "safe encoded d i (if clock z - started \<ge> capability_ttl
      then bind (observation_unknown StaleObservation) (\<lambda>ob. Return (Ok ob))
      else store_observation object val current started) (observing i True req w) z"
      using safe_observed_unknown [OF probing_done_probing [OF dz]] safe_store_observation [OF dz assms(2)] by simp
  qed
  then show "safe encoded d i (case epoch y of
       None \<Rightarrow> bind (observation_unknown ProbeUnavailable) (\<lambda>ob. Return (Ok ob))
     | Some current \<Rightarrow>
         if previous \<noteq> None \<and> previous \<noteq> Some current
         then bind (observation_unknown StaleObservation) (\<lambda>ob. Return (Ok ob))
         else bind (reads clock) (\<lambda>t.
           if t - started \<ge> capability_ttl
           then bind (observation_unknown StaleObservation) (\<lambda>ob. Return (Ok ob))
           else store_observation object val current started)) (observing i True req w) y"
    using unknown by (cases "epoch y") simp_all
qed

lemma safe_observe_probe:
  assumes view: "view i True True False [] w" and adm: "admitted d (history w) i q op"
    and object: "probe_object (capability op) = Some object" and w0: "onward i w0 w"
  shows "safe encoded d i (observe_probe i object dl) (observing i True (capability op) w0) w"
  unfolding observe_probe_def
proof (intro safe_read)
  fix v u assume "rely i w v" "rely i v u"
  then have wu: "rely i w u" by (rule rely_trans)
  have to0: "probing_done i object w0 r x" if "probing_done i object u r x" for r x
    using that onward_trans [OF onward_trans [OF w0 rely_onward [OF wu]]] by (auto simp: probing_done_def)
  show "safe encoded d i (attempt (probe i object dl) (probed object (clock v) (epoch u)))
     (observing i True (capability op) w0) u"
  proof (rule rg.sat_attempt [OF safe_probe [OF view_rely [OF view wu] admitted_mono [OF adm history_rely [OF wu]] object]],
      goal_cases)
    case (1 e x)
    then have "observing i True (capability op) w0 (Err e) x"
      using probing_done_probing [OF to0] by (auto simp: observing_def)
    then show ?case using observing_rely by auto
  next
    case (2 val x)
    then show ?case using safe_probed [OF to0 object] by blast
  qed
qed

text \<open>Under the lock, before the probe.\<close>

abbreviation locked :: "tid \<Rightarrow> world \<Rightarrow> world \<Rightarrow> bool" where
  "locked i w v \<equiv> view i True True False [] v \<and> onward i w v"

lemma locked_calm: "locked i w v \<Longrightarrow> calm i v u \<Longrightarrow> locked i w u"
  using calm_view onward_trans [OF _ calm_onward] by blast

lemma locked_entries: "locked i w v \<Longrightarrow> locked i w (v\<lparr>entries := es\<rparr>)"
  using view_entries by (auto simp: onward_def grows_def)

lemma keeps_locked:
  assumes "locked i w v" and "sound encoded d v" and "set es \<subseteq> set (entries v)"
  shows "keeps encoded d i v (v\<lparr>entries := es\<rparr>)"
  using assms by (intro keeps_entries) (auto simp: view_def sound_def)

lemma safe_forget:
  assumes lv: "locked i w v" and es: "entries v = es"
  shows "safe encoded d i (forget object es) (\<lambda>_. locked i w) v"
proof (cases "map_of es object")
  case None
  then show ?thesis using locked_calm [OF lv calm_rely] by (auto simp: forget_def intro!: safe_return)
next
  case (Some previous)
  have "safe encoded d i (bind (writes (\<lambda>w. w\<lparr>entries := AList.delete object es\<rparr>)) (\<lambda>_. revoke previous))
     (\<lambda>_. locked i w) v"
  proof (rule safe_write)
    fix y assume y: "rely i v y" "sound encoded d y"
    have ly: "locked i w y" using lv calm_rely [OF y(1)] by (rule locked_calm)
    have "entries y = es" using y(1) lv es by (auto simp: view_def rely_def guards_rely_def)
    then show "keeps encoded d i y (y\<lparr>entries := AList.delete object es\<rparr>)"
      using set_delete [of object "entries y"] by (intro keeps_locked [OF ly y(2)]) simp
    show "safe encoded d i (revoke previous) (\<lambda>_. locked i w) (y\<lparr>entries := AList.delete object es\<rparr>)"
      by (rule rg.sat_mono [OF safe_revoke]) (rule locked_calm [OF locked_entries [OF ly]])
  qed
  then show ?thesis using Some by (simp add: forget_def)
qed

lemma safe_retained:
  assumes "view i True True False [] w"
  shows "safe encoded d i (bind (reads entries) (retain_fresh i))
     (\<lambda>es v. locked i w v \<and> set es \<subseteq> set (entries v)) w"
proof (rule safe_read, rule rg.sat_mono [OF safe_retain])
  fix v u es assume v: "rely i w v" and u: "calm i v u \<and> set es \<subseteq> set (entries v)"
  have "entries_lock v = Some i" using view_rely [OF assms v] by (simp add: view_def)
  then have "entries u = entries v" using u by (simp add: calm_def)
  moreover have "locked i w w" using assms by (simp add: onward_def grows_def)
  ultimately show "locked i w u \<and> set es \<subseteq> set (entries u)"
    using u locked_calm [of i w w u, OF _ calm_trans [OF calm_rely [OF v]]] by simp
qed

lemma safe_observe_locked:
  assumes view: "view i True True False [] w" and adm: "admitted d (history w) i q op"
    and object: "probe_object (capability op) = Some object"
  shows "safe encoded d i (observe_locked i object refresh dl) (observing i True (capability op) w) w"
  unfolding observe_locked_def
proof (rule rg.sat_seq [OF safe_retained [OF view]], rule safe_write)
  fix es v x assume v: "locked i w v \<and> set es \<subseteq> set (entries v)" and x: "rely i v x" "sound encoded d x"
  have lx: "locked i w x" using v locked_calm [OF _ calm_rely [OF x(1)]] by blast
  have sub: "set es \<subseteq> set (entries x)" using v x(1) by (auto simp: view_def rely_def guards_rely_def)
  show "keeps encoded d i x (x\<lparr>entries := es\<rparr>)" using lx x(2) sub by (rule keeps_locked)
  let ?x = "x\<lparr>entries := es\<rparr>"
  have lx': "locked i w ?x" using lx by (rule locked_entries)
  show "safe encoded d i (case (if refresh then None else map_of es object) of
       Some entry \<Rightarrow> Return (Ok entry)
     | None \<Rightarrow> bind (forget object es) (\<lambda>_. observe_probe i object dl)) (observing i True (capability op) w) ?x"
  proof (cases "if refresh then None else map_of es object")
    case (Some entry)
    then have "(object, entry) \<in> set (entries x)" using sub by (auto split: if_splits dest: map_of_SomeD)
    then have "entry_ok x (object, entry)" using x(2) by (auto simp: sound_def)
    then have "obs_ok (history ?x) (capability op) entry" using object by (auto simp: entry_ok_def obs_ok_def)
    then have "observing i True (capability op) w (Ok entry) ?x"
      using lx' by (auto simp: observing_def intro!: exI [of _ "[]"])
    then show ?thesis using Some observing_rely by auto
  next
    case None
    have "safe encoded d i (bind (forget object es) (\<lambda>_. observe_probe i object dl)) (observing i True (capability op) w) ?x"
    proof (rule rg.sat_seq [OF safe_forget [OF lx']])
      fix y assume y: "locked i w y"
      then have "admitted d (history y) i q op" using admitted_mono [OF adm] by (auto simp: onward_def)
      then show "safe encoded d i (observe_probe i object dl) (observing i True (capability op) w) y"
        using y object by (intro safe_observe_probe) auto
    qed simp
    then show ?thesis using None by simp
  qed
qed

lemma safe_observe:
  assumes view: "view i True False False [] w" and adm: "admitted d (history w) i q op"
  shows "safe encoded d i (observe i (capability op) refresh dl) (observing i False (capability op) w) w"
proof (cases "probe_object (capability op)")
  case None
  have "probing i False w w" using view by (auto simp: onward_def grows_def intro!: exI [of _ "[]"])
  then show ?thesis unfolding observe_def None by (simp add: safe_observed_unknown)
next
  case (Some object)
  show ?thesis unfolding observe_def Some option.case sat_Await
  proof (intro allI impI conjI)
    fix v assume v: "rely i w v" "sound encoded d v"
    have viewv: "view i True False False [] v" using view v(1) by (rule view_rely)
    show "keeps encoded d i v (drop_guards i v)" using v(2) by (rule keeps_drop)
    { show "safe encoded d i (Return (Err RE_Timeout)) (observing i False (capability op) w) v"
      proof (rule safe_return)
        fix u assume "rely i v u"
        then show "observing i False (capability op) w (Err RE_Timeout) u"
          using view_rely [OF viewv] v(1) by (auto simp: observing_def intro: rely_onward rely_trans intro!: exI [of _ "[]"])
      qed }
    fix w' p
    let ?p = "bind (observe_locked i object refresh dl) (\<lambda>r. bind (writes (unlock_entries i)) (\<lambda>_. Return r))"
    assume "(if entries_lock v = None then Some (v\<lparr>entries_lock := Some i\<rparr>, ?p) else None) = Some (w', p)"
    then have r: "entries_lock v = None" "w' = v\<lparr>entries_lock := Some i\<rparr>" "p = ?p" by (auto split: if_splits)
    show "keeps encoded d i v w'" unfolding r(2) using v(2) r(1) by (rule keeps_lock)
    have view': "view i True True False [] w'" unfolding r(2) using viewv by (rule view_lock)
    have kept': "onward i w w'" using rely_onward [OF v(1)] by (auto simp: r(2) onward_def grows_def)
    have adm': "admitted d (history w') i q op" using adm kept' by (auto simp: onward_def intro: admitted_mono)
    show "safe encoded d i p (observing i False (capability op) w) w'" unfolding r(3)
    proof (rule rg.sat_seq [OF safe_observe_locked [OF view' adm' Some]], rule safe_write)
      fix r x y assume x: "observing i True (capability op) w' r x" and y: "rely i x y" "sound encoded d y"
      show "keeps encoded d i y (unlock_entries i y)" using y(2) by (rule keeps_lock)
      have "observing i True (capability op) w' r y" using x y(1) by (rule observing_rely)
      then obtain cs where cs: "view i True True False cs y" "list_all is_probe cs" "onward i w' y"
          "\<forall>ob. r = Ok ob \<longrightarrow> obs_ok (history y) (capability op) ob"
        by (auto simp: observing_def)
      have same: "history (unlock_entries i y) = history y" "onward i y (unlock_entries i y)"
        by (simp_all add: unlock_entries_def onward_def grows_def)
      have "onward i w (unlock_entries i y)" using kept' cs(3) same(2) by (blast intro: onward_trans)
      then have "observing i False (capability op) w r (unlock_entries i y)"
        unfolding observing_def using view_lock(2) [OF cs(1)] cs(2,4) same(1) by auto
      then show "safe encoded d i (Return r) (observing i False (capability op) w) (unlock_entries i y)"
        using observing_rely by auto
    qed
  qed
qed

section \<open>The invocation of an action\<close>

lemma evaluate_unknown: "evaluate req (CO_Unknown reason) act \<noteq> Compatible"
proof -
  have "verdict_or (and_then m (\<lambda>_. Err (V_Unknown reason))) = Compatible \<Longrightarrow> m = Err Compatible"
    for m :: "verdict + 'a" by (cases m) auto
  then show ?thesis
    by (auto simp: evaluate_def split: capability_requirement.splits option.splits dest!: prepared_arguments_Err)
qed

definition projected ::
    "(json \<Rightarrow> string \<Rightarrow> json option) \<Rightarrow> prepared_invocation \<Rightarrow> tid \<Rightarrow> happening list \<Rightarrow> json \<Rightarrow> bool" where
  "projected pointer pinv i pre val \<longleftrightarrow> (\<exists>out.
     H_Replied i (C_Execute (pi_action pinv)) (R_Execute (Ok out)) \<in> set pre
     \<and> invocation_project pointer pinv out = Ok val)"

definition timed ::
    "(json \<Rightarrow> string \<Rightarrow> json option) \<Rightarrow> prepared_invocation \<Rightarrow> tid \<Rightarrow> world \<Rightarrow> runtime_error + json \<Rightarrow> world \<Rightarrow> bool" where
  "timed pointer pinv i w r v \<longleftrightarrow> (\<exists>cs. view i True False False cs v) \<and> onward i w v
     \<and> (\<forall>val. r = Ok val \<longrightarrow> projected pointer pinv i (history v) val)"

lemma projected_mono: "projected pointer pinv i pre val \<Longrightarrow> set pre \<subseteq> set pre' \<Longrightarrow> projected pointer pinv i pre' val"
  by (auto simp: projected_def)

lemma timed_calm: "timed pointer pinv i w r v \<Longrightarrow> calm i v u \<Longrightarrow> timed pointer pinv i w r u"
  unfolding timed_def using calm_view onward_trans [OF _ calm_onward] projected_mono [OF _ calm_subset] by blast

lemma timed_rely: "timed pointer pinv i w r v \<Longrightarrow> rely i v u \<Longrightarrow> timed pointer pinv i w r u"
  using timed_calm calm_rely by blast

lemma timed_Err: "timed pointer pinv i w (Err e) v \<longleftrightarrow> (\<exists>cs. view i True False False cs v) \<and> onward i w v"
  by (simp add: timed_def)

lemma safe_timed_return: "timed pointer pinv i w r v \<Longrightarrow> safe encoded d i (Return r) (timed pointer pinv i w) v"
  using timed_rely by auto

lemma safe_timed_deadline:
  assumes "timed pointer pinv i w (Err RE_Timeout) v"
    and "\<And>u. calm i v u \<Longrightarrow> sound encoded d u \<Longrightarrow> r = Ok x \<Longrightarrow> safe encoded d i (k x) (timed pointer pinv i w) u"
    and "\<And>e. r = Err e \<Longrightarrow> timed pointer pinv i w (Err e) v"
    and "\<And>y. r = Ok y \<Longrightarrow> y = x"
  shows "safe encoded d i (attempt (enforce_deadline dl ob r) k) (timed pointer pinv i w) v"
proof (rule rg.sat_attempt [OF safe_deadline], goal_cases)
  case (1 e u)
  then have "timed pointer pinv i w (Err RE_Timeout) u" using timed_calm [OF assms(1)] by blast
  then have "timed pointer pinv i w (Err e) u" by (simp add: timed_Err)
  then show ?case by (rule safe_timed_return)
next
  case (2 y u)
  then have "r = Ok y" and u: "calm i v u" by auto
  then have "r = Ok x" "y = x" using assms(4) by auto
  then show ?case using assms(2) [OF u 2(1)] by simp
qed

lemma safe_projected:
  assumes "timed pointer pinv i w (Err RE_Timeout) u"
    and "H_Replied i (C_Execute (pi_action pinv)) (R_Execute (Ok out)) \<in> set (history u)"
  shows "safe encoded d i (enforce_deadline dl ob (map_err RE_Core (invocation_project pointer pinv out)))
     (timed pointer pinv i w) u"
proof (rule rg.sat_mono [OF safe_deadline])
  fix r z
  assume z: "calm i u z \<and> (r = map_err RE_Core (invocation_project pointer pinv out) \<or> r = Err RE_Timeout)"
  have "timed pointer pinv i w (Err RE_Timeout) z" using z by (blast intro: timed_calm assms(1))
  moreover have "projected pointer pinv i (history z) val" if "r = Ok val" for val
  proof -
    have "invocation_project pointer pinv out = Ok val" using z that by (metis map_err_Ok Inl_Inr_False)
    then show ?thesis using z assms(2) calm_history [of i u z] by (auto simp: projected_def)
  qed
  ultimately show "timed pointer pinv i w r z" by (simp add: timed_def)
qed

lemma safe_execute:
  assumes view: "view i True False False cs w" and cs: "list_all is_probe cs"
    and adm: "admitted d (history w) i q op" and prep: "prepared encoded q op pinv"
    and plain: "package_page (pi_action pinv) = None"
    and obs: "obs_ok (history w) (capability op) ob"
    and fresh: "ob_epoch ob \<noteq> None \<Longrightarrow> \<exists>t. H_Fresh i ob t \<in> set (history w)"
    and fits: "evaluate (capability op) (ob_value ob) (Some (pi_action pinv)) = Compatible"
  shows "safe encoded d i (execute i (pi_action pinv) dl) (\<lambda>r v. (\<exists>cs. view i True False False cs v) \<and> onward i w v
     \<and> (\<forall>out. r = Some (Ok out) \<longrightarrow> H_Replied i (C_Execute (pi_action pinv)) (R_Execute (Ok out)) \<in> set (history v))) w"
    (is "safe encoded d i _ ?Q w")
  unfolding execute_def
proof (rule safe_calls [OF view])
  fix v assume v: "onward i w v" "view i True False False cs v"
  have "ob_epoch ob \<noteq> None" using obs fits evaluate_unknown by (auto simp: obs_ok_def)
  then obtain t object where "H_Fresh i ob t \<in> set (history v)" "probe_object (capability op) = Some object"
      "observed (history v) object ob"
    using fresh obs v(1) observed_mono by (auto simp: obs_ok_def onward_def) blast
  moreover have "admitted d (history v) i q op" using adm v(1) by (auto simp: onward_def intro: admitted_mono)
  moreover have "list_all (\<lambda>c'. \<not> same_port (C_Execute (pi_action pinv)) c') (called i (history v))"
    using cs v(2) by (auto simp: view_def list_all_iff elim!: is_probe.elims(2) dest!: bspec)
  ultimately show "justified encoded d (history v) (H_Called i (C_Execute (pi_action pinv)))"
    using prep plain fits unfolding justified.simps call_justified.simps by blast
next
  fix r v
  assume r: "fits (C_Execute (pi_action pinv)) r" and v: "view i True False False (cs @ [C_Execute (pi_action pinv)]) v"
    "onward i w v" "H_Replied i (C_Execute (pi_action pinv)) r \<in> set (history v)"
  then obtain y where y: "r = R_Execute y" by (cases r) auto
  have "?Q (Some y) u" if "rely i v u" for u
    using v view_rely [OF v(1) that] onward_trans [OF v(2) rely_onward [OF that]] history_rely [OF that] y by auto
  then show "safe encoded d i (case Some r of Some (R_Execute x) \<Rightarrow> Return (Some x) | _ \<Rightarrow> Return None) ?Q v"
    using y by simp
next
  fix v assume v: "view i True False False (cs @ [C_Execute (pi_action pinv)]) v" "onward i w v"
  have "?Q None u" if "rely i v u" for u
    using view_rely [OF v(1) that] onward_trans [OF v(2) rely_onward [OF that]] by auto
  then show "safe encoded d i (case None of Some (R_Execute x) \<Rightarrow> Return (Some x) | _ \<Rightarrow> Return None) ?Q v"
    by simp
qed

lemma safe_run_action:
  assumes obs: "observing i False (capability op) w (Ok ob) x" and adm: "admitted d (history w) i q op"
    and prep: "prepared encoded q op pinv" and plain: "package_page (pi_action pinv) = None"
    and fr: "ob_epoch ob \<noteq> None \<longrightarrow> (\<exists>t. H_Fresh i ob t \<in> set (history x))"
    and ev: "evaluate (capability op) (ob_value ob) (Some (pi_action pinv)) = Compatible"
  shows "safe encoded d i (run_action pointer i pinv ob dl) (timed pointer pinv i w) x"
    (is "safe encoded d i _ ?T x")
proof -
  obtain cs where cs: "view i True False False cs x" "list_all is_probe cs" "onward i w x"
      "obs_ok (history x) (capability op) ob"
    using obs by (auto simp: observing_def)
  have admx: "admitted d (history x) i q op" using adm cs(3) by (auto simp: onward_def intro: admitted_mono)
  show ?thesis unfolding run_action_def
  proof (rule rg.sat_seq [OF safe_execute [OF cs(1,2) admx prep plain cs(4) _ ev]])
    show "ob_epoch ob \<noteq> None \<Longrightarrow> \<exists>t. H_Fresh i ob t \<in> set (history x)" using fr by blast
    fix reply :: "(runtime_error + json) option" and y
    assume y: "(\<exists>cs. view i True False False cs y) \<and> onward i x y \<and> (\<forall>out. reply = Some (Ok out) \<longrightarrow>
        H_Replied i (C_Execute (pi_action pinv)) (R_Execute (Ok out)) \<in> set (history y))"
    have ty: "?T (Err e) y" for e using y cs(3) by (auto simp: timed_Err intro: onward_trans)
    show "safe encoded d i (case reply of None \<Rightarrow> Return (Err RE_Timeout)
          | Some r \<Rightarrow> attempt (enforce_deadline dl (Some ob) r) (\<lambda>out.
              enforce_deadline dl (Some ob) (map_err RE_Core (invocation_project pointer pinv out)))) ?T y"
    proof (cases reply)
      case None
      then show ?thesis using safe_timed_return [OF ty] by simp
    next
      case (Some a)
      show ?thesis unfolding Some option.case
      proof (rule rg.sat_attempt [OF safe_deadline], goal_cases)
        case (1 e u)
        then show ?case by (intro safe_timed_return timed_calm [OF ty]) blast
      next
        case (2 out u)
        then have "a = Ok out" and u: "calm i y u" by auto
        then have "H_Replied i (C_Execute (pi_action pinv)) (R_Execute (Ok out)) \<in> set (history u)"
          using y Some calm_history [OF u] by auto
        then show ?case using timed_calm [OF ty u] by (intro safe_projected) auto
      qed
    qed
  qed
qed

lemma safe_checked_action:
  assumes obs: "observing i False (capability op) w (Ok ob) v" and adm: "admitted d (history w) i q op"
    and prep: "prepared encoded q op pinv" and plain: "package_page (pi_action pinv) = None"
  shows "safe encoded d i (checked_action pointer i op pinv ob dl) (timed pointer pinv i w) v"
    (is "safe encoded d i _ ?T v")
  unfolding checked_action_def
proof (rule safe_timed_deadline [where x = "()"], goal_cases)
  have err: "?T (Err e) x" if "observing i False (capability op) w (Ok ob) x" for x e
    using that by (auto simp: observing_def timed_Err)
  { case 1 show ?case using err [OF obs] . }
  { case (3 e) then show ?case by simp }
  { case (4 y) then show ?case by simp }
  case (2 x)
  then have ox: "observing i False (capability op) w (Ok ob) x" using observing_calm [OF obs] by blast
  show ?case
  proof (rule rg.sat_seq [OF safe_verdict])
    fix verdict y
    assume y: "calm i x y \<and> (verdict = V_Unknown StaleObservation
        \<or> verdict = evaluate (capability op) (ob_value ob) (Some (pi_action pinv))
          \<and> (ob_epoch ob \<noteq> None \<longrightarrow> (\<exists>t. H_Fresh i ob t \<in> set (history y))))"
    then have oy: "observing i False (capability op) w (Ok ob) y" using observing_calm [OF ox] by blast
    show "safe encoded d i (case verdict of
        V_Unknown _ \<Rightarrow> Return (Err RE_CapabilityUnknown)
      | Incompatible _ \<Rightarrow> Return (Err RE_CapabilityUnsupported)
      | Compatible \<Rightarrow> attempt (enforce_deadline dl (Some ob) (Ok ())) (\<lambda>_. run_action pointer i pinv ob dl)) ?T y"
    proof (cases verdict)
      case Compatible
      show ?thesis unfolding Compatible verdict.case
      proof (rule safe_timed_deadline [where x = "()"], goal_cases)
        case (2 z)
        have "ob_epoch ob \<noteq> None \<longrightarrow> (\<exists>t. H_Fresh i ob t \<in> set (history z))"
          using y Compatible calm_history [of i y z] 2 by auto
        then show ?case using y Compatible observing_calm [OF oy 2(1)]
          by (intro safe_run_action [OF _ adm prep plain]) auto
      qed (use err [OF oy] in auto)
    qed (use safe_timed_return [OF err [OF oy]] in simp_all)
  qed
qed

lemma safe_invoke_timed:
  assumes view: "view i True False False [] w" and adm: "admitted d (history w) i q op"
    and prep: "prepared encoded q op pinv" and plain: "package_page (pi_action pinv) = None"
  shows "safe encoded d i (invoke_timed pointer i op pinv dl) (\<lambda>(issued, r). timed pointer pinv i w r) w"
  unfolding invoke_timed_def
proof (rule rg.sat_seq [OF safe_observe [OF view adm]])
  fix r v assume r: "observing i False (capability op) w r v"
  show "safe encoded d i (case r of Inl e \<Rightarrow> Return (None, Err e)
     | Inr ob \<Rightarrow> bind (checked_action pointer i op pinv ob dl) (\<lambda>r. Return (Some ob, r)))
     (\<lambda>(issued, r). timed pointer pinv i w r) v"
  proof (cases r)
    case (Inl e)
    have "timed pointer pinv i w (Err e) v" using r by (auto simp: observing_def timed_Err)
    then show ?thesis using Inl timed_rely by auto
  next
    case (Inr ob)
    have "safe encoded d i (bind (checked_action pointer i op pinv ob dl) (\<lambda>r. Return (Some ob, r)))
        (\<lambda>(issued, r). timed pointer pinv i w r) v"
      by (rule rg.sat_seq [OF safe_checked_action [OF r [unfolded Inr] adm prep plain]]) (use timed_rely in auto)
    then show ?thesis using Inr by simp
  qed
qed

end
