(* ===== verification/Requests.thy ===== *)
theory Requests
  imports Actions
begin

text \<open>
  The package pages, and with them the whole programs of the two kinds of request: each is
  safe among the others, and its answer is explained by the history.
\<close>

section \<open>Package pages\<close>

lemma keeps_slot:
  assumes "sound encoded d w" and "slot_lock w = Some i" and "\<And>sn. s = Some sn \<Longrightarrow> captured (history w) sn"
  shows "keeps encoded d i w (w\<lparr>slot := s\<rparr>)"
  using assms by (auto simp: kept_by_def sound_def entry_ok_def rely_unfold)

lemma keeps_lease:
  assumes "sound encoded d w"
  shows "slot_lock w = None \<Longrightarrow> keeps encoded d i w (w\<lparr>slot_lock := Some i\<rparr>)"
    and "keeps encoded d i w (drop_lease i w)"
  using assms by (auto simp: kept_by_def sound_def entry_ok_def rely_unfold drop_lease_def)

lemma keeps_keep:
  assumes "sound encoded d w" and "slot_lock w = Some i"
    and "recorded (history w) i AK_Invocation AP_Finish name AO_Success"
  shows "keeps encoded d i w (keep_lease i w)"
proof -
  let ?w = "w\<lparr>slot_lock := None\<rparr>"
  have "keeps encoded d i w ?w" using assms(1,2) by (auto simp: kept_by_def sound_def entry_ok_def rely_unfold)
  moreover have "keeps encoded d i ?w (happens (H_Kept i) ?w)"
    using calculation assms(3) by (intro keeps_happens) (auto simp: kept_by_def)
  ultimately show ?thesis unfolding keep_lease_def using rely_trans by (auto simp: kept_by_def)
qed

lemma view_slot:
  "view i permit elock slock cs w \<Longrightarrow> view i permit elock slock cs (w\<lparr>slot := s\<rparr>)"
  "view i permit elock False cs w \<Longrightarrow> view i permit elock True cs (w\<lparr>slot_lock := Some i\<rparr>)"
  "view i permit elock True cs w \<Longrightarrow> view i permit elock False cs (drop_lease i w)"
  "view i permit elock slock cs w \<Longrightarrow> view i permit elock False cs (keep_lease i w)"
  by (auto simp: view_def audit_idle_def written_def drop_lease_def keep_lease_def happens_def)

text \<open>A page of a snapshot captured for the profile; the cursor names the snapshot.\<close>

definition paged :: "happening list \<Rightarrow> package_profile \<times> string option \<Rightarrow> json \<Rightarrow> bool" where
  "paged pre = (\<lambda>(profile, cursor) val. \<exists>j records n offset.
     H_Replied j (C_Capture profile) (R_Capture (Ok records)) \<in> set pre
     \<and> observation_profile records = profile \<and> n \<noteq> zero_nonce \<and> page records n offset = Ok val
     \<and> (case cursor of None \<Rightarrow> offset = 0
        | Some text \<Rightarrow> cursor_parse text = Ok \<lparr>cur_nonce = n, cur_offset = offset\<rparr>))"

lemma paged_mono: "paged pre r val \<Longrightarrow> set pre \<subseteq> set pre' \<Longrightarrow> paged pre' r val"
  by (cases r) (fastforce simp: paged_def)

abbreviation leased :: "tid \<Rightarrow> world \<Rightarrow> world \<Rightarrow> bool" where
  "leased i w v \<equiv> (\<exists>cs. view i True False True cs v) \<and> onward i w v"

definition positioned ::
    "tid \<Rightarrow> package_profile \<times> string option \<Rightarrow> world \<Rightarrow> runtime_error + nat \<Rightarrow> world \<Rightarrow> bool" where
  "positioned i = (\<lambda>(profile, cursor) w r v. leased i w v \<and> (\<forall>offset. r = Ok offset \<longrightarrow>
     (\<exists>sn. slot v = Some sn \<and> observation_profile (sn_records sn) = profile
       \<and> (case cursor of None \<Rightarrow> offset = 0
          | Some text \<Rightarrow> cursor_parse text = Ok \<lparr>cur_nonce = sn_nonce sn, cur_offset = offset\<rparr>))))"

lemma slot_calm: "calm i v u \<Longrightarrow> view i permit elock True cs v \<Longrightarrow> slot u = slot v"
  by (simp add: view_def calm_def)

lemma leased_calm: "leased i w v \<Longrightarrow> calm i v u \<Longrightarrow> leased i w u \<and> slot u = slot v"
  using calm_view [of i v u] onward_trans [OF _ calm_onward] slot_calm [of i v u] by blast

lemma positioned_calm: "positioned i pr w r v \<Longrightarrow> calm i v u \<Longrightarrow> positioned i pr w r u"
proof -
  assume a: "positioned i pr w r v" "calm i v u"
  then have "leased i w v" by (cases pr) (simp add: positioned_def)
  then have "leased i w u" "slot u = slot v" using leased_calm [OF _ a(2)] by auto
  then show "positioned i pr w r u" using a(1) by (cases pr) (simp add: positioned_def)
qed

lemma positioned_Err: "positioned i pr w (Err e) v \<longleftrightarrow> leased i w v"
  by (cases pr) (simp add: positioned_def)

lemma safe_positioned: "positioned i pr w r v \<Longrightarrow> safe encoded d i (Return r) (positioned i pr w) v"
  using positioned_calm calm_rely by auto

lemma safe_failed: "leased i w v \<Longrightarrow> safe encoded d i (Return (Err e)) (positioned i pr w) v"
  by (rule safe_positioned) (simp add: positioned_Err)

lemma safe_expired:
  "safe encoded d i (snapshot_expired sn) (\<lambda>_. calm i w) w"
  unfolding snapshot_expired_def
  by (auto intro!: safe_read safe_return) (meson calm_trans calm_rely)+

lemma safe_continue:
  assumes "leased i w v"
  shows "safe encoded d i (continue_page name profile text) (positioned i (profile, Some text) w) v"
proof (cases "cursor_parse text")
  case (Inl e)
  then show ?thesis using safe_failed [OF assms] by (simp add: continue_page_def attempt_def)
next
  case (Inr cur)
  have "safe encoded d i (attempt (bind (reads slot) (\<lambda>s. Return (ok_or RE_InvalidCursor s))) (\<lambda>sn.
     if cur_nonce cur \<noteq> sn_nonce sn \<or> profile \<noteq> observation_profile (sn_records sn) \<or> name \<noteq> sn_operation sn
     then Return (Err RE_InvalidCursor)
     else bind (snapshot_expired sn) (\<lambda>expired.
       if expired then Return (Err RE_InvalidCursor) else Return (Ok (cur_offset cur)))))
     (positioned i (profile, Some text) w) v"
  proof (rule rg.sat_attempt [where M = "\<lambda>r u. leased i w u \<and> (\<forall>sn. r = Ok sn \<longrightarrow> slot u = Some sn)"], goal_cases)
    case 1
    show ?case
    proof (intro safe_read safe_return)
      fix x u assume x: "rely i v x" and u: "rely i x u"
      have "leased i w x" "leased i w u" "slot u = slot x"
        using leased_calm [OF assms calm_rely [OF x]] leased_calm [where w = w and v = x and u = u, OF _ calm_rely [OF u]] by auto
      then show "leased i w u \<and> (\<forall>sn. ok_or RE_InvalidCursor (slot x) = Ok sn \<longrightarrow> slot u = Some sn)" by auto
    qed
  next
    case (2 e u)
    then show ?case by (intro safe_failed) blast
  next
    case (3 sn u)
    then have u: "leased i w u" "slot u = Some sn" by auto
    have "safe encoded d i (bind (snapshot_expired sn) (\<lambda>expired.
       if expired then Return (Err RE_InvalidCursor) else Return (Ok (cur_offset cur))))
       (positioned i (profile, Some text) w) u"
      if "cur_nonce cur = sn_nonce sn" "profile = observation_profile (sn_records sn)"
    proof (rule rg.sat_seq [OF safe_expired])
      fix expired x assume x: "calm i u x"
      have lx: "leased i w x" "slot x = Some sn" using leased_calm [OF u(1) x] u(2) by auto
      have "positioned i (profile, Some text) w (Ok (cur_offset cur)) x"
        using lx that Inr by (cases cur) (auto simp: positioned_def)
      then show "safe encoded d i (if expired then Return (Err RE_InvalidCursor) else Return (Ok (cur_offset cur)))
         (positioned i (profile, Some text) w) x"
        using safe_failed [OF lx(1)] safe_positioned by auto
    qed
    then show ?case using safe_failed [OF u(1)] by auto
  qed
  then show ?thesis using Inr by (simp add: continue_page_def attempt_def)
qed

lemma safe_nonce:
  assumes view: "view i True False True [] w" and adm: "admitted d (history w) i q op"
    and prep: "prepared encoded q op pinv" and pr: "package_page (pi_action pinv) = Some (profile, None)"
    and tokens: "d_tokens d"
  shows "safe encoded d i (nonce i dl) (\<lambda>r v. view i True False True [C_Nonce] v \<and> onward i w v) w"
  unfolding nonce_def
proof (rule safe_calls [OF view])
  fix v assume "onward i w v" "view i True False True [] v"
  then show "justified encoded d (history v) (H_Called i C_Nonce)"
    using admitted_mono [OF adm, of "history v"] prep pr tokens by (auto simp: onward_def view_def)
next
  fix r v
  assume r: "fits C_Nonce r" and v: "view i True False True ([] @ [C_Nonce]) v" "onward i w v"
  then obtain y where y: "r = R_Nonce y" by (cases r) auto
  have "view i True False True [C_Nonce] u \<and> onward i w u" if "rely i v u" for u
    using view_rely [OF v(1) that] onward_trans [OF v(2) rely_onward [OF that]] by auto
  then show "safe encoded d i (case Some r of Some (R_Nonce x) \<Rightarrow> Return x | _ \<Rightarrow> Return (Err RE_Timeout))
     (\<lambda>r v. view i True False True [C_Nonce] v \<and> onward i w v) v"
    using y by simp
next
  fix v assume v: "view i True False True ([] @ [C_Nonce]) v" "onward i w v"
  have "view i True False True [C_Nonce] u \<and> onward i w u" if "rely i v u" for u
    using view_rely [OF v(1) that] onward_trans [OF v(2) rely_onward [OF that]] by auto
  then show "safe encoded d i (case None of Some (R_Nonce x) \<Rightarrow> Return x | _ \<Rightarrow> Return (Err RE_Timeout))
     (\<lambda>r v. view i True False True [C_Nonce] v \<and> onward i w v) v" by simp
qed

lemma safe_capture:
  assumes view: "view i True False True [C_Nonce] w" and adm: "admitted d (history w) i q op"
    and prep: "prepared encoded q op pinv" and pr: "package_page (pi_action pinv) = Some (profile, None)"
  shows "safe encoded d i (capture i profile dl) (\<lambda>r v. view i True False True [C_Nonce, C_Capture profile] v
     \<and> onward i w v \<and> (\<forall>records. r = Ok records \<longrightarrow>
        H_Replied i (C_Capture profile) (R_Capture (Ok records)) \<in> set (history v))) w"
    (is "safe encoded d i _ ?Q w")
  unfolding capture_def
proof (rule safe_calls [OF view])
  fix v assume "onward i w v" "view i True False True [C_Nonce] v"
  then show "justified encoded d (history v) (H_Called i (C_Capture profile))"
    using admitted_mono [OF adm, of "history v"] prep pr by (auto simp: onward_def view_def)
next
  fix r v
  assume r: "fits (C_Capture profile) r" and v: "view i True False True ([C_Nonce] @ [C_Capture profile]) v"
    "onward i w v" "H_Replied i (C_Capture profile) r \<in> set (history v)"
  then obtain y where y: "r = R_Capture y" by (cases r) auto
  have "?Q y u" if "rely i v u" for u
    using v view_rely [OF v(1) that] onward_trans [OF v(2) rely_onward [OF that]] history_rely [OF that] y by auto
  then show "safe encoded d i (case Some r of Some (R_Capture x) \<Rightarrow> Return x | _ \<Rightarrow> Return (Err RE_Timeout)) ?Q v"
    using y by simp
next
  fix v assume v: "view i True False True ([C_Nonce] @ [C_Capture profile]) v" "onward i w v"
  have "?Q (Err RE_Timeout) u" if "rely i v u" for u
    using view_rely [OF v(1) that] onward_trans [OF v(2) rely_onward [OF that]] by auto
  then show "safe encoded d i (case None of Some (R_Capture x) \<Rightarrow> Return x | _ \<Rightarrow> Return (Err RE_Timeout)) ?Q v"
    by simp
qed

definition capture_done :: "tid \<Rightarrow> package_profile \<Rightarrow> package_observation \<Rightarrow> world \<Rightarrow> world \<Rightarrow> bool" where
  "capture_done i profile records w v \<longleftrightarrow> leased i w v
     \<and> H_Replied i (C_Capture profile) (R_Capture (Ok records)) \<in> set (history v)"

lemma capture_done_rely: "capture_done i profile records w v \<Longrightarrow> rely i v u \<Longrightarrow> capture_done i profile records w u"
  unfolding capture_done_def using leased_calm [OF _ calm_rely] history_rely [of i v u] by blast

lemma safe_capture_failed:
  "capture_done i profile records w v \<Longrightarrow> safe encoded d i (Return (Err e)) (positioned i pr w) v"
  by (rule safe_failed) (simp add: capture_done_def)

lemma safe_write_snapshot:
  assumes hx: "capture_done i profile records w x" and n: "n \<noteq> zero_nonce" and profile: "observation_profile records = profile"
  shows "safe encoded d i (bind (writes (\<lambda>w. w\<lparr>slot := Some \<lparr>sn_records = records, sn_nonce = n,
            sn_operation = name, sn_epoch = current, sn_started = started\<rparr>\<rparr>)) (\<lambda>_.
          Return (Ok 0))) (positioned i (profile, None) w) x"
proof (rule safe_write)
  fix y assume y: "rely i x y" "sound encoded d y"
  let ?sn = "\<lparr>sn_records = records, sn_nonce = n, sn_operation = name, sn_epoch = current, sn_started = started\<rparr>"
  have hy: "capture_done i profile records w y" using hx y(1) by (rule capture_done_rely)
  then obtain cs where cs: "view i True False True cs y" "onward i w y" by (auto simp: capture_done_def)
  have "captured (history y) ?sn" using hy profile n by (auto simp: captured_def capture_done_def)
  then show "keeps encoded d i y (y\<lparr>slot := Some ?sn\<rparr>)"
    using y(2) cs(1) by (intro keeps_slot) (auto simp: view_def)
  have "onward i w (y\<lparr>slot := Some ?sn\<rparr>)" using cs(2) by (simp add: onward_def grows_def)
  then have "positioned i (profile, None) w (Ok 0) (y\<lparr>slot := Some ?sn\<rparr>)"
    using view_slot(1) [OF cs(1)] profile by (auto simp: positioned_def)
  then show "safe encoded d i (Return (Ok 0)) (positioned i (profile, None) w) (y\<lparr>slot := Some ?sn\<rparr>)"
    by (rule safe_positioned)
qed

text \<open>The snapshot is stored only when profile, epoch and age are right.\<close>

lemma safe_store:
  assumes hv: "capture_done i profile records w v" and n: "n \<noteq> zero_nonce"
  shows "safe encoded d i (store_snapshot name profile dl started n previous records) (positioned i (profile, None) w) v"
proof (cases "observation_profile records = profile")
  case False
  then show ?thesis using safe_capture_failed [OF hv] by (simp add: store_snapshot_def)
next
  case True
  note failed = safe_capture_failed [where pr = "(profile, None)"]
  show ?thesis unfolding store_snapshot_def
  proof (simp only: True not_True_eq_False if_False refl, rule rg.sat_attempt [where M = "\<lambda>_. capture_done i profile records w"], goal_cases)
    case 1
    show ?case by (intro safe_read safe_return) (blast intro: capture_done_rely hv)
  next
    case (2 e x)
    then show ?case by (intro failed)
  next
    case (3 current x)
    show ?case
    proof (rule safe_read)
      fix y assume "rely i x y"
      then have hy: "capture_done i profile records w y" using 3 capture_done_rely by blast
      show "safe encoded d i (if dl \<le> clock y then Return (Err RE_Timeout)
     else if previous \<noteq> None \<and> previous \<noteq> Some current then Return (Err RE_InvalidCursor)
     else bind (reads clock) (\<lambda>t.
     if t - started \<ge> snapshot_ttl then Return (Err RE_InvalidCursor)
     else bind (writes (\<lambda>w. w\<lparr>slot := Some \<lparr>sn_records = records, sn_nonce = n,
            sn_operation = name, sn_epoch = current, sn_started = started\<rparr>\<rparr>)) (\<lambda>_.
          Return (Ok 0)))) (positioned i (profile, None) w) y"
        using failed [OF hy] failed [OF capture_done_rely [OF hy]]
          safe_write_snapshot [OF capture_done_rely [OF hy] n True]
        by (auto intro!: safe_read)
    qed
  qed
qed

lemma safe_capturing:
  assumes view: "view i True False True [C_Nonce] x" and on: "onward i w x" and adm: "admitted d (history x) i q op"
    and prep: "prepared encoded q op pinv" and pr: "package_page (pi_action pinv) = Some (profile, None)"
    and n: "n \<noteq> zero_nonce"
  shows "safe encoded d i (attempt (capture i profile dl) (store_snapshot name profile dl started n previous))
      (positioned i (profile, None) w) x"
proof (rule rg.sat_attempt [OF safe_capture [OF view adm prep pr]], goal_cases)
  case (1 e y)
  then show ?case using onward_trans [OF on] by (intro safe_failed) blast
next
  case (2 records y)
  then have "capture_done i profile records w y" using onward_trans [OF on] unfolding capture_done_def by blast
  then show ?case using n by (rule safe_store)
qed

lemma safe_drawing:
  assumes view: "view i True False True [] x" and on: "onward i w x" and adm: "admitted d (history w) i q op"
    and prep: "prepared encoded q op pinv" and pr: "package_page (pi_action pinv) = Some (profile, None)"
    and tokens: "d_tokens d"
  shows "safe encoded d i (attempt (nonce i dl) (\<lambda>n. bind (reads clock) (\<lambda>t.
     if dl \<le> t then Return (Err RE_Timeout)
     else if n = zero_nonce then Return (Err RE_EntropyUnavailable)
     else bind (reads epoch) (\<lambda>previous. attempt (capture i profile dl)
       (store_snapshot name profile dl started n previous))))) (positioned i (profile, None) w) x"
proof -
  have admh: "admitted d (history y) i q op" if "onward i w y" for y
    using that adm by (auto simp: onward_def intro: admitted_mono)
  show ?thesis
  proof (rule rg.sat_attempt [OF safe_nonce [OF view admh [OF on] prep pr tokens]], goal_cases)
    case (1 e y)
    then show ?case using onward_trans [OF on] by (intro safe_failed) blast
  next
    case (2 n y)
    then have y: "view i True False True [C_Nonce] y" "onward i w y" using onward_trans [OF on] by blast+
    show ?case
    proof (rule safe_read)
      fix z assume z: "rely i y z"
      have vz: "view i True False True [C_Nonce] z" "onward i w z"
        using view_rely [OF y(1) z] onward_trans [OF y(2) rely_onward [OF z]] by auto
      then have lz: "leased i w z" by blast
      have "safe encoded d i (bind (reads epoch) (\<lambda>previous. attempt (capture i profile dl)
          (store_snapshot name profile dl started n previous))) (positioned i (profile, None) w) z" if n: "n \<noteq> zero_nonce"
      proof (rule safe_read)
        fix u assume u: "rely i z u"
        have ou: "onward i w u" using vz(2) rely_onward [OF u] by (rule onward_trans)
        show "safe encoded d i (attempt (capture i profile dl) (store_snapshot name profile dl started n (epoch u)))
          (positioned i (profile, None) w) u"
          by (rule safe_capturing [OF view_rely [OF vz(1) u] ou admh [OF ou] prep pr n])
      qed
      then show "safe encoded d i (if dl \<le> clock z then Return (Err RE_Timeout)
           else if n = zero_nonce then Return (Err RE_EntropyUnavailable)
           else bind (reads epoch) (\<lambda>previous. attempt (capture i profile dl)
             (store_snapshot name profile dl started n previous))) (positioned i (profile, None) w) z"
        using safe_failed [OF lz] by simp
    qed
  qed
qed

lemma safe_capture_page:
  assumes view: "view i True False True [] w" and adm: "admitted d (history w) i q op"
    and prep: "prepared encoded q op pinv" and pr: "package_page (pi_action pinv) = Some (profile, None)"
  shows "safe encoded d i (capture_page i (d_tokens d) name profile dl) (positioned i (profile, None) w) w"
  unfolding capture_page_def
proof (rule safe_write)
  fix v assume v: "rely i w v" "sound encoded d v"
  have viewv: "view i True False True [] v" using view v(1) by (rule view_rely)
  then show "keeps encoded d i v (v\<lparr>slot := None\<rparr>)"
    using v(2) by (intro keeps_slot) (auto simp: view_def)
  let ?v = "v\<lparr>slot := None\<rparr>"
  have onv: "onward i w ?v" using rely_onward [OF v(1)] by (simp add: onward_def grows_def)
  show "safe encoded d i (bind (reads clock) (\<lambda>started.
     if \<not> d_tokens d then Return (Err RE_EntropyUnavailable)
     else attempt (nonce i dl) (\<lambda>n. bind (reads clock) (\<lambda>t.
     if dl \<le> t then Return (Err RE_Timeout)
     else if n = zero_nonce then Return (Err RE_EntropyUnavailable)
     else bind (reads epoch) (\<lambda>previous. attempt (capture i profile dl)
       (store_snapshot name profile dl started n previous)))))) (positioned i (profile, None) w) ?v"
  proof (rule safe_read)
    fix x assume x: "rely i ?v x"
    have vx: "view i True False True [] x" using view_slot(1) [OF viewv] x by (rule view_rely)
    have ox: "onward i w x" using onv rely_onward [OF x] by (rule onward_trans)
    then have lx: "leased i w x" using vx by blast
    show "safe encoded d i (if \<not> d_tokens d then Return (Err RE_EntropyUnavailable)
     else attempt (nonce i dl) (\<lambda>n. bind (reads clock) (\<lambda>t.
     if dl \<le> t then Return (Err RE_Timeout)
     else if n = zero_nonce then Return (Err RE_EntropyUnavailable)
     else bind (reads epoch) (\<lambda>previous. attempt (capture i profile dl)
       (store_snapshot name profile dl (clock x) n previous))))) (positioned i (profile, None) w) x"
      using safe_drawing [OF vx ox adm prep pr] safe_failed [OF lx] by simp
  qed
qed

section \<open>Whole requests\<close>

lemma leased_rely: "leased i w v \<Longrightarrow> rely i v u \<Longrightarrow> leased i w u"
  using leased_calm calm_rely by blast

lemma safe_page:
  assumes view: "view i True False True [] w" and adm: "admitted d (history w) i q op"
    and prep: "prepared encoded q op pinv" and pr: "package_page (pi_action pinv) = Some request"
  shows "safe encoded d i (packages_page i (d_tokens d) name request dl)
     (\<lambda>r v. leased i w v \<and> (\<forall>val. r = Ok val \<longrightarrow> paged (history v) request val)) w"
    (is "safe encoded d i _ ?Q w")
proof -
  obtain profile cursor where request: "request = (profile, cursor)" by (cases request)
  have start: "leased i w w" using view by (auto simp: onward_def grows_def)
  have position: "safe encoded d i (case cursor of Some text \<Rightarrow> continue_page name profile text
       | None \<Rightarrow> capture_page i (d_tokens d) name profile dl) (positioned i request w) w"
    using safe_continue [OF start] safe_capture_page [OF view adm prep] pr request by (cases cursor) auto
  have serve: "safe encoded d i (attempt (bind (reads slot) (\<lambda>s. Return (ok_or RE_InvalidCursor s))) (\<lambda>sn.
       Return (map_err RE_Core (page (sn_records sn) (sn_nonce sn) offset)))) ?Q v"
    if v: "positioned i request w (Ok offset) v" for offset v
  proof (rule rg.sat_attempt [where M = "\<lambda>r x. positioned i request w (Ok offset) x \<and> (\<forall>sn. r = Ok sn \<longrightarrow> slot x = Some sn)"], goal_cases)
    case 1
    show ?case
    proof (intro safe_read safe_return)
      fix x y assume x: "rely i v x" and y: "rely i x y"
      have px: "positioned i request w (Ok offset) x" using positioned_calm [OF v calm_rely [OF x]] .
      have py: "positioned i request w (Ok offset) y" using positioned_calm [OF px calm_rely [OF y]] .
      have "leased i w x" using px request by (simp add: positioned_def)
      then have "slot y = slot x" using leased_calm [OF _ calm_rely [OF y]] by blast
      then show "positioned i request w (Ok offset) y \<and> (\<forall>sn. ok_or RE_InvalidCursor (slot x) = Ok sn \<longrightarrow> slot y = Some sn)"
        using py by auto
    qed
  next
    case (2 e x)
    then have "leased i w x" using request by (simp add: positioned_def)
    then show ?case by (intro safe_return) (rule conjI, erule leased_rely, assumption, simp)
  next
    case (3 sn x)
    then have sn: "slot x = Some sn" "leased i w x" "observation_profile (sn_records sn) = profile"
      "case cursor of None \<Rightarrow> offset = 0 | Some text \<Rightarrow> cursor_parse text = Ok \<lparr>cur_nonce = sn_nonce sn, cur_offset = offset\<rparr>"
      using request by (auto simp: positioned_def)
    have "captured (history x) sn" using 3 sn(1) by (simp add: sound_def)
    then have "paged (history x) request val" if "page (sn_records sn) (sn_nonce sn) offset = Ok val" for val
      using that sn(3,4) request by (auto simp: paged_def captured_def)
    then have "paged (history y) request val" if "page (sn_records sn) (sn_nonce sn) offset = Ok val" "rely i x y" for val y
      using that paged_mono history_rely by blast
    then show ?case using leased_rely [OF sn(2)] by (intro safe_return) simp
  qed
  show ?thesis unfolding packages_page_def request prod.case
  proof (rule rg.sat_attempt [OF position [unfolded request]], goal_cases)
    case (1 e v)
    then have "leased i w v" by (simp add: positioned_def)
    then show ?case by (intro safe_return) (rule conjI, erule leased_rely, assumption, simp)
  next
    case (2 offset v)
    then show ?case using serve [unfolded request] by simp
  qed
qed

text \<open>What an answered request leaves behind: its answer is explained and it holds nothing.\<close>

definition released :: "tid \<Rightarrow> world \<Rightarrow> bool" where
  "released i w \<longleftrightarrow> i \<notin> set (permit_holders w) \<and> i \<notin> set (audit_waiters w)
     \<and> entries_lock w \<noteq> Some i \<and> slot_lock w \<noteq> Some i"

definition explained ::
    "(operation \<Rightarrow> nat option) \<Rightarrow> (json \<Rightarrow> string \<Rightarrow> json option) \<Rightarrow> dispatcher \<Rightarrow> tid \<Rightarrow> request
     \<Rightarrow> happening list \<Rightarrow> json \<Rightarrow> bool" where
  "explained encoded pointer d i q pre val \<longleftrightarrow> (\<exists>op pinv. permitted d q op \<and> prepared encoded q op pinv
     \<and> recorded pre i AK_Invocation AP_Start (op_name op) AO_Attempt
     \<and> recorded pre i AK_Invocation AP_Finish (op_name op) AO_Success
     \<and> (case package_page (pi_action pinv) of
          None \<Rightarrow> projected pointer pinv i pre val
        | Some request \<Rightarrow> paged pre request val))"

lemma explained_mono:
  "explained encoded pointer d i q pre val \<Longrightarrow> set pre \<subseteq> set pre' \<Longrightarrow> explained encoded pointer d i q pre' val"
  unfolding explained_def by (fastforce intro: recorded_mono projected_mono paged_mono split: option.splits)

lemma view_released: "view i False False False cs w \<Longrightarrow> released i w"
  by (auto simp: view_def released_def count_list_0_iff)

abbreviation served ::
    "tid \<Rightarrow> operation \<Rightarrow> (happening list \<Rightarrow> json \<Rightarrow> bool) \<Rightarrow> world \<Rightarrow> runtime_error + json \<Rightarrow> world \<Rightarrow> bool" where
  "served i op P w r v \<equiv> (\<exists>cs. view i True False False cs v) \<and> onward i w v \<and> (\<forall>val. r = Ok val \<longrightarrow>
     P (history v) val \<and> recorded (history v) i AK_Invocation AP_Finish (op_name op) AO_Success)"

lemma served_calm:
  assumes "served i op P w r v" and "calm i v u" and "\<And>pre pre' val. P pre val \<Longrightarrow> set pre \<subseteq> set pre' \<Longrightarrow> P pre' val"
  shows "served i op P w r u"
  using assms(1) calm_view [OF assms(2)] onward_trans [OF _ calm_onward [OF assms(2)]] calm_subset [OF assms(2)]
    assms(3) recorded_mono by blast

lemma safe_invoke_action:
  assumes view: "view i True False False [] w" and adm: "admitted d (history w) i q op"
    and prep: "prepared encoded q op pinv" and plain: "package_page (pi_action pinv) = None"
  shows "safe encoded d i (invoke_action pointer d i seq op pinv started dl)
     (served i op (projected pointer pinv i) w) w"
  unfolding invoke_action_def
proof (rule rg.sat_seq [OF safe_invoke_timed [OF view adm prep plain]], clarify)
  fix issued r v assume v: "timed pointer pinv i w r v"
  show "safe encoded d i (bind (enforce_deadline dl issued r) (\<lambda>r. finish (d_limits d) i seq op AK_Invocation started r))
     (served i op (projected pointer pinv i) w) v"
  proof (rule rg.sat_seq [OF safe_deadline])
    fix r' u assume u: "calm i v u \<and> (r' = r \<or> r' = Err RE_Timeout)"
    then have tu: "timed pointer pinv i w r' u" using timed_calm [OF v] by (auto simp: timed_def)
    then obtain cs where cs: "view i True False False cs u" by (auto simp: timed_def)
    show "safe encoded d i (finish (d_limits d) i seq op AK_Invocation started r') (served i op (projected pointer pinv i) w) u"
    proof (rule rg.sat_mono [OF safe_finish [OF cs]])
      fix r'' x
      assume x: "calm i u x \<and> (r'' = Err RE_CompletionAuditFailed \<or> r'' = r'
        \<and> recorded (history x) i AK_Invocation AP_Finish (op_name op) (if is_ok r' then AO_Success else AO_Failed))"
      have "timed pointer pinv i w r'' x" using x timed_calm [OF tu] by (auto simp: timed_def)
      then show "served i op (projected pointer pinv i) w r'' x" using x by (auto simp: timed_def)
    qed
  qed
qed

lemma safe_preserve:
  assumes "view i True False True cs w" and "recorded (history w) i AK_Invocation AP_Finish name AO_Success"
  shows "safe encoded d i (preserve i) (\<lambda>_ v. view i True False False cs v \<and> onward i w v) w"
    (is "safe encoded d i _ ?Q w")
proof -
  define here where "here x \<longleftrightarrow> view i True False True cs x \<and> onward i w x
     \<and> recorded (history x) i AK_Invocation AP_Finish name AO_Success" for x
  have here_calm: "here y" if "here x" "calm i x y" for x y
    using that calm_view onward_trans [OF _ calm_onward] recorded_mono [OF _ calm_subset [OF that(2)]]
    by (auto simp: here_def)
  have start: "here w" using assms by (simp add: here_def onward_def grows_def)
  have drop: "safe encoded d i (bind (writes (drop_lease i)) (\<lambda>_. Return r)) ?Q x" if "here x" for x r
  proof (rule safe_write)
    fix y assume y: "rely i x y" "sound encoded d y"
    show "keeps encoded d i y (drop_lease i y)" using y(2) by (rule keeps_lease)
    have "here y" using that calm_rely [OF y(1)] by (rule here_calm)
    then have "view i True False False cs (drop_lease i y)" "onward i w (drop_lease i y)"
      using view_slot(3) by (auto simp: here_def drop_lease_def onward_def grows_def)
    then show "safe encoded d i (Return r) ?Q (drop_lease i y)"
      using view_rely onward_trans [OF _ rely_onward] by auto
  qed
  have keep: "safe encoded d i (bind (writes (keep_lease i)) (\<lambda>_. Return r)) ?Q x" if "here x" for x r
  proof (rule safe_write)
    fix y assume y: "rely i x y" "sound encoded d y"
    have hy: "here y" using that calm_rely [OF y(1)] by (rule here_calm)
    then show "keeps encoded d i y (keep_lease i y)"
      using y(2) by (intro keeps_keep) (auto simp: here_def view_def)
    have "view i True False False cs (keep_lease i y)" "onward i w (keep_lease i y)"
      using hy view_slot(4) by (auto simp: here_def keep_lease_def happens_def onward_def grows_def)
    then show "safe encoded d i (Return r) ?Q (keep_lease i y)"
      using view_rely onward_trans [OF _ rely_onward] by auto
  qed
  show ?thesis unfolding preserve_def
  proof (rule safe_read)
    fix v assume "rely i w v"
    then have hv: "here v" using start here_calm calm_rely by blast
    have "safe encoded d i (bind (snapshot_expired sn) (\<lambda>expired.
         if expired then bind (writes (drop_lease i)) (\<lambda>_. Return (Err RE_InvalidCursor))
         else bind (writes (keep_lease i)) (\<lambda>_. Return (Ok ())))) ?Q v" for sn
      by (rule rg.sat_seq [OF safe_expired]) (use drop keep here_calm [OF hv] in auto)
    then show "safe encoded d i (case slot v of
       None \<Rightarrow> bind (writes (drop_lease i)) (\<lambda>_. Return (Err RE_InvalidCursor))
     | Some sn \<Rightarrow> bind (snapshot_expired sn) (\<lambda>expired.
         if expired then bind (writes (drop_lease i)) (\<lambda>_. Return (Err RE_InvalidCursor))
         else bind (writes (keep_lease i)) (\<lambda>_. Return (Ok ())))) ?Q v"
      using drop [OF hv] by (auto split: option.splits)
  qed
qed

lemma safe_lease:
  assumes view: "view i True False False [] w"
  shows "safe encoded d i (lease i) (\<lambda>r v. (r = Ok () \<longrightarrow> view i True False True [] v)
    \<and> (\<forall>e. r = Err e \<longrightarrow> view i True False False [] v) \<and> onward i w v) w"
    (is "safe encoded d i _ ?M w")
  unfolding lease_def
proof (rule safe_step)
  fix v assume v: "rely i w v" "sound encoded d v"
  let ?v = "v\<lparr>slot_lock := Some i\<rparr>"
  have viewv: "view i True False False [] v" using view v(1) by (rule view_rely)
  have "onward i w ?v" using rely_onward [OF v(1)] by (simp add: onward_def grows_def)
  then have "?M (Ok ()) u" if "rely i ?v u" for u
    using onward_trans [OF _ rely_onward [OF that]] view_rely [OF view_slot(2) [OF viewv] that] by simp
  moreover have "?M (Err RE_Busy) u" if "rely i v u" for u
    using onward_trans [OF rely_onward [OF v(1)] rely_onward [OF that]] view_rely [OF viewv that] by simp
  ultimately show "keeps encoded d i v (fst (if slot_lock v = None then (?v, Return (Ok ()))
         else (v, Return (Err RE_Busy)))) \<and>
     safe encoded d i (snd (if slot_lock v = None then (?v, Return (Ok ()))
         else (v, Return (Err RE_Busy)))) ?M
      (fst (if slot_lock v = None then (?v, Return (Ok ())) else (v, Return (Err RE_Busy))))"
    using keeps_lease(1) [OF v(2)] rg.kept_refl [OF v(2)] by simp
qed

text \<open>A page under the lease, and the settling of the lease.\<close>

definition paging :: "tid \<Rightarrow> package_profile \<times> string option \<Rightarrow> world \<Rightarrow> runtime_error + json \<Rightarrow> world \<Rightarrow> bool" where
  "paging i request w r v \<longleftrightarrow> leased i w v \<and> (\<forall>val. r = Ok val \<longrightarrow> paged (history v) request val)"

lemma paging_calm:
  assumes "paging i request w r x" and "calm i x y" and "r' = r \<or> (\<exists>e. r' = Err e)"
  shows "paging i request w r' y"
proof -
  have "leased i w y" using assms(1) leased_calm [OF _ assms(2)] unfolding paging_def by blast
  moreover have "paged (history y) request val" if "r' = Ok val" for val
    using that assms(1,3) paged_mono [OF _ calm_subset [OF assms(2)], of request val] by (auto simp: paging_def)
  ultimately show ?thesis unfolding paging_def by blast
qed

lemma safe_settle_lease:
  assumes hx: "paging i request w r x"
    and rec: "\<And>val. r = Ok val \<Longrightarrow> recorded (history x) i AK_Invocation AP_Finish (op_name op) AO_Success"
  shows "safe encoded d i (settle_lease i r) (served i op (\<lambda>pre. paged pre request) w) x"
    (is "safe encoded d i _ ?Q x")
proof (cases r)
  case (Inl e)
  have "safe encoded d i (bind (writes (drop_lease i)) (\<lambda>_. Return (Err e))) ?Q x"
  proof (rule safe_write)
    fix y assume y: "rely i x y" "sound encoded d y"
    show "keeps encoded d i y (drop_lease i y)" using y(2) by (rule keeps_lease)
    have "paging i request w r y" using hx calm_rely [OF y(1)] by (rule paging_calm) simp
    then obtain cs where "view i True False True cs y" "onward i w y" by (auto simp: paging_def)
    then have "view i True False False cs (drop_lease i y)" "onward i w (drop_lease i y)"
      using view_slot(3) by (auto simp: drop_lease_def onward_def grows_def)
    then show "safe encoded d i (Return (Err e)) ?Q (drop_lease i y)"
      using view_rely onward_trans [OF _ rely_onward] by (intro safe_return) (rule conjI, blast, rule conjI, blast, simp)
  qed
  then show ?thesis using Inl by (simp add: settle_lease_def)
next
  case (Inr val)
  obtain cs where cs: "view i True False True cs x" "onward i w x" using hx by (auto simp: paging_def)
  have hist: "paged (history x) request val" "recorded (history x) i AK_Invocation AP_Finish (op_name op) AO_Success"
    using hx rec Inr by (auto simp: paging_def)
  have "safe encoded d i (attempt (preserve i) (\<lambda>_. Return (Ok val))) ?Q x"
  proof (rule rg.sat_attempt [OF safe_preserve [OF cs(1) hist(2)]], goal_cases)
    case (1 e y)
    then have "view i True False False cs y" "onward i w y" using cs(2) onward_trans by blast+
    then show ?case using view_rely onward_trans [OF _ rely_onward]
      by (intro safe_return) (rule conjI, blast, rule conjI, blast, simp)
  next
    case (2 u y)
    show ?case
    proof (rule safe_return)
      fix z assume z: "rely i y z"
      have on: "onward i x z" using 2 z by (blast intro: onward_trans rely_onward)
      then have sub: "set (history x) \<subseteq> set (history z)" by (simp add: onward_def)
      have "view i True False False cs z" using 2 z view_rely by blast
      then show "?Q (Ok val) z"
        using on cs(2) paged_mono [OF hist(1) sub] recorded_mono [OF hist(2) sub] onward_trans by auto
    qed
  qed
  then show ?thesis using Inr by (simp add: settle_lease_def)
qed

lemma safe_leased_page:
  assumes view: "view i True False True [] v" and onv: "onward i w v" and adm: "admitted d (history v) i q op"
    and prep: "prepared encoded q op pinv" and pr: "package_page (pi_action pinv) = Some request"
  shows "safe encoded d i (bind (packages_page i (d_tokens d) (op_name op) request dl) (\<lambda>r.
         bind (enforce_deadline dl None r) (\<lambda>r.
         bind (finish (d_limits d) i seq op AK_Invocation started r) (settle_lease i))))
     (served i op (\<lambda>pre. paged pre request) w) v"
proof (rule rg.sat_seq [OF safe_page [OF view adm prep pr]], rule rg.sat_seq [OF safe_deadline])
  fix r x r' y
  assume x: "leased i v x \<and> (\<forall>val. r = Ok val \<longrightarrow> paged (history x) request val)"
    and y: "calm i x y \<and> (r' = r \<or> r' = Err RE_Timeout)"
  have "onward i w x" using onv x onward_trans by blast
  then have "paging i request w r x" using x unfolding paging_def by blast
  then have hy: "paging i request w r' y" using y paging_calm [of i request w r x y r'] by blast
  then obtain cs where cs: "view i True False True cs y" by (auto simp: paging_def)
  show "safe encoded d i (bind (finish (d_limits d) i seq op AK_Invocation started r') (settle_lease i))
     (served i op (\<lambda>pre. paged pre request) w) y"
  proof (rule rg.sat_seq [OF safe_finish [OF cs]], rule safe_settle_lease)
    fix r'' z
    assume z: "calm i y z \<and> (r'' = Err RE_CompletionAuditFailed \<or> r'' = r'
      \<and> recorded (history z) i AK_Invocation AP_Finish (op_name op) (if is_ok r' then AO_Success else AO_Failed))"
    show "paging i request w r'' z" using hy z paging_calm [of i request w r' y z r''] by blast
    show "r'' = Ok val \<Longrightarrow> recorded (history z) i AK_Invocation AP_Finish (op_name op) AO_Success" for val
      using z by auto
  qed
qed

lemma safe_invoke_page:
  assumes view: "view i True False False [] w" and adm: "admitted d (history w) i q op"
    and prep: "prepared encoded q op pinv" and pr: "package_page (pi_action pinv) = Some request"
  shows "safe encoded d i (invoke_page d i seq op started dl request)
     (served i op (\<lambda>pre. paged pre request) w) w"
    (is "safe encoded d i _ ?Q w")
  unfolding invoke_page_def
proof (rule rg.sat_seq [OF safe_lease [OF view]])
  fix r :: "runtime_error + unit" and v
  assume v: "(r = Ok () \<longrightarrow> view i True False True [] v)
    \<and> (\<forall>e. r = Err e \<longrightarrow> view i True False False [] v) \<and> onward i w v"
  show "safe encoded d i (case r of
       Inl e \<Rightarrow> finish (d_limits d) i seq op AK_Invocation started (Err e)
     | Inr _ \<Rightarrow>
         bind (packages_page i (d_tokens d) (op_name op) request dl) (\<lambda>r.
         bind (enforce_deadline dl None r) (\<lambda>r.
         bind (finish (d_limits d) i seq op AK_Invocation started r) (settle_lease i)))) ?Q v"
  proof (cases r)
    case (Inl e)
    then have viewv: "view i True False False [] v" using v by simp
    have "?Q r' u" if "calm i v u \<and> (r' = Err RE_CompletionAuditFailed \<or> r' = Err e \<and> recorded (history u) i AK_Invocation AP_Finish
        (op_name op) (if is_ok (Err e :: runtime_error + json) then AO_Success else AO_Failed))" for r' u
      using that calm_view [OF _ viewv] v onward_trans [OF _ calm_onward] by blast
    then show ?thesis using Inl by (simp, intro rg.sat_mono [OF safe_finish [OF viewv]]) simp
  next
    case (Inr a)
    then have viewv: "view i True False True [] v" and onv: "onward i w v" using v by simp_all
    have "admitted d (history v) i q op" using adm onv by (auto simp: onward_def intro: admitted_mono)
    from safe_leased_page [OF viewv onv this prep pr] show ?thesis using Inr by simp
  qed
qed

lemma safe_under_permit:
  assumes "safe encoded d i p Q w" and "\<And>r v. Q r v \<Longrightarrow> \<exists>permit cs. view i permit False False cs v"
    and "\<And>r v u. Q r v \<Longrightarrow> set (history v) \<subseteq> set (history u) \<Longrightarrow> P r u"
  shows "safe encoded d i (under_permit i p) (\<lambda>r v. (\<exists>cs. view i False False False cs v) \<and> P r v) w"
  unfolding under_permit_def
proof (rule rg.sat_seq [OF assms(1)], rule safe_write)
  fix r v u assume v: "Q r v" and u: "rely i v u" "sound encoded d u"
  show "keeps encoded d i u (drop_permit i u)" using u(2) by (rule keeps_permit)
  obtain permit cs where "view i permit False False cs v" using assms(2) [OF v] by blast
  then have view: "view i False False False cs (drop_permit i u)" using view_permit(2) view_rely [OF _ u(1)] by blast
  show "safe encoded d i (Return r) (\<lambda>r v. (\<exists>cs. view i False False False cs v) \<and> P r v) (drop_permit i u)"
  proof (rule safe_return)
    fix x assume x: "rely i (drop_permit i u) x"
    have "set (history v) \<subseteq> set (history x)"
      using history_rely [OF u(1)] history_rely [OF x] by (simp add: drop_permit_def)
    then show "(\<exists>cs. view i False False False cs x) \<and> P r x" using view_rely [OF view x] assms(3) [OF v] by blast
  qed
qed

text \<open>What each answer means; a request that was turned away leaves nothing behind.\<close>

fun answer_explained ::
    "(operation \<Rightarrow> nat option) \<Rightarrow> (json \<Rightarrow> string \<Rightarrow> json option) \<Rightarrow> dispatcher \<Rightarrow> tid \<Rightarrow> request
     \<Rightarrow> happening list \<Rightarrow> answer \<Rightarrow> bool" where
  "answer_explained encoded pointer d i q pre (A_Value (Inr val)) = explained encoded pointer d i q pre val"
| "answer_explained encoded pointer d i q pre (A_Status (Inr st)) = (\<exists>op. permitted d q op
     \<and> recorded pre i AK_Capability AP_Start (op_name op) AO_Attempt
     \<and> recorded pre i AK_Capability AP_Finish (op_name op) AO_Success)"
| "answer_explained encoded pointer d i q pre _ = True"

lemma answer_explained_mono:
  "answer_explained encoded pointer d i q pre a \<Longrightarrow> set pre \<subseteq> set pre' \<Longrightarrow> answer_explained encoded pointer d i q pre' a"
  by (cases "(encoded, pointer, d, i, q, pre, a)" rule: answer_explained.cases)
    (auto intro: explained_mono recorded_mono)

abbreviation idle_after ::
    "(operation \<Rightarrow> nat option) \<Rightarrow> (json \<Rightarrow> string \<Rightarrow> json option) \<Rightarrow> dispatcher \<Rightarrow> tid \<Rightarrow> request
     \<Rightarrow> answer \<Rightarrow> world \<Rightarrow> bool" where
  "idle_after encoded pointer d i q a v \<equiv>
     (\<exists>cs. view i False False False cs v) \<and> answer_explained encoded pointer d i q (history v) a"

lemma idle_rejected:
  "calm i w v \<Longrightarrow> view i False False False cs w \<Longrightarrow> (\<exists>cs. view i False False False cs v)"
  using calm_view by blast

lemma safe_sequence: "safe encoded d i next_sequence (\<lambda>_. calm i w) w"
  unfolding next_sequence_def
proof (rule safe_step)
  fix v assume v: "rely i w v" "sound encoded d v"
  let ?v = "v\<lparr>sequence := (sequence v + 1) mod 2 ^ 64\<rparr>"
  have "keeps encoded d i v ?v" using v(2) by (auto simp: kept_by_def sound_def entry_ok_def rely_unfold)
  moreover have "calm i v ?v" by (simp add: calm_def view_def audit_idle_def written_def grows_def)
  ultimately show "keeps encoded d i v (fst (?v, Return (sequence v))) \<and>
      safe encoded d i (snd (?v, Return (sequence v))) (\<lambda>_. calm i w) (fst (?v, Return (sequence v)))"
    using calm_trans [OF calm_rely [OF v(1)]] calm_rely2 by auto
qed

lemma safe_invoke_permitted:
  assumes view: "view i True False False [] x" and adm: "admitted d (history x) i q op"
    and prep: "prepared encoded q op pinv"
  shows "safe encoded d i (invoke_permitted pointer d i seq op pinv) (served i op (\<lambda>pre val.
     case package_page (pi_action pinv) of
       None \<Rightarrow> projected pointer pinv i pre val | Some request \<Rightarrow> paged pre request val) x) x"
    (is "safe encoded d i _ (served i op ?P x) x")
  unfolding invoke_permitted_def
proof (intro safe_read)
  fix y z assume "rely i x y" "rely i y z"
  then have xz: "rely i x z" by (rule rely_trans)
  note viewz = view_rely [OF view xz] and admz = admitted_mono [OF adm history_rely [OF xz]]
  have weaken: "served i op P z r v \<Longrightarrow> served i op P x r v" for P r v
    using onward_trans [OF rely_onward [OF xz]] by blast
  show "safe encoded d i (case package_page (pi_action pinv) of
      Some request \<Rightarrow> invoke_page d i seq op (clock y) (clock z + millis (timeout_ms (d_limits d))) request
    | None \<Rightarrow> invoke_action pointer d i seq op pinv (clock y) (clock z + millis (timeout_ms (d_limits d))))
    (served i op ?P x) z"
  proof (cases "package_page (pi_action pinv)")
    case None
    show ?thesis unfolding None option.case
      by (rule rg.sat_mono [OF safe_invoke_action [OF viewz admz prep None]]) (rule weaken)
  next
    case (Some request)
    show ?thesis unfolding Some option.case
      by (rule rg.sat_mono [OF safe_invoke_page [OF viewz admz prep Some]]) (rule weaken)
  qed
qed

lemma safe_admitted:
  assumes view: "view i False False False [] u" and q: "q = Invoke name arguments"
    and arrived: "H_Arrived i q \<in> set (history u)" and perm: "permitted d q op" and prep: "prepared encoded q op pinv"
  shows "safe encoded d i (attempt (admit d i op seq AK_Invocation) (\<lambda>_.
      under_permit i (invoke_permitted pointer d i seq op pinv)))
     (\<lambda>r. idle_after encoded pointer d i q (A_Value r)) u"
proof (rule rg.sat_attempt [OF safe_admit [OF view]], goal_cases)
  case (1 e x)
  then show ?case by (auto dest: view_rely)
next
  case (2 a x)
  then have viewx: "view i True False False [] x"
    and started: "recorded (history x) i AK_Invocation AP_Start (op_name op) AO_Attempt"
    and sub: "set (history u) \<subseteq> set (history x)" by auto
  have adm: "admitted d (history x) i q op" using arrived sub perm started by (auto simp: admitted_def q)
  let ?P = "\<lambda>pre val. case package_page (pi_action pinv) of
      None \<Rightarrow> projected pointer pinv i pre val | Some request \<Rightarrow> paged pre request val"
  have mono: "?P pre val \<Longrightarrow> set pre \<subseteq> set pre' \<Longrightarrow> ?P pre' val" for pre pre' val
    by (auto split: option.splits intro: projected_mono paged_mono)
  show ?case
  proof (rule safe_under_permit [OF safe_invoke_permitted [OF viewx adm prep]])
    fix r v' u' assume s: "served i op ?P x r v'" and sub': "set (history v') \<subseteq> set (history u')"
    have start': "recorded (history u') i AK_Invocation AP_Start (op_name op) AO_Attempt"
      using s sub' by (intro recorded_mono [OF started]) (auto simp: onward_def)
    have "explained encoded pointer d i q (history u') val" if "r = Ok val" for val
      unfolding explained_def using s that perm prep start' mono [OF _ sub'] recorded_mono [OF _ sub'] by blast
    then show "answer_explained encoded pointer d i q (history u') (A_Value r)" by (cases r) auto
  qed blast
qed

lemma safe_invoke:
  assumes view: "view i False False False [] w" and q: "q = Invoke name arguments"
    and arrived: "H_Arrived i q \<in> set (history w)" and built: "catalog_built (d_catalog d)"
  shows "safe encoded d i (invoke encoded pointer d i name arguments)
     (\<lambda>r. idle_after encoded pointer d i q (A_Value r)) w"
    (is "safe encoded d i _ ?Q w")
  unfolding invoke_def
proof (rule rg.sat_seq [OF safe_sequence])
  fix seq v assume v: "calm i w v"
  have viewv: "view i False False False [] v" using v view by (rule calm_view)
  have name: "request_name q = Some name" by (simp add: q)
  show "safe encoded d i (attempt (authorize_request d i name seq AK_Invocation) (\<lambda>op.
     case prepare_invocation encoded op arguments of
       Inl e \<Rightarrow> attempt (reject (d_limits d) i seq (op_name op) AO_InvalidArguments AK_Invocation) (\<lambda>_.
           Return (Err (RE_Core e)))
     | Inr pinv \<Rightarrow> attempt (admit d i op seq AK_Invocation) (\<lambda>_.
           under_permit i (invoke_permitted pointer d i seq op pinv)))) ?Q v"
  proof (rule rg.sat_attempt [OF safe_authorize [OF viewv built name]], goal_cases)
    case (1 e u)
    then have "view i False False False [] u" using calm_view viewv by blast
    then show ?case by (auto dest: view_rely)
  next
    case (2 op u)
    then have viewu: "view i False False False [] u" and perm: "permitted d q op" using calm_view viewv by auto
    have arrivedu: "H_Arrived i q \<in> set (history u)" using arrived calm_history [OF v] 2 calm_history [of i v u] by blast
    show ?case
    proof (cases "prepare_invocation encoded op arguments")
      case (Inl e)
      have "?Q r x" if "calm i u x \<and> (\<exists>e. r = Err e)" for r x
        using that calm_view [OF _ viewu] by auto
      then show ?thesis using Inl by (simp, intro rg.sat_mono [OF safe_rejected [OF viewu]]) simp
    next
      case (Inr pinv)
      have "prepared encoded q op pinv" using Inr by (simp add: prepared_def q)
      from safe_admitted [OF viewu q arrivedu perm this] show ?thesis using Inr by simp
    qed
  qed
qed

abbreviation status_served :: "tid \<Rightarrow> operation \<Rightarrow> world \<Rightarrow> runtime_error + 'a \<Rightarrow> world \<Rightarrow> bool" where
  "status_served i op w r v \<equiv> (\<exists>cs. view i True False False cs v) \<and> onward i w v
     \<and> (is_ok r \<longrightarrow> recorded (history v) i AK_Capability AP_Finish (op_name op) AO_Success)"

lemma safe_status_finish:
  assumes "view i True False False cs v" and "onward i w v"
  shows "safe encoded d i (finish (d_limits d) i seq op AK_Capability started r) (status_served i op w) v"
proof (rule rg.sat_mono [OF safe_finish [OF assms(1)]])
  fix r' u
  assume u: "calm i v u \<and> (r' = Err RE_CompletionAuditFailed \<or> r' = r
    \<and> recorded (history u) i AK_Capability AP_Finish (op_name op) (if is_ok r then AO_Success else AO_Failed))"
  have "view i True False False cs u" using calm_view [OF _ assms(1)] u by blast
  moreover have "onward i w u" using onward_trans [OF assms(2) calm_onward] u by blast
  ultimately show "status_served i op w r' u" using u by auto
qed

abbreviation holding :: "tid \<Rightarrow> world \<Rightarrow> world \<Rightarrow> bool" where
  "holding i w v \<equiv> (\<exists>cs. view i True False False cs v) \<and> onward i w v"

lemma holding_calm: "holding i w v \<Longrightarrow> calm i v u \<Longrightarrow> holding i w u"
  using calm_view onward_trans [OF _ calm_onward] by blast

lemma safe_status_timed:
  assumes view: "view i True False False [] x" and adm: "admitted d (history x) i q op" and on: "onward i w x"
  shows "safe encoded d i (status_timed i op refresh dl) (\<lambda>_. holding i w) x"
  unfolding status_timed_def
proof (rule rg.sat_seq [OF safe_observe [OF view adm]])
  fix r v assume "observing i False (capability op) x r v"
  then have hv: "holding i w v" using onward_trans [OF on] by (auto simp: observing_def)
  have "safe encoded d i (attempt (enforce_deadline dl (Some ob) (Ok ())) (\<lambda>_.
             bind (observation_status i ob (capability op)) (\<lambda>st.
               enforce_deadline dl (Some ob) (Ok st)))) (\<lambda>r u. calm i v u) v" for ob
  proof (rule rg.sat_attempt [OF safe_deadline], goal_cases)
    case (1 e u)
    then show ?case by (auto intro: calm_rely2)
  next
    case (2 a u)
    show ?case
      by (rule rg.sat_seq [OF safe_status], rule rg.sat_mono [OF safe_deadline])
        (use 2 in \<open>blast intro: calm_trans\<close>)
  qed
  then have "safe encoded d i (bind (attempt (enforce_deadline dl (Some ob) (Ok ())) (\<lambda>_.
             bind (observation_status i ob (capability op)) (\<lambda>st.
               enforce_deadline dl (Some ob) (Ok st)))) (\<lambda>r. Return (Some ob, r))) (\<lambda>_. holding i w) v" for ob
  proof (rule rg.sat_seq, intro safe_return)
    fix r :: "runtime_error + capability_status" and u u' assume "calm i v u" "rely i u u'"
    then have "calm i v u'" by (rule calm_rely2)
    then show "holding i w u'" by (rule holding_calm [OF hv])
  qed
  then show "safe encoded d i (case r of
          Inl e \<Rightarrow> Return (None, Err e)
        | Inr ob \<Rightarrow> bind
            (attempt (enforce_deadline dl (Some ob) (Ok ())) (\<lambda>_.
             bind (observation_status i ob (capability op)) (\<lambda>st.
               enforce_deadline dl (Some ob) (Ok st)))) (\<lambda>r. Return (Some ob, r))) (\<lambda>_. holding i w) v"
    using holding_calm [OF hv calm_rely] by (cases r) (auto intro!: safe_return)
qed

lemma safe_status_action:
  assumes view: "view i True False False [] w" and adm: "admitted d (history w) i q op"
  shows "safe encoded d i (status_action d i seq op refresh started) (status_served i op w) w"
proof (cases "capture_required (capability op)")
  case True
  have "onward i w w" by (simp add: onward_def grows_def)
  then show ?thesis using True safe_status_finish [OF view] by (simp add: status_action_def)
next
  case False
  have ending: "safe encoded d i (bind (enforce_deadline dl issued r) (\<lambda>r.
          finish (d_limits d) i seq op AK_Capability started r)) (status_served i op w) v"
    if v: "holding i w v" for issued and r :: "runtime_error + capability_status" and v dl
  proof (rule rg.sat_seq [OF safe_deadline])
    fix r' u assume "calm i v u \<and> (r' = r \<or> r' = Err RE_Timeout)"
    then have "holding i w u" using holding_calm [OF v] by blast
    then show "safe encoded d i (finish (d_limits d) i seq op AK_Capability started r') (status_served i op w) u"
      using safe_status_finish by blast
  qed
  show ?thesis unfolding status_action_def if_not_P [OF False]
  proof (rule safe_read)
    fix x assume x: "rely i w x"
    show "safe encoded d i (bind (status_timed i op refresh (clock x + millis (timeout_ms (d_limits d)))) (\<lambda>(issued, r).
        bind (enforce_deadline (clock x + millis (timeout_ms (d_limits d))) issued r) (\<lambda>r.
          finish (d_limits d) i seq op AK_Capability started r))) (status_served i op w) x"
      by (rule rg.sat_seq [OF safe_status_timed [OF view_rely [OF view x] admitted_mono [OF adm history_rely [OF x]] rely_onward [OF x]]])
        (clarify, rule ending, blast)
  qed
qed

lemma safe_invalid_status:
  assumes u: "view i False False False [] u"
  shows "safe encoded d i (invalid_status d i seq name) (\<lambda>r. idle_after encoded pointer d i q (A_Status r)) u"
  unfolding invalid_status_def
proof (rule rg.sat_mono [OF safe_rejected [OF u]])
  fix r :: "runtime_error + capability_status" and x assume "calm i u x \<and> (\<exists>e. r = Err e)"
  then show "idle_after encoded pointer d i q (A_Status r) x" using calm_view [OF _ u] by auto
qed

lemma safe_status_admitted:
  assumes viewu: "view i False False False [] u" and q: "q = Capability_Status arguments"
    and arrived: "H_Arrived i q \<in> set (history u)" and perm: "permitted d q op"
  shows "safe encoded d i (attempt (admit d i op seq AK_Capability) (\<lambda>_. under_permit i
       (bind (reads clock) (\<lambda>started. status_action d i seq op refresh started))))
     (\<lambda>r. idle_after encoded pointer d i q (A_Status r)) u"
proof (rule rg.sat_attempt [OF safe_admit [OF viewu]], goal_cases)
  case (1 e x)
  then show ?case by (auto dest: view_rely)
next
  case (2 a x)
  then have viewx: "view i True False False [] x"
    and started: "recorded (history x) i AK_Capability AP_Start (op_name op) AO_Attempt"
    and sub: "set (history u) \<subseteq> set (history x)" by auto
  have adm: "admitted d (history x) i q op" using arrived sub perm started by (auto simp: admitted_def q)
  have body: "safe encoded d i (bind (reads clock) (\<lambda>started. status_action d i seq op refresh started)) (status_served i op x) x"
  proof (rule safe_read)
    fix z assume z: "rely i x z"
    have weaken: "status_served i op z r v \<Longrightarrow> status_served i op x r v"
      for r :: "runtime_error + capability_status" and v
      using onward_trans [OF rely_onward [OF z]] by blast
    show "safe encoded d i (status_action d i seq op refresh (clock z)) (status_served i op x) z"
      by (rule rg.sat_mono [OF safe_status_action [OF view_rely [OF viewx z] admitted_mono [OF adm history_rely [OF z]]]])
        (rule weaken)
  qed
  show ?case
  proof (rule safe_under_permit [OF body])
    fix r :: "runtime_error + capability_status" and v' u'
    assume s: "status_served i op x r v'" and sub': "set (history v') \<subseteq> set (history u')"
    have "recorded (history u') i AK_Capability AP_Start (op_name op) AO_Attempt"
      using s sub' by (intro recorded_mono [OF started]) (auto simp: onward_def)
    then show "answer_explained encoded pointer d i q (history u') (A_Status r)"
      using s perm recorded_mono [OF _ sub'] by (cases r) auto
  qed blast
qed

lemma safe_capability_status:
  assumes view: "view i False False False [] w" and q: "q = Capability_Status arguments"
    and arrived: "H_Arrived i q \<in> set (history w)" and built: "catalog_built (d_catalog d)"
  shows "safe encoded d i (capability_status_request d i arguments)
     (\<lambda>r. idle_after encoded pointer d i q (A_Status r)) w"
    (is "safe encoded d i _ ?Q w")
  unfolding capability_status_request_def
proof (rule rg.sat_seq [OF safe_sequence])
  fix seq v assume v: "calm i w v"
  have viewv: "view i False False False [] v" using v view by (rule calm_view)
  have named: "safe encoded d i (status_named d i seq name fs) ?Q v"
    if name: "request_name q = Some name" for name fs
    unfolding status_named_def
  proof (rule rg.sat_attempt [OF safe_authorize [OF viewv built name]], goal_cases)
    case (1 e u)
    then have "view i False False False [] u" using calm_view viewv by blast
    then show ?case by (auto dest: view_rely)
  next
    case (2 op u)
    then have viewu: "view i False False False [] u" and perm: "permitted d q op" using calm_view viewv by auto
    have "H_Arrived i q \<in> set (history u)" using arrived calm_history [OF v] 2 calm_history [of i v u] by blast
    from safe_status_admitted [OF viewu q this perm] show ?case
      using safe_invalid_status [OF viewu, of encoded d seq "op_name op" pointer q] by simp
  qed
  show "safe encoded d i (case as_object arguments of
          None \<Rightarrow> invalid_status d i seq ''unknown''
        | Some fs \<Rightarrow> (case Option.bind (map_of fs ''operation'') as_str of
              None \<Rightarrow> invalid_status d i seq ''unknown''
            | Some name \<Rightarrow> status_named d i seq name fs)) ?Q v"
    using safe_invalid_status [OF viewv, of encoded d seq "''unknown''" pointer q] named
    by (auto simp: q split: option.splits)
qed

section \<open>Every interleaving\<close>

definition answer_ok ::
    "(operation \<Rightarrow> nat option) \<Rightarrow> (json \<Rightarrow> string \<Rightarrow> json option) \<Rightarrow> dispatcher \<Rightarrow> tid \<Rightarrow> answer \<Rightarrow> world \<Rightarrow> bool" where
  "answer_ok encoded pointer d i a w \<longleftrightarrow>
     (\<exists>q. H_Arrived i q \<in> set (history w) \<and> idle_after encoded pointer d i q a w)"

lemma answer_ok_stable: "rg.stable (answer_ok encoded pointer d)"
  unfolding rg.stable_def answer_ok_def
proof (intro allI impI, elim exE conjE)
  fix i a w w' q cs
  assume "rely i w w'" "H_Arrived i q \<in> set (history w)" "view i False False False cs w"
    "answer_explained encoded pointer d i q (history w) a"
  then show "\<exists>q. H_Arrived i q \<in> set (history w') \<and> idle_after encoded pointer d i q a w'"
    using view_rely history_rely [of i w w'] answer_explained_mono by blast
qed

text \<open>Nothing is ever removed from the history.\<close>

lemma keeps_history: "keeps encoded d i w w' \<Longrightarrow> set (history w) \<subseteq> set (history w')"
  using history_rely [of "Suc i" w w'] by (simp add: kept_by_def)

lemma safe_history:
  "safe encoded d i p Q w \<Longrightarrow> hs \<subseteq> set (history w) \<Longrightarrow> safe encoded d i p (\<lambda>x v. Q x v \<and> hs \<subseteq> set (history v)) w"
proof (induction p arbitrary: w)
  case (Return x)
  then show ?case using history_rely [of i w] by (auto dest: subset_trans)
next
  case (Step f)
  show ?case unfolding sat_Step
  proof (intro allI impI)
    fix v assume v: "rely i w v" "sound encoded d v"
    then have step: "keeps encoded d i v (fst (f v))" "safe encoded d i (snd (f v)) Q (fst (f v))"
      using Step.prems(1) unfolding sat_Step by auto
    have "hs \<subseteq> set (history (fst (f v)))"
      using Step.prems(2) history_rely [OF v(1)] keeps_history [OF step(1)] by blast
    then show "keeps encoded d i v (fst (f v)) \<and> safe encoded d i (snd (f v)) (\<lambda>x v. Q x v \<and> hs \<subseteq> set (history v)) (fst (f v))"
      using step Step.IH [of "f v" "snd (f v)" "fst (f v)"] by (simp add: snds.simps prod_eq_iff)
  qed
next
  case (Await dl f late)
  show ?case unfolding sat_Await
  proof (intro allI impI conjI)
    fix v assume v: "rely i w v" "sound encoded d v"
    have pre: "hs \<subseteq> set (history v)" using Await.prems(2) history_rely [OF v(1)] by blast
    note now = Await.prems(1) [unfolded sat_Await, rule_format, OF v]
    show "keeps encoded d i v (drop_guards i v)" using now by blast
    show "dl \<le> clock v \<Longrightarrow> safe encoded d i late (\<lambda>x v. Q x v \<and> hs \<subseteq> set (history v)) v"
      using now Await.IH(2) [OF _ pre] by blast
    fix w'' p assume p: "f v = Some (w'', p)"
    show "keeps encoded d i v w''" using now p by blast
    then have "hs \<subseteq> set (history w'')" using pre keeps_history by blast
    then show "safe encoded d i p (\<lambda>x v. Q x v \<and> hs \<subseteq> set (history v)) w''"
      using now p Await.IH(1) [of "f v" "(w'', p)" p w''] rangeI [of f v] by auto
  qed
next
  case (Call c dl k)
  show ?case unfolding sat.simps
  proof (intro allI impI conjI)
    fix v assume v: "rely i w v" "sound encoded d v"
    have pre: "hs \<subseteq> set (history v)" using Call.prems(2) history_rely [OF v(1)] by blast
    note now = Call.prems(1) [unfolded sat.simps, rule_format, OF v]
    show "i \<in> set (permit_holders v)" using now by blast
    show "keeps encoded d i v (drop_guards i v)" using now by blast
    show "dl \<le> clock v \<Longrightarrow> safe encoded d i (k None) (\<lambda>x v. Q x v \<and> hs \<subseteq> set (history v)) v"
      using now Call.IH [OF _ _ pre] by blast
    fix r assume r: "fits c r"
    show kept: "keeps encoded d i v (happens (H_Replied i c r) v)" using now r by blast
    then have "hs \<subseteq> set (history (happens (H_Replied i c r) v))" using pre keeps_history by blast
    then show "safe encoded d i (k (Some r)) (\<lambda>x v. Q x v \<and> hs \<subseteq> set (history v)) (happens (H_Replied i c r) v)"
      using now r Call.IH by blast
  qed
qed simp

lemma safe_program:
  assumes "untouched i w" and "catalog_built (d_catalog d)"
  shows "safe encoded d i (program_of encoded pointer d i q) (answer_ok encoded pointer d i) (happens (H_Arrived i q) w)"
proof -
  let ?w = "happens (H_Arrived i q) w"
  have view: "view i False False False [] ?w" using assms(1) by (auto simp: untouched_def intro: view_happens)
  have arrived: "H_Arrived i q \<in> set (history ?w)" by (simp add: happens_def)
  have good: "safe encoded d i (Return a) (answer_ok encoded pointer d i) v"
    if "idle_after encoded pointer d i q a v" "set (history ?w) \<subseteq> set (history v)" for a v
  proof (rule safe_return)
    fix u assume "rely i v u"
    moreover have "answer_ok encoded pointer d i a v" using that arrived by (auto simp: answer_ok_def)
    ultimately show "answer_ok encoded pointer d i a u" using answer_ok_stable by (auto simp: rg.stable_def)
  qed
  show ?thesis
  proof (cases q)
    case (Invoke name arguments)
    have "program_of encoded pointer d i q = bind (invoke encoded pointer d i name arguments) (\<lambda>r. Return (A_Value r))"
      by (simp add: Invoke)
    then show ?thesis
      by (simp only:) (rule rg.sat_seq [OF safe_history [OF safe_invoke [OF view Invoke arrived assms(2)] subset_refl]],
        elim conjE, intro good conjI)
  next
    case (Capability_Status arguments)
    have "program_of encoded pointer d i q = bind (capability_status_request d i arguments) (\<lambda>r. Return (A_Status r))"
      by (simp add: Capability_Status)
    then show ?thesis
      by (simp only:) (rule rg.sat_seq [OF safe_history [OF safe_capability_status [OF view Capability_Status arrived assms(2)] subset_refl]],
        elim conjE, intro good conjI)
  qed
qed

lemma dispatcher_good:
  assumes "reachable encoded pointer d m" and "catalog_built (d_catalog d)"
  shows "rg.good encoded d (answer_ok encoded pointer d) m"
  by (rule rg.reachable_good [OF assms(1) answer_ok_stable]) (rule safe_program [OF _ assms(2)])

end
