(* ===== verification/Service.thy ===== *)
theory Service
  imports Requests
begin

text \<open>
  What follows for every reachable state of the machine of \<open>Dispatcher\<close>: the properties of the
  service as a whole, and a run of it from the arrival of a request to its answer.
\<close>

section \<open>What the dispatcher promises\<close>

lemma reachable_sound:
  assumes "reachable encoded pointer d (w, ts)" and "catalog_built (d_catalog d)"
  shows "sound encoded d w"
  using dispatcher_good [OF assms] by (simp add: rg.good_def)

lemma reachable_justified:
  assumes "reachable encoded pointer d (w, ts)" and "catalog_built (d_catalog d)"
    and "history w = pre @ h # post"
  shows "justified encoded d pre h"
proof -
  have "history_justified encoded d (history w)" using reachable_sound [OF assms(1,2)] by (simp add: sound_def)
  moreover have "length pre < length (history w)" using assms(3) by simp
  ultimately have "justified encoded d (take (length pre) (history w)) (history w ! length pre)"
    by (simp add: history_justified_def)
  then show ?thesis using assms(3) by simp
qed

lemma same_port_execute: "same_port (C_Execute a) c \<longleftrightarrow> (\<exists>b. c = C_Execute b)"
  by (cases c) auto

text \<open>
  Property C2: whatever a request sends to the device, under every interleaving of requests,
  cancellations, timeouts and reconnections, was entitled to be sent. Before the call is made the
  request arrived, its operation is the one the catalog holds under the requested name and
  the policy authorizes it, the sink has accepted its start event, the action is the prepared
  form of its arguments, and the request found an observation, obtained by probing the
  operation's own object and younger than its lifetime, whose signature fits that very action.
  No request makes a second execution.
\<close>

theorem execution_entitled:
  assumes "reachable encoded pointer d (w, ts)" and "catalog_built (d_catalog d)"
    and "history w = pre @ H_Called i (C_Execute act) # post"
  shows "\<exists>name arguments op pinv.
      H_Arrived i (Invoke name arguments) \<in> set pre
      \<and> catalog_get (d_catalog d) name = Ok (Some op) \<and> authorize (d_policy d) op = Ok ()
      \<and> recorded pre i AK_Invocation AP_Start (op_name op) AO_Attempt
      \<and> prepare_invocation encoded op arguments = Ok pinv \<and> act = pi_action pinv
      \<and> (\<exists>ob t object. H_Fresh i ob t \<in> set pre \<and> t - ob_started ob < capability_ttl
           \<and> probe_object (capability op) = Some object \<and> observed pre object ob
           \<and> evaluate (capability op) (ob_value ob) (Some act) = Compatible)
      \<and> (\<forall>other. C_Execute other \<notin> set (called i pre))"
proof -
  note just = reachable_justified [OF assms]
  then have once: "\<forall>other. C_Execute other \<notin> set (called i pre)"
    by (auto simp: list_all_iff same_port_execute)
  from just obtain q op pinv ob t object where
    adm: "admitted d pre i q op" and prep: "prepared encoded q op pinv" "act = pi_action pinv"
    and ob: "H_Fresh i ob t \<in> set pre" "probe_object (capability op) = Some object" "observed pre object ob"
      "evaluate (capability op) (ob_value ob) (Some act) = Compatible"
    by auto
  obtain pre1 pre2 where "pre = pre1 @ H_Fresh i ob t # pre2" using ob(1) by (auto dest: split_list)
  then have "justified encoded d pre1 (H_Fresh i ob t)"
    using reachable_justified [OF assms(1,2), of pre1 "H_Fresh i ob t"] assms(3) by simp
  then show ?thesis
    using adm prep ob once by (fastforce simp: admitted_def permitted_def prepared_def)
qed


text \<open>
  Property C9: the configured concurrency bounds the device's load: at no time are more
  requests waiting for the backend or the entropy source than \<^verbatim>\<open>max_concurrent\<close>, and at
  most one more than that wait for the audit.
\<close>

theorem device_load_bounded:
  assumes "reachable encoded pointer d (w, ts)" and "catalog_built (d_catalog d)"
  shows "card {i. \<exists>c dl k. ts i = Some (Live (Call c dl k))} \<le> max_concurrent (d_limits d)
     \<and> length (audit_waiters w) \<le> max_concurrent (d_limits d) + 1"
proof -
  note sound = reachable_sound [OF assms]
  have "{i. \<exists>c dl k. ts i = Some (Live (Call c dl k))} \<subseteq> set (permit_holders w)"
    using rg.sat_now(3) [OF dispatcher_good [OF assms]] by blast
  then have "card {i. \<exists>c dl k. ts i = Some (Live (Call c dl k))} \<le> card (set (permit_holders w))"
    by (rule card_mono [rotated]) simp
  also have "\<dots> \<le> length (permit_holders w)" by (rule card_length)
  finally show ?thesis using sound by (simp add: sound_def)
qed

lemma arrival_unique:
  assumes "reachable encoded pointer d (w, ts)" and "catalog_built (d_catalog d)"
    and "H_Arrived i q \<in> set (history w)" and "H_Arrived i q' \<in> set (history w)"
  shows "q = q'"
proof (rule ccontr)
  assume ne: "q \<noteq> q'"
  obtain m n where m: "m < length (history w)" "history w ! m = H_Arrived i q"
    and n: "n < length (history w)" "history w ! n = H_Arrived i q'"
    using assms(3,4) by (auto simp: in_set_conv_nth)
  have just: "justified encoded d (take k (history w)) (history w ! k)" if "k < length (history w)" for k
    using reachable_sound [OF assms(1,2)] that by (simp add: sound_def history_justified_def)
  have mem: "history w ! a \<in> set (take b (history w))" if "a < b" "b < length (history w)" for a b
    using that by (metis in_set_conv_nth length_take min.absorb4 nth_take order_less_trans)
  have "m \<noteq> n" using ne m n by auto
  then show False using just [OF m(1)] just [OF n(1)] mem [of m n] mem [of n m] m n by (cases "m < n") auto
qed

lemma answer_explained:
  assumes "reachable encoded pointer d (w, ts)" and "catalog_built (d_catalog d)"
    and "ts i = Some (Answered (A_Value (Ok val)))"
  obtains q where "H_Arrived i q \<in> set (history w)" "released i w" "explained encoded pointer d i q (history w) val"
proof -
  have "rg.task_ok encoded d (answer_ok encoded pointer d) i (ts i) w"
    using dispatcher_good [OF assms(1,2)] by (simp add: rg.good_def)
  then have "answer_ok encoded pointer d i (A_Value (Ok val)) w" using assms(3) by (simp add: rg.task_ok_def)
  then show thesis using that view_released by (auto simp: answer_ok_def)
qed

text \<open>
  Property C8: an invocation is answered with a value only when everything it claims is on
  record. If request \<open>i\<close>, which asked for \<open>name\<close> with \<open>arguments\<close>, is answered with a value, then its
  operation was authorized, both its start and its successful finish were accepted by the
  sink, and the value is the operation's own projection of an output the backend returned to
  that very request, or the requested page of an observation the backend captured; and the
  request holds no permit, no lock and no lease any more.
\<close>

theorem answer_is_accounted_for:
  assumes "reachable encoded pointer d (w, ts)" and "catalog_built (d_catalog d)"
    and "ts i = Some (Answered (A_Value (Ok val)))" and "H_Arrived i (Invoke name arguments) \<in> set (history w)"
  shows "released i w \<and> (\<exists>op pinv. catalog_get (d_catalog d) name = Ok (Some op)
      \<and> authorize (d_policy d) op = Ok () \<and> prepare_invocation encoded op arguments = Ok pinv
      \<and> recorded (history w) i AK_Invocation AP_Start (op_name op) AO_Attempt
      \<and> recorded (history w) i AK_Invocation AP_Finish (op_name op) AO_Success
      \<and> (case package_page (pi_action pinv) of
           None \<Rightarrow> \<exists>out. H_Replied i (C_Execute (pi_action pinv)) (R_Execute (Ok out)) \<in> set (history w)
             \<and> invocation_project pointer pinv out = Ok val
         | Some (profile, cursor) \<Rightarrow> \<exists>j records n offset.
             H_Replied j (C_Capture profile) (R_Capture (Ok records)) \<in> set (history w)
             \<and> observation_profile records = profile \<and> page records n offset = Ok val
             \<and> (case cursor of None \<Rightarrow> offset = 0
                | Some text \<Rightarrow> cursor_parse text = Ok \<lparr>cur_nonce = n, cur_offset = offset\<rparr>)))"
proof -
  from assms(1-3) obtain q where q: "H_Arrived i q \<in> set (history w)" and released: "released i w"
    and expl: "explained encoded pointer d i q (history w) val"
    by (rule answer_explained)
  have q_is: "q = Invoke name arguments" by (rule arrival_unique [OF assms(1,2) q assms(4)])
  from expl obtain op pinv where op: "catalog_get (d_catalog d) name = Ok (Some op)"
      "authorize (d_policy d) op = Ok ()" "prepare_invocation encoded op arguments = Ok pinv"
      "recorded (history w) i AK_Invocation AP_Start (op_name op) AO_Attempt"
      "recorded (history w) i AK_Invocation AP_Finish (op_name op) AO_Success"
    and how: "case package_page (pi_action pinv) of None \<Rightarrow> projected pointer pinv i (history w) val
        | Some request \<Rightarrow> paged (history w) request val"
    by (auto simp: q_is explained_def permitted_def prepared_def)
  show ?thesis
  proof (rule conjI [OF released], intro exI conjI, (rule op)+)
    show "case package_page (pi_action pinv) of
           None \<Rightarrow> \<exists>out. H_Replied i (C_Execute (pi_action pinv)) (R_Execute (Ok out)) \<in> set (history w)
             \<and> invocation_project pointer pinv out = Ok val
         | Some (profile, cursor) \<Rightarrow> \<exists>j records n offset.
             H_Replied j (C_Capture profile) (R_Capture (Ok records)) \<in> set (history w)
             \<and> observation_profile records = profile \<and> page records n offset = Ok val
             \<and> (case cursor of None \<Rightarrow> offset = 0
                | Some text \<Rightarrow> cursor_parse text = Ok \<lparr>cur_nonce = n, cur_offset = offset\<rparr>)"
    proof (cases "package_page (pi_action pinv)")
      case None
      then show ?thesis using how by (simp add: projected_def)
    next
      case (Some request)
      then show ?thesis using how by (cases request) (auto simp: paged_def)
    qed
  qed
qed

section \<open>Requests end\<close>

text \<open>What one step can do to the task of a request.\<close>

inductive descends :: "task option \<Rightarrow> task option \<Rightarrow> bool" where
  "descends None (Some (Live p))"
| "f w = (w', p) \<Longrightarrow> descends (Some (Live (Step f))) (Some (Live p))"
| "f w = Some (w', p) \<Longrightarrow> descends (Some (Live (Await dl f late))) (Some (Live p))"
| "descends (Some (Live (Await dl f late))) (Some (Live late))"
| "descends (Some (Live (Call c dl k))) (Some (Live (k r)))"
| "descends (Some (Live p)) (Some (Answered a))"
| "descends (Some (Live p)) (Some Cancelled)"

inductive_cases descends_Live: "descends (Some (Live p)) t"
inductive_cases descends_ended: "descends (Some (Answered a)) t" "descends (Some Cancelled) t"
inductive_cases descends_None: "descends None t"

lemma moves_task: "moves m m' \<Longrightarrow> snd m' i = snd m i \<or> descends (snd m i) (snd m' i)"
  by (induction rule: moves.induct) (auto intro: descends.intros)

lemma disturbs_task: "disturbs encoded pointer d m m' \<Longrightarrow> snd m' i = snd m i \<or> descends (snd m i) (snd m' i)"
  by (induction rule: disturbs.induct) (auto intro: descends.intros)

lemma descends_ended_acc:
  "Wellfounded.accp (\<lambda>y x. descends x y) (Some (Answered a))"
  "Wellfounded.accp (\<lambda>y x. descends x y) (Some Cancelled)"
  by (rule accp.accI, erule descends_ended)+

lemma descends_live_acc: "Wellfounded.accp (\<lambda>y x. descends x y) (Some (Live p))"
proof (induction p)
  case (Return x)
  show ?case by (rule accp.accI, erule descends_Live) (simp_all add: descends_ended_acc)
next
  case Abort
  show ?case by (rule accp.accI, erule descends_Live) (simp_all add: descends_ended_acc)
next
  case (Step f)
  have "Wellfounded.accp (\<lambda>y x. descends x y) (Some (Live p))" if "f w = (w', p)" for w w' p
    by (rule Step [of "f w", OF rangeI]) (simp add: that)
  then show ?case
    by - (rule accp.accI, erule descends_Live, simp_all add: descends_ended_acc)
next
  case (Await dl f late)
  have "Wellfounded.accp (\<lambda>y x. descends x y) (Some (Live p))" if "f w = Some (w', p)" for w w' p
    by (rule Await(1) [of "f w" "(w', p)", OF rangeI]) (simp_all add: that)
  with Await(2) show ?case
    by - (rule accp.accI, erule descends_Live, auto simp: descends_ended_acc)
next
  case (Call c dl k)
  then have "Wellfounded.accp (\<lambda>y x. descends x y) (Some (Live (k r)))" for r by (blast intro: rangeI)
  then show ?case by - (rule accp.accI, erule descends_Live, simp_all add: descends_ended_acc)
qed

lemma descends_acc: "Wellfounded.accp (\<lambda>y x. descends x y) t"
proof (cases t)
  case None
  then show ?thesis by (simp only:) (rule accp.accI, erule descends_None, simp add: descends_live_acc)
next
  case (Some a)
  then show ?thesis by (cases a) (simp_all add: descends_live_acc descends_ended_acc)
qed

lemma descending_settles:
  fixes f :: "nat \<Rightarrow> task option"
  assumes "\<And>n. f (Suc n) = f n \<or> descends (f n) (f (Suc n))"
  shows "\<exists>N. \<forall>n \<ge> N. f n = f N"
proof -
  have "\<exists>N. \<forall>n \<ge> N. f n = f N" if "f k = t" for k t
    using descends_acc [of t] that
  proof (induction arbitrary: k rule: accp.induct)
    case (accI t)
    show ?case
    proof (cases "\<forall>n \<ge> k. f (Suc n) = f n")
      case True
      have "f n = f k" if "k \<le> n" for n using that by (induction rule: dec_induct) (use True in auto)
      then show ?thesis by blast
    next
      case False
      then obtain m where m: "k \<le> m" "f (Suc m) \<noteq> f m" "\<And>n. k \<le> n \<Longrightarrow> n < m \<Longrightarrow> f (Suc n) = f n"
        using exists_least_iff [of "\<lambda>n. k \<le> n \<and> f (Suc n) \<noteq> f n"] by auto
      have "f n = f k" if "k \<le> n" "n \<le> m" for n using that by (induction rule: dec_induct) (use m(3) in auto)
      then have "descends t (f (Suc m))" using m(1,2) assms [of m] accI.prems by auto
      then show ?thesis using accI.IH by blast
    qed
  qed
  then show ?thesis by blast
qed


lemma passes_time:
  "reachable encoded pointer d (w, ts) \<Longrightarrow> reachable encoded pointer d (w\<lparr>clock := max (clock w) t\<rparr>, ts)"
  by (rule reachable.disturbed, assumption, rule disturbs.passes) simp


section \<open>A run of the dispatcher\<close>

datatype choice = Go tid | Answer tid reply | Audit_Ends worker_end

fun play :: "choice \<Rightarrow> machine \<Rightarrow> machine" where
  "play (Go i) (w, ts) = (case ts i of
       Some (Live p) \<Rightarrow> (case p of
           Step f \<Rightarrow> (case f w of (w', p) \<Rightarrow> (w', ts(i \<mapsto> Live p)))
         | Await dl f late \<Rightarrow> (case f w of Some (w', p) \<Rightarrow> (w', ts(i \<mapsto> Live p)) | None \<Rightarrow> (w, ts))
         | Return a \<Rightarrow> (w, ts(i \<mapsto> Answered a))
         | _ \<Rightarrow> (w, ts))
     | _ \<Rightarrow> (w, ts))"
| "play (Answer i r) (w, ts) = (case ts i of
       Some (Live (Call c dl k)) \<Rightarrow>
         if fits c r then (happens (H_Replied i c r) w, ts(i \<mapsto> Live (k (Some r)))) else (w, ts)
     | _ \<Rightarrow> (w, ts))"
| "play (Audit_Ends e) (w, ts) = (if worker w \<noteq> None then (worker_ends e w, ts) else (w, ts))"

definition sample_dispatcher :: dispatcher where
  "sample_dispatcher = \<lparr>d_catalog = sample_catalog, d_policy = sample_policy, d_limits = default_limits, d_tokens = True\<rparr>"

definition sample_object :: capability_observation where
  "sample_object = CO_Ubus \<lparr>obs_object = RO_Uci,
     obs_methods = [(''get'', \<lparr>sig_arguments = [(''config'', UT_String), (''type'', UT_String)]\<rparr>)]\<rparr>"

definition sample_output :: json where
  "sample_output = JObj [(''values'', JObj [(''cfg1'', JObj [(''.type'', JStr ''system'')])])]"

definition sample_start :: machine where
  "sample_start = (happens (H_Arrived 0 (Invoke ''system_config'' (JObj []))) (initial_world 0 7 (Some 1)),
     [0 \<mapsto> Live (program_of sample_encoded sample_pointer sample_dispatcher 0 (Invoke ''system_config'' (JObj [])))])"

definition sample_choices :: "choice list" where
  "sample_choices = replicate 9 (Go 0) @ [Audit_Ends W_Recorded] @ replicate 10 (Go 0)
     @ [Answer 0 (R_Probe (Ok sample_object))] @ replicate 10 (Go 0)
     @ [Answer 0 (R_Execute (Ok sample_output))] @ replicate 11 (Go 0) @ [Audit_Ends W_Recorded] @ replicate 4 (Go 0)"

definition sample_end :: machine where
  "sample_end = fold play sample_choices sample_start"

lemma play_reachable: "reachable encoded pointer d m \<Longrightarrow> reachable encoded pointer d (play c m)"
  by (cases "(c, m)" rule: play.cases)
    (auto split: option.splits task.splits prog.splits prod.splits intro: reachable.moving moves.intros)

lemma sample_reachable: "reachable sample_encoded sample_pointer sample_dispatcher sample_end"
proof -
  have "reachable sample_encoded sample_pointer sample_dispatcher sample_start"
    unfolding sample_start_def
    by (rule reachable.disturbed [OF reachable.initially], rule disturbs.arrives) simp
  then have "reachable sample_encoded sample_pointer sample_dispatcher (fold play cs sample_start)" for cs
    by (induction cs rule: rev_induct) (auto intro: play_reachable)
  then show ?thesis by (simp add: sample_end_def)
qed

definition sample_value :: json where
  "sample_value = JObj [(''items'', JArr [JObj [(''kind'', JStr ''system''), (''section'', JStr ''cfg1'')]])]"

definition sample_action :: prepared_action where
  "sample_action = PA_Ubus ''uci'' ''get'' (JObj [(''config'', JStr ''system''), (''type'', JStr ''system'')])"

fun reply_wf :: "happening \<Rightarrow> bool" where
  "reply_wf (H_Replied j c (R_Execute (Inr out))) = json_wf out"
| "reply_wf _ = True"

fun run_shows :: "machine \<Rightarrow> bool" where
  "run_shows (w, ts) \<longleftrightarrow>
     (case ts 0 of Some (Answered (A_Value (Inr v))) \<Rightarrow> v = sample_value | _ \<Rightarrow> False)
     \<and> length (history w) = 8 \<and> history w ! 0 = H_Arrived 0 (Invoke ''system_config'' (JObj []))
     \<and> history w ! 5 = H_Called 0 (C_Execute sample_action) \<and> list_all reply_wf (history w)"

lemma sample_run: "run_shows sample_end"
  by code_simp

lemma sample_shows:
  obtains w ts pre post where "sample_end = (w, ts)" "ts 0 = Some (Answered (A_Value (Ok sample_value)))"
    "history w = pre @ H_Called 0 (C_Execute sample_action) # post"
    "H_Arrived 0 (Invoke ''system_config'' (JObj [])) \<in> set pre"
proof -
  obtain w ts where m: "sample_end = (w, ts)" by (cases sample_end)
  have seen: "run_shows (w, ts)" using sample_run m by simp
  have "history w = take 5 (history w) @ H_Called 0 (C_Execute sample_action) # drop 6 (history w)"
    using seen id_take_nth_drop [of 5 "history w"] by simp
  moreover have "H_Arrived 0 (Invoke ''system_config'' (JObj [])) \<in> set (take 5 (history w))"
    using seen by (auto simp: in_set_conv_nth intro!: exI [of _ 0])
  moreover have "ts 0 = Some (Answered (A_Value (Ok sample_value)))"
    using seen by (auto split: option.splits task.splits answer.splits sum.splits)
  ultimately show thesis using that m by blast
qed

lemma sample_replies_wf:
  assumes "sample_end = (w, ts)" and "H_Replied j c (R_Execute (Ok out)) \<in> set (history w)"
  shows "json_wf out"
proof -
  have "run_shows (w, ts)" using sample_run assms(1) by simp
  then have "list_all reply_wf (history w)" by simp
  then have "reply_wf (H_Replied j c (R_Execute (Ok out)))" using assms(2) unfolding list_all_iff by blast
  then show ?thesis by simp
qed

lemma sample_built: "catalog_built (d_catalog sample_dispatcher)"
  using sample_catalog_built by (auto simp: catalog_built_def sample_dispatcher_def)

theorem execution_entitled_witness:
  "\<exists>pre. H_Arrived 0 (Invoke ''system_config'' (JObj [])) \<in> set pre
     \<and> recorded pre 0 AK_Invocation AP_Start ''system_config'' AO_Attempt
     \<and> (\<exists>ob t. H_Fresh 0 ob t \<in> set pre \<and> evaluate (capability sample_uci) (ob_value ob) (Some sample_action) = Compatible)"
proof -
  obtain w ts pre post where run: "sample_end = (w, ts)"
    "history w = pre @ H_Called 0 (C_Execute sample_action) # post"
    "H_Arrived 0 (Invoke ''system_config'' (JObj [])) \<in> set pre"
    by (rule sample_shows)
  note reach = sample_reachable [unfolded run(1)]
  from execution_entitled [OF reach sample_built run(2)] obtain name arguments op where
    op: "H_Arrived 0 (Invoke name arguments) \<in> set pre" "catalog_get (d_catalog sample_dispatcher) name = Ok (Some op)"
      "recorded pre 0 AK_Invocation AP_Start (op_name op) AO_Attempt"
      "\<exists>ob t. H_Fresh 0 ob t \<in> set pre \<and> evaluate (capability op) (ob_value ob) (Some sample_action) = Compatible"
    by blast
  have "Invoke name arguments = Invoke ''system_config'' (JObj [])"
    by (rule arrival_unique [OF reach sample_built, of 0]) (use op(1) run(2,3) in simp_all)
  then have "op = sample_uci" using op(2) by (simp add: sample_dispatcher_def sample_catalog_def catalog_get_def at_def)
  then show ?thesis using op run(3) by (intro exI [of _ pre]) (simp add: sample_uci_def)
qed


theorem device_load_bounded_witness:
  "card {i. \<exists>c dl k. snd sample_end i = Some (Live (Call c dl k))} \<le> 2"
proof -
  obtain w ts where run: "sample_end = (w, ts)" by (cases sample_end)
  show ?thesis using device_load_bounded [OF sample_reachable [unfolded run] sample_built]
    by (simp add: run sample_dispatcher_def default_limits_def)
qed

theorem answer_is_accounted_for_witness: "released 0 (fst sample_end)"
proof -
  obtain w ts pre post where run: "sample_end = (w, ts)" "ts 0 = Some (Answered (A_Value (Ok sample_value)))"
    "history w = pre @ H_Called 0 (C_Execute sample_action) # post"
    "H_Arrived 0 (Invoke ''system_config'' (JObj [])) \<in> set pre"
    by (rule sample_shows)
  have "H_Arrived 0 (Invoke ''system_config'' (JObj [])) \<in> set (history w)" using run(4) by (simp add: run(3))
  from answer_is_accounted_for [OF sample_reachable [unfolded run(1)] sample_built run(2) this]
  show ?thesis by (simp add: run(1))
qed



end
