(* ===== verification/Mcp.thy ===== *)
theory Mcp
  imports Service
begin

text \<open>
  The protocol front (\<^verbatim>\<open>mcp/src/framing.rs\<close>, \<^verbatim>\<open>protocol.rs\<close>, \<^verbatim>\<open>result.rs\<close>): the bound on
  incoming lines, the tools that are listed, the routing of a call to the dispatcher and the
  bounded result. The transport and the message types of the \<^verbatim>\<open>rmcp\<close> library stay outside: the
  inner reader is a port, and the pieces in which an encoder writes a value are a parameter.
\<close>

section \<open>Framing\<close>

definition max_frame_bytes :: nat where [limit_defs]: "max_frame_bytes = 65536"
definition scratch_bytes :: nat where [limit_defs]: "scratch_bytes = 4096"

datatype 'e input_error = Frame_Too_Large | Source_Error 'e

datatype 'e poll = Pending | Ready_Err 'e | Ready_Bytes string

record 'w bounded_input =
  bi_inner :: 'w
  line_bytes :: nat
  bi_failed :: bool

definition bounded_input_new :: "'w \<Rightarrow> 'w bounded_input" where
  "bounded_input_new inner = \<lparr>bi_inner = inner, line_bytes = 0, bi_failed = False\<rparr>"

text \<open>The loop over the bytes read: the bytes of the open line, and whether it became too long.\<close>

fun count_bytes :: "string \<Rightarrow> nat \<Rightarrow> nat \<times> bool" where
  "count_bytes [] n = (n, False)"
| "count_bytes (c # cs) n =
     (if c = CHR 0x0A then count_bytes cs 0
      else if n + 1 > max_frame_bytes then (n + 1, True)
      else count_bytes cs (n + 1))"

definition poll_read ::
    "(nat \<Rightarrow> 'w \<Rightarrow> 'e poll \<times> 'w) \<Rightarrow> nat \<Rightarrow> 'w bounded_input \<Rightarrow> 'e input_error poll \<times> 'w bounded_input" where
  "poll_read source remaining s =
     (if bi_failed s then (Ready_Err Frame_Too_Large, s)
      else if remaining = 0 then (Ready_Bytes [], s)
      else case source (min remaining scratch_bytes) (bi_inner s) of
          (Pending, w) \<Rightarrow> (Pending, s\<lparr>bi_inner := w\<rparr>)
        | (Ready_Err e, w) \<Rightarrow> (Ready_Err (Source_Error e), s\<lparr>bi_inner := w\<rparr>)
        | (Ready_Bytes bs, w) \<Rightarrow> (case count_bytes bs (line_bytes s) of (n, too_long) \<Rightarrow>
            if too_long
            then (Ready_Err Frame_Too_Large, s\<lparr>bi_inner := w, line_bytes := n, bi_failed := True\<rparr>)
            else (Ready_Bytes bs, s\<lparr>bi_inner := w, line_bytes := n\<rparr>)))"

section \<open>Results\<close>

definition max_call_result_bytes :: nat where [limit_defs]: "max_call_result_bytes = 262144"

text \<open>\<^verbatim>\<open>Counter::write\<close> for each piece that the encoder writes; \<^verbatim>\<open>fits\<close>.\<close>

definition counter_write :: "string \<Rightarrow> nat \<Rightarrow> unit + nat" where
  "counter_write bs remaining = ok_or () (checked_sub remaining (length bs))"

definition fits :: "nat \<Rightarrow> string list \<Rightarrow> bool" where
  "fits limit pieces = is_ok (fold_res counter_write pieces limit)"

record call_tool_result =
  ctr_content :: "string list"
  ctr_structured_content :: "json option"
  ctr_is_error :: "bool option"

record encoders =
  write_value :: "json \<Rightarrow> string list"
  write_result :: "call_tool_result \<Rightarrow> string list"

definition failure :: "string \<Rightarrow> call_tool_result" where
  "failure code = \<lparr>ctr_content = [json_text (JObj [(''error'', JStr code)])],
     ctr_structured_content = None, ctr_is_error = Some True\<rparr>"

definition delivered :: "json \<Rightarrow> call_tool_result" where
  "delivered v = \<lparr>ctr_content = [json_text v], ctr_structured_content = Some v, ctr_is_error = Some False\<rparr>"

definition success :: "encoders \<Rightarrow> json \<Rightarrow> call_tool_result" where
  "success enc v =
     (if \<not> fits max_normalized_bytes (write_value enc v) then failure ''output_limit''
      else if \<not> fits max_call_result_bytes (write_result enc (delivered v)) then failure ''output_limit''
      else delivered v)"

section \<open>Tools\<close>

record tool =
  tool_name :: string
  tool_description :: string
  tool_schema :: "(string \<times> json) list"
  read_only_hint :: bool
  destructive_hint :: bool
  idempotent_hint :: bool
  open_world_hint :: bool

definition tool_of :: "(string \<Rightarrow> json option) \<Rightarrow> operation \<Rightarrow> tool" where
  "tool_of from_str op =
     (let schema = (case as_object (input_schema from_str op) of None \<Rightarrow> [] | Some fs \<Rightarrow> fs);
          read_only = list_all (\<lambda>r. permission r = Perm_Read) (requirements op)
      in \<lparr>tool_name = op_name op, tool_description = description op, tool_schema = schema,
          read_only_hint = read_only, destructive_hint = (\<not> read_only),
          idempotent_hint = (read_only \<and> package_profile_of (op_action op) = None),
          open_world_hint = False\<rparr>)"

definition capability_tool :: tool where
  "capability_tool =
     \<lparr>tool_name = capability_tool_name,
      tool_description = ''Check compatibility metadata for an authorized operation. Ubus uses input signatures; closed package queries report capture_required without capturing. Does not prove response/hardware support. Refresh discards cached ubus evidence.'',
      tool_schema = bt_of_list
        [(''type'', JStr ''object''),
         (''properties'', JObj (bt_of_list
            [(''operation'', JObj (bt_of_list [(''type'', JStr ''string''), (''maxLength'', json_nat 64)])),
             (''refresh'', JObj (bt_of_list [(''type'', JStr ''boolean''), (''default'', JBool False)]))])),
         (''required'', JArr [JStr ''operation'']),
         (''additionalProperties'', JBool False)],
      read_only_hint = True, destructive_hint = False, idempotent_hint = True, open_world_hint = False\<rparr>"

definition list_tools :: "(string \<Rightarrow> json option) \<Rightarrow> dispatcher \<Rightarrow> string option \<Rightarrow> string + tool list" where
  "list_tools from_str d cursor =
     (if cursor \<noteq> None then Err ''invalid_cursor''
      else let tools = map (tool_of from_str) (available_operations d)
           in Ok (if tools \<noteq> [] then tools @ [capability_tool] else tools))"

section \<open>Calls\<close>

text \<open>\<^verbatim>\<open>json!(status)\<close> with the derived \<^verbatim>\<open>Serialize\<close>.\<close>

definition status_json :: "capability_status \<Rightarrow> json" where
  "status_json st = JObj (bt_of_list
     [(''compatibility'', JStr (cs_compatibility st)), (''reason'', JStr (cs_reason st)),
      (''scope'', JStr (cs_scope st)),
      (''response_contract'', case cs_response_contract st of None \<Rightarrow> JNull | Some s \<Rightarrow> JStr s),
      (''remaining_ttl_ms'', case cs_remaining_ttl_ms st of None \<Rightarrow> JNull | Some n \<Rightarrow> json_nat n)])"

definition call_tool ::
    "encoders \<Rightarrow> (operation \<Rightarrow> nat option) \<Rightarrow> (json \<Rightarrow> string \<Rightarrow> json option) \<Rightarrow> dispatcher \<Rightarrow> tid
     \<Rightarrow> string \<Rightarrow> (string \<times> json) list option \<Rightarrow> call_tool_result prog" where
  "call_tool enc encoded pointer d me name arguments =
     (let arguments = JObj (case arguments of None \<Rightarrow> [] | Some fs \<Rightarrow> fs) in
      bind (if name = capability_tool_name
            then bind (capability_status_request d me arguments) (\<lambda>r. Return (and_then r (\<lambda>st. Ok (status_json st))))
            else invoke encoded pointer d me name arguments) (\<lambda>outcome.
        Return (case outcome of Inr v \<Rightarrow> success enc v | Inl e \<Rightarrow> failure (runtime_error_code e))))"

text \<open>The same as a request of the dispatcher's machine and a function of its answer.\<close>

definition routed_request :: "string \<Rightarrow> (string \<times> json) list option \<Rightarrow> request" where
  "routed_request name arguments = (let arguments = JObj (case arguments of None \<Rightarrow> [] | Some fs \<Rightarrow> fs) in
     if name = capability_tool_name then Capability_Status arguments else Invoke name arguments)"

fun answer_result :: "encoders \<Rightarrow> answer \<Rightarrow> call_tool_result" where
  "answer_result enc (A_Value r) = (case r of Inr v \<Rightarrow> success enc v | Inl e \<Rightarrow> failure (runtime_error_code e))"
| "answer_result enc (A_Status r) = (case r of Inr st \<Rightarrow> success enc (status_json st) | Inl e \<Rightarrow> failure (runtime_error_code e))"

lemma bind_bind: "bind (bind p f) g = bind p (\<lambda>x. bind (f x) g)"
proof (induction p)
  case (Step s)
  have "bind (bind (snd (s w)) f) g = bind (snd (s w)) (\<lambda>x. bind (f x) g)" for w
    by (rule Step [OF rangeI [of s w]]) (simp add: snds.intros)
  then show ?case by (simp add: fun_eq_iff map_prod_def split_def)
next
  case (Await d r late)
  have "bind (bind p f) g = bind p (\<lambda>x. bind (f x) g)" if "r w = Some (v, p)" for w v p
    by (rule Await(1) [OF rangeI [of r w]]) (auto simp: that prod_set_defs)
  with Await(2) show ?case by (auto simp: fun_eq_iff option.map_comp intro!: option.map_cong0)
next
  case (Call c d k)
  have "bind (bind (k r) f) g = bind (k r) (\<lambda>x. bind (f x) g)" for r by (rule Call [OF rangeI])
  then show ?case by (simp add: fun_eq_iff)
qed simp_all

lemma status_outcome:
  "(case and_then r (\<lambda>st. Ok (status_json st)) of Inr v \<Rightarrow> success enc v | Inl e \<Rightarrow> failure (runtime_error_code e))
   = answer_result enc (A_Status r)"
  by (cases r) simp_all

lemma call_tool_routed:
  "call_tool enc encoded pointer d me name arguments =
     bind (program_of encoded pointer d me (routed_request name arguments)) (\<lambda>a. Return (answer_result enc a))"
  by (simp add: call_tool_def routed_request_def Let_def bind_bind status_outcome del: answer_result.simps(2))

section \<open>Lines stay bounded\<close>

text \<open>
  The buffers \<open>caps\<close> offered by the reader of the protocol, one per poll: the bytes that it receives
  through the bound, and the bytes that it would receive from the source itself.
\<close>

fun polls :: "(nat \<Rightarrow> 'w \<Rightarrow> 'e poll \<times> 'w) \<Rightarrow> nat list \<Rightarrow> 'w bounded_input \<Rightarrow> string" where
  "polls source [] s = []"
| "polls source (cap # caps) s = (case poll_read source cap s of (r, s') \<Rightarrow>
     (case r of Ready_Bytes bs \<Rightarrow> bs | _ \<Rightarrow> []) @ polls source caps s')"

fun source_polls :: "(nat \<Rightarrow> 'w \<Rightarrow> 'e poll \<times> 'w) \<Rightarrow> nat list \<Rightarrow> 'w \<Rightarrow> string" where
  "source_polls source [] w = []"
| "source_polls source (cap # caps) w =
     (if cap = 0 then source_polls source caps w
      else case source (min cap scratch_bytes) w of (r, w') \<Rightarrow>
        (case r of Ready_Bytes bs \<Rightarrow> bs | _ \<Rightarrow> []) @ source_polls source caps w')"

definition short_lines :: "string \<Rightarrow> bool" where
  "short_lines bs = list_all (\<lambda>line. length line \<le> max_frame_bytes) (split_char (CHR 0x0A) bs)"

lemma count_bytes_append:
  "count_bytes (a @ b) n = (if snd (count_bytes a n) then count_bytes a n else count_bytes b (fst (count_bytes a n)))"
  by (induction a arbitrary: n) auto

lemma count_bytes_iff:
  "n \<le> max_frame_bytes \<Longrightarrow> \<not> snd (count_bytes bs n) \<longleftrightarrow>
     (case split_char (CHR 0x0A) bs of [] \<Rightarrow> True
      | line # ls \<Rightarrow> n + length line \<le> max_frame_bytes \<and> list_all (\<lambda>line. length line \<le> max_frame_bytes) ls)"
  by (induction bs arbitrary: n) (auto split: list.splits simp: Suc_le_eq)

lemma short_lines_iff: "short_lines bs \<longleftrightarrow> \<not> snd (count_bytes bs 0)"
  using count_bytes_iff [of 0 bs] by (auto simp: short_lines_def split: list.splits)

text \<open>
  What was delivered so far is \<open>seen\<close>; the open line of the bound is the open line of \<open>seen\<close>.
\<close>

lemma polls_bounded:
  assumes "bi_failed s \<or> count_bytes seen 0 = (line_bytes s, False)" and "short_lines seen"
  shows "short_lines (seen @ polls source caps s)
    \<and> prefix (polls source caps s) (if bi_failed s then [] else source_polls source caps (bi_inner s))
    \<and> (\<not> bi_failed s \<longrightarrow> short_lines (seen @ source_polls source caps (bi_inner s))
        \<longrightarrow> polls source caps s = source_polls source caps (bi_inner s))"
  using assms
proof (induction caps arbitrary: s seen)
  case (Cons cap caps)
  show ?case
  proof (cases "bi_failed s")
    case True
    then have "polls source (cap # caps) s = polls source caps s" by (simp add: poll_read_def)
    then show ?thesis using Cons.IH [of s seen] Cons.prems True by simp
  next
    case False
    then have seen: "count_bytes seen 0 = (line_bytes s, False)" using Cons.prems(1) by simp
    show ?thesis
    proof (cases "cap = 0")
      case True
      then show ?thesis using Cons.IH [of s seen] Cons.prems False by (simp add: poll_read_def)
    next
      case cap: False
      obtain r w where r: "source (min cap scratch_bytes) (bi_inner s) = (r, w)"
        by (cases "source (min cap scratch_bytes) (bi_inner s)")
      show ?thesis
      proof (cases r)
        case Pending
        then show ?thesis using Cons.IH [of "s\<lparr>bi_inner := w\<rparr>" seen] Cons.prems False cap r
          by (simp add: poll_read_def)
      next
        case (Ready_Err e)
        then show ?thesis using Cons.IH [of "s\<lparr>bi_inner := w\<rparr>" seen] Cons.prems False cap r
          by (simp add: poll_read_def)
      next
        case (Ready_Bytes bs)
        obtain n long where n: "count_bytes bs (line_bytes s) = (n, long)" by (cases "count_bytes bs (line_bytes s)")
        have both: "count_bytes (seen @ bs) 0 = (n, long)" using seen n by (simp add: count_bytes_append)
        show ?thesis
        proof (cases long)
          case True
          have "\<not> short_lines (seen @ bs @ rest)" for rest
            using both True by (simp add: short_lines_iff count_bytes_append flip: append_assoc)
          then show ?thesis
            using Cons.IH [of "s\<lparr>bi_inner := w, line_bytes := n, bi_failed := True\<rparr>" seen] Cons.prems False cap r n True Ready_Bytes
            by (simp add: poll_read_def)
        next
          case short: False
          then show ?thesis
            using Cons.IH [of "s\<lparr>bi_inner := w, line_bytes := n\<rparr>" "seen @ bs"] both False cap r n Ready_Bytes
            by (simp add: poll_read_def short_lines_iff)
        qed
      qed
    qed
  qed
qed simp

text \<open>
  Property C39: no line longer than 65536 bytes reaches the protocol library, however the input is
  cut into reads. The bytes delivered are an initial part of the bytes that the source gives, all
  of them when none of its lines is too long.
\<close>

theorem frames_bounded:
  "short_lines (polls source caps (bounded_input_new w))
   \<and> prefix (polls source caps (bounded_input_new w)) (source_polls source caps w)
   \<and> (polls source caps (bounded_input_new w) = source_polls source caps w
      \<longleftrightarrow> short_lines (source_polls source caps w))"
  using polls_bounded [of "bounded_input_new w" "[]" source caps]
  by (auto simp: bounded_input_new_def short_lines_def)

section \<open>Answers are delivered\<close>

lemma fits_iff: "fits limit pieces \<longleftrightarrow> length (concat pieces) \<le> limit"
proof (induction pieces arbitrary: limit)
  case (Cons p ps)
  have step: "fits limit (p # ps) \<longleftrightarrow> length p \<le> limit \<and> fits (limit - length p) ps"
    by (cases "length p \<le> limit") (simp_all add: fits_def counter_write_def checked_sub_def)
  show ?case unfolding step Cons.IH by auto
qed (simp add: fits_def)

text \<open>
  What the encoders document: the pieces of a value are its compact encoding, and the message of a
  result holds the text and the structured value once each beside members of constant size.
\<close>

definition faithful :: "encoders \<Rightarrow> bool" where
  "faithful enc \<longleftrightarrow> (\<forall>v. concat (write_value enc v) = json_text v
     \<and> length (concat (write_result enc (delivered v))) \<le> text_size (json_text v) + json_size v + 1024)"

text \<open>A float prints as a JSON number, as it does in every \<^verbatim>\<open>serde_json::Value\<close>.\<close>

fun number_texts :: "json \<Rightarrow> bool" where
  "number_texts (JNum (Float s)) = list_all (\<lambda>c. c \<in> set ''0123456789+-.eE'') s"
| "number_texts (JArr xs) = list_all number_texts xs"
| "number_texts (JObj fs) = list_all (\<lambda>(k, v). number_texts v) fs"
| "number_texts _ = True"

definition printable :: "string \<Rightarrow> bool" where
  "printable s = list_all (\<lambda>c. 32 \<le> byte c) s"

lemma printable_simps [simp]:
  "printable []" "printable (c # s) \<longleftrightarrow> 32 \<le> byte c \<and> printable s" "printable (s @ t) \<longleftrightarrow> printable s \<and> printable t"
  by (simp_all add: printable_def)

lemma printable_digits: "printable (dec_digits n)"
  using dec_digits_all_digits [of n] unfolding printable_def
  by (rule list.pred_mono_strong) (simp add: is_ascii_digit_def)

lemma printable_number: "number_texts (JNum n) \<Longrightarrow> printable (number_text n)"
proof (cases n)
  case (Float s)
  assume "number_texts (JNum n)"
  with Float have "list_all (\<lambda>c. c \<in> set ''0123456789+-.eE'') s" by simp
  then have "printable s" unfolding printable_def by (rule list.pred_mono_strong) auto
  with Float show ?thesis by simp
qed (auto simp: printable_digits dec_int_def)

lemma printable_escape: "printable (escape_char c)"
proof -
  have "byte (hex_digit n) \<ge> 32" if "n < 16" for n using that by (simp add: byte_hex_digit)
  moreover have "byte c div 16 < 16" using byte_less [of c] by (simp add: div_less_iff_less_mult)
  ultimately show ?thesis by (auto simp: escape_char_def not_less)
qed

lemma printable_string: "printable (string_text s)"
  by (induction s) (simp_all add: string_text_def printable_escape)

lemma printable_join: "list_all printable xs \<Longrightarrow> printable (comma_join xs)"
  by (induction xs rule: comma_join.induct) simp_all

lemma printable_json: "number_texts v \<Longrightarrow> printable (json_text v)"
proof (induction v rule: number_texts.induct)
  case (1 s)
  then show ?case using printable_number [of "Float s"] by simp
next
  case (2 xs)
  then show ?case by (auto simp: json_text.simps(5) list_all_iff intro!: printable_join)
next
  case (3 fs)
  then have "list_all printable (map (\<lambda>(k, v). string_text k @ '':'' @ json_text v) fs)"
    by (auto simp: list_all_iff printable_string)
  then show ?case by (simp add: json_text.simps(6) printable_join)
qed (auto simp: printable_string printable_digits dec_int_def printable_number simp del: number_texts.simps)

lemma printable_text_size: "printable s \<Longrightarrow> text_size s \<le> 2 * length s + 2"
  by (induction s) (auto simp: text_size_def escape_cost_def)

lemma success_delivers:
  assumes "faithful enc" and "number_texts v" and "json_size v \<le> max_normalized_bytes"
  shows "success enc v = delivered v \<and> length (concat (write_result enc (delivered v))) \<le> max_call_result_bytes"
proof -
  have size: "length (concat (write_result enc (delivered v))) \<le> max_call_result_bytes"
  proof -
    have "length (concat (write_result enc (delivered v))) \<le> text_size (json_text v) + json_size v + 1024"
      using assms(1) by (simp only: faithful_def)
    with printable_text_size [OF printable_json [OF assms(2)]] assms(3) show ?thesis
      unfolding max_call_result_bytes_def max_normalized_bytes_def by linarith
  qed
  then show ?thesis using assms(1,3) by (simp add: success_def fits_iff faithful_def)
qed

lemma invocation_project_bounded:
  assumes "validate enc op = Ok ()" and "prepare_invocation encoded op arguments = Ok pinv"
    and "pointer_into pointer" and "json_wf out" and "invocation_project pointer pinv out = Ok v"
  shows "json_size v \<le> max_normalized_bytes"
proof (cases "\<exists>tp. output_mode op = Typed tp")
  case True
  then obtain tp where Typed: "output_mode op = Typed tp" by blast
  then obtain sel where "pi_projection pinv = BP_Typed tp sel"
    using assms(2) by (auto simp: prepare_invocation_def res_simps split: option.splits)
  then have p: "project tp sel out = Ok v" using assms(5) by (simp add: invocation_project_def split: if_splits)
  have "typed_validate tp (parameters op) = Ok ()"
    using validate_Ok(3) [OF assms(1)] Typed by (auto simp: validate_output_def res_simps split: if_splits)
  from project_result [OF this assms(4) p] show ?thesis by (auto simp: charged_def budget_default_def)
next
  case False
  then have "pi_projection pinv = BP_Legacy op"
    using assms(2) by (auto simp: prepare_invocation_def res_simps split: output_mode.splits)
  then have "legacy_project pointer op out = Ok v" using assms(5) by (simp add: invocation_project_def split: if_splits)
  moreover have "disjoint_output_fields (output_fields op)" using validate_Ok(1) [OF assms(1)] by (simp add: header_ok_def)
  ultimately show ?thesis using legacy_project_result [OF assms(3,4)] False by blast
qed

lemma page_bounded: "page records n offset = Ok v \<Longrightarrow> json_size v \<le> max_normalized_bytes"
  by (auto simp: page_def Let_def check_normalized_result_eq res_simps split: if_splits)

lemma answer_bounded:
  assumes "reachable encoded pointer d (w, ts)" and "catalog_built (d_catalog d)" and "pointer_into pointer"
    and "\<And>j c out. H_Replied j c (R_Execute (Ok out)) \<in> set (history w) \<Longrightarrow> json_wf out"
    and "ts i = Some (Answered (A_Value (Ok v)))"
  shows "json_size v \<le> max_normalized_bytes"
proof -
  from assms(1,2,5) obtain q where "explained encoded pointer d i q (history w) v" by (rule answer_explained)
  then obtain name arguments op pinv where op: "catalog_get (d_catalog d) name = Ok (Some op)"
      "prepare_invocation encoded op arguments = Ok pinv"
    and how: "case package_page (pi_action pinv) of None \<Rightarrow> projected pointer pinv i (history w) v
        | Some request \<Rightarrow> paged (history w) request v"
    by (auto simp: explained_def permitted_def prepared_def)
  obtain enc builtins custom where "with_builtins enc builtins custom = Ok (d_catalog d)"
    using assms(2) by (auto simp: catalog_built_def)
  then have v: "validate enc op = Ok ()"
    using op(1) cat.look_Some [OF assms(2)] by (auto elim: with_builtins_Ok)
  show ?thesis
  proof (cases "package_page (pi_action pinv)")
    case None
    then obtain out where "H_Replied i (C_Execute (pi_action pinv)) (R_Execute (Ok out)) \<in> set (history w)"
      "invocation_project pointer pinv out = Ok v" using how by (auto simp: projected_def)
    then show ?thesis using invocation_project_bounded [OF v op(2) assms(3)] assms(4) by blast
  next
    case (Some request)
    then show ?thesis using how by (cases request) (auto simp: paged_def dest: page_bounded)
  qed
qed

text \<open>
  Property C40: a value that the dispatcher answers is delivered. Under every interleaving of the
  requests, the result that the client receives carries exactly the value, as text and as
  structured content: neither of the two size checks of the protocol front can refuse it, because
  the projections and the pages already keep it within 65536 bytes; and the message is at most
  262144 bytes.
\<close>

theorem answer_delivered:
  assumes "reachable encoded pointer d (w, ts)" and "catalog_built (d_catalog d)" and "pointer_into pointer"
    and "\<And>j c out. H_Replied j c (R_Execute (Ok out)) \<in> set (history w) \<Longrightarrow> json_wf out"
    and "ts i = Some (Answered (A_Value (Ok v)))" and "number_texts v" and "faithful enc"
  shows "answer_result enc (A_Value (Ok v)) =
      \<lparr>ctr_content = [json_text v], ctr_structured_content = Some v, ctr_is_error = Some False\<rparr>
    \<and> length (concat (write_result enc (answer_result enc (A_Value (Ok v))))) \<le> max_call_result_bytes"
  using success_delivers [OF assms(7,6) answer_bounded [OF assms(1-5)]] by (simp add: delivered_def)

section \<open>What is listed\<close>

text \<open>
  A tool is listed exactly when a call of it would be authorized; no two tools share a name; and a
  tool is announced as read-only exactly when the operation requires no other permission.
\<close>

lemma list_tools_exact:
  assumes "catalog_built (d_catalog d)" and "list_tools from_str d None = Ok ts"
  shows "distinct (map tool_name ts)"
    "t \<in> set ts \<Longrightarrow> t = capability_tool \<or> (\<exists>op. catalog_get (d_catalog d) (tool_name t) = Ok (Some op)
        \<and> authorize (d_policy d) op = Ok () \<and> t = tool_of from_str op)"
    "catalog_get (d_catalog d) name = Ok (Some op) \<Longrightarrow> authorize (d_policy d) op = Ok ()
      \<Longrightarrow> tool_of from_str op \<in> set ts"
proof -
  let ?ops = "available_operations d"
  have ts: "ts = map (tool_of from_str) ?ops @ (if ?ops = [] then [] else [capability_tool])"
    using assms(2) by (auto simp: list_tools_def Let_def split: if_splits)
  have name: "tool_name (tool_of from_str op) = op_name op" for op by (simp add: tool_of_def Let_def)
  obtain enc builtins custom where "with_builtins enc builtins custom = Ok (d_catalog d)"
    using assms(1) by (auto simp: catalog_built_def)
  then have d: "distinct (map op_name (operations (d_catalog d)))"
    and v: "\<forall>op \<in> set (operations (d_catalog d)). validate enc op = Ok ()"
    by (auto elim: with_builtins_Ok)
  have "distinct (map op_name ?ops)" unfolding available_operations_def by (rule distinct_map_filter [OF d])
  moreover have "capability_tool_name \<notin> op_name ` set ?ops"
    using v validate_Ok(1) by (fastforce simp: available_operations_def header_ok_def)
  ultimately show "distinct (map tool_name ts)"
    by (auto simp: ts comp_def name capability_tool_def)
  have ok: "is_ok r \<longleftrightarrow> r = Ok ()" for r :: "core_error + unit" by (cases r) auto
  show "t = capability_tool \<or> (\<exists>op. catalog_get (d_catalog d) (tool_name t) = Ok (Some op)
        \<and> authorize (d_policy d) op = Ok () \<and> t = tool_of from_str op)" if "t \<in> set ts"
    using that by (auto simp: ts available_operations_def ok cat.look_Some [OF assms(1)] name split: if_splits)
  show "tool_of from_str op \<in> set ts"
    if "catalog_get (d_catalog d) name = Ok (Some op)" "authorize (d_policy d) op = Ok ()"
    using that by (auto simp: ts available_operations_def ok cat.look_Some [OF assms(1)])
qed

lemma tool_hints:
  "read_only_hint (tool_of from_str op) \<longleftrightarrow> (\<forall>r \<in> set (requirements op). permission r = Perm_Read)"
  "destructive_hint (tool_of from_str op) = (\<not> read_only_hint (tool_of from_str op))"
  by (auto simp: tool_of_def Let_def list_all_iff)

section \<open>An answer on its way\<close>

definition sample_encoders :: encoders where
  "sample_encoders = \<lparr>write_value = (\<lambda>v. [json_text v]),
     write_result = (\<lambda>r. map string_text (ctr_content r) @ (case ctr_structured_content r of None \<Rightarrow> [] | Some v \<Rightarrow> [json_text v]))\<rparr>"

lemma sample_encoders_faithful: "faithful sample_encoders"
  by (simp add: faithful_def sample_encoders_def delivered_def)

lemma answer_delivered_witness:
  "answer_result sample_encoders (A_Value (Ok sample_value)) =
     \<lparr>ctr_content = [json_text sample_value], ctr_structured_content = Some sample_value, ctr_is_error = Some False\<rparr>"
proof -
  obtain w ts where run: "sample_end = (w, ts)" "ts 0 = Some (Answered (A_Value (Ok sample_value)))"
    by (rule sample_shows)
  have "number_texts sample_value" by code_simp
  show ?thesis
    by (rule answer_delivered [OF sample_reachable [unfolded run(1)] sample_built sample_pointer_into
        sample_replies_wf [OF run(1)] run(2) \<open>number_texts sample_value\<close> sample_encoders_faithful, THEN conjunct1])
qed

end
