(* ===== verification/Features.thy ===== *)
theory Features
  imports Catalog
begin

text \<open>
  The reviewed operations of the crate \<^verbatim>\<open>features\<close>: the assembly functions of
  \<^verbatim>\<open>definition.rs\<close>, the operations of every category module and the list of
  \<^verbatim>\<open>lib.rs\<close>, with the catalog built from it. An \<^verbatim>\<open>unreachable!\<close> of the source is the
  value \<open>Panicked\<close>. The closing section shows that the shipped list is accepted by the
  catalog's own validation, and what its operations may do.
\<close>

section \<open>Assembly\<close>

type_synonym built = "core_error stop + operation"

definition read_operation ::
    "string \<Rightarrow> string \<Rightarrow> category \<Rightarrow> string \<Rightarrow> string \<Rightarrow> string \<Rightarrow> string list \<Rightarrow> operation" where
  "read_operation name descr cat object meth contract columns =
     \<lparr>op_name = name, description = descr,
      requirements = [\<lparr>category = cat, permission = Perm_Read\<rparr>],
      parameters = [], op_action = Ubus object meth [],
      capability = UbusMethod object meth [] contract,
      output_fields = columns, output_mode = Scalars\<rparr>"

definition argument :: "string \<Rightarrow> parameter_kind \<Rightarrow> json \<Rightarrow> operation \<Rightarrow> built" where
  "argument name kind val op = (case (op_action op, capability op) of
       (Ubus object meth arguments, UbusMethod object' meth' needed contract) \<Rightarrow>
         Ok (op\<lparr>op_action := Ubus object meth (bt_insert name val arguments),
                capability := UbusMethod object' meth' (bt_insert name kind needed) contract\<rparr>)
     | _ \<Rightarrow> Err Panicked)"

definition with_parameter :: "string \<Rightarrow> parameter \<Rightarrow> operation \<Rightarrow> operation" where
  "with_parameter name p op = op\<lparr>parameters := bt_insert name p (parameters op)\<rparr>"

definition string_parameter :: parameter where
  "string_parameter = \<lparr>p_kind = PK_String, required = True, allowed_values = []\<rparr>"

definition scalar :: "string \<Rightarrow> string \<Rightarrow> presence \<Rightarrow> scalar_kind \<Rightarrow> scalar_field" where
  "scalar name source pres kind =
     \<lparr>f_name = name, f_source = source, f_presence = pres, f_value = kind\<rparr>"

definition interface_observation ::
    "string \<Rightarrow> string \<Rightarrow> category \<Rightarrow> leaf_record collection collection_field list \<Rightarrow> operation" where
  "interface_observation name descr cat collections =
     (with_parameter ''interface'' string_parameter
        (read_operation name descr cat ''network.interface'' ''dump'' (name @ ''.v1'') []))
     \<lparr>output_mode := Typed (TP_Collection [''/error'']
        (ObjectArray ''/interface'' 128 ''interface''
          \<lparr>r_fields =
             [scalar ''interface'' ''/interface'' Required (SK_Text 256),
              scalar ''up'' ''/up'' Required SK_Boolean],
           r_collections = collections\<rparr>)
        (ExactOne ''interface''))\<rparr>"

definition uci_fields :: "uci_read_profile \<Rightarrow> (string \<times> nat) list \<Rightarrow> scalar_field list" where
  "uci_fields profile options =
     [scalar ''section_type'' ''/.type'' Required (SK_TextEnum 16 [profile_section_type profile]),
      scalar ''anonymous'' ''/.anonymous'' Required SK_Boolean,
      scalar ''index'' ''/.index'' Required (SK_SafeInteger 0 (2 ^ 32 - 1))]
     @ map (\<lambda>(name, max_bytes). scalar name (''/'' @ name) Optional (SK_Text max_bytes)) options"

definition uci_read :: "string \<Rightarrow> uci_read_profile \<Rightarrow> (string \<times> nat) list \<Rightarrow> built" where
  "uci_read name profile options =
     and_then (argument ''config'' PK_String (JStr (profile_config profile))
       (read_operation name
         (''Read selected non-secret scalar UCI options and section metadata. Sessionless ''
         @ ''shared-delta, non-atomic view; not committed-only or effective service state. Option''
         @ '' values remain text; lists are not coerced. Section names/indices are not durable ''
         @ ''mutation handles. No configuration changes.'')
         (profile_category profile) ''uci'' ''get'' (name @ ''.v1'') [])) (\<lambda>op.
     and_then (argument ''type'' PK_String (JStr (profile_section_type profile)) op) (\<lambda>op.
     Ok (op\<lparr>output_mode := Typed (TP_Collection [''/error'']
          (ObjectEntries ''/values'' 128 \<lparr>i_name = ''section'', i_max_bytes = 256\<rparr>
            \<lparr>r_fields = uci_fields profile options, r_collections = []\<rparr>)
          Sel_All)\<rparr>)))"

definition text_option :: "string \<times> nat \<Rightarrow> leaf_record collection collection_field" where
  "text_option = (\<lambda>(name, max_bytes).
     \<lparr>c_name = name, c_presence = Optional, c_collection = TextOption (''/'' @ name) 128 max_bytes\<rparr>)"

definition uci_read_with_options ::
    "string \<Rightarrow> nat \<Rightarrow> uci_read_profile \<Rightarrow> (string \<times> nat) list \<Rightarrow> (string \<times> nat) list \<Rightarrow> built" where
  "uci_read_with_options name response_version profile scalars options =
     and_then (uci_read name profile scalars) (\<lambda>op.
     (case (capability op, output_mode op) of
        (UbusMethod object meth needed _,
         Typed (TP_Collection guards (ObjectEntries source max_items key r) selection)) \<Rightarrow>
          Ok (op\<lparr>description :=
                (''Read selected non-secret UCI scalar and text/list options with section metadata. ''
                @ ''Sessionless shared-delta, non-atomic view; not committed-only or effective state. ''
                @ ''Text/list columns preserve representation as kind/values, with shared bounded items ''
                @ ''and no splitting/coercion. Discloses selected addresses/domains/paths; no file ''
                @ ''contents or configuration changes.''),
              capability := UbusMethod object meth needed
                (name @ ''.v'' @ dec_digits response_version),
              output_mode := Typed (TP_Collection guards (ObjectEntries source max_items key
                (r\<lparr>r_collections := r_collections r @ map text_option options\<rparr>)) selection)\<rparr>)
      | _ \<Rightarrow> Err Panicked))"

text \<open>\<^verbatim>\<open>vec!\<close> of operations: an unreachable branch in any of them ends the construction.\<close>

definition vec :: "built list \<Rightarrow> core_error stop + operation list" where
  "vec = map_res (\<lambda>op. op)"

section \<open>System\<close>

definition system_configuration :: "core_error stop + operation list" where
  "system_configuration = vec
     [uci_read_with_options ''system_timeserver_configuration'' 1 UP_Timeservers
         [(''enabled'', 8), (''enable_server'', 8), (''use_dhcp'', 8), (''interface'', 256)]
         [(''server'', 1024), (''dhcp_interface'', 256)],
      uci_read_with_options ''system_led_configuration'' 1 UP_Leds
         [(''name'', 256), (''sysfs'', 256), (''trigger'', 64), (''dev'', 256), (''default'', 8),
          (''inverted'', 8), (''brightness'', 32), (''delayon'', 32), (''delayoff'', 32),
          (''interval'', 32), (''port_state'', 32), (''delay'', 32), (''gpio'', 32),
          (''port_mask'', 32), (''speed_mask'', 32)]
         [(''mode'', 256), (''port'', 256)],
      uci_read_with_options ''system_dropbear_configuration'' 1 UP_Dropbear
         [(''enable'', 8), (''PasswordAuth'', 8), (''RootPasswordAuth'', 8), (''RootLogin'', 8),
          (''GatewayPorts'', 8), (''LocalPortForward'', 8), (''RemotePortForward'', 8), (''Port'',
          32), (''Interface'', 256), (''DirectInterface'', 256), (''SSHKeepAlive'', 32),
          (''IdleTimeout'', 32), (''MaxAuthTries'', 32), (''RecvWindowSize'', 32), (''mdns'', 8)]
         [],
      uci_read_with_options ''system_uhttpd_configuration'' 1 UP_Uhttpd
         [(''redirect_https'', 8), (''rfc1918_filter'', 8), (''max_requests'', 32),
          (''max_connections'', 32), (''script_timeout'', 32), (''network_timeout'', 32),
          (''http_keepalive'', 32), (''tcp_keepalive'', 32), (''no_symlinks'', 8),
          (''no_dirlists'', 8), (''no_ubusauth'', 8)]
         [(''listen_http'', 256), (''listen_https'', 256)]]"

definition system_board :: operation where
  "system_board =
     read_operation ''system_board''
        ''Read selected board and OpenWrt release identifiers.''
        Cat_System ''system'' ''board'' ''system_board.v1''
        [''/kernel'', ''/system'', ''/model'', ''/board_name'', ''/release/distribution'',
        ''/release/version'', ''/release/revision'', ''/release/target'', ''/release/description'']"

definition system_operations :: "core_error stop + operation list" where
  "system_operations =
     and_then (vec
     [uci_read ''system_configuration'' UP_System
         [(''hostname'', 256), (''timezone'', 256), (''zonename'', 256)],
      Ok system_board,
      Ok (read_operation ''system_info''
        ''Read uptime, memory and load counters; load uses OpenWrt's native units.''
        Cat_System ''system'' ''info'' ''system_info.v1''
        [''/localtime'', ''/uptime'', ''/load/0'', ''/load/1'', ''/load/2'', ''/memory/total'',
        ''/memory/free'', ''/memory/shared'', ''/memory/buffered'', ''/memory/available'',
        ''/swap/total'', ''/swap/free'', ''/root/total'', ''/root/free''])]) (\<lambda>ops.
     and_then system_configuration (\<lambda>more. Ok (ops @ more)))"

section \<open>Network\<close>

definition interface_projection :: "selection \<Rightarrow> typed_projection" where
  "interface_projection selection = TP_Collection []
     (ObjectArray ''/interface'' 128 ''interface''
       \<lparr>r_fields =
          [scalar ''interface'' ''/interface'' Required (SK_Text 256)]
          @ map (\<lambda>name. scalar name (''/'' @ name) Required SK_Boolean)
              [''up'', ''pending'', ''available'', ''autostart'', ''dynamic'']
          @ [scalar ''uptime'' ''/uptime'' Optional (SK_SafeInteger 0 safe_integer_max)]
          @ map (\<lambda>name. scalar name (''/'' @ name) Optional (SK_Text 256))
              [''proto'', ''device'', ''l3_device''],
        r_collections = []\<rparr>)
     selection"

definition interface_status :: operation where
  "interface_status =
     (with_parameter ''interface'' string_parameter
       (read_operation ''network_interface_status''
         (''Read one exact logical interface from a bounded dump; v2 returns typed columns ''
        @ ''including interface identity.'')
         Cat_Network ''network.interface'' ''dump'' ''network_interface_status.v2''
         []))
     \<lparr>output_mode := Typed (interface_projection (ExactOne ''interface''))\<rparr>"

definition interfaces :: operation where
  "interfaces =
     (read_operation ''network_interfaces''
       (''List bounded logical-interface identity and selected state, without addresses, ''
        @ ''routes or configuration.'')
       Cat_Network ''network.interface'' ''dump'' ''network_interfaces.v1''
       [])
     \<lparr>output_mode := Typed (interface_projection Sel_All)\<rparr>"

definition obs_text :: "string \<Rightarrow> nat \<Rightarrow> presence \<Rightarrow> scalar_field" where
  "obs_text name max_bytes pres = scalar name (''/'' @ name) pres (SK_Text max_bytes)"

definition obs_integer :: "string \<Rightarrow> string \<Rightarrow> int \<Rightarrow> presence \<Rightarrow> scalar_field" where
  "obs_integer name source maximum pres = scalar name (''/'' @ source) pres (SK_SafeInteger 0 maximum)"

definition obs_rows :: "string \<Rightarrow> string \<Rightarrow> scalar_field list \<Rightarrow> leaf_record collection collection_field" where
  "obs_rows name source columns =
     \<lparr>c_name = name, c_presence = Optional, c_collection = RowArray source 128 \<lparr>l_fields = columns\<rparr>\<rparr>"

definition address_rows :: "string \<times> nat \<times> int \<Rightarrow> leaf_record collection collection_field list" where
  "address_rows = (\<lambda>(family, max_bytes, mask).
     let columns =
       [obs_text ''address'' max_bytes Required,
        obs_integer ''mask'' ''mask'' mask Required,
        obs_text ''ptpaddress'' max_bytes Optional,
        obs_integer ''preferred_seconds'' ''preferred'' (2 ^ 32 - 1) Optional,
        obs_integer ''valid_seconds'' ''valid'' (2 ^ 32 - 1) Optional,
        obs_text ''class'' 256 Optional]
     in [obs_rows (family @ ''_addresses'') (''/'' @ family @ ''-address'') columns,
         obs_rows (''inactive_'' @ family @ ''_addresses'') (''/inactive/'' @ family @ ''-address'') columns])"

definition addresses :: operation where
  "addresses = interface_observation ''network_interface_addresses''
     (''Read one interface's bounded netifd-reported active/inactive address rows. Discloses''
        @ '' addresses and class; preserves duplicates and omitted lists. Not kernel ''
        @ ''completeness, delegated prefixes or connectivity proof; no mutation.'')
     Cat_Network (concat (map address_rows [(''ipv4'', 15, 32), (''ipv6'', 45, 128)]))"

definition routes :: operation where
  "routes = (let columns =
       [obs_text ''target'' 45 Required,
        obs_integer ''mask'' ''mask'' 128 Required,
        obs_text ''nexthop'' 45 Required,
        obs_text ''source'' 49 Required]
       @ map (\<lambda>name. obs_integer name name (2 ^ 32 - 1) Optional)
           [''type'', ''proto'', ''mtu'', ''metric'', ''table'']
       @ [obs_integer ''valid_seconds'' ''valid'' (2 ^ 32 - 1) Optional]
     in interface_observation ''network_interface_routes''
       (''Read one interface's bounded netifd-managed active/inactive routes, preserving ''
        @ ''duplicate rows and omitted lists. Discloses targets, next hops and source prefixes; ''
        @ ''not complete kernel FIB/policy rules or route-selection proof. No mutation.'')
       Cat_Network
       [obs_rows ''routes'' ''/route'' columns, obs_rows ''inactive_routes'' ''/inactive/route'' columns])"

definition neighbors :: operation where
  "neighbors = (let columns =
       [obs_text ''address'' 45 Required,
        obs_text ''mac'' 17 Optional,
        obs_integer ''proxy'' ''proxy'' (2 ^ 32 - 1) Optional,
        obs_integer ''router'' ''router'' (2 ^ 32 - 1) Optional]
     in interface_observation ''network_interface_neighbors''
       (''Read one interface's bounded netifd-managed active/inactive neighbor entries. ''
        @ ''Discloses addresses/MACs; preserves duplicates and omission. Not kernel ARP/NDP ''
        @ ''cache, discovery or connected-client proof. No solicitation or mutation.'')
       Cat_Network
       [obs_rows ''neighbors'' ''/neighbors'' columns,
        obs_rows ''inactive_neighbors'' ''/inactive/neighbors'' columns])"

definition network_configuration :: "core_error stop + operation list" where
  "network_configuration = vec
     [uci_read_with_options ''network_device_configuration'' 1 UP_NetworkDevices
         [(''name'', 256), (''type'', 64), (''ifname'', 256), (''vid'', 32), (''mtu'', 32),
          (''mtu6'', 32), (''macaddr'', 17), (''enabled'', 8), (''ipv6'', 8), (''stp'', 8),
          (''stp_kernel'', 8), (''stp_proto'', 64), (''forward_delay'', 32), (''priority'', 32),
          (''ageing_time'', 32), (''igmp_snooping'', 8), (''multicast_querier'', 8),
          (''bridge_empty'', 8), (''vlan_filtering'', 8)]
         [(''ports'', 256), (''ingress_qos_mapping'', 256), (''egress_qos_mapping'', 256)],
      uci_read_with_options ''network_bridge_vlan_configuration'' 1 UP_BridgeVlans
         [(''device'', 256), (''vlan'', 32), (''local'', 8)]
         [(''ports'', 256), (''alias'', 256)],
      uci_read ''network_route_v4_configuration'' UP_RoutesV4
         [(''interface'', 256), (''target'', 256), (''netmask'', 64), (''gateway'', 256),
          (''metric'', 32), (''mtu'', 32), (''table'', 64), (''valid'', 32), (''source'', 256),
          (''onlink'', 8), (''type'', 64), (''proto'', 64), (''disabled'', 8)],
      uci_read ''network_route_v6_configuration'' UP_RoutesV6
         [(''interface'', 256), (''target'', 256), (''netmask'', 64), (''gateway'', 256),
          (''metric'', 32), (''mtu'', 32), (''table'', 64), (''valid'', 32), (''source'', 256),
          (''onlink'', 8), (''type'', 64), (''proto'', 64), (''disabled'', 8)],
      uci_read ''network_rule_v4_configuration'' UP_RulesV4
         [(''in'', 256), (''out'', 256), (''invert'', 8), (''src'', 256), (''dest'', 256),
          (''priority'', 32), (''tos'', 32), (''mark'', 64), (''lookup'', 64),
          (''suppress_prefixlength'', 32), (''uidrange'', 64), (''action'', 64), (''goto'', 32),
          (''ipproto'', 64), (''sport'', 64), (''dport'', 64), (''disabled'', 8)],
      uci_read ''network_rule_v6_configuration'' UP_RulesV6
         [(''in'', 256), (''out'', 256), (''invert'', 8), (''src'', 256), (''dest'', 256),
          (''priority'', 32), (''tos'', 32), (''mark'', 64), (''lookup'', 64),
          (''suppress_prefixlength'', 32), (''uidrange'', 64), (''action'', 64), (''goto'', 32),
          (''ipproto'', 64), (''sport'', 64), (''dport'', 64), (''disabled'', 8)]]"

definition network_device :: built where
  "network_device = argument ''name'' PK_String (JStr ''{name}'')
     (with_parameter ''name'' string_parameter
       (read_operation ''network_device_status''
        ''Read selected link state and traffic counters for a named network device.''
        Cat_Network ''network.device'' ''status'' ''network_device_status.v1''
        [''/type'', ''/external'', ''/present'', ''/up'', ''/carrier'', ''/mtu'', ''/mtu6'',
        ''/txqueuelen'', ''/speed'', ''/duplex'', ''/statistics/rx_bytes'',
        ''/statistics/tx_bytes'', ''/statistics/rx_packets'', ''/statistics/tx_packets'',
        ''/statistics/rx_errors'', ''/statistics/tx_errors'', ''/statistics/rx_dropped'',
        ''/statistics/tx_dropped'']))"

definition status_fields :: "string list" where
  "status_fields = [''/up'', ''/pending'', ''/available'', ''/autostart'', ''/dynamic'', ''/uptime'', ''/proto'',
    ''/device'', ''/l3_device'', ''/metric'']"

definition network_operations :: "core_error stop + operation list" where
  "network_operations =
     and_then (vec
     [uci_read_with_options ''network_interface_configuration'' 2 UP_NetworkInterfaces
         [(''proto'', 64), (''device'', 256), (''mtu'', 32), (''metric'', 32), (''auto'', 8),
          (''defaultroute'', 8), (''peerdns'', 8), (''delegate'', 8), (''ip4table'', 64),
          (''ip6table'', 64)]
         [(''ipaddr'', 1024), (''ip6addr'', 1024), (''dns'', 1024), (''ifname'', 256)],
      network_device,
      Ok (read_operation ''network_lan_status''
        (''Read selected state of the conventional lan interface; unavailable if absent or ''
        @ ''renamed.'')
        Cat_Network ''network.interface.lan'' ''status'' ''network_lan_status.v1'' status_fields),
      Ok (read_operation ''network_wan_status''
        (''Read selected state of the conventional wan interface; unavailable if absent or ''
        @ ''renamed.'')
        Cat_Network ''network.interface.wan'' ''status'' ''network_wan_status.v1'' status_fields),
      Ok interface_status, Ok interfaces, Ok addresses, Ok routes, Ok neighbors]) (\<lambda>ops.
     and_then network_configuration (\<lambda>more. Ok (ops @ more)))"

section \<open>Wireless\<close>

definition device_read :: "string \<Rightarrow> string \<Rightarrow> string \<Rightarrow> built" where
  "device_read name descr meth = argument ''device'' PK_String (JStr ''{device}'')
     (with_parameter ''device'' string_parameter
       (read_operation name descr Cat_Wireless ''iwinfo'' meth (name @ ''.v1'') []))"

definition required_text :: "string \<Rightarrow> nat \<Rightarrow> scalar_field" where
  "required_text name max_bytes = scalar name (''/'' @ name) Required (SK_Text max_bytes)"

definition results_collection :: "string \<Rightarrow> nat \<Rightarrow> scalar_field list \<Rightarrow> selection \<Rightarrow> output_mode" where
  "results_collection identity max_items columns selection = Typed (TP_Collection []
     (ObjectArray ''/results'' max_items identity \<lparr>r_fields = columns, r_collections = []\<rparr>) selection)"

definition station_fields :: "scalar_field list" where
  "station_fields =
     [required_text ''mac'' 17,
      scalar ''signal_dbm'' ''/signal'' Required (SK_SafeInteger (- 128) 127),
      scalar ''noise_dbm'' ''/noise'' Required (SK_SafeInteger (- 128) 127),
      scalar ''signal_average_dbm'' ''/signal_avg'' Optional (SK_SafeInteger (- 128) 127)]
     @ map (\<lambda>(name, source). scalar name source Optional (SK_SafeInteger 0 (2 ^ 31 - 1)))
         [(''inactive_ms'', ''/inactive''), (''connected_seconds'', ''/connected_time''),
          (''estimated_throughput_kbps'', ''/thr''), (''rx_rate_kbps'', ''/rx/rate''),
          (''rx_bandwidth_mhz'', ''/rx/mhz''), (''tx_rate_kbps'', ''/tx/rate''),
          (''tx_bandwidth_mhz'', ''/tx/mhz'')]
     @ map (\<lambda>name. scalar name (''/'' @ name) Optional SK_Boolean)
         [''authorized'', ''authenticated'', ''wme'', ''mfp'']
     @ map (\<lambda>(name, source). scalar name source Optional (SK_DecimalCounter JsonInteger))
         [(''rx_bytes'', ''/rx/bytes''), (''tx_bytes'', ''/tx/bytes''), (''rx_dropped'', ''/rx/drop_misc'')]"

definition stations :: "bool \<Rightarrow> built" where
  "stations exact =
     (let (name, descr) = (if exact
            then (''wireless_station_status'',
              (''Read one exact case-sensitive station MAC from a bounded passive association ''
        @ ''observation; no match is not proof of disconnection.''))
            else (''wireless_stations'',
              (''Read bounded station MAC identities and link metrics without scanning; empty RPC ''
        @ ''results do not prove no clients or a healthy driver.'')))
      in and_then (device_read name descr ''assoclist'') (\<lambda>op.
         let (op, selection) = (if exact
               then (with_parameter ''mac'' string_parameter op, ExactOne ''mac'') else (op, Sel_All))
         in Ok (op\<lparr>output_mode := results_collection ''mac'' 128 station_fields selection\<rparr>)))"

definition countries :: built where
  "countries =
     and_then (device_read ''wireless_countries''
       (''Read bounded driver-reported country metadata, not regulatory permission; empty RPC ''
        @ ''results can also reflect driver failure. Does not set a country.'')
       ''countrylist'') (\<lambda>op.
     Ok (op\<lparr>output_mode := results_collection ''iso3166'' 256
       [required_text ''iso3166'' 2, required_text ''code'' 4, required_text ''country'' 256,
        scalar ''active'' ''/active'' Optional SK_Boolean] Sel_All\<rparr>))"

definition wireless_observations :: "core_error stop + operation list" where
  "wireless_observations = vec [stations False, stations True, countries]"

definition radio :: built where
  "radio = argument ''device'' PK_String (JStr ''{device}'')
     (with_parameter ''device'' string_parameter
       (read_operation ''wireless_radio_info''
        (''Read selected radio statistics without SSID or BSSID; requires rpcd-mod-iwinfo and a''
        @ '' supported driver.'')
        Cat_Wireless ''iwinfo'' ''info'' ''wireless_radio_info.v1''
        [''/phy'', ''/mode'', ''/country'', ''/channel'', ''/frequency'', ''/txpower'',
        ''/quality'', ''/quality_max'', ''/signal'', ''/noise'', ''/bitrate'',
        ''/encryption/enabled'']))"

definition wireless_devices :: operation where
  "wireless_devices =
     (read_operation ''wireless_devices''
        (''List unique bounded iwinfo-supported device names; an empty result does not prove ''
        @ ''physical radios are absent.'')
        Cat_Wireless ''iwinfo'' ''devices'' ''wireless_devices.v1''
        [])
     \<lparr>output_mode := Typed (TP_Collection []
       (ScalarArray ''/devices'' 128 ''device'' (SK_Text 256) True) Sel_All)\<rparr>"

definition wireless_operations :: "core_error stop + operation list" where
  "wireless_operations =
     and_then (vec
     [radio, Ok wireless_devices,
      uci_read ''wireless_radio_configuration'' UP_WirelessRadios
         [(''type'', 64), (''path'', 256), (''macaddr'', 17), (''disabled'', 8), (''country'',
          8), (''channel'', 32), (''htmode'', 32), (''band'', 16), (''txpower'', 32)]]) (\<lambda>ops.
     and_then wireless_observations (\<lambda>more. Ok (ops @ more)))"

section \<open>Services\<close>

definition service_projection :: "selection \<Rightarrow> typed_projection" where
  "service_projection selection = TP_Collection []
     (ObjectEntries [] 128 \<lparr>i_name = ''name'', i_max_bytes = 256\<rparr>
       \<lparr>r_fields = [],
        r_collections = [\<lparr>c_name = ''instances'', c_presence = Optional,
          c_collection = ObjectEntries ''/instances'' 128 \<lparr>i_name = ''name'', i_max_bytes = 256\<rparr>
            \<lparr>l_fields =
               [scalar ''running'' ''/running'' Required SK_Boolean,
                scalar ''pid'' ''/pid'' Optional (SK_SafeInteger 1 safe_integer_max),
                scalar ''exit_code'' ''/exit_code'' Optional (SK_SafeInteger 0 safe_integer_max)]\<rparr>\<rparr>]\<rparr>)
     selection"

definition logd :: built where
  "logd = and_then (argument ''name'' PK_String (JStr ''log'')
       (read_operation ''service_logd_status''
        (''Read running, pid and exit_code for the standard log/logd instance; a missing ''
        @ ''instance is unknown.'')
        Cat_Services ''service'' ''list'' ''service_logd_status.v1''
        [''/log/instances/logd/running'', ''/log/instances/logd/pid'',
        ''/log/instances/logd/exit_code'']))
     (argument ''verbose'' PK_Boolean (JBool False))"

definition sysntpd :: built where
  "sysntpd = and_then (argument ''name'' PK_String (JStr ''sysntpd'')
       (read_operation ''service_sysntpd_status''
        (''Read running, pid and exit_code for the standard sysntpd/instance1 instance; a ''
        @ ''missing instance is unknown.'')
        Cat_Services ''service'' ''list'' ''service_sysntpd_status.v1''
        [''/sysntpd/instances/instance1/running'', ''/sysntpd/instances/instance1/pid'',
        ''/sysntpd/instances/instance1/exit_code'']))
     (argument ''verbose'' PK_Boolean (JBool False))"

definition service_status :: built where
  "service_status =
     and_then (argument ''name'' PK_String (JStr ''{name}'')
       (with_parameter ''name'' string_parameter
         (read_operation ''service_status''
        (''Read one exact service's instance names and running/PID/exit metadata, not command ''
        @ ''lines, configuration or health.'')
        Cat_Services ''service'' ''list'' ''service_status.v1''
        []))) (\<lambda>op.
     and_then (argument ''verbose'' PK_Boolean (JBool False) op) (\<lambda>op.
     Ok (op\<lparr>output_mode := Typed (service_projection (ExactOne ''name''))\<rparr>)))"

definition service_status_list :: built where
  "service_status_list =
     and_then (argument ''verbose'' PK_Boolean (JBool False)
       (read_operation ''service_status_list''
        (''List bounded service and instance names and running/PID/exit metadata across ''
        @ ''categories, without configuration or command lines.'')
        Cat_Services ''service'' ''list'' ''service_status_list.v1''
        [])) (\<lambda>op.
     Ok (op\<lparr>output_mode := Typed (service_projection Sel_All)\<rparr>))"

definition services_operations :: "core_error stop + operation list" where
  "services_operations = vec [logd, sysntpd, service_status, service_status_list]"

section \<open>Diagnostics and packages\<close>

definition diagnostics_operations :: "operation list" where
  "diagnostics_operations =
     [read_operation ''diagnostics_watchdog_status''
        (''Read watchdog status using an empty-argument query; hardware support is ''
        @ ''device-dependent.'')
        Cat_Diagnostics ''system'' ''watchdog'' ''diagnostics_watchdog_status.v1''
        [''/status'', ''/timeout'', ''/frequency'', ''/magicclose'']]"

definition cursor_parameter :: parameter where
  "cursor_parameter = \<lparr>p_kind = PK_String, required = False, allowed_values = []\<rparr>"

definition packages_operations :: "operation list" where
  "packages_operations =
     [\<lparr>op_name = ''packages_apk_installed'',
       description =
        (''Capture APK 3.0.5 installed-query observations and read immutable 16-record pages. ''
        @ ''Omit cursor for a new capture; supply next_cursor to continue within 120 seconds. ''
        @ ''Non-atomic APK-visible scope, not whole-device completeness or a mutation baseline.''),
       requirements = [packages_read], parameters = [(''cursor'', cursor_parameter)],
       op_action = ApkInstalledPage, capability = ApkInstalledQuery,
       output_fields = [], output_mode = Scalars\<rparr>,
      \<lparr>op_name = ''packages_opkg_status'',
       description =
        (''Capture selected root status-file records for reviewed opkg 38eccbb1 and read ''
        @ ''immutable 16-record pages. Omit cursor to replace any package snapshot; supply ''
        @ ''next_cursor within 120 seconds. Non-atomic file-only scope, not all installed ''
        @ ''packages or health; status is recorded text. No configuration initialization, ''
        @ ''manager fallback or package mutation.''),
       requirements = [packages_read], parameters = [(''cursor'', cursor_parameter)],
       op_action = OpkgStatusPage, capability = OpkgRootStatusFile,
       output_fields = [], output_mode = Scalars\<rparr>]"

section \<open>Storage\<close>

definition storage_text :: "string \<Rightarrow> string \<Rightarrow> nat \<Rightarrow> presence \<Rightarrow> scalar_field" where
  "storage_text name source max_bytes pres = scalar name source pres (SK_Text max_bytes)"

definition storage_bytes :: "string \<Rightarrow> string \<Rightarrow> scalar_field" where
  "storage_bytes name source = scalar name source Required (SK_DecimalCounter JsonInteger)"

definition mounts :: operation where
  "mounts =
     (read_operation ''storage_mounts''
        (''Read up to 128 LuCI-visible mount/device paths and decimal-text capacity bytes. ''
        @ ''Non-atomic; failed/zero-block statvfs entries are omitted upstream, so empty is not ''
        @ ''proof of absence. May contact remote filesystems; no mount changes or file contents.'')
        Cat_Storage ''luci'' ''getMountPoints'' ''storage_mounts.v2''
        [])
     \<lparr>output_mode := Typed (TP_Collection [''/error'']
       (ObjectArray ''/result'' 128 ''mount''
         \<lparr>r_fields =
            [storage_text ''mount'' ''/mount'' 1024 Required,
             storage_text ''device'' ''/device'' 1024 Required,
             storage_bytes ''size_bytes'' ''/size'',
             storage_bytes ''available_bytes'' ''/avail'',
             storage_bytes ''free_bytes'' ''/free''],
          r_collections = []\<rparr>)
       Sel_All)\<rparr>"

definition block_devices :: operation where
  "block_devices =
     (read_operation ''storage_block_devices''
        (''Read up to 128 LuCI-visible block/swap entries: source key, device path, ''
        @ ''decimal-text size, filesystem and optional UUID/label/version/mount. Non-atomic; ''
        @ ''empty/partial upstream results do not prove absence. Signature reads may spin up ''
        @ ''disks; no activation, repairs or file contents.'')
        Cat_Storage ''luci'' ''getBlockDevices'' ''storage_block_devices.v2''
        [])
     \<lparr>output_mode := Typed (TP_Collection [''/error'']
       (ObjectEntries [] 128 \<lparr>i_name = ''source_key'', i_max_bytes = 1024\<rparr>
         \<lparr>r_fields =
            [storage_text ''device'' ''/dev'' 1024 Required,
             storage_bytes ''size_bytes'' ''/size'',
             storage_text ''filesystem'' ''/type'' 64 Required,
             storage_text ''uuid'' ''/uuid'' 256 Optional,
             storage_text ''label'' ''/label'' 256 Optional,
             storage_text ''version'' ''/version'' 64 Optional,
             storage_text ''mount'' ''/mount'' 1024 Optional],
          r_collections = []\<rparr>)
       Sel_All)\<rparr>"

definition storage_configuration :: "core_error stop + operation list" where
  "storage_configuration = vec
     [uci_read ''storage_global_configuration'' UP_StorageGlobals
         [(''anon_swap'', 32), (''anon_mount'', 32), (''auto_swap'', 32), (''auto_mount'', 32),
          (''delay_root'', 32), (''check_fs'', 32)],
      uci_read ''storage_swap_configuration'' UP_Swaps
         [(''enabled'', 8), (''uuid'', 256), (''label'', 256), (''device'', 1024), (''priority'',
          32)]]"

definition storage_operations :: "core_error stop + operation list" where
  "storage_operations =
     and_then (vec
     [Ok mounts, Ok block_devices,
      uci_read ''storage_mount_configuration'' UP_Mounts
         [(''device'', 1024), (''uuid'', 256), (''label'', 256), (''target'', 1024), (''fstype'',
          64), (''enabled'', 8), (''enabled_fsck'', 8)]]) (\<lambda>ops.
     and_then storage_configuration (\<lambda>more. Ok (ops @ more)))"

section \<open>DHCP and DNS\<close>

definition dns_collection ::
    "string \<times> string \<times> string \<times> nat \<Rightarrow> string \<times> string \<Rightarrow> leaf_record collection collection_field" where
  "dns_collection = (\<lambda>(name, source, field, max_bytes) (prefix, path).
     \<lparr>c_name = prefix @ name, c_presence = Optional,
      c_collection = ScalarArray (path @ source) 128 field (SK_Text max_bytes) False\<rparr>)"

definition interface_dns :: operation where
  "interface_dns = interface_observation ''dhcp_interface_dns''
     (''Read one exact interface's bounded netifd DNS servers/search domains plus ''
        @ ''interface/up metadata. Discloses addresses/domains; preserves duplicates and omitted''
        @ '' lists. Not effective resolver/dnsmasq configuration, cache or reachability. No DNS ''
        @ ''query or mutation.'')
     Cat_DhcpDns
     (concat (map (\<lambda>row. map (dns_collection row) [([], ''/''), (''inactive_'', ''/inactive/'')])
       [(''servers'', ''dns-server'', ''address'', 45),
        (''search_domains'', ''dns-search'', ''domain'', 256)]))"

definition dhcp_text :: "string \<Rightarrow> nat \<Rightarrow> presence \<Rightarrow> scalar_field" where
  "dhcp_text name max_bytes pres = scalar name (''/'' @ name) pres (SK_Text max_bytes)"

definition lease_fields :: "string \<Rightarrow> nat \<Rightarrow> scalar_field list" where
  "lease_fields address max_address =
     [dhcp_text address max_address Required,
      scalar ''expires_seconds'' ''/expires'' Required (SK_FalseOrSafeInteger 0 (2 ^ 32 - 1))]
     @ map (\<lambda>(name, maximum). dhcp_text name maximum Optional)
         [(''interface'', 256), (''hostname'', 512), (''macaddr'', 17), (''duid'', 512), (''iaid'', 64)]"

definition leases :: "bool \<Rightarrow> built" where
  "leases ipv6 =
     (let (name, source, address, max_address, family) = (if ipv6
            then (''dhcp_v6_leases'', ''/dhcp6_leases'', ''ip6addr'', 45, 6)
            else (''dhcp_v4_leases'', ''/dhcp_leases'', ''ipaddr'', 15, 4))
      in and_then (argument ''family'' PK_Integer (json_nat family)
           (read_operation name
             (''Read bounded, non-atomic LuCI-visible lease-file rows, preserving duplicates/order. ''
             @ ''Discloses reported addresses, MAC/DUID/IAID, hostname and interface. expires_seconds''
             @ '' is an integer or false (upstream no-expiry sentinel), not connected-client proof. ''
             @ ''Missing files/lines may be omitted upstream; no DNS lookup or mutation.'')
             Cat_DhcpDns ''luci-rpc'' ''getDHCPLeases'' (name @ ''.v1'') [])) (\<lambda>op.
         Ok (op\<lparr>output_mode := Typed (TP_Collection [''/error'']
           (RowArray source 128
             \<lparr>r_fields = lease_fields address max_address,
              r_collections = (if ipv6
                then [\<lparr>c_name = ''ip6addrs'', c_presence = Required,
                  c_collection = ScalarArray ''/ip6addrs'' 10 ''address_prefix'' (SK_Text 49) False\<rparr>]
                else [])\<rparr>)
           Sel_All)\<rparr>)))"

definition dhcp_configuration :: "core_error stop + operation list" where
  "dhcp_configuration = vec
     [uci_read_with_options ''dhcp_odhcpd_configuration'' 1 UP_Odhcpd
         [(''maindhcp'', 8), (''loglevel'', 32), (''leasefile'', 1024), (''hostsdir'', 1024),
          (''hostsfile'', 1024), (''piodir'', 1024), (''piofolder'', 1024)]
         [],
      uci_read_with_options ''dhcp_pool_configuration'' 1 UP_DhcpPools
         [(''interface'', 256), (''networkid'', 256), (''ignore'', 8), (''netmask'', 64),
          (''force'', 8), (''start'', 32), (''limit'', 32), (''leasetime'', 64), (''dynamicdhcp'',
          8), (''dynamicdhcpv4'', 8), (''dynamicdhcpv6'', 8), (''dhcpv4'', 32), (''dhcpv6'', 32),
          (''ra'', 32), (''ra_management'', 32), (''ra_preference'', 32)]
         [(''dns'', 1024), (''domain'', 1024), (''tag'', 256), (''interface_name'', 1024)],
      uci_read_with_options ''dhcp_host_configuration'' 1 UP_DhcpHosts
         [(''name'', 256), (''ip'', 256), (''hostid'', 256), (''leasetime'', 64), (''networkid'',
          256), (''enable'', 8), (''dns'', 8), (''force'', 8), (''broadcast'', 8)]
         [(''mac'', 1024), (''duid'', 1024), (''tag'', 256), (''match_tag'', 256)],
      uci_read_with_options ''dhcp_domain_configuration'' 1 UP_DnsDomains
         [(''ip'', 256)]
         [(''name'', 1024)],
      uci_read_with_options ''dhcp_cname_configuration'' 1 UP_DnsCnames
         [(''target'', 256)]
         [(''cname'', 1024)]]"

definition dhcp_operations :: "core_error stop + operation list" where
  "dhcp_operations =
     and_then (vec
     [leases False, leases True, Ok interface_dns,
      uci_read_with_options ''dhcp_dnsmasq_configuration'' 2 UP_Dnsmasq
         [(''domain'', 256), (''local'', 256), (''port'', 32), (''cachesize'', 32),
          (''expandhosts'', 8), (''domainneeded'', 8), (''boguspriv'', 8), (''rebind_protection'',
          8), (''noresolv'', 8), (''localservice'', 8), (''authoritative'', 8), (''strictorder'',
          8), (''logqueries'', 8)]
         [(''server'', 1024), (''address'', 1024), (''interface'', 256), (''notinterface'', 256),
          (''rebind_domain'', 1024), (''addnhosts'', 1024)]]) (\<lambda>ops.
     and_then dhcp_configuration (\<lambda>more. Ok (ops @ more)))"

section \<open>Firewall\<close>

definition firewall_configuration :: "core_error stop + operation list" where
  "firewall_configuration = vec
     [uci_read_with_options ''firewall_zone_configuration'' 1 UP_FirewallZones
         [(''enabled'', 8), (''name'', 256), (''family'', 32), (''input'', 32), (''output'', 32),
          (''forward'', 32), (''masq'', 8), (''masq6'', 8), (''masq_allow_invalid'', 8),
          (''mtu_fix'', 8), (''log'', 32), (''log_limit'', 64), (''auto_helper'', 8),
          (''counter'', 8)]
         [(''network'', 256), (''device'', 256), (''subnet'', 1024), (''masq_src'', 1024),
          (''masq_dest'', 1024), (''helper'', 256)],
      uci_read ''firewall_forwarding_configuration'' UP_FirewallForwardings
         [(''enabled'', 8), (''name'', 256), (''family'', 32), (''src'', 256), (''dest'', 256)],
      uci_read_with_options ''firewall_rule_configuration'' 1 UP_FirewallRules
         [(''enabled'', 8), (''name'', 256), (''family'', 32), (''src'', 256), (''dest'', 256),
          (''device'', 256), (''direction'', 32), (''ipset'', 256), (''helper'', 256),
          (''set_helper'', 256), (''limit'', 64), (''limit_burst'', 32), (''utc_time'', 8),
          (''start_date'', 32), (''stop_date'', 32), (''start_time'', 32), (''stop_time'', 32),
          (''weekdays'', 128), (''mark'', 64), (''set_mark'', 64), (''set_xmark'', 64), (''dscp'',
          32), (''set_dscp'', 32), (''counter'', 8), (''log'', 256), (''log_limit'', 64),
          (''target'', 32)]
         [(''proto'', 256), (''src_ip'', 1024), (''src_mac'', 1024), (''src_port'', 1024),
          (''dest_ip'', 1024), (''dest_port'', 1024), (''icmp_type'', 1024)],
      uci_read_with_options ''firewall_redirect_configuration'' 1 UP_FirewallRedirects
         [(''enabled'', 8), (''name'', 256), (''family'', 32), (''src'', 256), (''dest'', 256),
          (''ipset'', 256), (''helper'', 256), (''src_ip'', 1024), (''src_port'', 256),
          (''src_dip'', 1024), (''src_dport'', 256), (''dest_ip'', 1024), (''dest_port'', 256),
          (''limit'', 64), (''limit_burst'', 32), (''utc_time'', 8), (''start_date'', 32),
          (''stop_date'', 32), (''start_time'', 32), (''stop_time'', 32), (''weekdays'', 128),
          (''mark'', 64), (''reflection'', 8), (''reflection_src'', 32), (''counter'', 8),
          (''log'', 256), (''log_limit'', 64), (''target'', 32)]
         [(''proto'', 256), (''src_mac'', 1024), (''reflection_zone'', 256)],
      uci_read_with_options ''firewall_nat_configuration'' 1 UP_FirewallNats
         [(''enabled'', 8), (''name'', 256), (''family'', 32), (''src'', 256), (''device'', 256),
          (''src_ip'', 1024), (''src_port'', 256), (''snat_ip'', 1024), (''snat_port'', 256),
          (''dest_ip'', 1024), (''dest_port'', 256), (''limit'', 64), (''limit_burst'', 32),
          (''connlimit_ports'', 8), (''utc_time'', 8), (''start_date'', 32), (''stop_date'', 32),
          (''start_time'', 32), (''stop_time'', 32), (''weekdays'', 128), (''mark'', 64),
          (''counter'', 8), (''log'', 256), (''target'', 32)]
         [(''proto'', 256)]]"

definition firewall_operations :: "core_error stop + operation list" where
  "firewall_operations =
     and_then (vec
     [uci_read ''firewall_defaults_configuration'' UP_FirewallDefaults
         [(''input'', 32), (''output'', 32), (''forward'', 32), (''synflood_protect'', 8),
          (''drop_invalid'', 8), (''flow_offloading'', 8), (''flow_offloading_hw'', 8),
          (''disable_ipv6'', 8)]]) (\<lambda>ops.
     and_then firewall_configuration (\<lambda>more. Ok (ops @ more)))"

section \<open>The shipped list\<close>

definition builtins :: "core_error stop + operation list" where
  "builtins =
     and_then (map_res (\<lambda>ops. ops)
       [system_operations, network_operations, wireless_operations, services_operations,
        Ok diagnostics_operations, Ok packages_operations, storage_operations, dhcp_operations,
        firewall_operations]) (\<lambda>parts. Ok (concat parts))"

definition features_catalog ::
    "(operation \<Rightarrow> nat option) \<Rightarrow> operation list \<Rightarrow> core_error stop + catalog" where
  "features_catalog encoded custom =
     and_then builtins (\<lambda>ops. map_err Returned (with_builtins encoded ops custom))"


section \<open>What the shipped operations are\<close>

text \<open>
  The ubus calls the shipped operations make, with the arguments they may carry. The methods
  that also set something (\<^verbatim>\<open>system watchdog\<close>) are called without the arguments that do so.
\<close>

definition reviewed_calls :: "(string \<times> string \<times> string list) list" where
  "reviewed_calls =
     [(''system'', ''board'', []), (''system'', ''info'', []), (''system'', ''watchdog'', []),
      (''network.device'', ''status'', [''name'']),
      (''network.interface'', ''dump'', []),
      (''network.interface.lan'', ''status'', []), (''network.interface.wan'', ''status'', []),
      (''iwinfo'', ''info'', [''device'']), (''iwinfo'', ''devices'', []),
      (''iwinfo'', ''assoclist'', [''device'']), (''iwinfo'', ''countrylist'', [''device'']),
      (''service'', ''list'', [''name'', ''verbose'']), (''service'', ''list'', [''verbose'']),
      (''luci'', ''getMountPoints'', []), (''luci'', ''getBlockDevices'', []),
      (''luci-rpc'', ''getDHCPLeases'', [''family'']),
      (''uci'', ''get'', [''config'', ''type''])]"

definition reviewed_action :: "operation \<Rightarrow> bool" where
  "reviewed_action op = (case op_action op of
       Ubus object meth arguments \<Rightarrow>
         (object, meth, map fst arguments) \<in> set reviewed_calls \<and> probe_object (capability op) \<noteq> None
     | Process _ _ \<Rightarrow> False
     | _ \<Rightarrow> requirements op = [packages_read])"

definition observes :: "operation \<Rightarrow> bool" where
  "observes op \<longleftrightarrow> reviewed_action op \<and> output_mode op \<noteq> Structured
     \<and> list_all (\<lambda>r. permission r = Perm_Read) (requirements op)
     \<and> validate (\<lambda>_. Some 0) op = Ok ()"

definition all_observe :: "core_error stop + operation list \<Rightarrow> bool" where
  "all_observe built = (case built of Inl _ \<Rightarrow> False | Inr ops \<Rightarrow> list_all observes ops)"

lemma all_observe_iff: "all_observe built \<longleftrightarrow> (\<exists>ops. built = Ok ops \<and> list_all observes ops)"
  by (cases built) (simp_all add: all_observe_def)

lemma system_observes: "all_observe system_operations" by code_simp

lemma network_observes: "all_observe network_operations" by code_simp

lemma wireless_observes: "all_observe wireless_operations" by code_simp

lemma services_observes: "all_observe services_operations" by code_simp

lemma plain_observe: "all_observe (Ok (diagnostics_operations @ packages_operations))" by code_simp

lemma storage_observes: "all_observe storage_operations" by code_simp

lemma dhcp_observes: "all_observe dhcp_operations" by code_simp

lemma firewall_observes: "all_observe firewall_operations" by code_simp

definition names_of :: "core_error stop + operation list \<Rightarrow> string list" where
  "names_of built = (case built of Inl _ \<Rightarrow> [] | Inr ops \<Rightarrow> map op_name ops)"

lemma builtins_distinct: "distinct (names_of builtins)" by code_simp

lemma builtins_Ok: obtains ops where "builtins = Ok ops" "list_all observes ops" "distinct (map op_name ops)"
proof -
  obtain s n w v t d f where parts: "system_operations = Ok s" "network_operations = Ok n"
      "wireless_operations = Ok w" "services_operations = Ok v" "storage_operations = Ok t"
      "dhcp_operations = Ok d" "firewall_operations = Ok f"
    and obs: "list_all observes (s @ n @ w @ v @ t @ d @ f)"
    using system_observes network_observes wireless_observes services_observes storage_observes
      dhcp_observes firewall_observes
    by (auto simp: all_observe_iff)
  let ?ops = "s @ n @ w @ v @ diagnostics_operations @ packages_operations @ t @ d @ f"
  have b: "builtins = Ok ?ops" by (simp add: builtins_def parts)
  moreover have "list_all observes ?ops" using obs plain_observe by (simp add: all_observe_iff)
  moreover have "distinct (map op_name ?ops)" using builtins_distinct by (simp only: names_of_def b sum.case)
  ultimately show thesis by (rule that)
qed

lemma validate_encoded:
  "validate (\<lambda>_. Some 0) op = Ok () \<Longrightarrow> encoded op = Some n \<Longrightarrow> n \<le> max_definition_bytes
     \<Longrightarrow> validate encoded op = Ok ()"
  by (auto simp: validate_def res_simps split: if_splits)

lemma accepted_catalog:
  assumes "\<And>ops op. builtins = Ok ops \<Longrightarrow> op \<in> set ops
      \<Longrightarrow> \<exists>n. encoded op = Some n \<and> n \<le> max_definition_bytes"
  obtains ops cat where "builtins = Ok ops" "features_catalog encoded [] = Ok cat" "operations cat = ops"
    "list_all observes ops" "\<And>op. op \<in> set ops \<Longrightarrow> catalog_get cat (op_name op) = Ok (Some op)"
proof -
  obtain ops where ops: "builtins = Ok ops" "list_all observes ops" "distinct (map op_name ops)"
    by (rule builtins_Ok)
  have ok: "validate encoded op = Ok ()" if op: "op \<in> set ops" for op
    using assms [OF ops(1) op] ops(2) op validate_encoded by (auto simp: list_all_iff observes_def)
  let ?cat = "\<lparr>operations = ops, index = bt_of_list (zip (map op_name ops) [0..<length ops])\<rparr>"
  have "\<not> list_ex (\<lambda>op. output_mode op = Structured) ops"
    using ops(2) by (auto simp: list_all_iff list_ex_iff observes_def)
  moreover have "check_all (validate encoded) ops = Ok ()" using ok by (simp add: check_all_Ok)
  ultimately have "with_builtins encoded ops [] = Ok ?cat" using ops(3) by (simp add: with_builtins_def)
  then have cat: "features_catalog encoded [] = Ok ?cat" "catalog_built ?cat"
    by (auto simp: features_catalog_def ops(1) catalog_built_def)
  have "catalog_get ?cat (op_name op) = Ok (Some op)" if "op \<in> set ops" for op
    using cat.look_entry [OF cat(2)] that by simp
  with ops(1,2) cat(1) show thesis by (intro that [of ops ?cat]) simp_all
qed



end
