(* ===== verification/Shipped.thy ===== *)
theory Shipped
  imports Service Features
begin

text \<open>
  The service over the shipped catalog: what the dispatcher can send to a device when no
  extension is installed, with a run of it on the shipped operation \<^verbatim>\<open>system_board\<close>.
\<close>

lemma features_catalog_Ok:
  assumes "features_catalog encoded [] = Ok cat"
  shows "catalog_built cat" and "list_all observes (operations cat)"
proof -
  obtain ops where ops: "builtins = Ok ops" "list_all observes ops" by (rule builtins_Ok)
  have w: "with_builtins encoded ops [] = Ok cat"
    using assms by (cases "with_builtins encoded ops []") (simp_all add: features_catalog_def ops(1))
  then show "catalog_built cat" by (auto simp: catalog_built_def)
  obtain ext where "operations cat = ops @ ext" "list_all extended ext" by (rule with_builtins_Ok [OF w])
  moreover have "operations cat = ops" using w by (auto simp: with_builtins_def res_simps split: if_splits)
  ultimately show "list_all observes (operations cat)" using ops(2) by simp
qed

lemma observed_call:
  assumes "observes op" and "prepare encoded op input = Ok act" and "package_page act = None"
  shows "\<exists>object meth arguments keys. act = PA_Ubus object meth (JObj arguments)
    \<and> (object, meth, keys) \<in> set reviewed_calls \<and> fst ` set arguments \<subseteq> set keys"
proof (cases "op_action op")
  case (Ubus object meth args)
  then obtain vals where "act = PA_Ubus object meth (JObj (fold (prepare_argument vals) args []))"
    using assms(2) by (auto simp: prepare_Ok prepare_action_def)
  moreover have "(object, meth, map fst args) \<in> set reviewed_calls"
    using assms(1) Ubus by (simp add: observes_def reviewed_action_def)
  moreover have "fst ` set (fold (prepare_argument vals) args []) \<subseteq> set (map fst args)"
    using prepare_arguments_keys [of vals args "[]"] by simp
  ultimately show ?thesis by blast
qed (use assms in \<open>auto simp: observes_def reviewed_action_def prepare_Ok prepare_action_def res_simps\<close>)

text \<open>
  Property C5: without extensions, whatever clients ask for and however requests interleave,
  the only calls that execute anything on the device are the listed ubus reads, with none but
  the listed arguments; and signatures are only asked of the objects of these calls.
\<close>

theorem shipped_service_only_reads:
  assumes "features_catalog encoded [] = Ok (d_catalog d)" and "reachable encoded pointer d (w, ts)"
    and "H_Called i c \<in> set (history w)"
  shows "(\<forall>act. c = C_Execute act \<longrightarrow> (\<exists>object meth arguments keys.
           act = PA_Ubus object meth (JObj arguments)
           \<and> (object, meth, keys) \<in> set reviewed_calls \<and> fst ` set arguments \<subseteq> set keys))
     \<and> (\<forall>object. c = C_Probe (DescribeUbusObject object) \<longrightarrow>
          (\<exists>meth keys. (reviewed_name object, meth, keys) \<in> set reviewed_calls))"
proof -
  note built = features_catalog_Ok [OF assms(1)]
  obtain pre post where "history w = pre @ H_Called i c # post" using assms(3) by (meson split_list)
  then have "justified encoded d pre (H_Called i c)" by (rule reachable_justified [OF assms(2) built(1)])
  then obtain q op where "permitted d q op" and call: "call_justified encoded d pre i q op c"
    by (auto simp: admitted_def)
  then have op: "observes op"
    using built by (auto simp: permitted_def cat.look_Some list_all_iff)
  show ?thesis
  proof (intro conjI allI impI)
    fix act assume "c = C_Execute act"
    then obtain name arguments pinv where "prepare_invocation encoded op arguments = Ok pinv"
        "act = pi_action pinv" "package_page act = None"
      using call by (auto simp: prepared_def)
    then show "\<exists>object meth arguments keys. act = PA_Ubus object meth (JObj arguments)
        \<and> (object, meth, keys) \<in> set reviewed_calls \<and> fst ` set arguments \<subseteq> set keys"
      using op by (intro observed_call) (auto simp: prepare_invocation_def res_simps)
  next
    fix object assume "c = C_Probe (DescribeUbusObject object)"
    then have po: "probe_object (capability op) = Some object" using call by simp
    then obtain object' meth' needed contract where cap: "capability op = UbusMethod object' meth' needed contract"
        "reviewed_name object = object'"
      by (cases "capability op") (auto simp: reviewed_from_name_Some)
    have "validate (\<lambda>_. Some 0) op = Ok ()" using op by (simp add: observes_def)
    from validate_Ok(5) [OF this] cap(1) obtain meth args where "op_action op = Ubus object' meth args"
      by (cases "op_action op") (auto simp: res_simps split: if_splits)
    with op cap(2) show "\<exists>meth keys. (reviewed_name object, meth, keys) \<in> set reviewed_calls"
      by (auto simp: observes_def reviewed_action_def)
  qed
qed

text \<open>A run of a dispatcher over the shipped catalog, up to the execution.\<close>

lemma only_authorization_looks_up:
  "admit (d\<lparr>d_catalog := cat\<rparr>) = admit d"
  "invoke_permitted pointer (d\<lparr>d_catalog := cat\<rparr>) = invoke_permitted pointer d"
  by (cases d; simp add: fun_eq_iff admit_def invoke_permitted_def invoke_page_def invoke_action_def
      cong: if_cong sum.case_cong option.case_cong prod.case_cong)+

lemma program_of_same:
  assumes "catalog_get (d_catalog d) name = catalog_get cat name"
  shows "program_of encoded pointer d i (Invoke name arguments)
    = program_of encoded pointer (d\<lparr>d_catalog := cat\<rparr>) i (Invoke name arguments)"
  using assms
  by (simp add: invoke_def authorize_request_def only_authorization_looks_up
      cong: sum.case_cong option.case_cong)

definition board_dispatcher :: dispatcher where
  "board_dispatcher = \<lparr>d_catalog = \<lparr>operations = [system_board], index = [(''system_board'', 0)]\<rparr>,
     d_policy = \<lparr>categories = [(Cat_System, \<lparr>g_access = Acc_Read, g_execute = False\<rparr>)],
       allow_operations = None, deny_operations = []\<rparr>,
     d_limits = default_limits, d_tokens = True\<rparr>"

definition board_request :: request where "board_request = Invoke ''system_board'' (JObj [])"

definition board_signature :: capability_observation where
  "board_signature = CO_Ubus \<lparr>obs_object = RO_System, obs_methods = [(''board'', \<lparr>sig_arguments = []\<rparr>)]\<rparr>"

definition board_start :: machine where
  "board_start = (happens (H_Arrived 0 board_request) (initial_world 0 7 (Some 1)),
     [0 \<mapsto> Live (program_of sample_encoded sample_pointer board_dispatcher 0 board_request)])"

definition board_end :: machine where
  "board_end = fold play (replicate 9 (Go 0) @ [Audit_Ends W_Recorded] @ replicate 10 (Go 0)
     @ [Answer 0 (R_Probe (Ok board_signature))] @ replicate 10 (Go 0)) board_start"

lemma board_run:
  "history (fst board_end) ! 5 = H_Called 0 (C_Execute (PA_Ubus ''system'' ''board'' (JObj [])))
     \<and> length (history (fst board_end)) = 6"
  by code_simp

lemma system_board_shipped:
  assumes "builtins = Ok ops"
  shows "system_board \<in> set ops" and "op_name system_board = ''system_board''"
proof -
  from assms obtain s where "system_operations = Ok s" "set s \<subseteq> set ops"
    by (auto simp: builtins_def res_simps)
  moreover from this(1) have "system_board \<in> set s"
    by (auto simp: system_operations_def vec_def res_simps)
  ultimately show "system_board \<in> set ops" by blast
qed (simp add: system_board_def read_operation_def)

lemma board_reachable:
  assumes "catalog_get cat ''system_board'' = Ok (Some system_board)"
  shows "reachable sample_encoded sample_pointer (board_dispatcher\<lparr>d_catalog := cat\<rparr>) board_end"
proof -
  have "catalog_get (d_catalog board_dispatcher) ''system_board'' = catalog_get cat ''system_board''"
    unfolding assms by (simp add: board_dispatcher_def catalog_get_def at_def)
  then have same: "program_of sample_encoded sample_pointer board_dispatcher 0 board_request
      = program_of sample_encoded sample_pointer (board_dispatcher\<lparr>d_catalog := cat\<rparr>) 0 board_request"
    unfolding board_request_def by (rule program_of_same)
  have start: "reachable sample_encoded sample_pointer (board_dispatcher\<lparr>d_catalog := cat\<rparr>) board_start"
    unfolding board_start_def same
    by (rule reachable.disturbed [OF reachable.initially], rule disturbs.arrives) simp
  have "reachable sample_encoded sample_pointer (board_dispatcher\<lparr>d_catalog := cat\<rparr>) (fold play cs board_start)" for cs
    by (induction cs rule: rev_induct) (auto intro: play_reachable start)
  then show ?thesis unfolding board_end_def .
qed

theorem shipped_service_only_reads_witness:
  "\<exists>cat keys. features_catalog sample_encoded [] = Ok cat \<and> (''system'', ''board'', keys) \<in> set reviewed_calls"
proof -
  have small: "\<exists>n. sample_encoded op = Some n \<and> n \<le> max_definition_bytes" for op
    by (simp add: sample_encoded_def max_definition_bytes_def)
  obtain ops cat where ops: "builtins = Ok ops" and cat: "features_catalog sample_encoded [] = Ok cat"
    and look: "\<And>op. op \<in> set ops \<Longrightarrow> catalog_get cat (op_name op) = Ok (Some op)"
    by (rule accepted_catalog [of sample_encoded]) (use small in blast)+
  have board: "catalog_get cat ''system_board'' = Ok (Some system_board)"
    using look [OF system_board_shipped(1) [OF ops]] unfolding system_board_shipped(2) [OF ops] .
  obtain w ts where run: "board_end = (w, ts)" by (cases board_end)
  have "H_Called 0 (C_Execute (PA_Ubus ''system'' ''board'' (JObj []))) \<in> set (history w)"
    using board_run nth_mem [of 5 "history w"] by (simp add: run)
  from shipped_service_only_reads [OF _ board_reachable [OF board, unfolded run] this] cat
  have "\<exists>keys. (''system'', ''board'', keys) \<in> set reviewed_calls" by auto
  with cat show ?thesis by blast
qed

end
