(* ===== verification/Sealing.thy ===== *)
theory Sealing
  imports Effect
begin

text \<open>
  Sealing an archive: \<^verbatim>\<open>runtime/src/sealing/\<close>. The source, the checker, the cipher, the
  stage and the clock are injected ports. Each is a function on the unknown state \<open>'w\<close> of the
  world and may answer anything; the cipher, which is handed a reader and a writer, is the
  tree of the reads, writes and flushes it makes. \<open>events\<close> records every answer of a port, and
  what is handed to the cipher, in order: it is not part of the program.
\<close>

section \<open>Limits, counts and outcomes\<close>

definition seal_chunk :: nat where [limit_defs]: "seal_chunk = 65536"

datatype seal_failure =
  SF_InvalidLimits | SF_StageUnsupported | SF_SourceRead | SF_SourceCompletion | SF_Check
| SF_Cipher | SF_StageWrite | SF_StageFlush | SF_SourceLimit | SF_CiphertextLimit
| SF_InvalidIoCount | SF_ZeroWrite | SF_IncompleteInput | SF_EmptyStream | SF_CountMismatch
| SF_InvalidSummary | SF_Deadline | SF_ClockReversed | SF_PublicationNotConfirmed

record seal_limits =
  sl_source_bytes :: nat
  sl_ciphertext_bytes :: nat
  sl_timeout_ms :: nat

definition default_seal_limits :: seal_limits where
  "default_seal_limits =
     \<lparr>sl_source_bytes = 67108864, sl_ciphertext_bytes = 68157440, sl_timeout_ms = 30000\<rparr>"

definition seal_limits_validate :: "seal_limits \<Rightarrow> seal_failure + unit" where
  "seal_limits_validate lim =
     ensure (\<not> (sl_source_bytes lim = 0 \<or> sl_source_bytes lim > 75497472
       \<or> sl_ciphertext_bytes lim = 0 \<or> sl_ciphertext_bytes lim > 76546048
       \<or> sl_timeout_ms lim = 0 \<or> sl_timeout_ms lim > 300000)) SF_InvalidLimits"

record check_counts =
  cc_source_bytes :: nat
  cc_expanded_bytes :: nat
  cc_payload_bytes :: nat
  cc_files :: nat

definition check_counts_validate :: "check_counts \<Rightarrow> nat \<Rightarrow> seal_failure + unit" where
  "check_counts_validate c source =
     (if cc_source_bytes c \<noteq> source then Err SF_CountMismatch
      else ensure (\<not> (cc_files c = 0 \<or> cc_files c > 4096
        \<or> cc_expanded_bytes c = 0 \<or> cc_expanded_bytes c > 75497472
        \<or> cc_payload_bytes c > 67108864 \<or> cc_payload_bytes c > cc_expanded_bytes c)) SF_InvalidSummary)"

record cipher_counts =
  ci_input_bytes :: nat
  ci_output_bytes :: nat

record sealed_counts =
  sc_source_bytes :: nat
  sc_ciphertext_bytes :: nat
  sc_expanded_bytes :: nat
  sc_payload_bytes :: nat
  sc_files :: nat

record stage_capabilities =
  private_staging :: bool
  atomic_publication :: bool
  durability :: bool

datatype publish_outcome = PO_Published | PO_NotPublished | PO_Unknown

datatype publication = Pub_NotAttempted | Pub_NotPublished | Pub_Published | Pub_Unknown

datatype cleanup_outcome = CO_Cleaned | CO_Uncertain

datatype cleanup = Clean_NotRequired | Clean_Cleaned | Clean_Unknown

fun cleanup_of :: "cleanup_outcome \<Rightarrow> cleanup" where
  "cleanup_of CO_Cleaned = Clean_Cleaned"
| "cleanup_of CO_Uncertain = Clean_Unknown"

fun publication_of :: "publish_outcome \<Rightarrow> publication" where
  "publication_of PO_Published = Pub_Published"
| "publication_of PO_NotPublished = Pub_NotPublished"
| "publication_of PO_Unknown = Pub_Unknown"

record seal_failure_report =
  fr_cause :: seal_failure
  fr_publication :: publication
  fr_source_cleanup :: cleanup
  fr_stage_cleanup :: cleanup

section \<open>Ports\<close>

text \<open>
  A reader that is given a buffer returns how many bytes it claims to have put there, and the
  buffer; \<open>None\<close> and \<open>False\<close> stand for an error.
\<close>

record 'w seal_ports =
  sp_now_ms :: "'w \<Rightarrow> nat \<times> 'w"
  sp_read :: "nat \<Rightarrow> 'w \<Rightarrow> (nat \<times> string) option \<times> 'w"
  sp_complete :: "'w \<Rightarrow> nat option \<times> 'w"
  sp_cancel :: "'w \<Rightarrow> cleanup_outcome \<times> 'w"
  sp_feed :: "string \<Rightarrow> 'w \<Rightarrow> bool \<times> 'w"
  sp_finish :: "'w \<Rightarrow> check_counts option \<times> 'w"
  sp_capabilities :: "'w \<Rightarrow> stage_capabilities \<times> 'w"
  sp_write :: "string \<Rightarrow> 'w \<Rightarrow> nat option \<times> 'w"
  sp_flush :: "'w \<Rightarrow> bool \<times> 'w"
  sp_publish :: "sealed_counts \<Rightarrow> 'w \<Rightarrow> publish_outcome \<times> 'w"
  sp_abort :: "'w \<Rightarrow> cleanup_outcome \<times> 'w"

datatype cipher_run =
  Cipher_Ends "cipher_counts option"
| Cipher_Reads nat "string option \<Rightarrow> cipher_run"
| Cipher_Writes string "nat option \<Rightarrow> cipher_run"
| Cipher_Flushes "bool \<Rightarrow> cipher_run"

datatype seal_event =
  SE_Now nat
| SE_Read nat "(nat \<times> string) option"
| SE_Feed string bool
| SE_Deliver string
| SE_Finish "check_counts option"
| SE_Complete "nat option"
| SE_Cancel cleanup_outcome
| SE_Capabilities stage_capabilities
| SE_Write string "nat option"
| SE_Flush bool
| SE_Publish sealed_counts publish_outcome
| SE_Abort cleanup_outcome

text \<open>The budget, the counting streams and the guard, with the world and what happened.\<close>

record 'w seal_state =
  env :: 'w
  events :: "seal_event list"
  b_start :: nat
  b_last :: nat
  b_timeout :: nat
  b_error :: "seal_failure option"
  r_count :: nat
  r_eof :: bool
  w_count :: nat
  source_complete :: bool
  source_cancelled :: bool
  stage_aborted :: bool
  g_publication :: publication
  g_source_cleanup :: cleanup
  g_stage_cleanup :: cleanup

definition asks :: "('w \<Rightarrow> 'r \<times> 'w) \<Rightarrow> ('r \<Rightarrow> seal_event) \<Rightarrow> ('w seal_state, 'e, 'r) eff" where
  "asks port ev = (\<lambda>s. case port (env s) of
     (r, w) \<Rightarrow> (Inr r, s\<lparr>env := w, events := events s @ [ev r]\<rparr>))"

section \<open>The budget\<close>

definition budget_fail :: "seal_failure \<Rightarrow> ('w seal_state, seal_failure, 'a) eff" where
  "budget_fail e = (\<lambda>s. let first = (case b_error s of Some x \<Rightarrow> x | None \<Rightarrow> e)
     in (Inl first, s\<lparr>b_error := Some first\<rparr>))"

definition budget_check :: "'w seal_ports \<Rightarrow> ('w seal_state, seal_failure, unit) eff" where
  "budget_check ports =
     seq (get b_error) (\<lambda>err. case err of
       Some e \<Rightarrow> raise e
     | None \<Rightarrow>
         seq (asks (sp_now_ms ports) SE_Now) (\<lambda>now.
         seq (get b_last) (\<lambda>last.
         if now < last then budget_fail SF_ClockReversed
         else seq (change (\<lambda>s. s\<lparr>b_last := now\<rparr>)) (\<lambda>_.
           seq (get (\<lambda>s. now - b_start s \<ge> b_timeout s)) (\<lambda>late.
           if late then budget_fail SF_Deadline else give ())))))"

definition budget_after ::
    "'w seal_ports \<Rightarrow> seal_failure + 'a \<Rightarrow> ('w seal_state, seal_failure, 'a) eff" where
  "budget_after ports result = (case result of
       Inl e \<Rightarrow> budget_fail e
     | Inr v \<Rightarrow> seq (budget_check ports) (\<lambda>_. give v))"

section \<open>The counting streams\<close>

definition probe_end :: "'w seal_ports \<Rightarrow> ('w seal_state, seal_failure, string) eff" where
  "probe_end ports =
     seq (asks (sp_read ports 1) (SE_Read 1)) (\<lambda>r.
     seq (budget_after ports (ok_or SF_SourceRead r)) (\<lambda>(got, _).
     if got > 1 then budget_fail SF_InvalidIoCount
     else if got \<noteq> 0 then budget_fail SF_SourceLimit
     else seq (change (\<lambda>s. s\<lparr>r_eof := True\<rparr>)) (\<lambda>_. give [])))"

definition vet_chunk ::
    "'w seal_ports \<Rightarrow> nat \<Rightarrow> string \<Rightarrow> ('w seal_state, seal_failure, string) eff" where
  "vet_chunk ports grown bytes =
     seq (asks (sp_feed ports bytes) (SE_Feed bytes)) (\<lambda>ok.
     seq (budget_after ports (ensure ok SF_Check)) (\<lambda>_.
     seq (change (\<lambda>s. s\<lparr>r_count := grown, events := events s @ [SE_Deliver bytes]\<rparr>)) (\<lambda>_.
     give bytes)))"

definition take_chunk ::
    "'w seal_ports \<Rightarrow> nat \<Rightarrow> nat \<Rightarrow> string \<Rightarrow> ('w seal_state, seal_failure, string) eff" where
  "take_chunk ports room got buffer =
     (if got = 0 then seq (change (\<lambda>s. s\<lparr>r_eof := True\<rparr>)) (\<lambda>_. give [])
      else seq (get (\<lambda>s. checked_add (r_count s) got)) (\<lambda>grown. case grown of
          None \<Rightarrow> budget_fail SF_SourceLimit
        | Some grown \<Rightarrow> vet_chunk ports grown (take got (take room (buffer @ replicate room NUL)))))"

definition read_chunk ::
    "'w seal_ports \<Rightarrow> nat \<Rightarrow> ('w seal_state, seal_failure, string) eff" where
  "read_chunk ports room =
     seq (asks (sp_read ports room) (SE_Read room)) (\<lambda>r.
     seq (caught (budget_after ports (ok_or SF_SourceRead r))) (\<lambda>result. case result of
         Inr (got, buffer) \<Rightarrow>
           if got \<le> room then take_chunk ports room got buffer else budget_fail SF_InvalidIoCount
       | Inl e \<Rightarrow> budget_fail e))"

definition checked_read ::
    "'w seal_ports \<Rightarrow> nat \<Rightarrow> nat \<Rightarrow> ('w seal_state, seal_failure, string) eff" where
  "checked_read ports limit n =
     seq (budget_check ports) (\<lambda>_.
     seq (get (\<lambda>s. (r_eof s, r_count s))) (\<lambda>(eof, got).
     if n = 0 \<or> eof then give []
     else if got = limit then probe_end ports
     else read_chunk ports (min (min n seal_chunk) (limit - got))))"

definition counted_write ::
    "'w seal_ports \<Rightarrow> nat \<Rightarrow> string \<Rightarrow> ('w seal_state, seal_failure, nat) eff" where
  "counted_write ports limit input =
     seq (budget_check ports) (\<lambda>_.
     if input = [] then give 0
     else seq (get w_count) (\<lambda>so_far.
       if so_far = limit then budget_fail SF_CiphertextLimit
       else let room = min (min (length input) seal_chunk) (limit - so_far);
                part = take room input in
         seq (asks (sp_write ports part) (SE_Write part)) (\<lambda>r.
         seq (budget_after ports (ok_or SF_StageWrite r)) (\<lambda>got.
         if got > room then budget_fail SF_InvalidIoCount
         else if got = 0 then budget_fail SF_ZeroWrite
         else (case checked_add so_far got of
             None \<Rightarrow> budget_fail SF_CiphertextLimit
           | Some grown \<Rightarrow> seq (change (\<lambda>s. s\<lparr>w_count := grown\<rparr>)) (\<lambda>_. give got))))))"

definition counted_flush :: "'w seal_ports \<Rightarrow> ('w seal_state, seal_failure, unit) eff" where
  "counted_flush ports =
     seq (budget_check ports) (\<lambda>_.
     seq (asks (sp_flush ports) SE_Flush) (\<lambda>ok. budget_after ports (ensure ok SF_StageFlush)))"

text \<open>The cipher learns of an error only that there was one.\<close>

definition seen :: "'e + 'a \<Rightarrow> 'a option" where
  "seen r = (case r of Inl _ \<Rightarrow> None | Inr x \<Rightarrow> Some x)"

primrec encrypt ::
    "'w seal_ports \<Rightarrow> seal_limits \<Rightarrow> cipher_run \<Rightarrow> ('w seal_state, seal_failure, cipher_counts option) eff" where
  "encrypt ports lim (Cipher_Ends r) = give r"
| "encrypt ports lim (Cipher_Reads n k) =
     seq (caught (checked_read ports (sl_source_bytes lim) n)) (\<lambda>r. encrypt ports lim (k (seen r)))"
| "encrypt ports lim (Cipher_Writes bytes k) =
     seq (caught (counted_write ports (sl_ciphertext_bytes lim) bytes)) (\<lambda>r. encrypt ports lim (k (seen r)))"
| "encrypt ports lim (Cipher_Flushes k) =
     seq (caught (counted_flush ports)) (\<lambda>r. encrypt ports lim (k (seen r \<noteq> None)))"

section \<open>The workflow\<close>

definition lift :: "seal_failure + 'a \<Rightarrow> ('w seal_state, seal_failure, 'a) eff" where
  "lift r = (case r of Inl e \<Rightarrow> raise e | Inr x \<Rightarrow> give x)"

definition supported :: "'w seal_ports \<Rightarrow> ('w seal_state, seal_failure, unit) eff" where
  "supported ports =
     seq (budget_check ports) (\<lambda>_.
     seq (asks (sp_capabilities ports) SE_Capabilities) (\<lambda>caps.
     seq (budget_check ports) (\<lambda>_.
     seq (refuse (\<not> private_staging caps \<or> \<not> atomic_publication caps \<or> \<not> durability caps)
       SF_StageUnsupported) (\<lambda>_.
     budget_check ports))))"

definition encrypted ::
    "'w seal_ports \<Rightarrow> seal_limits \<Rightarrow> cipher_run \<Rightarrow> ('w seal_state, seal_failure, nat \<times> nat) eff" where
  "encrypted ports lim cipher =
     seq (encrypt ports lim cipher) (\<lambda>r.
     seq (budget_after ports (ok_or SF_Cipher r)) (\<lambda>reported.
     seq (get (\<lambda>s. (r_eof s, r_count s, w_count s))) (\<lambda>(eof, input, output).
     seq (refuse (\<not> eof) SF_IncompleteInput) (\<lambda>_.
     seq (refuse (input = 0 \<or> output = 0) SF_EmptyStream) (\<lambda>_.
     seq (refuse (ci_input_bytes reported \<noteq> input \<or> ci_output_bytes reported \<noteq> output)
       SF_CountMismatch) (\<lambda>_.
     give (input, output)))))))"

definition summarized ::
    "'w seal_ports \<Rightarrow> nat \<Rightarrow> ('w seal_state, seal_failure, check_counts) eff" where
  "summarized ports input =
     seq (budget_check ports) (\<lambda>_.
     seq (asks (sp_finish ports) SE_Finish) (\<lambda>r.
     seq (budget_after ports (ok_or SF_Check r)) (\<lambda>summary.
     seq (lift (check_counts_validate summary input)) (\<lambda>_.
     give summary))))"

definition completed :: "'w seal_ports \<Rightarrow> nat \<Rightarrow> ('w seal_state, seal_failure, unit) eff" where
  "completed ports input =
     seq (budget_check ports) (\<lambda>_.
     seq (asks (sp_complete ports) SE_Complete) (\<lambda>r.
     seq (change (\<lambda>s. s\<lparr>source_complete := (r \<noteq> None)\<rparr>)) (\<lambda>_.
     seq (budget_after ports (ok_or SF_SourceCompletion r)) (\<lambda>got.
     refuse (got \<noteq> input) SF_CountMismatch))))"

definition flushed :: "'w seal_ports \<Rightarrow> ('w seal_state, seal_failure, unit) eff" where
  "flushed ports =
     seq (budget_check ports) (\<lambda>_.
     seq (asks (sp_flush ports) SE_Flush) (\<lambda>ok. budget_after ports (ensure ok SF_StageFlush)))"

definition published ::
    "'w seal_ports \<Rightarrow> sealed_counts \<Rightarrow> ('w seal_state, seal_failure, sealed_counts) eff" where
  "published ports counts =
     seq (budget_check ports) (\<lambda>_.
     seq (change (\<lambda>s. s\<lparr>g_publication := Pub_Unknown\<rparr>)) (\<lambda>_.
     seq (asks (sp_publish ports counts) (SE_Publish counts)) (\<lambda>outcome.
     seq (change (\<lambda>s. s\<lparr>g_publication := publication_of outcome\<rparr>)) (\<lambda>_.
     seq (budget_check ports) (\<lambda>_.
     seq (refuse (outcome \<noteq> PO_Published) SF_PublicationNotConfirmed) (\<lambda>_.
     give counts))))))"

definition run ::
    "'w seal_ports \<Rightarrow> seal_limits \<Rightarrow> cipher_run \<Rightarrow> ('w seal_state, seal_failure, sealed_counts) eff" where
  "run ports lim cipher =
     seq (supported ports) (\<lambda>_.
     seq (encrypted ports lim cipher) (\<lambda>(input, output).
     seq (summarized ports input) (\<lambda>summary.
     seq (completed ports input) (\<lambda>_.
     seq (flushed ports) (\<lambda>_.
     published ports \<lparr>sc_source_bytes = input, sc_ciphertext_bytes = output,
       sc_expanded_bytes = cc_expanded_bytes summary, sc_payload_bytes = cc_payload_bytes summary,
       sc_files = cc_files summary\<rparr>)))))"

definition cancel_source :: "'w seal_ports \<Rightarrow> 'w seal_state \<Rightarrow> 'w seal_state" where
  "cancel_source ports s =
     (if \<not> source_complete s \<and> \<not> source_cancelled s
      then case sp_cancel ports (env s) of (r, w) \<Rightarrow>
        s\<lparr>source_cancelled := True, env := w, events := events s @ [SE_Cancel r],
          g_source_cleanup := cleanup_of r\<rparr>
      else s)"

definition abort_stage :: "'w seal_ports \<Rightarrow> 'w seal_state \<Rightarrow> 'w seal_state" where
  "abort_stage ports s =
     (if \<not> stage_aborted s \<and> (g_publication s = Pub_NotAttempted \<or> g_publication s = Pub_NotPublished)
      then case sp_abort ports (env s) of (r, w) \<Rightarrow>
        s\<lparr>stage_aborted := True, env := w, events := events s @ [SE_Abort r],
          g_stage_cleanup := cleanup_of r\<rparr>
      else s)"

definition guard_cleanup :: "'w seal_ports \<Rightarrow> 'w seal_state \<Rightarrow> 'w seal_state" where
  "guard_cleanup ports s = abort_stage ports (cancel_source ports s)"

definition seal_start :: "'w seal_ports \<Rightarrow> seal_limits \<Rightarrow> 'w \<Rightarrow> 'w seal_state" where
  "seal_start ports lim w0 = (case sp_now_ms ports w0 of (start, w) \<Rightarrow>
     \<lparr>env = w, events = [SE_Now start], b_start = start, b_last = start, b_timeout = sl_timeout_ms lim,
      b_error = None, r_count = 0, r_eof = False, w_count = 0, source_complete = False,
      source_cancelled = False, stage_aborted = False, g_publication = Pub_NotAttempted,
      g_source_cleanup = Clean_NotRequired, g_stage_cleanup = Clean_NotRequired\<rparr>)"

text \<open>The guard is dropped on both paths, after the report was taken.\<close>

definition seal_with_clock ::
    "'w seal_ports \<Rightarrow> seal_limits \<Rightarrow> cipher_run \<Rightarrow> 'w
     \<Rightarrow> (seal_failure_report + sealed_counts) \<times> 'w seal_state" where
  "seal_with_clock ports lim cipher w0 = (case run ports lim cipher (seal_start ports lim w0) of
       (Inr counts, s) \<Rightarrow> (Inr counts, guard_cleanup ports s)
     | (Inl cause, s) \<Rightarrow>
         let s = guard_cleanup ports s
         in (Inl \<lparr>fr_cause = cause, fr_publication = g_publication s,
                  fr_source_cleanup = g_source_cleanup s, fr_stage_cleanup = g_stage_cleanup s\<rparr>,
             guard_cleanup ports s))"

definition archive_sealer_new :: "seal_limits \<Rightarrow> seal_failure + seal_limits" where
  "archive_sealer_new lim = and_then (seal_limits_validate lim) (\<lambda>_. Ok lim)"

end
