(* ===== verification/Backups.thy ===== *)
theory Backups
  imports Effect
begin

text \<open>
  What a backup is bound to, and the authentication of records: \<^verbatim>\<open>runtime/src/backups/mod.rs\<close>,
  \<^verbatim>\<open>runtime/src/mutation_ports/mod.rs\<close> and \<^verbatim>\<open>crypto-age/src/provenance/mod.rs\<close>. An array
  filled piece by piece with \<^verbatim>\<open>copy_from_slice\<close> is the concatenation of the pieces. The keyed
  hash is a library function and a parameter.
\<close>

section \<open>Errors and limits\<close>

datatype mutation_error =
  ME_Invalid | ME_Limit | ME_Cancelled | ME_Deadline | ME_Busy | ME_Unavailable | ME_Integrity | ME_Unknown

datatype backup_error =
  BE_Invalid | BE_Limit | BE_Cancelled | BE_Deadline | BE_Busy | BE_Unavailable | BE_Integrity | BE_Unknown

fun backup_error_of :: "mutation_error \<Rightarrow> backup_error" where
  "backup_error_of ME_Cancelled = BE_Cancelled"
| "backup_error_of ME_Deadline = BE_Deadline"
| "backup_error_of ME_Busy = BE_Busy"
| "backup_error_of ME_Limit = BE_Limit"
| "backup_error_of ME_Invalid = BE_Invalid"
| "backup_error_of ME_Integrity = BE_Integrity"
| "backup_error_of ME_Unknown = BE_Unknown"
| "backup_error_of ME_Unavailable = BE_Unavailable"

definition max_plaintext :: nat where [limit_defs]: "max_plaintext = 131072"
definition max_ciphertext :: nat where [limit_defs]: "max_ciphertext = 1048576"
definition max_store_bytes :: nat where [limit_defs]: "max_store_bytes = 33562688"
definition max_records :: nat where [limit_defs]: "max_records = 32"
definition binding_bytes :: nat where [limit_defs]: "binding_bytes = 88"

section \<open>The work budget\<close>

text \<open>Times are milliseconds of the monotonic clock.\<close>

record work_budget =
  wb_deadline :: nat
  wb_cancelled :: bool

definition work_budget_new :: "nat \<Rightarrow> nat \<Rightarrow> mutation_error + work_budget" where
  "work_budget_new now timeout =
     (if timeout = 0 \<or> timeout > 30000 then Err ME_Invalid
      else Ok \<lparr>wb_deadline = now + timeout, wb_cancelled = False\<rparr>)"

definition work_budget_check :: "nat \<Rightarrow> work_budget \<Rightarrow> mutation_error + unit" where
  "work_budget_check now b =
     (if wb_cancelled b then Err ME_Cancelled
      else if now \<ge> wb_deadline b then Err ME_Deadline
      else Ok ())"

definition work_budget_cancel :: "work_budget \<Rightarrow> work_budget" where
  "work_budget_cancel b = b\<lparr>wb_cancelled := True\<rparr>"

section \<open>Big-endian numbers\<close>

primrec be_bytes :: "nat \<Rightarrow> nat \<Rightarrow> string" where
  "be_bytes 0 n = []"
| "be_bytes (Suc k) n = char_of (n div 256 ^ k mod 256) # be_bytes k n"

definition u64_be :: "nat \<Rightarrow> string" where
  "u64_be n = be_bytes 8 n"

definition u64_of_be :: "string \<Rightarrow> nat" where
  "u64_of_be bs = foldl (\<lambda>n c. 256 * n + byte c) 0 bs"

section \<open>Bindings\<close>

datatype archive_format = Format_Tar | Format_Gzip

record artifact_binding =
  b_encoded :: string

definition zero_id :: string where
  "zero_id = replicate 16 NUL"

fun format_byte :: "archive_format \<Rightarrow> char" where
  "format_byte Format_Tar = CHR 0x00"
| "format_byte Format_Gzip = CHR 0x01"

definition binding_system ::
    "string \<Rightarrow> string \<Rightarrow> string \<Rightarrow> string \<Rightarrow> nat \<Rightarrow> nat \<Rightarrow> archive_format \<Rightarrow> backup_error + artifact_binding" where
  "binding_system store target boot job file_bytes source_bytes format =
     (if zero_id \<in> set [store, target, boot, job] \<or> file_bytes > 65536
         \<or> source_bytes = 0 \<or> source_bytes > max_plaintext
      then Err BE_Invalid
      else Ok \<lparr>b_encoded = store @ target @ boot @ job @ u64_be file_bytes @ u64_be source_bytes
                 @ [format_byte format] @ ''SYSv001''\<rparr>)"

definition part :: "nat \<Rightarrow> nat \<Rightarrow> string \<Rightarrow> string" where
  "part a b bs = take (b - a) (drop a bs)"

definition binding_decode :: "string \<Rightarrow> backup_error + artifact_binding" where
  "binding_decode bytes =
     (if length bytes \<noteq> binding_bytes \<or> drop 81 bytes \<noteq> ''SYSv001'' then Err BE_Integrity
      else and_then
        (if bytes ! 80 = CHR 0x00 then Ok Format_Tar
         else if bytes ! 80 = CHR 0x01 then Ok Format_Gzip else Err BE_Integrity) (\<lambda>format.
        binding_system (part 0 16 bytes) (part 16 32 bytes) (part 32 48 bytes) (part 48 64 bytes)
          (u64_of_be (part 64 72 bytes)) (u64_of_be (part 72 80 bytes)) format))"

definition binding_store :: "artifact_binding \<Rightarrow> string" where
  "binding_store b = take 16 (b_encoded b)"

definition binding_target :: "artifact_binding \<Rightarrow> string" where
  "binding_target b = part 16 32 (b_encoded b)"

definition binding_job :: "artifact_binding \<Rightarrow> string" where
  "binding_job b = part 48 64 (b_encoded b)"

definition binding_file_bytes :: "artifact_binding \<Rightarrow> nat" where
  "binding_file_bytes b = u64_of_be (part 64 72 (b_encoded b))"

definition binding_source_bytes :: "artifact_binding \<Rightarrow> nat" where
  "binding_source_bytes b = u64_of_be (part 72 80 (b_encoded b))"

definition binding_format :: "artifact_binding \<Rightarrow> archive_format" where
  "binding_format b = (if b_encoded b ! 80 = CHR 0x00 then Format_Tar else Format_Gzip)"

section \<open>Captures\<close>

record captured_archive =
  ca_binding :: artifact_binding
  ca_bytes :: string

definition captured_completed :: "artifact_binding \<Rightarrow> string \<Rightarrow> nat \<Rightarrow> backup_error + captured_archive" where
  "captured_completed binding bytes producer_bytes =
     (if length bytes \<noteq> binding_source_bytes binding \<or> producer_bytes \<noteq> binding_source_bytes binding
         \<or> length bytes > max_plaintext
      then Err BE_Integrity else Ok \<lparr>ca_binding = binding, ca_bytes = bytes\<rparr>)"

record backup_inspection =
  bi_source_bytes :: nat
  bi_payload_bytes :: nat
  bi_files :: nat

datatype record_publication = RP_Durable | RP_NotPublished | RP_Unknown

section \<open>Authentication\<close>

datatype mac_purpose = StoreHeader | ArtifactRecord

record authenticator =
  auth_tag :: "mac_purpose \<Rightarrow> string list \<Rightarrow> backup_error + string"
  auth_verify :: "mac_purpose \<Rightarrow> string list \<Rightarrow> string \<Rightarrow> backup_error + unit"

fun purpose_text :: "mac_purpose \<Rightarrow> string" where
  "purpose_text StoreHeader = ''openwrt-mcp/store-header/v1'' @ [NUL]"
| "purpose_text ArtifactRecord = ''openwrt-mcp/artifact-record/v1'' @ [NUL]"

definition mac_input :: "mac_purpose \<Rightarrow> string list \<Rightarrow> string" where
  "mac_input purpose parts = purpose_text purpose @ concat (map (\<lambda>p. u64_be (length p) @ p) parts)"

definition hmac_new :: "string \<Rightarrow> backup_error + string" where
  "hmac_new material = (if length material \<noteq> 32 then Err BE_Invalid else Ok material)"

definition hmac_mac :: "(string \<Rightarrow> string \<Rightarrow> string) \<Rightarrow> string \<Rightarrow> mac_purpose \<Rightarrow> string list \<Rightarrow> backup_error + string" where
  "hmac_mac mac key purpose parts =
     (if length parts > 4 \<or> list_ex (\<lambda>p. length p > 1048576) parts then Err BE_Limit
      else Ok (mac key (mac_input purpose parts)))"

definition hmac_sha256 :: "(string \<Rightarrow> string \<Rightarrow> string) \<Rightarrow> string \<Rightarrow> authenticator" where
  "hmac_sha256 mac key =
     \<lparr>auth_tag = hmac_mac mac key,
      auth_verify = (\<lambda>purpose parts tag. and_then (hmac_mac mac key purpose parts) (\<lambda>t.
        ensure (t = tag) BE_Integrity))\<rparr>"

section \<open>Properties of bindings\<close>

lemma length_be_bytes [simp]: "length (be_bytes k n) = k"
  by (induction k) simp_all

lemma length_u64_be [simp]: "length (u64_be n) = 8"
  by (simp add: u64_be_def)

lemma u64_be_nonempty [simp]: "u64_be n \<noteq> []" "[] \<noteq> u64_be n"
  by (metis length_u64_be list.size(3) zero_neq_numeral)+

lemma foldl_bytes: "foldl (\<lambda>n c. 256 * n + byte c) a bs = a * 256 ^ length bs + u64_of_be bs"
proof (induction bs rule: rev_induct)
  case (snoc c bs)
  then show ?case by (simp add: u64_of_be_def algebra_simps)
qed (simp add: u64_of_be_def)

lemma u64_of_be_simps [simp]:
  "u64_of_be [] = 0" "u64_of_be (c # bs) = byte c * 256 ^ length bs + u64_of_be bs"
  using foldl_bytes [of "byte c" bs] by (simp_all add: u64_of_be_def)

lemma byte_below: "byte c < 256"
  by (rule nat_of_char_less_256)

lemma u64_of_be_less: "u64_of_be bs < 256 ^ length bs"
proof (induction bs)
  case (Cons c bs)
  have "u64_of_be (c # bs) < (byte c + 1) * 256 ^ length bs" using Cons by simp
  also have "\<dots> \<le> 256 * 256 ^ length bs" using byte_below [of c] by (intro mult_le_mono1) linarith
  finally show ?case by simp
qed simp

lemma u64_of_be_bytes: "u64_of_be (be_bytes k n) = n mod 256 ^ k"
proof (induction k)
  case (Suc k)
  have "byte (char_of (n div 256 ^ k mod 256) :: char) = n div 256 ^ k mod 256" by simp
  moreover have "n mod (256 ^ k * 256) = 256 ^ k * (n div 256 ^ k mod 256) + n mod 256 ^ k"
    by (rule mod_mult2_eq)
  ultimately show ?case using Suc by (simp add: mult.commute)
qed simp

lemma be_bytes_mod: "k \<le> j \<Longrightarrow> be_bytes k (n mod 256 ^ j) = be_bytes k n"
proof (induction k)
  case (Suc k)
  then obtain d where d: "j = k + Suc d" by (metis less_imp_Suc_add add_Suc_right Suc_le_eq)
  have "n mod 256 ^ j div 256 ^ k = n div 256 ^ k mod 256 ^ Suc d"
    unfolding d power_add by (simp only: mod_mult2_eq) simp
  also have "\<dots> mod 256 = n div 256 ^ k mod 256" by (simp add: mod_mod_cancel)
  finally show ?case using Suc by simp
qed simp

lemma be_bytes_of_be: "be_bytes (length bs) (u64_of_be bs) = bs"
proof (induction bs)
  case (Cons c bs)
  have "(byte c * 256 ^ length bs + u64_of_be bs) div 256 ^ length bs = byte c"
    using u64_of_be_less [of bs] by simp
  moreover have "be_bytes (length bs) (byte c * 256 ^ length bs + u64_of_be bs) = be_bytes (length bs) (u64_of_be bs)"
    using be_bytes_mod [of "length bs" "length bs" "byte c * 256 ^ length bs + u64_of_be bs"]
      be_bytes_mod [of "length bs" "length bs" "u64_of_be bs"] by simp
  ultimately show ?case using Cons byte_below [of c] by simp
qed simp

lemma u64_round_trip [simp]: "n < 2 ^ 64 \<Longrightarrow> u64_of_be (u64_be n) = n"
  by (simp add: u64_be_def u64_of_be_bytes)

lemma u64_be_of_be [simp]: "length bs = 8 \<Longrightarrow> u64_be (u64_of_be bs) = bs"
  using be_bytes_of_be [of bs] by (simp add: u64_be_def)


lemma part_append [simp]:
  "length xs \<le> a \<Longrightarrow> part a b (xs @ ys) = part (a - length xs) (b - length xs) ys"
  "length xs = b \<Longrightarrow> part 0 b (xs @ ys) = xs"
  by (simp_all add: part_def)

lemma length_part [simp]: "b \<le> length bs \<Longrightarrow> a \<le> b \<Longrightarrow> length (part a b bs) = b - a"
  by (simp add: part_def)

lemma part_join: "a \<le> b \<Longrightarrow> b \<le> length bs \<Longrightarrow> part a b bs @ drop b bs = drop a bs"
  by (simp add: part_def) (metis append_take_drop_id drop_drop le_add_diff_inverse2)

lemma binding_split:
  assumes "length bs = 88"
  shows "bs = part 0 16 bs @ part 16 32 bs @ part 32 48 bs @ part 48 64 bs @ part 64 72 bs @ part 72 80 bs
    @ [bs ! 80] @ drop 81 bs"
  using assms part_join [of 0 16 bs] part_join [of 16 32 bs] part_join [of 32 48 bs] part_join [of 48 64 bs]
    part_join [of 64 72 bs] part_join [of 72 80 bs] Cons_nth_drop_Suc [of 80 bs] by simp

lemma binding_decode_Ok:
  assumes "binding_decode bytes = Ok b"
  obtains format where "length bytes = 88" "drop 81 bytes = ''SYSv001''" "bytes ! 80 = format_byte format"
    "binding_system (part 0 16 bytes) (part 16 32 bytes) (part 32 48 bytes) (part 48 64 bytes)
       (u64_of_be (part 64 72 bytes)) (u64_of_be (part 72 80 bytes)) format = Ok b"
proof -
  let ?sys = "binding_system (part 0 16 bytes) (part 16 32 bytes) (part 32 48 bytes) (part 48 64 bytes)
      (u64_of_be (part 64 72 bytes)) (u64_of_be (part 72 80 bytes))"
  have "bytes ! 80 = format_byte Format_Tar \<and> ?sys Format_Tar = Ok b
      \<or> bytes ! 80 = format_byte Format_Gzip \<and> ?sys Format_Gzip = Ok b"
    and "length bytes = 88" "drop 81 bytes = ''SYSv001''"
    using assms by (auto simp: binding_decode_def limit_defs split: if_splits)
  with that show thesis by blast
qed

lemma binding_decode_keeps:
  assumes "binding_decode bytes = Ok b"
  shows "b_encoded b = bytes \<and> length bytes = 88"
  using assms
proof (rule binding_decode_Ok)
  fix format assume "length bytes = 88" "drop 81 bytes = ''SYSv001''" "bytes ! 80 = format_byte format"
    "binding_system (part 0 16 bytes) (part 16 32 bytes) (part 32 48 bytes) (part 48 64 bytes)
       (u64_of_be (part 64 72 bytes)) (u64_of_be (part 72 80 bytes)) format = Ok b"
  then show ?thesis using binding_split [of bytes] by (auto simp: binding_system_def split: if_splits)
qed

text \<open>
  A binding and its 88 bytes determine each other. Bytes decode if and only if
  they are the encoding of some accepted fields, the decoded binding keeps exactly these bytes,
  and the accessors give the fields back.
\<close>

lemma binding_decode_iff:
  "binding_decode bytes = Ok b \<longleftrightarrow>
     (\<exists>store target boot job file_bytes source_bytes format.
        length store = 16 \<and> length target = 16 \<and> length boot = 16 \<and> length job = 16
        \<and> binding_system store target boot job file_bytes source_bytes format = Ok b
        \<and> b_encoded b = bytes \<and> binding_store b = store \<and> binding_target b = target \<and> binding_job b = job
        \<and> binding_file_bytes b = file_bytes \<and> binding_source_bytes b = source_bytes \<and> binding_format b = format)"
  (is "_ \<longleftrightarrow> ?fields")
proof
  assume ok: "binding_decode bytes = Ok b"
  then have e: "b_encoded b = bytes" and l: "length bytes = 88" by (simp_all add: binding_decode_keeps)
  from ok obtain format where f: "bytes ! 80 = format_byte format"
    and sys: "binding_system (part 0 16 bytes) (part 16 32 bytes) (part 32 48 bytes) (part 48 64 bytes)
       (u64_of_be (part 64 72 bytes)) (u64_of_be (part 72 80 bytes)) format = Ok b" by (rule binding_decode_Ok)
  have "binding_format b = format"
    using f e by (cases format) (simp_all add: binding_format_def)
  with e sys l show ?fields
    by (intro exI [of _ "part 0 16 bytes"] exI [of _ "part 16 32 bytes"] exI [of _ "part 32 48 bytes"]
        exI [of _ "part 48 64 bytes"] exI [of _ "u64_of_be (part 64 72 bytes)"]
        exI [of _ "u64_of_be (part 72 80 bytes)"] exI [of _ format])
      (simp add: binding_store_def binding_target_def binding_job_def binding_file_bytes_def
        binding_source_bytes_def, simp add: part_def)
next
  assume ?fields
  then obtain store target boot job file_bytes source_bytes format where
    l: "length store = 16" "length target = 16" "length boot = 16" "length job = 16"
    and sys: "binding_system store target boot job file_bytes source_bytes format = Ok b"
    and e: "b_encoded b = bytes" by blast
  from sys have n: "file_bytes < 2 ^ 64" "source_bytes < 2 ^ 64"
    and bytes: "bytes = store @ target @ boot @ job @ u64_be file_bytes @ u64_be source_bytes
      @ [format_byte format] @ ''SYSv001''"
    using e by (auto simp: binding_system_def limit_defs split: if_splits)
  have "bytes ! 80 = format_byte format" using l bytes by (simp add: nth_append)
  moreover have "part 0 16 bytes = store" "part 16 32 bytes = target" "part 32 48 bytes = boot" "part 48 64 bytes = job"
    "part 64 72 bytes = u64_be file_bytes" "part 72 80 bytes = u64_be source_bytes" "length bytes = 88"
    "drop 81 bytes = ''SYSv001''"
    using l unfolding bytes by simp_all
  ultimately show "binding_decode bytes = Ok b"
    using sys n by (cases format) (simp_all add: binding_decode_def limit_defs)
qed


section \<open>Properties of the authentication\<close>

text \<open>
  What a store relies on: a tag it was given verifies for the same purpose and parts.
\<close>

definition authenticates :: "authenticator \<Rightarrow> bool" where
  "authenticates auth \<longleftrightarrow> (\<forall>purpose parts tag. auth_tag auth purpose parts = Ok tag
     \<longrightarrow> length tag = 32 \<and> auth_verify auth purpose parts tag = Ok ())"

lemma hmac_authenticates: "(\<And>k m. length (mac k m) = 32) \<Longrightarrow> authenticates (hmac_sha256 mac key)"
  by (auto simp: authenticates_def hmac_sha256_def hmac_mac_def split: if_splits)

text \<open>The hashed text determines the purpose and the parts: no two messages share it.\<close>

lemma framed_inject:
  assumes "concat (map (\<lambda>p. u64_be (length p) @ p) ps) = concat (map (\<lambda>p. u64_be (length p) @ p) qs)"
    and "\<forall>p \<in> set ps \<union> set qs. length p < 2 ^ 64"
  shows "ps = qs"
  using assms
proof (induction ps arbitrary: qs)
  case Nil
  then show ?case by (cases qs) auto
next
  case (Cons p ps)
  then obtain q rest where qs: "qs = q # rest" by (cases qs) auto
  with Cons.prems(1) have "u64_be (length p) = u64_be (length q)"
    and r: "p @ concat (map (\<lambda>p. u64_be (length p) @ p) ps) = q @ concat (map (\<lambda>p. u64_be (length p) @ p) rest)"
    by simp_all
  from arg_cong [OF this(1), of u64_of_be] Cons.prems(2) qs have "length p = length q" by simp
  with r have "p = q" "concat (map (\<lambda>p. u64_be (length p) @ p) ps) = concat (map (\<lambda>p. u64_be (length p) @ p) rest)"
    by simp_all
  with Cons.IH [of rest] Cons.prems(2) qs show ?case by simp
qed

lemma mac_input_inject:
  assumes "mac_input purpose parts = mac_input purpose' parts'"
    and "\<forall>p \<in> set parts \<union> set parts'. length p < 2 ^ 64"
  shows "purpose = purpose' \<and> parts = parts'"
proof -
  have "purpose = purpose'"
    using assms(1) by (cases purpose; cases purpose') (simp_all add: mac_input_def)
  with assms framed_inject show ?thesis by (simp add: mac_input_def)
qed

end
