(* ===== verification/RecordStore.thy ===== *)
theory RecordStore
  imports Backups
begin

text \<open>
  The append-only store of sealed backups: \<^verbatim>\<open>adapters/src/backups/store.rs\<close>. The locked file
  and the work budget are ports: functions on the unknown state \<open>'w\<close> of the world. A buffer
  that a read fills is as long as the read asked for. A \<^verbatim>\<open>return\<close> in the middle of a function
  that returns no \<^verbatim>\<open>Result\<close> is an early return of the model.
\<close>

section \<open>Ports and state\<close>

definition header_bytes :: nat where [limit_defs]: "header_bytes = 64"
definition record_header_bytes :: nat where [limit_defs]: "record_header_bytes = 104"
definition tag_bytes :: nat where [limit_defs]: "tag_bytes = 32"
definition store_chunk :: nat where [limit_defs]: "store_chunk = 65536"

record 'w store_ports =
  io_size :: "'w \<Rightarrow> (backup_error + nat) \<times> 'w"
  io_read_at :: "nat \<Rightarrow> nat \<Rightarrow> 'w \<Rightarrow> (backup_error + string) \<times> 'w"
  io_append :: "nat \<Rightarrow> string \<Rightarrow> 'w \<Rightarrow> (backup_error + unit) \<times> 'w"
  io_synchronize :: "'w \<Rightarrow> (backup_error + unit) \<times> 'w"
  work_check :: "'w \<Rightarrow> (mutation_error + unit) \<times> 'w"

record 'w record_store =
  rs_id :: string
  rs_uncertain :: bool
  rs_world :: 'w

record scan_result =
  sn_size :: nat
  sn_count :: nat
  sn_matched :: "string option"

definition port :: "('w \<Rightarrow> ('e + 'a) \<times> 'w) \<Rightarrow> ('w record_store, 'e, 'a) eff" where
  "port f = (\<lambda>s. case f (rs_world s) of (r, w) \<Rightarrow> (r, s\<lparr>rs_world := w\<rparr>))"

definition checked :: "'w store_ports \<Rightarrow> ('w record_store, backup_error, unit) eff" where
  "checked ports = port (\<lambda>w. case work_check ports w of (r, w) \<Rightarrow> (map_err backup_error_of r, w))"

definition returned :: "'e + 'a \<Rightarrow> ('s, 'e, 'a) eff" where
  "returned r = (\<lambda>s. (r, s))"

section \<open>The header of a store\<close>

definition store_magic :: "string \<Rightarrow> string" where
  "store_magic store = ''OMCPST01'' @ store @ ''recd0001''"

definition provisioning_header :: "authenticator \<Rightarrow> string \<Rightarrow> backup_error + string" where
  "provisioning_header auth store =
     (if store = zero_id then Err BE_Invalid
      else and_then (auth_tag auth StoreHeader [store_magic store]) (\<lambda>tag. Ok (store_magic store @ tag)))"

section \<open>Reading\<close>

text \<open>\<^verbatim>\<open>chunks\<close> and the lengths of \<^verbatim>\<open>chunks_mut\<close>.\<close>

function chunks :: "string \<Rightarrow> string list" where
  "chunks bs = (if bs = [] then [] else take store_chunk bs # chunks (drop store_chunk bs))"
  by auto
termination by (relation "measure length") (auto simp: store_chunk_def)

function spans :: "nat \<Rightarrow> nat list" where
  "spans n = (if n = 0 then [] else min n store_chunk # spans (n - store_chunk))"
  by auto
termination by (relation "measure id") (auto simp: store_chunk_def)

declare chunks.simps [simp del] spans.simps [simp del]

definition filled :: "nat \<Rightarrow> string \<Rightarrow> string" where
  "filled n bs = take n (bs @ replicate n NUL)"

primrec read_spans :: "'w store_ports \<Rightarrow> nat list \<Rightarrow> nat \<Rightarrow> ('w record_store, backup_error, string) eff" where
  "read_spans ports [] offset = give []"
| "read_spans ports (n # ns) offset =
     seq (checked ports) (\<lambda>_.
     seq (port (io_read_at ports offset n)) (\<lambda>bs.
     seq (checked ports) (\<lambda>_.
     seq (read_spans ports ns (offset + n)) (\<lambda>rest.
     give (filled n bs @ rest)))))"

definition store_read :: "'w store_ports \<Rightarrow> nat \<Rightarrow> nat \<Rightarrow> ('w record_store, backup_error, string) eff" where
  "store_read ports offset n = read_spans ports (spans n) offset"

text \<open>The loop's position, the jobs seen and the matching ciphertext.\<close>

type_synonym scan_state = "nat \<times> string list \<times> string option"

definition matching ::
    "artifact_binding option \<Rightarrow> artifact_binding \<Rightarrow> string \<Rightarrow> string option
      \<Rightarrow> ('w record_store, backup_error, string option) eff" where
  "matching expected binding ciphertext matched = (case expected of
       None \<Rightarrow> give matched
     | Some e \<Rightarrow>
         if binding_job e = binding_job binding
         then seq (refuse (e \<noteq> binding) BE_Integrity) (\<lambda>_. give (Some ciphertext))
         else give matched)"

definition scan_record ::
    "'w store_ports \<Rightarrow> authenticator \<Rightarrow> artifact_binding option \<Rightarrow> nat \<Rightarrow> scan_state
      \<Rightarrow> ('w record_store, backup_error, scan_state) eff" where
  "scan_record ports auth expected sz = (\<lambda>(position, jobs, matched).
     seq (refuse (length jobs \<ge> max_records \<or> sz - position < record_header_bytes + tag_bytes) BE_Integrity) (\<lambda>_.
     seq (store_read ports position record_header_bytes) (\<lambda>header.
     seq (refuse (take 8 header \<noteq> ''OMCPBK01'') BE_Integrity) (\<lambda>_.
     seq (returned (binding_decode (part 8 (8 + binding_bytes) header))) (\<lambda>binding.
     let size_of = u64_of_be (drop (8 + binding_bytes) header) in
     seq (get rs_id) (\<lambda>store.
     seq (refuse (binding_store binding \<noteq> store \<or> binding_job binding \<in> set jobs
         \<or> \<not> (1 \<le> size_of \<and> size_of \<le> max_ciphertext)
         \<or> size_of + (record_header_bytes + tag_bytes) > sz - position) BE_Integrity) (\<lambda>_.
     seq (store_read ports (position + record_header_bytes) size_of) (\<lambda>ciphertext.
     seq (store_read ports (position + record_header_bytes + size_of) tag_bytes) (\<lambda>tag.
     seq (returned (auth_verify auth ArtifactRecord [header, ciphertext] tag)) (\<lambda>_.
     seq (checked ports) (\<lambda>_.
     seq (matching expected binding ciphertext matched) (\<lambda>matched.
     give (position + (record_header_bytes + tag_bytes) + size_of, binding_job binding # jobs, matched)))))))))))))"

lemma seq_cong [fundef_cong]:
  "m = m' \<Longrightarrow> (\<And>x s s'. m' s = (Inr x, s') \<Longrightarrow> f x = g x) \<Longrightarrow> seq m f = seq m' g"
  by (rule ext) (auto simp: seq_def split: prod.splits sum.splits)

lemma scan_record_advances:
  assumes "scan_record ports auth expected sz (position, jobs, matched) s = (Inr (position', jobs', matched'), s')"
  shows "length jobs < max_records \<and> length jobs' = Suc (length jobs)"
  using assms by (auto simp: scan_record_def eff_defs returned_def Let_def split: if_splits prod.splits sum.splits)

text \<open>Every round adds a job, and there is room for \<^verbatim>\<open>MAX_RECORDS\<close> of them.\<close>

function scan_loop ::
    "'w store_ports \<Rightarrow> authenticator \<Rightarrow> artifact_binding option \<Rightarrow> nat \<Rightarrow> scan_state
      \<Rightarrow> ('w record_store, backup_error, scan_state) eff" where
  "scan_loop ports auth expected sz (position, jobs, matched) =
     (if position < sz
      then seq (scan_record ports auth expected sz (position, jobs, matched)) (\<lambda>acc.
        scan_loop ports auth expected sz acc)
      else give (position, jobs, matched))"
  by pat_completeness auto
termination
  by (relation "measure (\<lambda>(ports, auth, expected, sz, position, jobs, matched). max_records - length jobs)")
     (auto dest!: scan_record_advances)

declare scan_loop.simps [simp del]

definition scan ::
    "'w store_ports \<Rightarrow> authenticator \<Rightarrow> artifact_binding option
      \<Rightarrow> ('w record_store, backup_error, scan_result) eff" where
  "scan ports auth expected =
     seq (checked ports) (\<lambda>_.
     seq (port (io_size ports)) (\<lambda>sz.
     seq (refuse (\<not> (header_bytes \<le> sz \<and> sz \<le> max_store_bytes)) BE_Integrity) (\<lambda>_.
     seq (get rs_id) (\<lambda>store.
     seq (refuse (case expected of None \<Rightarrow> False | Some b \<Rightarrow> binding_store b \<noteq> store) BE_Integrity) (\<lambda>_.
     seq (store_read ports 0 header_bytes) (\<lambda>header.
     seq (refuse (take 8 header \<noteq> ''OMCPST01'' \<or> part 8 24 header \<noteq> store
         \<or> part 24 32 header \<noteq> ''recd0001'' \<or> store = zero_id) BE_Integrity) (\<lambda>_.
     seq (returned (auth_verify auth StoreHeader [take 32 header] (drop 32 header))) (\<lambda>_.
     seq (checked ports) (\<lambda>_.
     seq (scan_loop ports auth expected sz (header_bytes, [], None)) (\<lambda>(_, jobs, matched).
     seq (port (io_size ports)) (\<lambda>now.
     seq (refuse (now \<noteq> sz) BE_Integrity) (\<lambda>_.
     seq (checked ports) (\<lambda>_.
     give \<lparr>sn_size = sz, sn_count = length jobs, sn_matched = matched\<rparr>)))))))))))))"

section \<open>Operations\<close>

definition from_io ::
    "'w store_ports \<Rightarrow> authenticator \<Rightarrow> string \<Rightarrow> 'w \<Rightarrow> (backup_error + 'w record_store) \<times> 'w" where
  "from_io ports auth store w = (case scan ports auth None \<lparr>rs_id = store, rs_uncertain = False, rs_world = w\<rparr> of
       (Inl e, s) \<Rightarrow> (Err e, rs_world s)
     | (Inr _, s) \<Rightarrow> (Ok s, rs_world s))"

text \<open>\<open>otherwise r m\<close>: return \<open>r\<close> when \<open>m\<close> fails.\<close>

definition otherwise :: "'r \<Rightarrow> ('s, 'e, 'a) eff \<Rightarrow> ('s, 'r, 'a) eff" where
  "otherwise r m = seq (caught m) (\<lambda>x. case x of Inl _ \<Rightarrow> raise r | Inr a \<Rightarrow> give a)"

definition outcome_of :: "('s, 'r, 'r) eff \<Rightarrow> 's \<Rightarrow> 'r \<times> 's" where
  "outcome_of m s = (case m s of (Inl r, s') \<Rightarrow> (r, s') | (Inr r, s') \<Rightarrow> (r, s'))"

definition record_header :: "artifact_binding \<Rightarrow> string \<Rightarrow> string" where
  "record_header binding ciphertext = ''OMCPBK01'' @ b_encoded binding @ u64_be (length ciphertext)"

primrec append_chunks :: "'w store_ports \<Rightarrow> string list \<Rightarrow> nat \<Rightarrow> ('w record_store, record_publication, nat) eff" where
  "append_chunks ports [] position = give position"
| "append_chunks ports (c # cs) position =
     seq (otherwise RP_Unknown (checked ports)) (\<lambda>_.
     seq (otherwise RP_Unknown (port (io_append ports position c))) (\<lambda>_.
     seq (otherwise RP_Unknown (checked ports)) (\<lambda>_.
     append_chunks ports cs (position + length c))))"

definition age_magic :: string where
  "age_magic = ''age-encryption.org/v1'' @ [CHR 0x0A]"

definition scan_or_doubt ::
    "'w store_ports \<Rightarrow> authenticator \<Rightarrow> artifact_binding \<Rightarrow> ('w record_store, record_publication, scan_result) eff" where
  "scan_or_doubt ports auth binding =
     seq (caught (scan ports auth (Some binding))) (\<lambda>r. case r of
         Inr found \<Rightarrow> give found
       | Inl _ \<Rightarrow> seq (change (\<lambda>s. s\<lparr>rs_uncertain := True\<rparr>)) (\<lambda>_. raise RP_Unknown))"

definition append_record ::
    "'w store_ports \<Rightarrow> string \<Rightarrow> string \<Rightarrow> string \<Rightarrow> nat \<Rightarrow> ('w record_store, record_publication, record_publication) eff" where
  "append_record ports header ciphertext tag sz =
     seq (change (\<lambda>s. s\<lparr>rs_uncertain := True\<rparr>)) (\<lambda>_.
     seq (append_chunks ports (concat (map chunks [header, ciphertext, tag])) sz) (\<lambda>position.
     seq (otherwise RP_Unknown (port (io_size ports))) (\<lambda>now.
     seq (refuse (now \<noteq> position) RP_Unknown) (\<lambda>_.
     seq (otherwise RP_Unknown (port (io_synchronize ports))) (\<lambda>_.
     seq (otherwise RP_Unknown (checked ports)) (\<lambda>_.
     seq (change (\<lambda>s. s\<lparr>rs_uncertain := False\<rparr>)) (\<lambda>_.
     give RP_Durable)))))))"

definition publish ::
    "'w store_ports \<Rightarrow> authenticator \<Rightarrow> artifact_binding \<Rightarrow> string \<Rightarrow> 'w record_store
      \<Rightarrow> record_publication \<times> 'w record_store" where
  "publish ports auth binding ciphertext = outcome_of (
     seq (get rs_uncertain) (\<lambda>uncertain.
     seq (refuse uncertain RP_Unknown) (\<lambda>_.
     seq (scan_or_doubt ports auth binding) (\<lambda>found.
     seq (refuse (sn_matched found \<noteq> None \<or> sn_count found \<ge> max_records \<or> ciphertext = []
         \<or> length ciphertext > max_ciphertext \<or> take (length age_magic) ciphertext \<noteq> age_magic)
       RP_NotPublished) (\<lambda>_.
     let header = record_header binding ciphertext in
     seq (otherwise RP_NotPublished (returned (auth_tag auth ArtifactRecord [header, ciphertext]))) (\<lambda>tag.
     seq (otherwise RP_NotPublished (checked ports)) (\<lambda>_.
     append_record ports header ciphertext tag (sn_size found))))))))"

definition reconcile ::
    "'w store_ports \<Rightarrow> authenticator \<Rightarrow> artifact_binding \<Rightarrow> 'w record_store
      \<Rightarrow> record_publication \<times> 'w record_store" where
  "reconcile ports auth binding = outcome_of (
     seq (otherwise RP_Unknown (scan ports auth (Some binding))) (\<lambda>found.
     seq (refuse (sn_matched found = None) RP_Unknown) (\<lambda>_.
     seq (otherwise RP_Unknown (checked ports)) (\<lambda>_.
     seq (otherwise RP_Unknown (port (io_synchronize ports))) (\<lambda>_.
     seq (otherwise RP_Unknown (checked ports)) (\<lambda>_.
     seq (change (\<lambda>s. s\<lparr>rs_uncertain := False\<rparr>)) (\<lambda>_.
     give RP_Durable)))))))"

definition authenticated_bytes ::
    "'w store_ports \<Rightarrow> authenticator \<Rightarrow> artifact_binding \<Rightarrow> ('w record_store, backup_error, string) eff" where
  "authenticated_bytes ports auth binding =
     seq (scan ports auth (Some binding)) (\<lambda>found. returned (ok_or BE_Unknown (sn_matched found)))"

end
