(* ===== verification/Archive.thy ===== *)
theory Archive
  imports Prelude
begin

text \<open>
  The strict tar profile of \<^verbatim>\<open>device-codec/src/archive\<close>: header blocks, the manifest of
  expected files, and the validator that is fed the stream in chunks. A byte is a \<open>char\<close>
  and a byte slice a \<open>string\<close>. A fixed range of the 512-byte block is \<open>block_field\<close>,
  which cannot fall outside an array of that size; indexing with computed indices may panic
  and is written with \<open>at\<close> and \<open>put\<close>.
\<close>

section \<open>Limits and errors\<close>

definition max_chunk_bytes :: nat where [limit_defs]: "max_chunk_bytes = 65536"
definition max_archive_bytes :: nat where [limit_defs]: "max_archive_bytes = 72 * 1024 * 1024"
definition max_payload_bytes :: nat where [limit_defs]: "max_payload_bytes = 64 * 1024 * 1024"
definition max_file_bytes :: nat where [limit_defs]: "max_file_bytes = 8 * 1024 * 1024"
definition max_files :: nat where [limit_defs]: "max_files = 4096"
definition max_path_bytes :: nat where [limit_defs]: "max_path_bytes = 256"
definition max_path_components :: nat where [limit_defs]: "max_path_components = 32"
definition max_component_bytes :: nat where [limit_defs]: "max_component_bytes = 100"
definition max_tail_bytes :: nat where [limit_defs]: "max_tail_bytes = 32768"
definition block_bytes :: nat where [limit_defs]: "block_bytes = 512"

record archive_summary =
  as_files :: nat
  as_payload_bytes :: nat
  as_archive_bytes :: nat

datatype archive_error =
  AE_InvalidPath | AE_InvalidManifest | AE_InvalidHeader | AE_UnsupportedEntry
| AE_ManifestMismatch | AE_LimitExceeded | AE_IncompleteArchive | AE_InvalidPadding

fun archive_error_code :: "archive_error \<Rightarrow> string" where
  "archive_error_code AE_InvalidPath = ''invalid_archive_path''"
| "archive_error_code AE_InvalidManifest = ''invalid_archive_manifest''"
| "archive_error_code AE_InvalidHeader = ''invalid_archive_header''"
| "archive_error_code AE_UnsupportedEntry = ''unsupported_archive_entry''"
| "archive_error_code AE_ManifestMismatch = ''archive_manifest_mismatch''"
| "archive_error_code AE_LimitExceeded = ''archive_limit_exceeded''"
| "archive_error_code AE_IncompleteArchive = ''incomplete_archive''"
| "archive_error_code AE_InvalidPadding = ''invalid_archive_padding''"

section \<open>Paths and manifests\<close>

definition path_byte :: "char \<Rightarrow> bool" where
  "path_byte b \<longleftrightarrow> is_ascii_alphanumeric b \<or> b \<in> set ''_-.+@/''"

text \<open>One round of the loop over the components; the state is the count.\<close>

definition check_component :: "string \<Rightarrow> nat \<Rightarrow> archive_error + nat" where
  "check_component component n =
     (if component = [] \<or> length component > max_component_bytes
         \<or> component = ''.'' \<or> component = ''..'' \<or> n + 1 > max_path_components
      then Err AE_InvalidPath else Ok (n + 1))"

definition validate_path :: "string \<Rightarrow> archive_error + unit" where
  "validate_path path =
     (if path = [] \<or> length path > max_path_bytes then Err AE_InvalidPath
      else if \<not> list_all path_byte path then Err AE_InvalidPath
      else and_then (fold_res check_component (split_char (CHR ''/'') path) 0) (\<lambda>_. Ok ()))"

record expected_file =
  ef_path :: string
  ef_size :: nat

definition expected_file_new :: "string \<Rightarrow> nat \<Rightarrow> archive_error + expected_file" where
  "expected_file_new path n =
     and_then (validate_path path) (\<lambda>_.
       if n > max_file_bytes then Err AE_LimitExceeded else Ok \<lparr>ef_path = path, ef_size = n\<rparr>)"

record expected_archive =
  ea_files :: "expected_file list"
  ea_payload_bytes :: nat

definition add_payload :: "expected_file \<Rightarrow> nat \<Rightarrow> archive_error + nat" where
  "add_payload f n = (case checked_add n (ef_size f) of
       None \<Rightarrow> Err AE_LimitExceeded
     | Some m \<Rightarrow> if m \<le> max_payload_bytes then Ok m else Err AE_LimitExceeded)"

definition prefix_listed :: "expected_file list \<Rightarrow> expected_file \<Rightarrow> bool" where
  "prefix_listed files f = list_ex (\<lambda>i. ef_path f ! i = CHR ''/''
     \<and> binary_search ef_path files (take i (ef_path f)) \<noteq> None) [0..<length (ef_path f)]"

definition expected_archive_new :: "expected_file list \<Rightarrow> archive_error + expected_archive" where
  "expected_archive_new files =
     (if files = [] then Err AE_InvalidManifest
      else if length files > max_files then Err AE_LimitExceeded
      else and_then (fold_res add_payload files 0) (\<lambda>payload.
        let files = sort_key ef_path files in
        if windows2_any (\<lambda>a b. ef_path a = ef_path b) files then Err AE_InvalidManifest
        else if list_ex (prefix_listed files) files then Err AE_InvalidManifest
        else Ok \<lparr>ea_files = files, ea_payload_bytes = payload\<rparr>))"

section \<open>Header blocks\<close>

record tar_header =
  th_path :: string
  th_size :: nat

definition block_field :: "string \<Rightarrow> nat \<Rightarrow> nat \<Rightarrow> string" where
  "block_field block a b = take (b - a) (drop a block)"

definition octal_digit :: "char \<Rightarrow> bool" where
  "octal_digit b \<longleftrightarrow> 48 \<le> byte b \<and> byte b \<le> 55"

text \<open>The digit loop: the value so far and the rest of the field.\<close>

fun octal_loop :: "nat \<Rightarrow> string \<Rightarrow> archive_error + nat \<times> string" where
  "octal_loop n [] = Ok (n, [])"
| "octal_loop n (b # bs) =
     (if octal_digit b
      then and_then (ok_or AE_InvalidHeader
             (Option.bind (checked_mul n 8) (\<lambda>n. checked_add n (byte b - 48))))
             (\<lambda>n. octal_loop n bs)
      else Ok (n, b # bs))"

definition octal :: "string \<Rightarrow> archive_error + nat" where
  "octal fld = (case dropWhile (\<lambda>b. b = CHR '' '') fld of
       [] \<Rightarrow> Err AE_InvalidHeader
     | start \<Rightarrow> and_then (octal_loop 0 start) (\<lambda>(n, rest).
         if rest = start \<or> \<not> list_all (\<lambda>b. b = CHR '' '' \<or> b = NUL) rest
         then Err AE_InvalidHeader else Ok n))"

definition field_text :: "string \<Rightarrow> archive_error + string" where
  "field_text fld =
     (if list_ex (\<lambda>b. b \<noteq> NUL) (dropWhile (\<lambda>b. b \<noteq> NUL) fld) then Err AE_InvalidHeader
      else Ok (takeWhile (\<lambda>b. b \<noteq> NUL) fld))"

definition all_zero :: "string \<Rightarrow> bool" where
  "all_zero bs = list_all (\<lambda>b. b = NUL) bs"

definition block_sum :: "string \<Rightarrow> nat" where
  "block_sum block = sum_list (map (\<lambda>(i, b). if 148 \<le> i \<and> i < 156 then 32 else byte b)
     (zip [0..<length block] block))"

definition header_prefix :: "string \<Rightarrow> archive_error + string" where
  "header_prefix block =
     (if block_field block 257 265 = ''ustar'' @ [NUL] @ ''00'' then
        if \<not> all_zero (drop 500 block) then Err AE_InvalidHeader
        else field_text (block_field block 345 500)
      else if block_field block 257 265 = ''ustar  '' @ [NUL] then
        if \<not> all_zero (drop 345 block) then Err AE_InvalidHeader else Ok []
      else Err AE_InvalidHeader)"

text \<open>\<^verbatim>\<open>octal(field)? > limit\<close>, the operands of the disjunction evaluated left to right.\<close>

definition octal_at_most :: "string \<Rightarrow> nat \<Rightarrow> archive_error + unit" where
  "octal_at_most fld limit = and_then (octal fld) (\<lambda>n. ensure (\<not> n > limit) AE_InvalidHeader)"

definition device_field_ok :: "string \<Rightarrow> archive_error + unit" where
  "device_field_ok fld =
     (if all_zero fld then Ok ()
      else and_then (octal fld) (\<lambda>n. ensure (\<not> n \<noteq> 0) AE_InvalidHeader))"

definition owner_field_ok :: "string \<Rightarrow> archive_error + unit" where
  "owner_field_ok fld =
     and_then (field_text fld) (\<lambda>t. ensure (list_all is_ascii_graphic t) AE_InvalidHeader)"

definition header_path :: "string \<Rightarrow> string \<Rightarrow> archive_error + string" where
  "header_path pre name =
     (if length pre + of_bool (pre \<noteq> []) + length name > max_path_bytes \<or> name = []
      then Err AE_InvalidPath
      else let path = pre @ (if pre \<noteq> [] then ''/'' else []) @ name
           in and_then (validate_path path) (\<lambda>_. Ok path))"

definition parse_header :: "string \<Rightarrow> archive_error + tar_header" where
  "parse_header block =
     and_then (octal (block_field block 148 156)) (\<lambda>checksum.
     if block_sum block \<noteq> checksum then Err AE_InvalidHeader
     else and_then (header_prefix block) (\<lambda>pre.
     if \<not> (block ! 156 = CHR ''0'' \<or> block ! 156 = NUL) then Err AE_UnsupportedEntry
     else and_then (ensure (all_zero (block_field block 157 257)) AE_InvalidHeader) (\<lambda>_.
     and_then (octal_at_most (block_field block 100 108) 511) (\<lambda>_.
     and_then (octal_at_most (block_field block 108 116) (2 ^ 32 - 1)) (\<lambda>_.
     and_then (octal_at_most (block_field block 116 124) (2 ^ 32 - 1)) (\<lambda>_.
     and_then (octal (block_field block 124 136)) (\<lambda>n.
     if n > max_file_bytes then Err AE_LimitExceeded
     else and_then (octal (block_field block 136 148)) (\<lambda>_.
     and_then (check_all device_field_ok [block_field block 329 337, block_field block 337 345]) (\<lambda>_.
     and_then (check_all owner_field_ok [block_field block 265 297, block_field block 297 329]) (\<lambda>_.
     and_then (field_text (take 100 block)) (\<lambda>name.
     and_then (header_path pre name) (\<lambda>path.
       Ok \<lparr>th_path = path, th_size = n\<rparr>))))))))))))"

section \<open>The stream validator\<close>

datatype stage =
  St_Header
| St_Body nat nat
| St_Padding nat
| St_End nat

record validator =
  v_expected :: expected_archive
  v_seen :: "bool list"
  v_header :: string
  v_filled :: nat
  v_stage :: stage
  v_total :: nat
  v_failure :: "archive_error option"

definition zero_block :: string where
  "zero_block = replicate block_bytes NUL"

definition validator_new :: "expected_archive \<Rightarrow> validator" where
  "validator_new expected =
     \<lparr>v_expected = expected, v_seen = replicate (length (ea_files expected)) False,
      v_header = zero_block, v_filled = 0, v_stage = St_Header, v_total = 0, v_failure = None\<rparr>"

definition accept_entry :: "tar_header \<Rightarrow> validator \<Rightarrow> archive_error stop + validator" where
  "accept_entry entry v =
     and_then (ok_or (Returned AE_ManifestMismatch)
       (binary_search ef_path (ea_files (v_expected v)) (th_path entry))) (\<lambda>i.
     and_then (at (v_seen v) i) (\<lambda>seen.
     if seen then Err (Returned AE_ManifestMismatch)
     else and_then (at (ea_files (v_expected v)) i) (\<lambda>f.
     if ef_size f \<noteq> th_size entry then Err (Returned AE_ManifestMismatch)
     else and_then (put (v_seen v) i True) (\<lambda>seen.
       Ok (v\<lparr>v_seen := seen,
             v_stage := if th_size entry > 0
               then St_Body (th_size entry) ((block_bytes - th_size entry mod block_bytes) mod block_bytes)
               else v_stage v\<rparr>)))))"

definition accept_header :: "validator \<Rightarrow> archive_error stop + validator" where
  "accept_header v =
     and_then
       (if all_zero (v_header v) then Ok (v\<lparr>v_stage := St_End block_bytes\<rparr>)
        else and_then (map_err Returned (parse_header (v_header v))) (\<lambda>entry. accept_entry entry v))
       (\<lambda>v. Ok (v\<lparr>v_header := zero_block, v_filled := 0\<rparr>))"

text \<open>
  One round of the loop: the validator and the rest of the input. \<^verbatim>\<open>BLOCK_BYTES - filled\<close>
  underflows, and panics, when \<^verbatim>\<open>filled\<close> is larger.
\<close>

definition feed_round :: "validator \<Rightarrow> string \<Rightarrow> archive_error stop + validator \<times> string" where
  "feed_round v inp = (case v_stage v of
       St_Header \<Rightarrow>
         (if v_filled v > block_bytes then Err Panicked
          else let taken = min (length inp) (block_bytes - v_filled v);
                   v' = v\<lparr>v_header := take (v_filled v) (v_header v) @ take taken inp
                                       @ drop (v_filled v + taken) (v_header v),
                          v_filled := v_filled v + taken\<rparr>
               in and_then (if v_filled v' = block_bytes then accept_header v' else Ok v')
                    (\<lambda>v'. Ok (v', drop taken inp)))
     | St_Body remaining padding \<Rightarrow>
         (let taken = min remaining (length inp);
              left = remaining - taken
          in Ok (v\<lparr>v_stage := if left > 0 then St_Body left padding
                              else if padding > 0 then St_Padding padding else St_Header\<rparr>,
                 drop taken inp))
     | St_Padding remaining \<Rightarrow>
         (let taken = min remaining (length inp)
          in if \<not> all_zero (take taken inp) then Err (Returned AE_InvalidPadding)
             else Ok (v\<lparr>v_stage := if remaining = taken then St_Header
                                   else St_Padding (remaining - taken)\<rparr>,
                      drop taken inp))
     | St_End n \<Rightarrow>
         (case checked_add n (length inp) of
            None \<Rightarrow> Err (Returned AE_LimitExceeded)
          | Some m \<Rightarrow>
              if \<not> m \<le> max_tail_bytes then Err (Returned AE_LimitExceeded)
              else if \<not> all_zero inp then Err (Returned AE_InvalidPadding)
              else Ok (v\<lparr>v_stage := St_End m\<rparr>, [])))"

text \<open>
  A round consumes input or moves to a smaller rank: rounds that take nothing only leave an
  exhausted body or padding, or handle a block that is already full.
\<close>

definition round_rank :: "validator \<Rightarrow> nat" where
  "round_rank v = (if v_filled v = block_bytes then 3 else 0)
     + (case v_stage v of St_Body _ _ \<Rightarrow> 2 | St_Padding _ \<Rightarrow> 1 | _ \<Rightarrow> 0)"

lemma accept_header_filled: "accept_header v = Ok v' \<Longrightarrow> v_filled v' = 0"
  by (auto simp: accept_header_def res_simps)

lemma feed_round_decreases:
  assumes "feed_round v inp = Ok (v', inp')" and "inp \<noteq> []"
  shows "length inp' < length inp \<or> length inp' = length inp \<and> round_rank v' < round_rank v"
proof (cases "v_stage v")
  case St_Header
  let ?n = "min (length inp) (block_bytes - v_filled v)"
  from assms St_Header have l: "v_filled v \<le> block_bytes" "inp' = drop ?n inp"
    and a: "v_filled v + ?n = block_bytes \<Longrightarrow> v_filled v' = 0"
    by (auto simp: feed_round_def Let_def res_simps dest!: accept_header_filled split: if_splits)
  show ?thesis
  proof (cases "v_filled v = block_bytes")
    case True
    with a l show ?thesis
      using St_Header by (auto simp: round_rank_def block_bytes_def split: stage.splits)
  next
    case False
    with l assms(2) show ?thesis by auto
  qed
next
  case (St_Body remaining padding)
  with assms show ?thesis
    by (cases remaining) (auto simp: feed_round_def Let_def round_rank_def split: if_splits)
next
  case (St_Padding remaining)
  with assms show ?thesis
    by (cases remaining) (auto simp: feed_round_def Let_def round_rank_def split: if_splits)
next
  case (St_End n)
  with assms show ?thesis by (auto simp: feed_round_def split: option.splits if_splits)
qed

function feed_loop :: "validator \<Rightarrow> string \<Rightarrow> archive_error stop + validator" where
  "feed_loop v inp =
     (if inp = [] then Ok v
      else and_then (feed_round v inp) (\<lambda>(v, inp). feed_loop v inp))"
  by auto
termination
  by (relation "measures [\<lambda>(v, inp). length inp, \<lambda>(v, inp). round_rank v]")
     (auto dest: feed_round_decreases)

declare feed_loop.simps [simp del]

definition feed_inner :: "validator \<Rightarrow> string \<Rightarrow> archive_error stop + validator" where
  "feed_inner v inp =
     (if length inp > max_chunk_bytes then Err (Returned AE_LimitExceeded)
      else case checked_add (v_total v) (length inp) of
          None \<Rightarrow> Err (Returned AE_LimitExceeded)
        | Some n \<Rightarrow>
            if \<not> n \<le> max_archive_bytes then Err (Returned AE_LimitExceeded)
            else feed_loop (v\<lparr>v_total := n\<rparr>) inp)"

text \<open>
  After an error only the recorded failure is ever read again, so the fields a failed call
  may have advanced are left at their old values.
\<close>

definition feed :: "validator \<Rightarrow> string \<Rightarrow> (archive_error stop + unit) \<times> validator" where
  "feed v inp = (case v_failure v of
       Some e \<Rightarrow> (Err (Returned e), v)
     | None \<Rightarrow> (case feed_inner v inp of
           Inr v' \<Rightarrow> (Ok (), v')
         | Inl (Returned e) \<Rightarrow>
             (Err (Returned e), v\<lparr>v_failure := Some e, v_header := zero_block, v_filled := 0\<rparr>)
         | Inl Panicked \<Rightarrow> (Err Panicked, v)))"

definition finish :: "validator \<Rightarrow> archive_error + archive_summary" where
  "finish v = (case v_failure v of
       Some e \<Rightarrow> Err e
     | None \<Rightarrow>
         if \<not> (case v_stage v of St_End n \<Rightarrow> n \<ge> 2 * block_bytes \<and> n mod block_bytes = 0 | _ \<Rightarrow> False)
         then Err AE_IncompleteArchive
         else if list_ex Not (v_seen v) then Err AE_ManifestMismatch
         else Ok \<lparr>as_files = length (ea_files (v_expected v)),
                  as_payload_bytes = ea_payload_bytes (v_expected v), as_archive_bytes = v_total v\<rparr>)"

section \<open>The stream as a whole\<close>

definition padding_of :: "nat \<Rightarrow> nat" where
  "padding_of n = (block_bytes - n mod block_bytes) mod block_bytes"

definition tail_ok :: "nat \<Rightarrow> string \<Rightarrow> bool" where
  "tail_ok n bs \<longleftrightarrow> all_zero bs \<and> 2 * block_bytes \<le> n + length bs \<and> n + length bs \<le> max_tail_bytes
     \<and> block_bytes dvd n + length bs"

text \<open>
  Reference reading of a complete archive: header blocks, each followed by its contents and
  zero padding, up to the first zero block, from which on everything is zero, at least two
  blocks and no more than the tail limit. The entries are the paths and sizes in order.
\<close>

function tar_entries :: "string \<Rightarrow> (string \<times> nat) list option" where
  "tar_entries bs =
     (if length bs < block_bytes then None
      else if all_zero (take block_bytes bs) then
        (if tail_ok 0 bs then Some [] else None)
      else case parse_header (take block_bytes bs) of
          Inl _ \<Rightarrow> None
        | Inr h \<Rightarrow>
            let pad = padding_of (th_size h); rest = drop block_bytes bs in
            if length rest < th_size h + pad \<or> \<not> all_zero (take pad (drop (th_size h) rest)) then None
            else map_option (Cons (th_path h, th_size h)) (tar_entries (drop (th_size h + pad) rest)))"
  by auto
termination
  by (relation "measure length") (auto simp: block_bytes_def)

declare tar_entries.simps [simp del]

text \<open>What remains to be read in a state of the validator.\<close>

definition skip_then :: "nat \<Rightarrow> nat \<Rightarrow> string \<Rightarrow> (string \<times> nat) list option" where
  "skip_then body pad bs =
     (if length bs < body + pad \<or> \<not> all_zero (take pad (drop body bs)) then None
      else tar_entries (drop (body + pad) bs))"

definition remaining_entries :: "validator \<Rightarrow> string \<Rightarrow> (string \<times> nat) list option" where
  "remaining_entries v bs = (case v_stage v of
       St_Header \<Rightarrow> tar_entries (take (v_filled v) (v_header v) @ bs)
     | St_Body body pad \<Rightarrow> skip_then body pad bs
     | St_Padding pad \<Rightarrow> skip_then 0 pad bs
     | St_End n \<Rightarrow> if tail_ok n bs then Some [] else None)"

definition entry_of :: "expected_file \<Rightarrow> string \<times> nat" where
  "entry_of f = (ef_path f, ef_size f)"

definition unseen :: "validator \<Rightarrow> (string \<times> nat) multiset" where
  "unseen v = image_mset (entry_of \<circ> fst)
     (filter_mset (\<lambda>(f, seen). \<not> seen) (mset (zip (ea_files (v_expected v)) (v_seen v))))"

definition completes :: "validator \<Rightarrow> string \<Rightarrow> bool" where
  "completes v bs \<longleftrightarrow> (\<exists>es. remaining_entries v bs = Some es \<and> mset es = unseen v)"

definition strict_paths :: "expected_archive \<Rightarrow> bool" where
  "strict_paths ea = sorted_wrt (<) (map ef_path (ea_files ea))"

definition between_chunks :: "validator \<Rightarrow> bool" where
  "between_chunks v \<longleftrightarrow>
     strict_paths (v_expected v) \<and> length (v_seen v) = length (ea_files (v_expected v))
     \<and> length (v_header v) = block_bytes \<and> v_filled v < block_bytes
     \<and> (case v_stage v of
          St_Header \<Rightarrow> True
        | St_Body body pad \<Rightarrow> v_filled v = 0 \<and> 0 < body
        | St_Padding pad \<Rightarrow> v_filled v = 0 \<and> 0 < pad
        | St_End n \<Rightarrow> v_filled v = 0 \<and> block_bytes \<le> n \<and> n \<le> max_tail_bytes)"

lemma all_zero_simps [simp]:
  "all_zero []" "all_zero (b # bs) \<longleftrightarrow> b = NUL \<and> all_zero bs" "all_zero (xs @ ys) \<longleftrightarrow> all_zero xs \<and> all_zero ys"
  by (auto simp: all_zero_def)

lemma all_zero_take: "all_zero bs \<Longrightarrow> all_zero (take n bs)"
  by (metis all_zero_simps(3) append_take_drop_id)

section \<open>The rounds preserve what remains\<close>

text \<open>Reading one full block of the reference.\<close>

lemma tar_entries_block:
  assumes "length blk = block_bytes"
  shows "tar_entries (blk @ bs) =
    (if all_zero blk then (if tail_ok block_bytes bs then Some [] else None)
     else case parse_header blk of
         Inl _ \<Rightarrow> None
       | Inr h \<Rightarrow> map_option (Cons (th_path h, th_size h)) (skip_then (th_size h) (padding_of (th_size h)) bs))"
proof -
  have blk: "take block_bytes (blk @ bs) = blk" "drop block_bytes (blk @ bs) = bs" "\<not> length (blk @ bs) < block_bytes"
    using assms by simp_all
  have tail: "tail_ok 0 (blk @ bs) \<longleftrightarrow> all_zero blk \<and> tail_ok block_bytes bs"
    using assms by (auto simp: tail_ok_def)
  show ?thesis
    unfolding tar_entries.simps [of "blk @ bs"] blk tail
    using assms by (simp add: skip_then_def Let_def split: sum.split)
qed

text \<open>Marking an entry removes exactly it from what is unseen.\<close>

lemma mset_zip_update:
  assumes "i < length xs" "length ys = length xs"
  shows "mset (zip xs (ys[i := y])) = mset (zip xs ys) - {#(xs ! i, ys ! i)#} + {#(xs ! i, y)#}"
proof -
  have "zip xs (ys[i := y]) = (zip xs ys)[i := (xs ! i, y)]"
    by (simp add: update_zip)
  then show ?thesis using assms by (simp add: mset_update)
qed

lemma unseen_mark:
  assumes "i < length (ea_files (v_expected v))" "length (v_seen v) = length (ea_files (v_expected v))"
    and "\<not> v_seen v ! i"
  shows "unseen v = add_mset (entry_of (ea_files (v_expected v) ! i)) (unseen (v\<lparr>v_seen := (v_seen v)[i := True]\<rparr>))"
proof -
  let ?z = "mset (zip (ea_files (v_expected v)) (v_seen v))"
  let ?e = "(ea_files (v_expected v) ! i, False)"
  have "?e \<in># ?z" using assms by (auto simp: in_set_zip)
  then obtain r where "?z = add_mset ?e r" by (metis mset_add)
  moreover have "mset (zip (ea_files (v_expected v)) ((v_seen v)[i := True])) = ?z - {#?e#} + {#(ea_files (v_expected v) ! i, True)#}"
    using assms mset_zip_update [OF assms(1,2), of True] by simp
  ultimately show ?thesis by (simp add: unseen_def)
qed

lemma unseen_member:
  assumes "strict_paths (v_expected v)" "length (v_seen v) = length (ea_files (v_expected v))"
  shows "(p, n) \<in># unseen v \<longleftrightarrow> (\<exists>i. binary_search ef_path (ea_files (v_expected v)) p = Some i
    \<and> \<not> v_seen v ! i \<and> ef_size (ea_files (v_expected v) ! i) = n)"
proof -
  have "(p, n) \<in># unseen v \<longleftrightarrow> (\<exists>i < length (ea_files (v_expected v)). \<not> v_seen v ! i
      \<and> entry_of (ea_files (v_expected v) ! i) = (p, n))"
    using assms(2) by (force simp: unseen_def set_zip image_iff)
  then show ?thesis
    using assms(1) by (auto simp: binary_search_Some strict_paths_def entry_of_def)
qed

lemma accept_entry_cases:
  assumes "strict_paths (v_expected v)" "length (v_seen v) = length (ea_files (v_expected v))"
  shows "(\<exists>v'. accept_entry h v = Ok v'
      \<and> (\<exists>i. v' = v\<lparr>v_seen := (v_seen v)[i := True],
            v_stage := if th_size h > 0 then St_Body (th_size h) (padding_of (th_size h)) else v_stage v\<rparr>)
      \<and> unseen v = add_mset (th_path h, th_size h) (unseen v'))
    \<or> accept_entry h v = Err (Returned AE_ManifestMismatch) \<and> (th_path h, th_size h) \<notin># unseen v"
proof (cases "(th_path h, th_size h) \<in># unseen v")
  case True
  then obtain i where i: "binary_search ef_path (ea_files (v_expected v)) (th_path h) = Some i"
      "\<not> v_seen v ! i" "ef_size (ea_files (v_expected v) ! i) = th_size h"
    using unseen_member [OF assms] by blast
  with assms have len: "i < length (ea_files (v_expected v))" and p: "ef_path (ea_files (v_expected v) ! i) = th_path h"
    by (auto simp: binary_search_Some strict_paths_def)
  let ?v' = "v\<lparr>v_seen := (v_seen v)[i := True],
    v_stage := if th_size h > 0 then St_Body (th_size h) (padding_of (th_size h)) else v_stage v\<rparr>"
  have "unseen ?v' = unseen (v\<lparr>v_seen := (v_seen v)[i := True]\<rparr>)" by (simp add: unseen_def)
  then have "unseen v = add_mset (th_path h, th_size h) (unseen ?v')"
    using unseen_mark [OF len assms(2) i(2)] i(3) p by (simp add: entry_of_def)
  moreover have "accept_entry h v = Ok ?v'"
    using i len assms(2) by (simp add: accept_entry_def padding_of_def)
  ultimately show ?thesis by blast
next
  case False
  have "accept_entry h v = Err (Returned AE_ManifestMismatch)"
  proof (cases "binary_search ef_path (ea_files (v_expected v)) (th_path h)")
    case (Some i)
    with assms have "i < length (ea_files (v_expected v))"
      by (auto simp: binary_search_Some strict_paths_def)
    with Some False assms(2) show ?thesis
      unfolding unseen_member [OF assms] by (auto simp: accept_entry_def)
  qed (simp add: accept_entry_def)
  with False show ?thesis by simp
qed

lemma zero_block_length [simp]: "length zero_block = block_bytes"
  by (simp add: zero_block_def)

definition explains :: "validator \<Rightarrow> string \<Rightarrow> archive_error stop + validator \<times> string \<Rightarrow> bool" where
  "explains v inp r = (case r of
       Inr (v', inp') \<Rightarrow> between_chunks v' \<and> v_total v' = v_total v \<and> v_failure v' = v_failure v
         \<and> v_expected v' = v_expected v \<and> (\<forall>bs. completes v (inp @ bs) = completes v' (inp' @ bs))
     | Inl (Returned _) \<Rightarrow> \<forall>bs. \<not> completes v (inp @ bs)
     | Inl Panicked \<Rightarrow> False)"

lemma accept_header_explained:
  assumes "strict_paths (v_expected v)" "length (v_seen v) = length (ea_files (v_expected v))"
    "length (v_header v) = block_bytes" "v_stage v = St_Header" "v_filled v = block_bytes"
  shows "explains v inp (and_then (accept_header v) (\<lambda>v'. Ok (v', inp)))"
proof (cases "all_zero (v_header v)")
  case True
  then show ?thesis
    using assms tar_entries_block [of "v_header v"]
    by (auto simp: explains_def accept_header_def completes_def remaining_entries_def unseen_def
        between_chunks_def limit_defs)
next
  case nz: False
  show ?thesis
  proof (cases "parse_header (v_header v)")
    case (Inl e)
    with nz assms tar_entries_block [of "v_header v"] show ?thesis
      by (simp add: explains_def accept_header_def completes_def remaining_entries_def)
  next
    case (Inr h)
    have rem: "remaining_entries v bs = map_option (Cons (th_path h, th_size h))
        (skip_then (th_size h) (padding_of (th_size h)) bs)" for bs
      using nz Inr assms tar_entries_block [of "v_header v"] by (simp add: remaining_entries_def)
    from accept_entry_cases [OF assms(1,2), of h] show ?thesis
    proof (elim disjE exE conjE)
      fix v' i
      assume ok: "accept_entry h v = Ok v'" and v': "v' = v\<lparr>v_seen := (v_seen v)[i := True],
            v_stage := if th_size h > 0 then St_Body (th_size h) (padding_of (th_size h)) else v_stage v\<rparr>"
        and un: "unseen v = add_mset (th_path h, th_size h) (unseen v')"
      let ?w = "v'\<lparr>v_header := zero_block, v_filled := 0\<rparr>"
      have "unseen ?w = unseen v'" by (simp add: unseen_def)
      moreover have "remaining_entries ?w bs = skip_then (th_size h) (padding_of (th_size h)) bs" for bs
        using assms(4) by (auto simp: remaining_entries_def v' skip_then_def padding_of_def)
      ultimately have "completes v bs = completes ?w bs" for bs
        by (auto simp: completes_def rem un)
      moreover have "between_chunks ?w" using assms by (auto simp: between_chunks_def v' limit_defs)
      ultimately show ?thesis using nz Inr ok by (simp add: explains_def accept_header_def v')
    next
      assume "accept_entry h v = Err (Returned AE_ManifestMismatch)" "(th_path h, th_size h) \<notin># unseen v"
      moreover from this(2) have "\<not> completes v bs" for bs
        by (auto simp: completes_def rem) (metis union_single_eq_member)
      ultimately show ?thesis using nz Inr by (simp add: explains_def accept_header_def)
    qed
  qed
qed

lemma explains_same:
  assumes "between_chunks v'" "v_total v' = v_total v" "v_failure v' = v_failure v" "v_expected v' = v_expected v"
    "v_seen v' = v_seen v" "\<And>bs. remaining_entries v (inp @ bs) = remaining_entries v' (inp' @ bs)"
  shows "explains v inp (Ok (v', inp'))"
  using assms by (simp add: explains_def completes_def unseen_def)

lemma unseen_stage [simp]: "unseen (v\<lparr>v_stage := st\<rparr>) = unseen v"
  by (simp add: unseen_def)

lemma take_drop_append [simp]: "take n xs @ drop n xs @ ys = xs @ ys"
  by (metis append.assoc append_take_drop_id)

lemma skip_then_skip:
  assumes "length xs \<le> body"
  shows "skip_then body pad (xs @ bs) = skip_then (body - length xs) pad bs"
proof -
  have "drop (body + pad) (xs @ bs) = drop (body - length xs + pad) bs"
    using assms by simp
  moreover have "drop body (xs @ bs) = drop (body - length xs) bs" using assms by simp
  moreover have "length (xs @ bs) < body + pad \<longleftrightarrow> length bs < body - length xs + pad" using assms by auto
  ultimately show ?thesis by (simp add: skip_then_def)
qed

lemma skip_then_pad:
  assumes "length xs \<le> pad"
  shows "skip_then 0 pad (xs @ bs) = (if all_zero xs then skip_then 0 (pad - length xs) bs else None)"
  using assms by (auto simp: skip_then_def)

lemma skip_then_nothing: "skip_then 0 0 bs = tar_entries bs"
  by (simp add: skip_then_def)

lemma feed_round_explained:
  assumes "between_chunks v" and "inp \<noteq> []"
  shows "explains v inp (feed_round v inp)"
proof (cases "v_stage v")
  case St_Header
  let ?n = "min (length inp) (block_bytes - v_filled v)"
  let ?v = "v\<lparr>v_header := take (v_filled v) (v_header v) @ take ?n inp @ drop (v_filled v + ?n) (v_header v),
    v_filled := v_filled v + ?n\<rparr>"
  have g: "strict_paths (v_expected v)" "length (v_seen v) = length (ea_files (v_expected v))"
    "length (v_header v) = block_bytes" "v_filled v < block_bytes" using assms(1) by (simp_all add: between_chunks_def)
  have len: "length (v_header ?v) = block_bytes" using g by auto
  have tk: "take (v_filled ?v) (v_header ?v) = take (v_filled v) (v_header v) @ take ?n inp"
    using g by (simp add: min_def)
  have same: "remaining_entries v (inp @ bs) = remaining_entries ?v (drop ?n inp @ bs)" for bs
  proof -
    have "v_stage ?v = St_Header" using St_Header by simp
    then have "remaining_entries ?v (drop ?n inp @ bs) = tar_entries (take (v_filled ?v) (v_header ?v) @ drop ?n inp @ bs)"
      unfolding remaining_entries_def by (simp only: stage.case)
    also have "\<dots> = tar_entries (take (v_filled v) (v_header v) @ (take ?n inp @ drop ?n inp) @ bs)"
      unfolding tk by (simp only: append_assoc)
    finally show ?thesis using St_Header by (simp add: remaining_entries_def)
  qed
  show ?thesis
  proof (cases "v_filled ?v = block_bytes")
    case True
    have "explains ?v (drop ?n inp) (and_then (accept_header ?v) (\<lambda>v'. Ok (v', drop ?n inp)))"
      by (rule accept_header_explained) (use g len True St_Header in simp_all)
    moreover have "completes v (inp @ bs) = completes ?v (drop ?n inp @ bs)" for bs
      using same by (simp add: completes_def unseen_def)
    moreover have "feed_round v inp = and_then (accept_header ?v) (\<lambda>v'. Ok (v', drop ?n inp))"
      using St_Header g True by (simp add: feed_round_def Let_def)
    ultimately show ?thesis by (auto simp: explains_def split: sum.splits stop.splits)
  next
    case False
    have "feed_round v inp = Ok (?v, drop ?n inp)"
      using St_Header g False by (auto simp: feed_round_def Let_def)
    moreover have "between_chunks ?v" using g len False St_Header by (auto simp: between_chunks_def)
    ultimately show ?thesis using same by (simp add: explains_same)
  qed
next
  case (St_Body body pad)
  let ?n = "min body (length inp)"
  have "skip_then body pad (inp @ bs) = skip_then (body - ?n) pad (drop ?n inp @ bs)" for bs
    using skip_then_skip [of "take ?n inp" body pad "drop ?n inp @ bs"] by simp
  then show ?thesis
    using assms(1) St_Body unfolding feed_round_def
    by (auto simp: Let_def between_chunks_def remaining_entries_def skip_then_nothing intro!: explains_same)
next
  case (St_Padding pad)
  let ?n = "min pad (length inp)"
  have "skip_then 0 pad (inp @ bs)
      = (if all_zero (take ?n inp) then skip_then 0 (pad - ?n) (drop ?n inp @ bs) else None)" for bs
    using skip_then_pad [of "take ?n inp" pad "drop ?n inp @ bs"] by simp
  then show ?thesis
    using assms(1) St_Padding unfolding feed_round_def
    by (auto simp: Let_def between_chunks_def remaining_entries_def skip_then_nothing explains_def completes_def
        intro!: explains_same)
next
  case (St_End n)
  have "tail_ok n (inp @ bs) \<longleftrightarrow> all_zero inp \<and> n + length inp \<le> max_tail_bytes \<and> tail_ok (n + length inp) bs" for bs
    by (auto simp: tail_ok_def add.assoc)
  then show ?thesis
    using assms(1) St_End unfolding feed_round_def
    by (auto simp: between_chunks_def remaining_entries_def explains_def completes_def limit_defs unseen_def
        split: option.splits)
qed

lemma feed_loop_explained:
  "between_chunks v \<Longrightarrow> (case feed_loop v inp of
       Inr v' \<Rightarrow> between_chunks v' \<and> v_total v' = v_total v \<and> v_failure v' = v_failure v
         \<and> v_expected v' = v_expected v \<and> (\<forall>bs. completes v (inp @ bs) = completes v' bs)
     | Inl (Returned _) \<Rightarrow> \<forall>bs. \<not> completes v (inp @ bs)
     | Inl Panicked \<Rightarrow> False)"
proof (induction v inp rule: feed_loop.induct)
  case (1 v inp)
  show ?case
  proof (cases "inp = []")
    case True
    with 1 show ?thesis by (simp add: feed_loop.simps)
  next
    case False
    note r = feed_round_explained [OF 1(2) False]
    show ?thesis
    proof (cases "feed_round v inp")
      case (Inl e)
      with r False show ?thesis by (simp add: feed_loop.simps [of v inp] explains_def)
    next
      case (Inr p)
      obtain v' inp' where p: "p = (v', inp')" by (cases p)
      have loop: "feed_loop v inp = feed_loop v' inp'"
        using False Inr p by (simp add: feed_loop.simps [of v inp])
      from r Inr p have "between_chunks v'" "v_total v' = v_total v" "v_failure v' = v_failure v"
        "v_expected v' = v_expected v" "\<forall>bs. completes v (inp @ bs) = completes v' (inp' @ bs)"
        by (simp_all add: explains_def)
      with 1(1) [OF False Inr p [symmetric]] show ?thesis
        unfolding loop by (auto split: sum.splits stop.splits)
    qed
  qed
qed

text \<open>A whole run: every chunk is fed, whatever the calls return, and then the end is checked.\<close>

definition run_validator :: "expected_archive \<Rightarrow> string list \<Rightarrow> archive_error + archive_summary" where
  "run_validator ea chunks = finish (fold (\<lambda>c v. snd (feed v c)) chunks (validator_new ea))"

definition run_inv :: "expected_archive \<Rightarrow> string \<Rightarrow> validator \<Rightarrow> bool" where
  "run_inv ea sent v \<longleftrightarrow> (case v_failure v of
       Some _ \<Rightarrow> \<forall>bs. \<not> (length (sent @ bs) \<le> max_archive_bytes \<and> completes (validator_new ea) (sent @ bs))
     | None \<Rightarrow> between_chunks v \<and> v_total v = length sent \<and> v_expected v = ea \<and> length sent \<le> max_archive_bytes
         \<and> (\<forall>bs. completes (validator_new ea) (sent @ bs) = completes v bs))"

lemma feed_run_inv:
  assumes "run_inv ea sent v" and "length c \<le> max_chunk_bytes"
  shows "run_inv ea (sent @ c) (snd (feed v c)) \<and> fst (feed v c) \<noteq> Err Panicked"
proof (cases "v_failure v")
  case (Some e)
  with assms(1) show ?thesis by (simp add: run_inv_def feed_def)
next
  case None
  with assms(1) have v: "between_chunks v" "v_total v = length sent" "v_expected v = ea" "length sent \<le> max_archive_bytes"
    "\<And>bs. completes (validator_new ea) (sent @ bs) = completes v bs" by (simp_all add: run_inv_def)
  show ?thesis
  proof (cases "length (sent @ c) \<le> max_archive_bytes")
    case False
    then have "feed_inner v c = Err (Returned AE_LimitExceeded)"
      using v(2) assms(2) by (auto simp: feed_inner_def split: option.splits)
    with None False show ?thesis by (simp add: feed_def run_inv_def)
  next
    case True
    let ?v = "v\<lparr>v_total := length sent + length c\<rparr>"
    have inner: "feed_inner v c = feed_loop ?v c"
      using v(2) assms(2) True by (auto simp: feed_inner_def limit_defs split: option.splits)
    have "between_chunks ?v" using v(1) by (simp add: between_chunks_def split: stage.splits)
    note l = feed_loop_explained [OF this, of c]
    have c: "completes ?v bs = completes v bs" for bs
      by (simp add: completes_def remaining_entries_def unseen_def split: stage.split)
    show ?thesis
      using l None True v(3) v(5) [of "c @ _"] unfolding feed_def inner c
      by (auto simp: run_inv_def split: sum.splits stop.splits)
  qed
qed

lemma finish_cases:
  assumes "between_chunks v" and "v_failure v = None"
  shows "finish v = Ok summary \<longleftrightarrow> completes v []
    \<and> summary = \<lparr>as_files = length (ea_files (v_expected v)), as_payload_bytes = ea_payload_bytes (v_expected v),
         as_archive_bytes = v_total v\<rparr>"
proof -
  have seen: "unseen v = {#} \<longleftrightarrow> \<not> list_ex Not (v_seen v)"
    using assms(1) unfolding unseen_def set_mset_eq_empty_iff [symmetric]
    by (fastforce simp: between_chunks_def set_zip list_ex_iff in_set_conv_nth)
  have "remaining_entries v [] = (case v_stage v of St_End n \<Rightarrow> if tail_ok n [] then Some [] else None | _ \<Rightarrow> None)"
    using assms(1) by (auto simp: remaining_entries_def between_chunks_def tar_entries.simps skip_then_def split: stage.splits)
  then show ?thesis
    using assms seen by (auto simp: finish_def completes_def tail_ok_def between_chunks_def mod_eq_0_iff_dvd split: stage.splits)
qed

lemma run_inv_start: "strict_paths ea \<Longrightarrow> run_inv ea [] (validator_new ea)"
  by (simp add: run_inv_def validator_new_def between_chunks_def limit_defs zero_block_def)

lemma run_inv_chunks:
  "run_inv ea sent v \<Longrightarrow> \<forall>c \<in> set chunks. length c \<le> max_chunk_bytes
   \<Longrightarrow> run_inv ea (sent @ concat chunks) (fold (\<lambda>c v. snd (feed v c)) chunks v)"
proof (induction chunks arbitrary: sent v)
  case (Cons c chunks)
  then show ?case using feed_run_inv [of ea sent v c] Cons.IH [of "sent @ c"] by simp
qed simp

lemma unseen_new: "unseen (validator_new ea) = image_mset entry_of (mset (ea_files ea))"
proof -
  have "filter_mset (\<lambda>(f, seen). \<not> seen) (mset (zip fs (replicate (length fs) False)))
      = image_mset (\<lambda>f. (f, False)) (mset fs)" for fs :: "expected_file list"
    by (induction fs) auto
  then show ?thesis by (simp add: unseen_def validator_new_def image_mset.compositionality comp_def)
qed

lemma completes_new:
  "completes (validator_new ea) bs \<longleftrightarrow>
     (\<exists>es. tar_entries bs = Some es \<and> mset es = image_mset entry_of (mset (ea_files ea)))"
  unfolding completes_def unseen_new by (simp add: remaining_entries_def validator_new_def)

lemma run_inv_finish:
  assumes "run_inv ea sent v"
  shows "finish v = Ok summary \<longleftrightarrow>
    length sent \<le> max_archive_bytes
    \<and> (\<exists>es. tar_entries sent = Some es \<and> mset es = image_mset entry_of (mset (ea_files ea)))
    \<and> summary = \<lparr>as_files = length (ea_files ea), as_payload_bytes = ea_payload_bytes ea,
         as_archive_bytes = length sent\<rparr>"
proof (cases "v_failure v")
  case (Some e)
  then have "finish v = Err e" by (simp add: finish_def)
  moreover from assms Some have "\<forall>bs. \<not> (length (sent @ bs) \<le> max_archive_bytes
      \<and> completes (validator_new ea) (sent @ bs))" by (simp add: run_inv_def)
  then have "\<not> (length sent \<le> max_archive_bytes \<and> completes (validator_new ea) sent)"
    by (metis append_Nil2)
  ultimately show ?thesis by (auto simp: completes_new)
next
  case None
  with assms have v: "between_chunks v" "v_total v = length sent" "v_expected v = ea"
    "length sent \<le> max_archive_bytes"
    "\<forall>bs. completes (validator_new ea) (sent @ bs) = completes v bs" by (simp_all add: run_inv_def)
  from v(5) have "completes v [] = completes (validator_new ea) sent" by (metis append_Nil2)
  then show ?thesis using v finish_cases [OF v(1) None, of summary] by (auto simp: completes_new)
qed

lemma run_validator_iff:
  assumes "strict_paths ea" and "\<forall>c \<in> set chunks. length c \<le> max_chunk_bytes"
  shows "run_validator ea chunks = Ok summary \<longleftrightarrow>
    length (concat chunks) \<le> max_archive_bytes
    \<and> (\<exists>es. tar_entries (concat chunks) = Some es \<and> mset es = image_mset entry_of (mset (ea_files ea)))
    \<and> summary = \<lparr>as_files = length (ea_files ea), as_payload_bytes = ea_payload_bytes ea,
         as_archive_bytes = length (concat chunks)\<rparr>"
  using run_inv_finish [OF run_inv_chunks [OF run_inv_start [OF assms(1)] assms(2)]]
  by (simp add: run_validator_def)

section \<open>Manifests\<close>

definition safe_component :: "string \<Rightarrow> bool" where
  "safe_component c \<longleftrightarrow> c \<noteq> [] \<and> length c \<le> 100 \<and> c \<noteq> ''.'' \<and> c \<noteq> ''..''"

lemma check_component_eq:
  "check_component c n = (if safe_component c \<and> n + 1 \<le> 32 then Ok (n + 1) else Err AE_InvalidPath)"
  by (auto simp: check_component_def safe_component_def limit_defs)

lemma check_components_Ok:
  "n \<le> 32 \<Longrightarrow> fold_res check_component cs n =
     (if list_all safe_component cs \<and> n + length cs \<le> 32 then Ok (n + length cs) else Err AE_InvalidPath)"
  by (induction cs arbitrary: n) (auto simp: check_component_eq)

definition safe_path :: "string \<Rightarrow> bool" where
  "safe_path p \<longleftrightarrow> length p \<le> 256 \<and> list_all path_byte p \<and> length (split_char (CHR ''/'') p) \<le> 32
     \<and> list_all safe_component (split_char (CHR ''/'') p)"

lemma validate_path_eq: "validate_path p = (if safe_path p then Ok () else Err AE_InvalidPath)"
  by (auto simp: validate_path_def check_components_Ok safe_path_def safe_component_def limit_defs)

lemma add_payload_all:
  "n \<le> max_payload_bytes \<Longrightarrow> fold_res add_payload fs n =
     (if n + sum_list (map ef_size fs) \<le> max_payload_bytes then Ok (n + sum_list (map ef_size fs)) else Err AE_LimitExceeded)"
proof (induction fs arbitrary: n)
  case (Cons f fs)
  then show ?case by (cases "n + ef_size f \<le> max_payload_bytes")
      (auto simp: add_payload_def checked_add_def limit_defs)
qed simp

lemma windows2_sorted_distinct:
  "\<not> windows2_any (\<lambda>a b. key a = key b) (sort_key key xs) \<longleftrightarrow> distinct (map key xs)"
  for key :: "'a \<Rightarrow> 'k::linorder"
proof -
  have m: "mset (map key (sort_key key xs)) = mset (map key xs)" by simp
  have "\<not> windows2_any (\<lambda>a b. key a = key b) (sort_key key xs)
      \<longleftrightarrow> \<not> windows2_any (=) (map key (sort_key key xs))" by (simp add: windows2_any_map)
  also have "\<dots> \<longleftrightarrow> distinct (map key (sort_key key xs))"
    by (simp add: windows2_any_eq_sorted)
  also have "\<dots> \<longleftrightarrow> distinct (map key xs)" using m by (metis mset_eq_imp_distinct_iff)
  finally show ?thesis .
qed

definition under :: "string \<Rightarrow> string \<Rightarrow> bool" where
  "under d p \<longleftrightarrow> (\<exists>rest. p = d @ ''/'' @ rest)"

lemma prefix_listed_iff:
  assumes "sorted_wrt (<) (map ef_path files)"
  shows "prefix_listed files f \<longleftrightarrow> (\<exists>g \<in> set files. under (ef_path g) (ef_path f))"
proof
  assume "prefix_listed files f"
  then obtain i where i: "i < length (ef_path f)" "ef_path f ! i = CHR ''/''" "take i (ef_path f) \<in> ef_path ` set files"
    using binary_search_None [OF assms] by (auto simp: prefix_listed_def list_ex_iff simp del: not_None_eq)
  then show "\<exists>g \<in> set files. under (ef_path g) (ef_path f)"
    by (metis (no_types, lifting) append_Cons append_Nil id_take_nth_drop imageE under_def)
next
  assume "\<exists>g \<in> set files. under (ef_path g) (ef_path f)"
  then obtain g rest where g: "g \<in> set files" "ef_path f = ef_path g @ ''/'' @ rest" by (auto simp: under_def)
  then have "binary_search ef_path files (take (length (ef_path g)) (ef_path f)) \<noteq> None"
    using binary_search_None [OF assms] by (simp del: not_None_eq)
  with g show "prefix_listed files f"
    by (auto simp: prefix_listed_def list_ex_iff nth_append intro!: bexI [of _ "length (ef_path g)"])
qed

lemma sort_key_strict_paths:
  "distinct (map ef_path files) \<Longrightarrow> sorted_wrt (<) (map ef_path (sort_key ef_path files))"
  by (simp add: strict_sorted_iff distinct_map)

text \<open>
  A manifest is accepted exactly when it is not empty, has at most 4096 files,
  its payload fits the limit, its paths are distinct, and no listed path is a directory of
  another; it then holds the files in path order and their total size.
\<close>

lemma expected_archive_new_iff:
  "expected_archive_new files = Ok ea \<longleftrightarrow>
     files \<noteq> [] \<and> length files \<le> 4096 \<and> sum_list (map ef_size files) \<le> max_payload_bytes
     \<and> distinct (map ef_path files)
     \<and> \<not> (\<exists>f \<in> set files. \<exists>g \<in> set files. \<exists>rest. ef_path f = ef_path g @ ''/'' @ rest)
     \<and> ea = \<lparr>ea_files = sort_key ef_path files, ea_payload_bytes = sum_list (map ef_size files)\<rparr>"
proof (cases "distinct (map ef_path files)")
  case True
  have "list_ex (prefix_listed (sort_key ef_path files)) (sort_key ef_path files)
      \<longleftrightarrow> (\<exists>f \<in> set files. \<exists>g \<in> set files. \<exists>rest. ef_path f = ef_path g @ ''/'' @ rest)"
    using prefix_listed_iff [OF sort_key_strict_paths [OF True]] by (simp add: list_ex_iff under_def)
  with True show ?thesis
    by (auto simp: expected_archive_new_def add_payload_all windows2_sorted_distinct [symmetric] Let_def limit_defs
        simp del: not_ex split: if_splits)
next
  case False
  then show ?thesis
    using windows2_sorted_distinct [of ef_path files]
    by (auto simp: expected_archive_new_def add_payload_all Let_def res_simps split: if_splits)
qed

lemma expected_archive_new_strict:
  assumes "expected_archive_new files = Ok ea"
  shows "strict_paths ea" "mset (ea_files ea) = mset files"
proof -
  from assms have "\<not> windows2_any (\<lambda>a b. ef_path a = ef_path b) (sort_key ef_path files)"
    and ea: "ea_files ea = sort_key ef_path files"
    by (auto simp: expected_archive_new_def res_simps Let_def split: if_splits)
  then show "strict_paths ea" "mset (ea_files ea) = mset files"
    by (simp_all add: strict_paths_def windows2_sorted_distinct sort_key_strict_paths)
qed

text \<open>
  A header block is accepted only as a regular file of the profile: its checksum
  field is the sum of its bytes with that field blank, its type is a regular file, its path is
  relative and plain (no empty, dot or dot-dot component, limited alphabet and length), and
  its size is within the limit.
\<close>

lemma parse_header_sound:
  assumes "parse_header block = Ok h"
  shows "octal (block_field block 148 156) = Ok (block_sum block)
    \<and> block ! 156 \<in> {CHR ''0'', NUL} \<and> th_size h \<le> max_file_bytes
    \<and> length (th_path h) \<le> 256 \<and> list_all path_byte (th_path h)
    \<and> list_all (\<lambda>c. c \<noteq> [] \<and> length c \<le> 100 \<and> c \<noteq> ''.'' \<and> c \<noteq> ''..'') (split_char (CHR ''/'') (th_path h))"
proof -
  from assms have "octal (block_field block 148 156) = Ok (block_sum block)"
    "block ! 156 \<in> {CHR ''0'', NUL}" "th_size h \<le> max_file_bytes"
    and "\<exists>pre name. header_path pre name = Ok (th_path h)"
    by (auto simp: parse_header_def res_simps not_less simp del: check_all_simps check_all_Ok split: if_splits)
      blast+
  moreover from this(4) have "safe_path (th_path h)"
    by (auto simp: header_path_def Let_def validate_path_eq res_simps split: if_splits)
  ultimately show ?thesis by (simp add: safe_path_def safe_component_def [abs_def])
qed

section \<open>Properties of a run\<close>

text \<open>
  Property C23: the validator accepts exactly the well-formed archives of its manifest, however
  the stream is cut into chunks. A run succeeds if and only if the bytes, taken together, are
  within the limit and read as a complete archive whose entries are the manifest's files, each
  once with its size and in any order; the summary is then determined.
\<close>

theorem archive_accepts_iff:
  assumes "expected_archive_new files = Ok ea" and "\<forall>c \<in> set chunks. length c \<le> max_chunk_bytes"
  shows "run_validator ea chunks = Ok summary \<longleftrightarrow>
    length (concat chunks) \<le> max_archive_bytes
    \<and> (\<exists>es. tar_entries (concat chunks) = Some es \<and> mset es = mset (map (\<lambda>f. (ef_path f, ef_size f)) files))
    \<and> summary = \<lparr>as_files = length files, as_payload_bytes = ea_payload_bytes ea,
         as_archive_bytes = length (concat chunks)\<rparr>"
proof -
  note ea = expected_archive_new_strict [OF assms(1)]
  have "length (ea_files ea) = length files" using ea(2) by (metis size_mset)
  then show ?thesis
    using run_validator_iff [OF ea(1) assms(2)] ea(2) by (simp add: entry_of_def [abs_def])
qed

definition ready :: "expected_archive \<Rightarrow> validator \<Rightarrow> bool" where
  "ready ea v \<longleftrightarrow> v_failure v \<noteq> None \<or> between_chunks v"

lemma feed_ready:
  assumes "ready ea v"
  shows "ready ea (snd (feed v c)) \<and> fst (feed v c) \<noteq> Err Panicked"
proof (cases "v_failure v")
  case None
  have "between_chunks (v\<lparr>v_total := n\<rparr>)" for n
    using assms None by (simp add: ready_def between_chunks_def split: stage.splits)
  from feed_loop_explained [OF this, of "v_total v + length c" c] None show ?thesis
    by (auto simp: feed_def feed_inner_def ready_def split: sum.splits stop.splits option.splits if_splits)
qed (simp add: feed_def ready_def)

text \<open>
  Feeding never panics, whatever chunks came before, and the first error is
  final: once a call has failed, every later call and the end of the run report that error
  and nothing else changes.
\<close>

lemma feed_robust:
  assumes "expected_archive_new files = Ok ea" and "v = fold (\<lambda>c v. snd (feed v c)) chunks (validator_new ea)"
  shows "(\<exists>e. fst (feed v c) = Err (Returned e)) \<noteq> (fst (feed v c) = Ok ())
    \<and> (fst (feed v c) = Err (Returned e) \<longrightarrow>
         feed (snd (feed v c)) d = (Err (Returned e), snd (feed v c)) \<and> finish (snd (feed v c)) = Err e)"
proof -
  have "ready ea (validator_new ea)"
    using expected_archive_new_strict(1) [OF assms(1)]
    by (simp add: ready_def validator_new_def between_chunks_def limit_defs zero_block_def)
  then have "ready ea (fold (\<lambda>c v. snd (feed v c)) cs w)" if "ready ea w" for cs w
    using that by (induction cs arbitrary: w) (simp_all add: feed_ready)
  then have "ready ea v" using \<open>ready ea (validator_new ea)\<close> assms(2) by simp
  then have "fst (feed v c) \<noteq> Err Panicked" by (simp add: feed_ready)
  then show ?thesis
    by (auto simp: feed_def finish_def split: option.splits sum.splits stop.splits)
qed

section \<open>A sample archive\<close>

definition sample_block :: string where
  "sample_block = ''etc/config/system'' @ replicate 83 NUL @ ''0000644'' @ [NUL] @ ''0000000'' @ [NUL] @ ''0000000'' @ [NUL]
     @ ''00000000003'' @ [NUL] @ ''00000000000'' @ [NUL] @ ''011225'' @ [NUL] @ '' '' @ ''0'' @ replicate 100 NUL
     @ ''ustar'' @ [NUL] @ ''00'' @ replicate 247 NUL"

lemma block_sum_parts:
  assumes "length block = 512"
  shows "block_sum block = sum_list (map byte (take 148 block)) + 256 + sum_list (map byte (drop 156 block))"
proof -
  let ?f = "\<lambda>(i, b). if 148 \<le> i \<and> i < 156 then 32 else byte b"
  obtain a m c where b: "block = a @ m @ c" and l: "length a = 148" "length m = 8" "length c = 356"
  proof
    show "block = take 148 block @ take 8 (drop 148 block) @ drop 156 block"
      using append_take_drop_id [of 8 "drop 148 block"] append_take_drop_id [of 148 block] by simp
  qed (use assms in simp_all)
  have off: "sum_list (map ?f (zip [k..<k + length xs] xs)) = sum_list (map byte xs)"
    if "k + length xs \<le> 148 \<or> 156 \<le> k" for k xs
    using that by (induction xs rule: rev_induct) auto
  have on: "sum_list (map ?f (zip [k..<k + length xs] xs)) = 32 * length xs"
    if "148 \<le> k" "k + length xs \<le> 156" for k and xs :: string
    using that by (induction xs rule: rev_induct) auto
  have parts: "zip [k..<k + length (xs @ ys)] (xs @ ys)
      = zip [k..<k + length xs] xs @ zip [k + length xs..<k + length xs + length ys] ys" for k and xs ys :: string
    using upt_add_eq_append [of k "k + length xs" "length ys"] by (simp add: zip_append add.assoc)
  have "zip [0..<length block] block
      = zip [0..<0 + length a] a @ zip [148..<148 + length m] m @ zip [156..<156 + length c] c"
    using parts [of 0 a "m @ c"] parts [of 148 m c] unfolding b by (simp only: l add_0 length_append) simp
  then show ?thesis
    unfolding block_sum_def using off [of 0 a] on [of 148 m] off [of 156 c] l by (simp add: b del: upt_rec_numeral)
qed

lemma sample_block_length: "length sample_block = 512" by (simp add: sample_block_def)

lemma sample_checksum: "block_field sample_block 148 156 = ''011225'' @ [NUL, CHR '' '']" by (simp add: sample_block_def block_field_def)

lemma sample_before: "take 148 sample_block = ''etc/config/system'' @ replicate 83 NUL @ ''0000644'' @ [NUL] @ ''0000000'' @ [NUL] @ ''0000000'' @ [NUL]
     @ ''00000000003'' @ [NUL] @ ''00000000000'' @ [NUL]" by (simp add: sample_block_def)

lemma sample_after: "drop 156 sample_block = ''0'' @ replicate 100 NUL
     @ ''ustar'' @ [NUL] @ ''00'' @ replicate 247 NUL" by (simp add: sample_block_def)

lemma sample_magic: "block_field sample_block 257 265 = ''ustar'' @ [NUL] @ ''00''" "block_field sample_block 345 500 = replicate 155 NUL"
  "block_field sample_block 157 257 = replicate 100 NUL" by (simp_all add: sample_block_def block_field_def)

lemma sample_octals:
  "octal (''011225'' @ [NUL, CHR '' '']) = Ok 4757" "octal (''0000644'' @ [NUL]) = Ok 420"
  "octal (''0000000'' @ [NUL]) = Ok 0" "octal (''00000000003'' @ [NUL]) = Ok 3" "octal (''00000000000'' @ [NUL]) = Ok 0"
  by (simp_all add: octal_def octal_digit_def checked_mul_def checked_add_def limit_defs)

lemma sample_fields: "block_field sample_block 100 108 = ''0000644'' @ [NUL]" "block_field sample_block 108 116 = ''0000000'' @ [NUL]"
   "block_field sample_block 116 124 = ''0000000'' @ [NUL]" "block_field sample_block 124 136 = ''00000000003'' @ [NUL]"
   "block_field sample_block 136 148 = ''00000000000'' @ [NUL]"
   "block_field sample_block 329 337 = replicate 8 NUL"    "block_field sample_block 337 345 = replicate 8 NUL"
   "block_field sample_block 265 297 = replicate 32 NUL"    "block_field sample_block 297 329 = replicate 32 NUL"
   "take 100 sample_block = ''etc/config/system'' @ replicate 83 NUL" "drop 500 sample_block = replicate 12 NUL"
  "sample_block ! 156 = CHR ''0''"
  by (simp_all add: sample_block_def block_field_def nth_append)

lemma zero_fields: "all_zero (replicate n NUL)" "field_text (replicate n NUL) = Ok []" "field_text (''etc/config/system'' @ replicate n NUL) = Ok ''etc/config/system''"
  by (simp_all add: all_zero_def field_text_def list_all_iff dropWhile_replicate takeWhile_replicate list_ex_iff)

lemma sample_sum: "block_sum sample_block = 4757" unfolding block_sum_parts [OF sample_block_length] sample_before sample_after by (simp add: sum_list_replicate)

lemma sample_path: "header_path [] ''etc/config/system'' = Ok ''etc/config/system''"
  by (simp add: header_path_def validate_path_def path_byte_def ascii_defs limit_defs check_component_def)

lemma sample_header: "parse_header sample_block = Ok \<lparr>th_path = ''etc/config/system'', th_size = 3\<rparr>"
  unfolding parse_header_def sample_checksum sample_sum sample_fields sample_magic header_prefix_def
  by (simp add: sample_checksum sample_sum sample_magic sample_fields zero_fields sample_path sample_octals octal_at_most_def device_field_ok_def owner_field_ok_def limit_defs ensure_def del: append.simps)

definition sample_stream :: string where
  "sample_stream = sample_block @ ''abc'' @ replicate 509 NUL @ replicate 1024 NUL"

definition sample_files :: "expected_file list" where
  "sample_files = [\<lparr>ef_path = ''etc/config/system'', ef_size = 3\<rparr>]"

lemma sample_entries: "tar_entries sample_stream = Some [(''etc/config/system'', 3)]"
proof -
  have nz: "\<not> all_zero sample_block" by (simp add: sample_block_def)
  have z: "tar_entries (replicate 512 NUL @ replicate 512 NUL) = Some []"
    by (subst tar_entries_block) (simp_all add: zero_fields tail_ok_def limit_defs)
  have two: "replicate 1024 NUL = replicate 512 NUL @ replicate 512 NUL" by (simp flip: replicate_add)
  show ?thesis
    unfolding sample_stream_def two
    by (subst tar_entries_block) (simp_all add: sample_block_length nz sample_header skip_then_def padding_of_def
        limit_defs zero_fields z flip: append_assoc)
qed

lemma sample_manifest:
  "expected_archive_new sample_files = Ok \<lparr>ea_files = sample_files, ea_payload_bytes = 3\<rparr>"
  by code_simp

lemma archive_accepts_iff_witness:
  "run_validator \<lparr>ea_files = sample_files, ea_payload_bytes = 3\<rparr> [take 700 sample_stream, drop 700 sample_stream]
   = Ok \<lparr>as_files = 1, as_payload_bytes = 3, as_archive_bytes = 2048\<rparr>"
proof -
  have "length sample_stream = 2048" by (simp add: sample_stream_def sample_block_def)
  then show ?thesis
    by (subst archive_accepts_iff [OF sample_manifest])
       (auto simp: sample_entries limit_defs, simp_all add: sample_files_def)
qed

end
