(* ===== verification/Gzip.thy ===== *)
theory Gzip
  imports Archive
begin

unbundle bit_operations_syntax

text \<open>
  One gzip member around the strict tar profile: \<^verbatim>\<open>device-codec/src/gzip\<close>. The header is
  admitted byte by byte before the decompressor sees it. The decompressor is a library: a
  parameter, of which the termination of the decode loop assumes nothing; what it documents is
  stated where a property needs it. A fixed array with a length is the list of the bytes
  written so far. The output buffer is all zero before every call of the decompressor.
\<close>

section \<open>Limits and errors\<close>

definition gz_max_chunk_bytes :: nat where [limit_defs]: "gz_max_chunk_bytes = 65536"
definition gz_max_source_bytes :: nat where [limit_defs]: "gz_max_source_bytes = 72 * 1024 * 1024"
definition max_header_bytes :: nat where [limit_defs]: "max_header_bytes = 4096"
definition max_extra_bytes :: nat where [limit_defs]: "max_extra_bytes = 4084"
definition max_name_bytes :: nat where [limit_defs]: "max_name_bytes = 1024"
definition max_comment_bytes :: nat where [limit_defs]: "max_comment_bytes = 1024"
definition output_buffer_bytes :: nat where [limit_defs]: "output_buffer_bytes = 4096"
definition max_expansion_ratio :: nat where [limit_defs]: "max_expansion_ratio = 128"
definition expansion_slack_bytes :: nat where [limit_defs]: "expansion_slack_bytes = 1024 * 1024"

record gzip_archive_summary =
  gs_compressed_bytes :: nat
  gs_files :: nat
  gs_payload_bytes :: nat
  gs_archive_bytes :: nat

datatype gzip_error =
  GE_InvalidHeader | GE_InvalidData | GE_LimitExceeded | GE_IncompleteStream
| GE_TrailingData | GE_InvalidArchive

fun gzip_error_code :: "gzip_error \<Rightarrow> string" where
  "gzip_error_code GE_InvalidHeader = ''invalid_gzip_header''"
| "gzip_error_code GE_InvalidData = ''invalid_gzip_data''"
| "gzip_error_code GE_LimitExceeded = ''gzip_limit_exceeded''"
| "gzip_error_code GE_IncompleteStream = ''incomplete_gzip_stream''"
| "gzip_error_code GE_TrailingData = ''trailing_gzip_data''"
| "gzip_error_code GE_InvalidArchive = ''invalid_gzip_archive''"

fun gzip_error_of :: "archive_error \<Rightarrow> gzip_error" where
  "gzip_error_of AE_LimitExceeded = GE_LimitExceeded"
| "gzip_error_of _ = GE_InvalidArchive"

section \<open>The header\<close>

datatype gzip_stage =
  GS_Fixed
| GS_ExtraLength "char option"
| GS_Extra nat
| GS_Name nat
| GS_Comment nat
| GS_Crc nat
| GS_Done

record gzip_header =
  gh_bytes :: string
  gh_flags :: "8 word"
  gh_stage :: gzip_stage

definition header_new :: gzip_header where
  "header_new = \<lparr>gh_bytes = [], gh_flags = 0, gh_stage = GS_Fixed\<rparr>"

definition header_complete :: "gzip_header \<Rightarrow> bool" where
  "header_complete h \<longleftrightarrow> gh_stage h = GS_Done"

definition byte_word :: "char \<Rightarrow> 8 word" where
  "byte_word c = word_of_nat (byte c)"

definition advance :: "gzip_header \<Rightarrow> gzip_header" where
  "advance h =
     (if gh_flags h AND 4 \<noteq> 0 then h\<lparr>gh_flags := gh_flags h AND NOT 4, gh_stage := GS_ExtraLength None\<rparr>
      else if gh_flags h AND 8 \<noteq> 0 then h\<lparr>gh_flags := gh_flags h AND NOT 8, gh_stage := GS_Name 0\<rparr>
      else if gh_flags h AND 16 \<noteq> 0 then h\<lparr>gh_flags := gh_flags h AND NOT 16, gh_stage := GS_Comment 0\<rparr>
      else if gh_flags h AND 2 \<noteq> 0 then h\<lparr>gh_flags := gh_flags h AND NOT 2, gh_stage := GS_Crc 2\<rparr>
      else h\<lparr>gh_stage := GS_Done\<rparr>)"

definition gzip_magic :: string where
  "gzip_magic = [CHR 0x1F, CHR 0x8B, CHR 0x08]"

definition u16_le :: "char \<Rightarrow> char \<Rightarrow> nat" where
  "u16_le low high = byte low + 256 * byte high"

text \<open>The state that follows the byte. Counting down from zero would underflow.\<close>

definition stage_byte :: "char \<Rightarrow> gzip_header \<Rightarrow> gzip_error stop + gzip_header" where
  "stage_byte b h = (case gh_stage h of
       GS_Fixed \<Rightarrow>
         (if length (gh_bytes h) = 10 then
            (if take 3 (gh_bytes h) \<noteq> gzip_magic \<or> byte_word (gh_bytes h ! 3) AND 0xE0 \<noteq> 0
             then Err (Returned GE_InvalidHeader)
             else Ok (advance (h\<lparr>gh_flags := byte_word (gh_bytes h ! 3)\<rparr>)))
          else Ok h)
     | GS_ExtraLength None \<Rightarrow> Ok (h\<lparr>gh_stage := GS_ExtraLength (Some b)\<rparr>)
     | GS_ExtraLength (Some low) \<Rightarrow>
         (let remaining = u16_le low b in
          if remaining > max_extra_bytes then Err (Returned GE_LimitExceeded)
          else if remaining = 0 then Ok (advance h)
          else Ok (h\<lparr>gh_stage := GS_Extra remaining\<rparr>))
     | GS_Extra remaining \<Rightarrow>
         (if remaining = 1 then Ok (advance h)
          else if remaining = 0 then Err Panicked
          else Ok (h\<lparr>gh_stage := GS_Extra (remaining - 1)\<rparr>))
     | GS_Crc remaining \<Rightarrow>
         (if remaining = 1 then Ok (advance h)
          else if remaining = 0 then Err Panicked
          else Ok (h\<lparr>gh_stage := GS_Crc (remaining - 1)\<rparr>))
     | GS_Name n \<Rightarrow>
         (if n + 1 > max_name_bytes then Err (Returned GE_LimitExceeded)
          else if b = NUL then Ok (advance h) else Ok (h\<lparr>gh_stage := GS_Name (n + 1)\<rparr>))
     | GS_Comment n \<Rightarrow>
         (if n + 1 > max_comment_bytes then Err (Returned GE_LimitExceeded)
          else if b = NUL then Ok (advance h) else Ok (h\<lparr>gh_stage := GS_Comment (n + 1)\<rparr>))
     | GS_Done \<Rightarrow> Err (Returned GE_InvalidHeader))"

definition header_byte :: "char \<Rightarrow> gzip_header \<Rightarrow> gzip_error stop + gzip_header" where
  "header_byte b h =
     (if length (gh_bytes h) = max_header_bytes then Err (Returned GE_LimitExceeded)
      else stage_byte b (h\<lparr>gh_bytes := gh_bytes h @ [b]\<rparr>))"

text \<open>The number of bytes consumed and the header.\<close>

fun header_feed :: "gzip_header \<Rightarrow> string \<Rightarrow> gzip_error stop + nat \<times> gzip_header" where
  "header_feed h [] = Ok (0, h)"
| "header_feed h (b # bs) =
     (if header_complete h then Ok (0, h)
      else and_then (header_byte b h) (\<lambda>h.
           and_then (header_feed h bs) (\<lambda>(n, h). Ok (n + 1, h))))"

section \<open>The decompressor\<close>

datatype inflate_status = IS_Ok | IS_BufError | IS_StreamEnd

text \<open>
  \<^verbatim>\<open>flate2::Decompress\<close>: \<open>decompress state input room\<close> gives the status and the bytes put at
  the front of a buffer of \<open>room\<close> bytes, or an error.
\<close>

record 'd inflater =
  new_gzip :: 'd
  total_in :: "'d \<Rightarrow> nat"
  total_out :: "'d \<Rightarrow> nat"
  decompress :: "'d \<Rightarrow> string \<Rightarrow> nat \<Rightarrow> (inflate_status \<times> string) option \<times> 'd"

definition filled_buffer :: "string \<Rightarrow> string" where
  "filled_buffer out = take output_buffer_bytes (out @ replicate (output_buffer_bytes - length out) NUL)"

section \<open>The validator\<close>

record 'd gzip_validator =
  g_header :: "gzip_header option"
  g_decoder :: "'d option"
  g_inner :: "validator option"
  g_source_bytes :: nat
  g_header_bytes :: nat
  g_deflate_bytes :: nat
  g_complete :: bool
  g_failure :: "gzip_error option"

definition gzip_new :: "expected_archive \<Rightarrow> 'd gzip_validator" where
  "gzip_new expected =
     \<lparr>g_header = Some header_new, g_decoder = None, g_inner = Some (validator_new expected),
      g_source_bytes = 0, g_header_bytes = 0, g_deflate_bytes = 0, g_complete = False, g_failure = None\<rparr>"

text \<open>\<^verbatim>\<open>total - before\<close>, when it is no larger than what was offered.\<close>

definition progress :: "nat \<Rightarrow> nat \<Rightarrow> nat \<Rightarrow> gzip_error stop + nat" where
  "progress now before most = (case checked_sub now before of
       Some n \<Rightarrow> if n \<le> most then Ok n else Err (Returned GE_InvalidData)
     | None \<Rightarrow> Err (Returned GE_InvalidData))"

definition feed_archive :: "string \<Rightarrow> 'd gzip_validator \<Rightarrow> gzip_error stop + 'd gzip_validator" where
  "feed_archive bytes v =
     and_then (ok_or (Returned GE_InvalidData) (g_inner v)) (\<lambda>inner. case feed inner bytes of
         (Inr _, inner) \<Rightarrow> Ok (v\<lparr>g_inner := Some inner\<rparr>)
       | (Inl (Returned e), _) \<Rightarrow> Err (Returned (gzip_error_of e))
       | (Inl Panicked, _) \<Rightarrow> Err Panicked)"

definition end_stream :: "'d inflater \<Rightarrow> 'd \<Rightarrow> string \<Rightarrow> 'd gzip_validator \<Rightarrow> gzip_error stop + 'd gzip_validator" where
  "end_stream lib decoder inp v =
     (if inp \<noteq> [] then Err (Returned GE_TrailingData)
      else if total_in lib decoder \<noteq> g_source_bytes v then Err (Returned GE_InvalidData)
      else case Option.bind (checked_sub (total_in lib decoder) (g_header_bytes v)) (\<lambda>n. checked_sub n 8) of
          Some n \<Rightarrow>
            if n > 0 then Ok (v\<lparr>g_deflate_bytes := n, g_complete := True, g_decoder := None\<rparr>)
            else Err (Returned GE_InvalidData)
        | None \<Rightarrow> Err (Returned GE_InvalidData))"

text \<open>
  One round of the decode loop: the validator, and the rest of the input when another round
  follows.
\<close>

definition decode_round ::
    "'d inflater \<Rightarrow> 'd gzip_validator \<Rightarrow> string \<Rightarrow> gzip_error stop + 'd gzip_validator \<times> string option" where
  "decode_round lib v inp =
     and_then (ok_or (Returned GE_InvalidData) (g_decoder v)) (\<lambda>decoder.
     case decompress lib decoder inp output_buffer_bytes of
       (None, _) \<Rightarrow> Err (Returned GE_InvalidData)
     | (Some (status, out), decoder') \<Rightarrow>
         and_then (progress (total_in lib decoder') (total_in lib decoder) (length inp)) (\<lambda>used.
         and_then (progress (total_out lib decoder') (total_out lib decoder) output_buffer_bytes) (\<lambda>written.
         and_then (feed_archive (take written (filled_buffer out)) (v\<lparr>g_decoder := Some decoder'\<rparr>)) (\<lambda>v.
         let inp = drop used inp in
         if status = IS_StreamEnd then and_then (end_stream lib decoder' inp v) (\<lambda>v. Ok (v, None))
         else if used = 0 \<and> written = 0 then
           (if inp = [] then Ok (v, None) else Err (Returned GE_InvalidData))
         else if inp = [] \<and> written < output_buffer_bytes then Ok (v, None)
         else Ok (v, Some inp)))))"

text \<open>Every round that is followed by another one consumes input or fills the archive.\<close>

definition archive_room :: "'d gzip_validator \<Rightarrow> nat" where
  "archive_room v = (case g_inner v of None \<Rightarrow> 0 | Some inner \<Rightarrow> max_archive_bytes - v_total inner)"

lemma accept_header_total: "accept_header v = Ok v' \<Longrightarrow> v_total v' = v_total v"
  by (auto simp: accept_header_def accept_entry_def res_simps split: if_splits)

lemma feed_round_total: "feed_round v inp = Ok (v', inp') \<Longrightarrow> v_total v' = v_total v"
  by (auto simp: feed_round_def Let_def res_simps dest: accept_header_total
      split: stage.splits if_splits option.splits)

lemma feed_loop_total: "feed_loop v inp = Ok v' \<Longrightarrow> v_total v' = v_total v"
proof (induction v inp rule: feed_loop.induct)
  case (1 v inp)
  then show ?case
    by (subst (asm) (2) feed_loop.simps) (auto simp: res_simps dest: feed_round_total split: if_splits)
qed

lemma feed_total:
  assumes "feed v c = (Ok (), v')"
  shows "v_total v' = v_total v + length c \<and> v_total v' \<le> max_archive_bytes"
  using assms by (auto simp: feed_def feed_inner_def dest: feed_loop_total
      split: option.splits sum.splits stop.splits if_splits)

lemma filled_buffer_length [simp]: "length (filled_buffer out) = output_buffer_bytes"
  by (simp add: filled_buffer_def)

lemma feed_archive_Ok:
  "feed_archive bytes v = Ok v' \<longleftrightarrow>
     (\<exists>inner inner'. g_inner v = Some inner \<and> feed inner bytes = (Ok (), inner') \<and> v' = v\<lparr>g_inner := Some inner'\<rparr>)"
proof (cases "g_inner v")
  case (Some inner)
  obtain r inner' where f: "feed inner bytes = (r, inner')" by (cases "feed inner bytes")
  show ?thesis
  proof (cases r)
    case (Inl e)
    with Some f show ?thesis by (cases e) (auto simp: feed_archive_def)
  qed (use Some f in \<open>auto simp: feed_archive_def\<close>)
qed (simp add: feed_archive_def)

lemma feed_archive_room:
  assumes "feed_archive bytes v = Ok v'"
  shows "archive_room v' + length bytes \<le> archive_room v"
  using assms by (auto simp: feed_archive_Ok archive_room_def dest!: feed_total)

lemma progress_Ok [simp]: "progress now before most = Ok n \<longleftrightarrow> before \<le> now \<and> n = now - before \<and> n \<le> most"
  by (auto simp: progress_def checked_sub_def)

lemma decode_round_Ok:
  assumes "decode_round lib v inp = Ok (v', again)"
  obtains d status out d' used written w where
    "g_decoder v = Some d" "decompress lib d inp output_buffer_bytes = (Some (status, out), d')"
    "total_in lib d \<le> total_in lib d'" "used = total_in lib d' - total_in lib d" "used \<le> length inp"
    "total_out lib d \<le> total_out lib d'" "written = total_out lib d' - total_out lib d" "written \<le> output_buffer_bytes"
    "feed_archive (take written (filled_buffer out)) (v\<lparr>g_decoder := Some d'\<rparr>) = Ok w"
    "if status = IS_StreamEnd then end_stream lib d' (drop used inp) w = Ok v' \<and> again = None
     else v' = w \<and> (again = None \<and> used = length inp \<or>
       again = Some (drop used inp) \<and> \<not> (used = 0 \<and> written = 0)
         \<and> \<not> (used = length inp \<and> written < output_buffer_bytes))"
proof -
  from assms obtain d where d: "g_decoder v = Some d" by (auto simp: decode_round_def res_simps)
  obtain r d' where r: "decompress lib d inp output_buffer_bytes = (r, d')" by (cases "decompress lib d inp output_buffer_bytes")
  from assms d r obtain status out where o: "r = Some (status, out)" by (cases r) (auto simp: decode_round_def)
  show thesis
    by (rule that [OF d r [unfolded o], of "total_in lib d' - total_in lib d" "total_out lib d' - total_out lib d"
          "case feed_archive (take (total_out lib d' - total_out lib d) (filled_buffer out)) (v\<lparr>g_decoder := Some d'\<rparr>) of Inr w \<Rightarrow> w"])
      (use assms d r o in \<open>auto simp: decode_round_def res_simps Let_def split: if_splits\<close>)
qed

lemma decode_round_decreases:
  assumes "decode_round lib v inp = Ok (v', Some inp')"
  shows "archive_room v' < archive_room v \<or> archive_room v' = archive_room v \<and> length inp' < length inp"
proof (rule decode_round_Ok [OF assms])
  fix d status out d' used written w
  assume n: "used \<le> length inp" "written \<le> output_buffer_bytes"
    and fed: "feed_archive (take written (filled_buffer out)) (v\<lparr>g_decoder := Some d'\<rparr>) = Ok w"
    and e: "if status = IS_StreamEnd then end_stream lib d' (drop used inp) w = Ok v' \<and> Some inp' = None
     else v' = w \<and> (Some inp' = None \<and> used = length inp \<or>
       Some inp' = Some (drop used inp) \<and> \<not> (used = 0 \<and> written = 0)
         \<and> \<not> (used = length inp \<and> written < output_buffer_bytes))"
  have "archive_room w + written \<le> archive_room v"
    using feed_archive_room [OF fed] n(2) by (simp add: archive_room_def)
  with n e show ?thesis by (cases "written = 0") (auto split: if_splits)
qed

function decode :: "'d inflater \<Rightarrow> 'd gzip_validator \<Rightarrow> string \<Rightarrow> gzip_error stop + 'd gzip_validator" where
  "decode lib v inp =
     and_then (decode_round lib v inp) (\<lambda>(v, again). case again of
         None \<Rightarrow> Ok v
       | Some inp \<Rightarrow> decode lib v inp)"
  by auto
termination
  by (relation "measures [\<lambda>(lib, v, inp). archive_room v, \<lambda>(lib, v, inp). length inp]")
     (auto dest: decode_round_decreases)

declare decode.simps [simp del]

definition gzip_feed_inner ::
    "'d inflater \<Rightarrow> 'd gzip_validator \<Rightarrow> string \<Rightarrow> gzip_error stop + 'd gzip_validator" where
  "gzip_feed_inner lib v inp =
     (if length inp > gz_max_chunk_bytes then Err (Returned GE_LimitExceeded)
      else case checked_add (g_source_bytes v) (length inp) of
          None \<Rightarrow> Err (Returned GE_LimitExceeded)
        | Some n \<Rightarrow>
            if \<not> n \<le> gz_max_source_bytes then Err (Returned GE_LimitExceeded)
            else let v = v\<lparr>g_source_bytes := n\<rparr> in
              if g_complete v then (if inp = [] then Ok v else Err (Returned GE_TrailingData))
              else case g_header v of
                  None \<Rightarrow> decode lib v inp
                | Some header \<Rightarrow>
                    and_then (header_feed header inp) (\<lambda>(consumed, header).
                    let inp = drop consumed inp in
                    if \<not> header_complete header then Ok (v\<lparr>g_header := Some header\<rparr>)
                    else and_then (decode lib (v\<lparr>g_header := None, g_header_bytes := length (gh_bytes header),
                                                 g_decoder := Some (new_gzip lib)\<rparr>) (gh_bytes header))
                           (\<lambda>v. decode lib v inp)))"

text \<open>
  After an error only the recorded failure is read again, so the other counters keep the value
  they had before the call.
\<close>

definition gzip_feed ::
    "'d inflater \<Rightarrow> 'd gzip_validator \<Rightarrow> string \<Rightarrow> (gzip_error stop + unit) \<times> 'd gzip_validator" where
  "gzip_feed lib v inp = (case g_failure v of
       Some e \<Rightarrow> (Err (Returned e), v)
     | None \<Rightarrow> (case gzip_feed_inner lib v inp of
           Inr v' \<Rightarrow> (Ok (), v')
         | Inl (Returned e) \<Rightarrow>
             (Err (Returned e), v\<lparr>g_failure := Some e, g_header := None, g_decoder := None, g_inner := None\<rparr>)
         | Inl Panicked \<Rightarrow> (Err Panicked, v)))"

definition gzip_finish :: "'d gzip_validator \<Rightarrow> gzip_error + gzip_archive_summary" where
  "gzip_finish v = (case g_failure v of
       Some e \<Rightarrow> Err e
     | None \<Rightarrow>
         if \<not> g_complete v then Err GE_IncompleteStream
         else and_then (ok_or GE_InvalidData (g_inner v)) (\<lambda>inner.
              and_then (map_err gzip_error_of (finish inner)) (\<lambda>summary.
              and_then (ok_or GE_LimitExceeded (Option.bind (checked_mul (g_deflate_bytes v) max_expansion_ratio)
                  (\<lambda>n. checked_add n expansion_slack_bytes))) (\<lambda>allowed.
              if as_archive_bytes summary > allowed then Err GE_LimitExceeded
              else Ok \<lparr>gs_compressed_bytes = g_source_bytes v, gs_files = as_files summary,
                       gs_payload_bytes = as_payload_bytes summary,
                       gs_archive_bytes = as_archive_bytes summary\<rparr>))))"

end
