(* ===== verification/Workflow.thy ===== *)
theory Workflow
  imports Sealing RecordStore Gzip
begin

text \<open>
  Sealing a captured archive into the store and inspecting what is stored:
  \<^verbatim>\<open>adapters/src/backups/archive.rs\<close> and \<^verbatim>\<open>workflow.rs\<close>. They are the ports that the sealer of
  \<^verbatim>\<open>runtime/src/sealing\<close> runs on: the source reads the captured bytes, the checker is one of the
  archive validators, the stage is a bounded memory that publishes to the store. The cipher and
  the decryptor are trees of the reads and writes they make; the clock of the sealer is a port. A
  validator that was moved into \<^verbatim>\<open>finish\<close> is gone.
\<close>

section \<open>The checker\<close>

datatype 'd check_validator = Check_Tar validator | Check_Gzip "'d gzip_validator"

record ('w, 'd) backup_ports =
  bp_store :: "'w store_ports"
  bp_clock :: "'w \<Rightarrow> nat \<times> 'w"
  bp_inflater :: "'d inflater"

definition expected_of :: "artifact_binding \<Rightarrow> backup_error + expected_archive" where
  "expected_of binding =
     and_then (map_err (\<lambda>_. BE_Invalid) (expected_file_new ''etc/config/system'' (binding_file_bytes binding))) (\<lambda>f.
     map_err (\<lambda>_. BE_Invalid) (expected_archive_new [f]))"

definition validator_of :: "artifact_binding \<Rightarrow> expected_archive \<Rightarrow> 'd check_validator" where
  "validator_of binding expected = (case binding_format binding of
       Format_Tar \<Rightarrow> Check_Tar (validator_new expected)
     | Format_Gzip \<Rightarrow> Check_Gzip (gzip_new expected))"

definition check_new ::
    "'w store_ports \<Rightarrow> artifact_binding \<Rightarrow> ('w record_store, backup_error, 'd check_validator) eff" where
  "check_new ports binding =
     seq (checked ports) (\<lambda>_.
     seq (returned (expected_of binding)) (\<lambda>expected.
     give (validator_of binding expected)))"

fun validator_feed :: "'d inflater \<Rightarrow> string \<Rightarrow> 'd check_validator \<Rightarrow> bool \<times> 'd check_validator" where
  "validator_feed lib bytes (Check_Tar v) = (case feed v bytes of (r, v) \<Rightarrow> (is_ok r, Check_Tar v))"
| "validator_feed lib bytes (Check_Gzip v) = (case gzip_feed lib v bytes of (r, v) \<Rightarrow> (is_ok r, Check_Gzip v))"

fun validator_finish :: "'d check_validator \<Rightarrow> check_counts option" where
  "validator_finish (Check_Tar v) = (case finish v of
       Inl _ \<Rightarrow> None
     | Inr s \<Rightarrow> Some \<lparr>cc_source_bytes = as_archive_bytes s, cc_expanded_bytes = as_archive_bytes s,
         cc_payload_bytes = as_payload_bytes s, cc_files = as_files s\<rparr>)"
| "validator_finish (Check_Gzip v) = (case gzip_finish v of
       Inl _ \<Rightarrow> None
     | Inr s \<Rightarrow> Some \<lparr>cc_source_bytes = gs_compressed_bytes s, cc_expanded_bytes = gs_archive_bytes s,
         cc_payload_bytes = gs_payload_bytes s, cc_files = gs_files s\<rparr>)"

section \<open>The ports of the sealer\<close>

record ('w, 'd) backup_work =
  bw_data :: string
  bw_position :: nat
  bw_check :: "'d check_validator option"
  bw_memory :: string
  bw_binding :: artifact_binding
  bw_store :: "'w record_store"

definition work_ok :: "'w store_ports \<Rightarrow> ('w, 'd) backup_work \<Rightarrow> bool \<times> ('w, 'd) backup_work" where
  "work_ok ports w = (case checked ports (bw_store w) of (r, s) \<Rightarrow> (is_ok r, w\<lparr>bw_store := s\<rparr>))"

definition source_read ::
    "'w store_ports \<Rightarrow> nat \<Rightarrow> ('w, 'd) backup_work \<Rightarrow> (nat \<times> string) option \<times> ('w, 'd) backup_work" where
  "source_read ports n w = (case work_ok ports w of
       (False, w) \<Rightarrow> (None, w)
     | (True, w) \<Rightarrow>
         let bytes = take n (drop (bw_position w) (bw_data w))
         in (Some (length bytes, bytes), w\<lparr>bw_position := bw_position w + length bytes\<rparr>))"

definition source_completed ::
    "'w store_ports \<Rightarrow> ('w, 'd) backup_work \<Rightarrow> nat option \<times> ('w, 'd) backup_work" where
  "source_completed ports w = (case work_ok ports w of
       (False, w) \<Rightarrow> (None, w)
     | (True, w) \<Rightarrow> (Some (length (bw_data w)), w))"

definition source_cancel :: "('w, 'd) backup_work \<Rightarrow> cleanup_outcome \<times> ('w, 'd) backup_work" where
  "source_cancel w = (CO_Cleaned, w\<lparr>bw_data := []\<rparr>)"

definition check_feed ::
    "('w, 'd) backup_ports \<Rightarrow> string \<Rightarrow> ('w, 'd) backup_work \<Rightarrow> bool \<times> ('w, 'd) backup_work" where
  "check_feed bp bytes w = (case work_ok (bp_store bp) w of
       (False, w) \<Rightarrow> (False, w)
     | (True, w) \<Rightarrow> (case bw_check w of
           None \<Rightarrow> (False, w)
         | Some v \<Rightarrow> (case validator_feed (bp_inflater bp) bytes v of (ok, v) \<Rightarrow>
             let w = w\<lparr>bw_check := Some v\<rparr> in
             if ok then work_ok (bp_store bp) w else (False, w))))"

definition check_finish ::
    "'w store_ports \<Rightarrow> ('w, 'd) backup_work \<Rightarrow> check_counts option \<times> ('w, 'd) backup_work" where
  "check_finish ports w = (case work_ok ports w of
       (False, w) \<Rightarrow> (None, w\<lparr>bw_check := None\<rparr>)
     | (True, w) \<Rightarrow> (case Option.bind (bw_check w) validator_finish of
           None \<Rightarrow> (None, w\<lparr>bw_check := None\<rparr>)
         | Some counts \<Rightarrow> (case work_ok ports (w\<lparr>bw_check := None\<rparr>) of
             (ok, w) \<Rightarrow> (if ok then Some counts else None, w))))"

definition memory_put :: "nat \<Rightarrow> string \<Rightarrow> string \<Rightarrow> string option" where
  "memory_put maximum memory bytes =
     (if length bytes > 65536 \<or> length bytes > maximum - length memory then None else Some (memory @ bytes))"

definition stage_write ::
    "'w store_ports \<Rightarrow> string \<Rightarrow> ('w, 'd) backup_work \<Rightarrow> nat option \<times> ('w, 'd) backup_work" where
  "stage_write ports bytes w = (case work_ok ports w of
       (False, w) \<Rightarrow> (None, w)
     | (True, w) \<Rightarrow> (case memory_put max_ciphertext (bw_memory w) bytes of
           None \<Rightarrow> (None, w)
         | Some memory \<Rightarrow> (Some (length bytes), w\<lparr>bw_memory := memory\<rparr>)))"

definition stage_offers :: stage_capabilities where
  "stage_offers = \<lparr>private_staging = True, atomic_publication = True, durability = True\<rparr>"

fun outcome_seen :: "record_publication \<Rightarrow> publish_outcome" where
  "outcome_seen RP_Durable = PO_Published"
| "outcome_seen RP_NotPublished = PO_NotPublished"
| "outcome_seen RP_Unknown = PO_Unknown"

definition stage_publish ::
    "'w store_ports \<Rightarrow> authenticator \<Rightarrow> sealed_counts \<Rightarrow> ('w, 'd) backup_work
      \<Rightarrow> publish_outcome \<times> ('w, 'd) backup_work" where
  "stage_publish ports auth counts w =
     (let binding = bw_binding w in
      if sc_source_bytes counts \<noteq> binding_source_bytes binding
         \<or> sc_payload_bytes counts \<noteq> binding_file_bytes binding
         \<or> sc_files counts \<noteq> 1 \<or> sc_ciphertext_bytes counts \<noteq> length (bw_memory w)
      then (PO_NotPublished, w)
      else case publish ports auth binding (bw_memory w) (bw_store w) of
        (r, s) \<Rightarrow> (outcome_seen r, w\<lparr>bw_store := s\<rparr>))"

definition stage_abort :: "('w, 'd) backup_work \<Rightarrow> cleanup_outcome \<times> ('w, 'd) backup_work" where
  "stage_abort w = (CO_Cleaned, w\<lparr>bw_memory := []\<rparr>)"

definition clock_now :: "('w \<Rightarrow> nat \<times> 'w) \<Rightarrow> ('w, 'd) backup_work \<Rightarrow> nat \<times> ('w, 'd) backup_work" where
  "clock_now clock w = (case clock (rs_world (bw_store w)) of
     (t, world) \<Rightarrow> (t, w\<lparr>bw_store := (bw_store w)\<lparr>rs_world := world\<rparr>\<rparr>))"

definition work_ports :: "('w, 'd) backup_ports \<Rightarrow> authenticator \<Rightarrow> ('w, 'd) backup_work seal_ports" where
  "work_ports bp auth =
     \<lparr>sp_now_ms = clock_now (bp_clock bp),
      sp_read = source_read (bp_store bp),
      sp_complete = source_completed (bp_store bp),
      sp_cancel = source_cancel,
      sp_feed = check_feed bp,
      sp_finish = check_finish (bp_store bp),
      sp_capabilities = (\<lambda>w. (stage_offers, w)),
      sp_write = stage_write (bp_store bp),
      sp_flush = work_ok (bp_store bp),
      sp_publish = stage_publish (bp_store bp) auth,
      sp_abort = stage_abort\<rparr>"

section \<open>Sealing a capture\<close>

record backup_failure =
  bf_cause :: backup_error
  bf_publication :: record_publication

definition before :: "backup_error \<Rightarrow> backup_failure" where
  "before cause = \<lparr>bf_cause = cause, bf_publication = RP_NotPublished\<rparr>"

definition attempt :: "('e \<Rightarrow> 'f) \<Rightarrow> ('s, 'e, 'a) eff \<Rightarrow> ('s, 'f, 'a) eff" where
  "attempt f m = (\<lambda>s. case m s of (r, s') \<Rightarrow> (map_err f r, s'))"

definition capture_limits :: seal_limits where
  "capture_limits = \<lparr>sl_source_bytes = max_plaintext, sl_ciphertext_bytes = max_ciphertext, sl_timeout_ms = 30000\<rparr>"

fun publication_seen :: "publication \<Rightarrow> record_publication" where
  "publication_seen Pub_Published = RP_Durable"
| "publication_seen Pub_Unknown = RP_Unknown"
| "publication_seen Pub_NotAttempted = RP_NotPublished"
| "publication_seen Pub_NotPublished = RP_NotPublished"

definition work_start ::
    "captured_archive \<Rightarrow> 'd check_validator \<Rightarrow> 'w record_store \<Rightarrow> ('w, 'd) backup_work" where
  "work_start capture check s =
     \<lparr>bw_data = ca_bytes capture, bw_position = 0, bw_check = Some check, bw_memory = [],
      bw_binding = ca_binding capture, bw_store = s\<rparr>"

definition seal_into ::
    "('w, 'd) backup_ports \<Rightarrow> authenticator \<Rightarrow> captured_archive \<Rightarrow> 'd check_validator \<Rightarrow> cipher_run \<Rightarrow> seal_limits
      \<Rightarrow> ('w record_store, backup_failure, sealed_counts) eff" where
  "seal_into bp auth capture check cipher lim = (\<lambda>s.
     case seal_with_clock (work_ports bp auth) lim cipher (work_start capture check s) of
       (Inr counts, st) \<Rightarrow> (Ok counts, bw_store (env st))
     | (Inl report, st) \<Rightarrow> (case checked (bp_store bp) (bw_store (env st)) of
         (r, s') \<Rightarrow> (Err \<lparr>bf_cause = (case r of Inl e \<Rightarrow> e | Inr _ \<Rightarrow> BE_Integrity),
           bf_publication = publication_seen (fr_publication report)\<rparr>, s')))"

definition seal_capture ::
    "('w, 'd) backup_ports \<Rightarrow> authenticator \<Rightarrow> captured_archive \<Rightarrow> cipher_run
      \<Rightarrow> ('w record_store, backup_failure, backup_inspection) eff" where
  "seal_capture bp auth capture cipher =
     seq (attempt before (checked (bp_store bp))) (\<lambda>_.
     seq (attempt before (check_new (bp_store bp) (ca_binding capture))) (\<lambda>check.
     seq (attempt (\<lambda>_. before BE_Invalid) (returned (archive_sealer_new capture_limits))) (\<lambda>lim.
     seq (seal_into bp auth capture check cipher lim) (\<lambda>counts.
     give \<lparr>bi_source_bytes = sc_source_bytes counts, bi_payload_bytes = sc_payload_bytes counts,
           bi_files = sc_files counts\<rparr>))))"

section \<open>Inspecting what is stored\<close>

primrec decrypted ::
    "'w store_ports \<Rightarrow> nat \<Rightarrow> string \<Rightarrow> cipher_run \<Rightarrow> nat \<times> string
      \<Rightarrow> ('w record_store, backup_error, cipher_counts option \<times> nat \<times> string) eff" where
  "decrypted ports maximum input (Cipher_Ends r) = (\<lambda>st. give (r, st))"
| "decrypted ports maximum input (Cipher_Reads n k) = (\<lambda>(position, staging).
     let bytes = take n (drop position input)
     in decrypted ports maximum input (k (Some bytes)) (position + length bytes, staging))"
| "decrypted ports maximum input (Cipher_Writes bytes k) = (\<lambda>(position, staging).
     seq (caught (checked ports)) (\<lambda>r. case r of
         Inl _ \<Rightarrow> decrypted ports maximum input (k None) (position, staging)
       | Inr _ \<Rightarrow> (case memory_put maximum staging bytes of
             None \<Rightarrow> decrypted ports maximum input (k None) (position, staging)
           | Some staging \<Rightarrow> decrypted ports maximum input (k (Some (length bytes))) (position, staging))))"
| "decrypted ports maximum input (Cipher_Flushes k) = (\<lambda>st.
     seq (caught (checked ports)) (\<lambda>r. decrypted ports maximum input (k (is_ok r)) st))"

primrec inspect_chunks ::
    "('w, 'd) backup_ports \<Rightarrow> string list \<Rightarrow> 'd check_validator
      \<Rightarrow> ('w record_store, backup_error, 'd check_validator) eff" where
  "inspect_chunks bp [] v = give v"
| "inspect_chunks bp (c # cs) v =
     seq (attempt (\<lambda>_. BE_Integrity) (checked (bp_store bp))) (\<lambda>_.
     case validator_feed (bp_inflater bp) c v of (ok, v) \<Rightarrow>
       seq (refuse (\<not> ok) BE_Integrity) (\<lambda>_.
       seq (attempt (\<lambda>_. BE_Integrity) (checked (bp_store bp))) (\<lambda>_.
       inspect_chunks bp cs v)))"

definition inspected ::
    "('w, 'd) backup_ports \<Rightarrow> 'd check_validator \<Rightarrow> ('w record_store, backup_error, check_counts) eff" where
  "inspected bp v =
     seq (attempt (\<lambda>_. BE_Integrity) (checked (bp_store bp))) (\<lambda>_.
     seq (returned (ok_or BE_Integrity (validator_finish v))) (\<lambda>counts.
     seq (attempt (\<lambda>_. BE_Integrity) (checked (bp_store bp))) (\<lambda>_.
     give counts)))"

definition restore_inspect ::
    "('w, 'd) backup_ports \<Rightarrow> authenticator \<Rightarrow> artifact_binding \<Rightarrow> cipher_run
      \<Rightarrow> ('w record_store, backup_error, backup_inspection) eff" where
  "restore_inspect bp auth binding decryptor =
     seq (checked (bp_store bp)) (\<lambda>_.
     seq (authenticated_bytes (bp_store bp) auth binding) (\<lambda>ciphertext.
     seq (decrypted (bp_store bp) (binding_source_bytes binding) ciphertext decryptor (0, [])) (\<lambda>(r, position, staging).
     seq (returned (ok_or BE_Integrity r)) (\<lambda>report.
     seq (checked (bp_store bp)) (\<lambda>_.
     seq (refuse (position \<noteq> length ciphertext \<or> ci_input_bytes report \<noteq> length ciphertext
         \<or> ci_output_bytes report \<noteq> binding_source_bytes binding
         \<or> length staging \<noteq> binding_source_bytes binding) BE_Integrity) (\<lambda>_.
     seq (check_new (bp_store bp) binding) (\<lambda>check.
     seq (inspect_chunks bp (chunks staging) check) (\<lambda>check.
     seq (inspected bp check) (\<lambda>counts.
     seq (checked (bp_store bp)) (\<lambda>_.
     give \<lparr>bi_source_bytes = cc_source_bytes counts, bi_payload_bytes = cc_payload_bytes counts,
           bi_files = cc_files counts\<rparr>))))))))))"

end
