(* ===== verification/SealProofs.thy ===== *)
theory SealProofs
  imports Sealing
begin

text \<open>
  What a sealing guarantees, over the recorded events: what the cipher saw was checked first,
  what is published was counted, flushed and finished, and the reported outcome names what
  was left on the stage and on the device.
\<close>

section \<open>What the events say\<close>

fun fed_by :: "seal_event \<Rightarrow> string" where
  "fed_by (SE_Feed bytes ok) = (if ok then bytes else [])"
| "fed_by _ = []"

fun delivered_by :: "seal_event \<Rightarrow> string" where
  "delivered_by (SE_Deliver bytes) = bytes"
| "delivered_by _ = []"

fun written_by :: "seal_event \<Rightarrow> nat" where
  "written_by (SE_Write _ (Some n)) = n"
| "written_by _ = 0"

definition fed :: "seal_event list \<Rightarrow> string" where "fed es = concat (map fed_by es)"
definition delivered :: "seal_event list \<Rightarrow> string" where "delivered es = concat (map delivered_by es)"
definition written :: "seal_event list \<Rightarrow> nat" where "written es = sum_list (map written_by es)"

text \<open>No byte reaches the cipher before the checker accepted it, in the same order.\<close>

definition vetted :: "seal_event list \<Rightarrow> bool" where
  "vetted es \<longleftrightarrow> (\<forall>k. prefix (delivered (take k es)) (fed (take k es)))"

fun streams :: "seal_event \<Rightarrow> bool" where
  "streams (SE_Publish _ _) = False"
| "streams (SE_Cancel _) = False"
| "streams (SE_Abort _) = False"
| "streams (SE_Finish _) = False"
| "streams (SE_Complete _) = False"
| "streams _ = True"

lemma event_sums [simp]:
  "fed [] = []" "fed (es @ [e]) = fed es @ fed_by e"
  "delivered [] = []" "delivered (es @ [e]) = delivered es @ delivered_by e"
  "written [] = 0" "written (es @ [e]) = written es + written_by e"
  by (simp_all add: fed_def delivered_def written_def)

lemma ticks_silent [simp]:
  "fed (es @ map SE_Now ts) = fed es" "delivered (es @ map SE_Now ts) = delivered es"
  "written (es @ map SE_Now ts) = written es" "list_all streams (map SE_Now ts)"
  by (induction ts rule: rev_induct) (simp_all flip: append_assoc add: fed_def delivered_def written_def)

lemma vetted_Nil [simp]: "vetted []"
  by (simp add: vetted_def)

lemma vetted_snoc [simp]:
  "vetted (es @ [e]) \<longleftrightarrow> vetted es \<and> prefix (delivered es @ delivered_by e) (fed es @ fed_by e)"
proof
  assume v: "vetted (es @ [e])"
  have "prefix (delivered (take k es)) (fed (take k es))" for k
    using v [unfolded vetted_def, rule_format, of "min k (length es)"] by (simp add: min_def split: if_splits)
  moreover have "prefix (delivered (es @ [e])) (fed (es @ [e]))"
    using v [unfolded vetted_def, rule_format, of "Suc (length es)"] by simp
  ultimately show "vetted es \<and> prefix (delivered es @ delivered_by e) (fed es @ fed_by e)"
    by (simp add: vetted_def)
next
  assume "vetted es \<and> prefix (delivered es @ delivered_by e) (fed es @ fed_by e)"
  then have v: "vetted es" and p: "prefix (delivered (es @ [e])) (fed (es @ [e]))" by simp_all
  have "prefix (delivered (take k (es @ [e]))) (fed (take k (es @ [e])))" for k
    using v p by (cases "k \<le> length es") (simp_all add: vetted_def)
  then show "vetted (es @ [e])" by (simp add: vetted_def)
qed

lemma vetted_now: "vetted es \<Longrightarrow> prefix (delivered es) (fed es)"
  unfolding vetted_def by (metis order_refl take_all)

lemma vetted_ticks [simp]: "vetted (es @ map SE_Now ts) \<longleftrightarrow> vetted es"
proof (induction ts rule: rev_induct)
  case (snoc t ts)
  then show ?case using vetted_now [of "es @ map SE_Now ts"] by (auto simp flip: append_assoc)
qed simp

section \<open>Ticks of the clock\<close>

text \<open>The budget changes nothing but the world, the clock readings and the latched error.\<close>

definition ticked :: "'w seal_state \<Rightarrow> 'w seal_state \<Rightarrow> bool" where
  "ticked s s' \<longleftrightarrow> (\<exists>w ts last err. s' = s\<lparr>env := w, events := events s @ map SE_Now ts, b_last := last, b_error := err\<rparr>
     \<and> (b_error s \<noteq> None \<longrightarrow> err \<noteq> None))"

definition steady :: "('w seal_state \<Rightarrow> bool) \<Rightarrow> bool" where
  "steady I \<longleftrightarrow> (\<forall>s s'. ticked s s' \<longrightarrow> I s \<longrightarrow> I s')"

lemma steadyI:
  assumes "\<And>s w ts last err. I s \<Longrightarrow> (b_error s \<noteq> None \<Longrightarrow> err \<noteq> None)
    \<Longrightarrow> I (s\<lparr>env := w, events := events s @ map SE_Now ts, b_last := last, b_error := err\<rparr>)"
  shows "steady I"
  using assms by (fastforce simp: steady_def ticked_def)

lemma tickedI:
  "s' = s\<lparr>env := env s', events := events s @ map SE_Now ts, b_last := b_last s', b_error := b_error s'\<rparr>
     \<Longrightarrow> (b_error s \<noteq> None \<Longrightarrow> b_error s' \<noteq> None) \<Longrightarrow> ticked s s'"
  unfolding ticked_def by blast

lemma budget_fail_ticks: "budget_fail e s = (r, s') \<Longrightarrow> ticked s s' \<and> b_error s' \<noteq> None \<and> (\<exists>e. r = Inl e)"
  by (cases s) (auto simp: budget_fail_def Let_def intro: tickedI [of _ _ "[]"])

lemma budget_check_ticks:
  assumes "budget_check ports s = (r, s')"
  shows "ticked s s' \<and> (case r of Inr _ \<Rightarrow> b_error s' = None | Inl _ \<Rightarrow> b_error s' \<noteq> None)"
proof (cases "b_error s")
  case None
  obtain now w where "sp_now_ms ports (env s) = (now, w)" by (cases "sp_now_ms ports (env s)")
  with assms None show ?thesis
    by (cases s) (auto simp: budget_check_def eff_defs asks_def budget_fail_def Let_def split: if_splits
        intro: tickedI [of _ _ "[now]"])
next
  case (Some e)
  with assms show ?thesis
    by (cases s) (auto simp: budget_check_def eff_defs intro: tickedI [of _ _ "[]"])
qed

lemma meets_fail: "steady I \<Longrightarrow> meets I (budget_fail e) Q (\<lambda>_ s. I s \<and> b_error s \<noteq> None)"
  unfolding meets_def steady_def by (auto split: prod.splits sum.splits dest!: budget_fail_ticks)

lemma meets_check:
  "steady I \<Longrightarrow> meets I (budget_check ports) (\<lambda>_ s. I s \<and> b_error s = None) (\<lambda>_ s. I s \<and> b_error s \<noteq> None)"
  unfolding meets_def steady_def by (fastforce split: prod.splits sum.splits dest!: budget_check_ticks)

lemma meets_after:
  assumes "steady I"
  shows "meets I (budget_after ports r) (\<lambda>v s. I s \<and> b_error s = None \<and> r = Inr v) (\<lambda>_ s. I s \<and> b_error s \<noteq> None)"
proof (cases r)
  case (Inl e)
  then show ?thesis using meets_fail [OF assms] by (simp add: budget_after_def)
next
  case (Inr v)
  show ?thesis unfolding budget_after_def Inr sum.case
    by (rule meets_seq [OF meets_check [OF assms]], rule meets_pre [OF meets_give], simp)
qed

lemma meets_asks:
  "meets (\<lambda>s. \<forall>r w. Q r (s\<lparr>env := w, events := events s @ [ev r]\<rparr>)) (asks port ev) Q E"
  by (simp add: meets_def asks_def split: prod.splits)

section \<open>The streams\<close>

definition fresh_guard :: "'w seal_state \<Rightarrow> bool" where
  "fresh_guard s \<longleftrightarrow> \<not> source_complete s \<and> \<not> source_cancelled s \<and> \<not> stage_aborted s
     \<and> g_publication s = Pub_NotAttempted \<and> g_source_cleanup s = Clean_NotRequired
     \<and> g_stage_cleanup s = Clean_NotRequired"

text \<open>
  Between the calls of the cipher nothing is under way; within one, \<open>bytes\<close> may be accepted by
  the checker and not delivered yet, and \<open>n\<close> bytes be written and not counted. A latched error
  ends the accounting, never the vetting.
\<close>

definition under_way :: "seal_limits \<Rightarrow> string \<Rightarrow> nat \<Rightarrow> 'w seal_state \<Rightarrow> bool" where
  "under_way lim bytes n s \<longleftrightarrow>
     vetted (events s) \<and> length (delivered (events s)) = r_count s \<and> r_count s \<le> sl_source_bytes lim
     \<and> w_count s \<le> sl_ciphertext_bytes lim
     \<and> (b_error s = None \<longrightarrow> fed (events s) = delivered (events s) @ bytes \<and> written (events s) = w_count s + n)
     \<and> (r_eof s \<longrightarrow> (\<exists>m buffer. SE_Read m (Some (0, buffer)) \<in> set (events s)))
     \<and> list_all streams (events s) \<and> fresh_guard s"

abbreviation streaming :: "seal_limits \<Rightarrow> 'w seal_state \<Rightarrow> bool" where
  "streaming lim \<equiv> under_way lim [] 0"

lemma steady_under_way: "steady (under_way lim bytes n)"
  by (rule steadyI) (auto simp: under_way_def fresh_guard_def)

lemma steady_conj: "steady P \<Longrightarrow> steady Q \<Longrightarrow> steady (\<lambda>s. P s \<and> Q s)"
  by (simp add: steady_def)

lemma steady_counts [simp]:
  "steady (\<lambda>s. P (r_count s) (w_count s) (r_eof s))" "steady (\<lambda>s. e \<in> set (events s))"
  "steady (\<lambda>s. b)"
  by (auto intro!: steadyI)

lemma under_way_failed: "under_way lim bytes n s \<Longrightarrow> b_error s \<noteq> None \<Longrightarrow> streaming lim s"
  by (auto simp: under_way_def)

text \<open>A failure latches an error and ends in a state between calls.\<close>

lemma meets_failed:
  assumes "\<And>s. P s \<Longrightarrow> \<exists>bytes n. under_way lim bytes n s"
  shows "meets P (budget_fail e) Q (\<lambda>_. streaming lim)"
  unfolding meets_def
proof (intro allI impI)
  fix s assume "P s"
  then obtain bytes n where "under_way lim bytes n s" using assms by blast
  then have "streaming lim s'" if "ticked s s'" "b_error s' \<noteq> None" for s'
    using that steady_under_way under_way_failed unfolding steady_def by blast
  then show "case budget_fail e s of (Inr x, s') \<Rightarrow> Q x s' | (Inl e, s') \<Rightarrow> streaming lim s'"
    by (auto split: prod.splits sum.splits dest!: budget_fail_ticks)
qed

lemma meets_checked:
  assumes "steady I" and "\<And>s. I s \<Longrightarrow> \<exists>bytes n. under_way lim bytes n s"
  shows "meets I (budget_after ports r) (\<lambda>v s. I s \<and> b_error s = None \<and> r = Inr v) (\<lambda>_. streaming lim)"
  by (rule meets_weaken [OF meets_after [OF assms(1)]]) (use assms(2) under_way_failed in blast)+

lemma vet_chunk_meets:
  "meets (\<lambda>s. streaming lim s \<and> b_error s = None \<and> grown = r_count s + length bytes \<and> grown \<le> sl_source_bytes lim)
     (vet_chunk ports grown bytes) (\<lambda>_. streaming lim) (\<lambda>_. streaming lim)"
proof -
  let ?R = "\<lambda>ok s. under_way lim (if ok then bytes else []) 0 s \<and> grown = r_count s + length bytes
    \<and> grown \<le> sl_source_bytes lim"
  have fed: "meets (\<lambda>s. streaming lim s \<and> b_error s = None \<and> grown = r_count s + length bytes \<and> grown \<le> sl_source_bytes lim)
      (asks (sp_feed ports bytes) (SE_Feed bytes)) ?R (\<lambda>_. streaming lim)"
    by (rule meets_pre [OF meets_asks]) (auto simp: under_way_def fresh_guard_def prefix_def)
  have steady: "steady (?R ok)" for ok
    by (intro steady_conj steady_under_way steady_counts(3)) (rule steadyI, simp)
  have checked: "meets (?R ok) (budget_after ports (ensure ok SF_Check))
      (\<lambda>v s. ?R ok s \<and> b_error s = None \<and> ensure ok SF_Check = Inr v) (\<lambda>_. streaming lim)" for ok
    by (rule meets_checked [OF steady]) blast
  show ?thesis
    unfolding vet_chunk_def
    by (rule meets_seq [OF fed], rule meets_seq [OF checked])
      (auto simp: meets_def eff_defs ensure_def under_way_def fresh_guard_def)
qed

lemma take_chunk_meets:
  "meets (\<lambda>s. streaming lim s \<and> b_error s = None \<and> r_count s + got \<le> sl_source_bytes lim \<and> got \<le> room
       \<and> (\<exists>m. SE_Read m (Some (got, buffer)) \<in> set (events s)))
     (take_chunk ports room got buffer) (\<lambda>_. streaming lim) (\<lambda>_. streaming lim)"
proof (cases "got = 0")
  case True
  then show ?thesis
    by (auto simp: take_chunk_def meets_def eff_defs under_way_def fresh_guard_def)
next
  case False
  let ?P = "\<lambda>s. streaming lim s \<and> b_error s = None \<and> r_count s + got \<le> sl_source_bytes lim \<and> got \<le> room"
  let ?R = "\<lambda>grown s. ?P s \<and> grown = checked_add (r_count s) got"
  let ?bytes = "take got (take room (buffer @ replicate room NUL))"
  have "meets (?R None) (budget_fail SF_SourceLimit) (\<lambda>_. streaming lim) (\<lambda>_. streaming lim)"
    by (rule meets_failed) blast
  moreover have "meets (?R (Some grown)) (vet_chunk ports grown ?bytes) (\<lambda>_. streaming lim) (\<lambda>_. streaming lim)" for grown
    by (rule meets_pre [OF vet_chunk_meets]) (auto simp: checked_add_def split: if_splits)
  ultimately have rest: "meets (?R grown) (case grown of None \<Rightarrow> budget_fail SF_SourceLimit
      | Some grown \<Rightarrow> vet_chunk ports grown ?bytes) (\<lambda>_. streaming lim) (\<lambda>_. streaming lim)" for grown
    by (cases grown) simp_all
  show ?thesis
    unfolding take_chunk_def if_not_P [OF False]
    by (rule meets_seq [OF meets_pre [OF meets_get [of ?R]] rest]) simp
qed

lemma read_chunk_meets:
  "meets (\<lambda>s. streaming lim s \<and> b_error s = None \<and> r_count s + room \<le> sl_source_bytes lim)
     (read_chunk ports room) (\<lambda>_. streaming lim) (\<lambda>_. streaming lim)"
proof -
  let ?R = "\<lambda>r s. streaming lim s \<and> r_count s + room \<le> sl_source_bytes lim
    \<and> SE_Read room r \<in> set (events s)"
  let ?T = "\<lambda>r result s. streaming lim s \<and> (\<forall>v. result = Inr v \<longrightarrow> r = Some v \<and> ?R r s \<and> b_error s = None)"
  have read: "meets (\<lambda>s. streaming lim s \<and> b_error s = None \<and> r_count s + room \<le> sl_source_bytes lim)
      (asks (sp_read ports room) (SE_Read room)) ?R (\<lambda>_. streaming lim)"
    by (rule meets_pre [OF meets_asks]) (auto simp: under_way_def fresh_guard_def vetted_now)
  have "steady (?R r)" for r
    by (intro steady_conj steady_under_way steady_counts(2)) (rule steadyI, simp)
  then have checked: "meets (?R r) (budget_after ports (ok_or SF_SourceRead r))
      (\<lambda>v s. ?R r s \<and> b_error s = None \<and> ok_or SF_SourceRead r = Inr v) (\<lambda>_. streaming lim)" for r
    by (rule meets_checked) blast
  have caught: "meets (?R r) (caught (budget_after ports (ok_or SF_SourceRead r))) (?T r) (\<lambda>_. streaming lim)" for r
    by (rule meets_caught, rule meets_weaken [OF checked]) (cases r; auto)+
  have rest: "meets (?T r result) (case result of
        Inr (got, buffer) \<Rightarrow> if got \<le> room then take_chunk ports room got buffer else budget_fail SF_InvalidIoCount
      | Inl e \<Rightarrow> budget_fail e) (\<lambda>_. streaming lim) (\<lambda>_. streaming lim)" for r result
  proof (cases result)
    case (Inr v)
    obtain got buffer where v: "v = (got, buffer)" by (cases v)
    show ?thesis unfolding Inr v sum.case prod.case
      by (rule meets_if, rule meets_pre [OF take_chunk_meets], force, rule meets_failed, blast)
  next
    case (Inl e)
    show ?thesis unfolding Inl sum.case by (rule meets_failed) blast
  qed
  show ?thesis
    unfolding read_chunk_def by (rule meets_seq [OF read meets_seq [OF caught rest]])
qed

lemma probe_end_meets: "meets (streaming lim) (probe_end ports) (\<lambda>_. streaming lim) (\<lambda>_. streaming lim)"
proof -
  let ?R = "\<lambda>r s. streaming lim s \<and> SE_Read 1 r \<in> set (events s)"
  have read: "meets (streaming lim) (asks (sp_read ports 1) (SE_Read 1)) ?R (\<lambda>_. streaming lim)"
    by (rule meets_pre [OF meets_asks]) (auto simp: under_way_def fresh_guard_def vetted_now)
  have "steady (?R r)" for r by (intro steady_conj steady_under_way steady_counts(2))
  then have checked: "meets (?R r) (budget_after ports (ok_or SF_SourceRead r))
      (\<lambda>v s. ?R r s \<and> b_error s = None \<and> ok_or SF_SourceRead r = Inr v) (\<lambda>_. streaming lim)" for r
    by (rule meets_checked) blast
  have rest: "meets (\<lambda>s. ?R r s \<and> b_error s = None \<and> ok_or SF_SourceRead r = Inr v) (case v of (got, x) \<Rightarrow>
      if got > 1 then budget_fail SF_InvalidIoCount else if got \<noteq> 0 then budget_fail SF_SourceLimit
      else seq (change (\<lambda>s. s\<lparr>r_eof := True\<rparr>)) (\<lambda>_. give [])) (\<lambda>_. streaming lim) (\<lambda>_. streaming lim)" for r v
  proof (cases v)
    case (Pair got x)
    show ?thesis unfolding Pair prod.case
    proof (intro meets_if)
      assume "\<not> got \<noteq> 0"
      then show "meets (\<lambda>s. ?R r s \<and> b_error s = None \<and> ok_or SF_SourceRead r = Inr (got, x))
          (seq (change (\<lambda>s. s\<lparr>r_eof := True\<rparr>)) (\<lambda>_. give [])) (\<lambda>_. streaming lim) (\<lambda>_. streaming lim)"
        by (cases r) (auto simp: meets_def eff_defs under_way_def fresh_guard_def)
    qed (rule meets_failed, blast)+
  qed
  show ?thesis unfolding probe_end_def by (rule meets_seq [OF read meets_seq [OF checked rest]])
qed

lemma checked_read_meets:
  "meets (streaming lim) (checked_read ports (sl_source_bytes lim) n) (\<lambda>_. streaming lim) (\<lambda>_. streaming lim)"
proof -
  have check: "meets (streaming lim) (budget_check ports) (\<lambda>_ s. streaming lim s \<and> b_error s = None) (\<lambda>_. streaming lim)"
    by (rule meets_weaken [OF meets_check [OF steady_under_way]]) auto
  let ?R = "\<lambda>v s. streaming lim s \<and> b_error s = None \<and> v = (r_eof s, r_count s)"
  have rest: "meets (?R v) (case v of (eof, got) \<Rightarrow> if n = 0 \<or> eof then give []
      else if got = sl_source_bytes lim then probe_end ports
      else read_chunk ports (min (min n seal_chunk) (sl_source_bytes lim - got)))
      (\<lambda>_. streaming lim) (\<lambda>_. streaming lim)" for v
  proof (cases v)
    case (Pair eof got)
    show ?thesis unfolding Pair prod.case
    proof (intro meets_if)
      show "meets (?R (eof, got)) (give []) (\<lambda>_. streaming lim) (\<lambda>_. streaming lim)"
        by (rule meets_pre [OF meets_give]) simp
      show "meets (?R (eof, got)) (probe_end ports) (\<lambda>_. streaming lim) (\<lambda>_. streaming lim)"
        by (rule meets_pre [OF probe_end_meets]) simp
      show "meets (?R (eof, got)) (read_chunk ports (min (min n seal_chunk) (sl_source_bytes lim - got)))
          (\<lambda>_. streaming lim) (\<lambda>_. streaming lim)"
        by (rule meets_pre [OF read_chunk_meets]) (auto simp: under_way_def)
    qed
  qed
  show ?thesis
    unfolding checked_read_def
    by (rule meets_seq [OF check meets_seq [OF meets_pre [OF meets_get [of ?R]] rest]]) simp
qed

lemma counted_write_meets:
  "meets (streaming lim) (counted_write ports (sl_ciphertext_bytes lim) input) (\<lambda>_. streaming lim) (\<lambda>_. streaming lim)"
proof -
  have check: "meets (streaming lim) (budget_check ports) (\<lambda>_ s. streaming lim s \<and> b_error s = None) (\<lambda>_. streaming lim)"
    by (rule meets_weaken [OF meets_check [OF steady_under_way]]) auto
  let ?P = "\<lambda>so_far s. streaming lim s \<and> b_error s = None \<and> so_far = w_count s"
  let ?room = "\<lambda>so_far. min (min (length input) seal_chunk) (sl_ciphertext_bytes lim - so_far)"
  let ?R = "\<lambda>so_far r s. under_way lim [] (case r of None \<Rightarrow> 0 | Some n \<Rightarrow> n) s \<and> so_far = w_count s"
  have wrote: "meets (?P so_far) (asks (sp_write ports part) (SE_Write part)) (?R so_far) (\<lambda>_. streaming lim)" for so_far part
    by (rule meets_pre [OF meets_asks]) (auto simp: under_way_def fresh_guard_def vetted_now split: option.split)
  have "steady (?R so_far r)" for so_far r
    by (intro steady_conj steady_under_way) (rule steadyI, simp)
  then have checked: "meets (?R so_far r) (budget_after ports (ok_or SF_StageWrite r))
      (\<lambda>v s. ?R so_far r s \<and> b_error s = None \<and> ok_or SF_StageWrite r = Inr v) (\<lambda>_. streaming lim)" for so_far r
    by (rule meets_checked) blast
  have rest: "meets (\<lambda>s. ?R so_far r s \<and> b_error s = None \<and> ok_or SF_StageWrite r = Inr got)
      (if got > ?room so_far then budget_fail SF_InvalidIoCount else if got = 0 then budget_fail SF_ZeroWrite
       else (case checked_add so_far got of None \<Rightarrow> budget_fail SF_CiphertextLimit
         | Some grown \<Rightarrow> seq (change (\<lambda>s. s\<lparr>w_count := grown\<rparr>)) (\<lambda>_. give got)))
      (\<lambda>_. streaming lim) (\<lambda>_. streaming lim)" for so_far r got
  proof (intro meets_if)
    assume "\<not> ?room so_far < got" "got \<noteq> 0"
    then have some: "meets (\<lambda>s. ?R so_far r s \<and> b_error s = None \<and> ok_or SF_StageWrite r = Inr got)
        (seq (change (\<lambda>s. s\<lparr>w_count := so_far + got\<rparr>)) (\<lambda>_. give got)) (\<lambda>_. streaming lim) (\<lambda>_. streaming lim)"
      by (cases r) (auto simp: meets_def eff_defs under_way_def fresh_guard_def)
    show "meets (\<lambda>s. ?R so_far r s \<and> b_error s = None \<and> ok_or SF_StageWrite r = Inr got)
        (case checked_add so_far got of None \<Rightarrow> budget_fail SF_CiphertextLimit
         | Some grown \<Rightarrow> seq (change (\<lambda>s. s\<lparr>w_count := grown\<rparr>)) (\<lambda>_. give got))
        (\<lambda>_. streaming lim) (\<lambda>_. streaming lim)"
    proof (cases "checked_add so_far got")
      case None
      show ?thesis unfolding None option.case by (rule meets_failed) blast
    next
      case (Some grown)
      then show ?thesis using some by (simp add: checked_add_def split: if_splits)
    qed
  qed (rule meets_failed, blast)+
  have writing: "meets (?P so_far) (if so_far = sl_ciphertext_bytes lim then budget_fail SF_CiphertextLimit
       else let room = ?room so_far; part = take room input in
         seq (asks (sp_write ports part) (SE_Write part)) (\<lambda>r.
         seq (budget_after ports (ok_or SF_StageWrite r)) (\<lambda>got.
         if got > room then budget_fail SF_InvalidIoCount
         else if got = 0 then budget_fail SF_ZeroWrite
         else (case checked_add so_far got of
             None \<Rightarrow> budget_fail SF_CiphertextLimit
           | Some grown \<Rightarrow> seq (change (\<lambda>s. s\<lparr>w_count := grown\<rparr>)) (\<lambda>_. give got)))))
      (\<lambda>_. streaming lim) (\<lambda>_. streaming lim)" for so_far
    unfolding Let_def
    by (rule meets_if, rule meets_failed, blast, rule meets_seq [OF wrote meets_seq [OF checked rest]])
  show ?thesis
    unfolding counted_write_def
    by (rule meets_seq [OF check], rule meets_if, rule meets_pre [OF meets_give], simp,
        rule meets_seq [OF meets_pre [OF meets_get [of ?P]] writing]) simp
qed

lemma counted_flush_meets: "meets (streaming lim) (counted_flush ports) (\<lambda>_. streaming lim) (\<lambda>_. streaming lim)"
proof -
  have check: "meets (streaming lim) (budget_check ports) (\<lambda>_ s. streaming lim s) (\<lambda>_. streaming lim)"
    by (rule meets_weaken [OF meets_check [OF steady_under_way]]) auto
  have flush: "meets (streaming lim) (asks (sp_flush ports) SE_Flush) (\<lambda>_. streaming lim) (\<lambda>_. streaming lim)"
    by (rule meets_pre [OF meets_asks]) (auto simp: under_way_def fresh_guard_def vetted_now)
  have after: "meets (streaming lim) (budget_after ports r) (\<lambda>_. streaming lim) (\<lambda>_. streaming lim)" for r
    by (rule meets_weaken [OF meets_checked [OF steady_under_way]]) auto
  show ?thesis unfolding counted_flush_def by (rule meets_seq [OF check meets_seq [OF flush after]])
qed

lemma encrypt_meets: "meets (streaming lim) (encrypt ports lim cipher) (\<lambda>_. streaming lim) (\<lambda>_. streaming lim)"
proof (induction cipher)
  case (Cipher_Ends r)
  show ?case by (simp add: meets_def give_def)
next
  case (Cipher_Reads n k)
  then show ?case
    by (auto intro!: meets_seq [OF meets_caught [where Q = "\<lambda>_. streaming lim", OF checked_read_meets]])
next
  case (Cipher_Writes bytes k)
  then show ?case
    by (auto intro!: meets_seq [OF meets_caught [where Q = "\<lambda>_. streaming lim", OF counted_write_meets]])
next
  case (Cipher_Flushes k)
  then show ?case
    by (auto intro!: meets_seq [OF meets_caught [where Q = "\<lambda>_. streaming lim", OF counted_flush_meets]])
qed

section \<open>The workflow\<close>

fun quiet :: "seal_event \<Rightarrow> bool" where
  "quiet (SE_Publish _ _) = False"
| "quiet (SE_Cancel _) = False"
| "quiet (SE_Abort _) = False"
| "quiet _ = True"

lemma streams_quiet: "streams e \<Longrightarrow> quiet e" by (cases e) simp_all

lemma ticks_quiet [simp]: "list_all quiet (map SE_Now ts)" by (induction ts) simp_all

text \<open>Nothing was published, cancelled or aborted yet, and the guard knows of a completion.\<close>

definition pending :: "'w seal_state \<Rightarrow> bool" where
  "pending s \<longleftrightarrow> vetted (events s) \<and> list_all quiet (events s)
     \<and> (source_complete s \<longleftrightarrow> (\<exists>n. SE_Complete (Some n) \<in> set (events s)))
     \<and> \<not> source_cancelled s \<and> \<not> stage_aborted s \<and> g_publication s = Pub_NotAttempted
     \<and> g_source_cleanup s = Clean_NotRequired \<and> g_stage_cleanup s = Clean_NotRequired"

lemma steady_pending: "steady pending"
  by (rule steadyI) (auto simp: pending_def)

lemma streaming_pending:
  assumes "under_way lim bytes n s"
  shows "pending s \<and> (\<forall>r. SE_Complete r \<notin> set (events s))"
proof -
  have "list_all quiet (events s)" "SE_Complete r \<notin> set (events s)" for r
    using assms streams_quiet by (auto simp: under_way_def list_all_iff)
  with assms show ?thesis by (auto simp: pending_def under_way_def fresh_guard_def)
qed

text \<open>What the streams amounted to when the cipher ended well.\<close>

definition accounted :: "seal_limits \<Rightarrow> nat \<Rightarrow> nat \<Rightarrow> seal_event list \<Rightarrow> bool" where
  "accounted lim input output es \<longleftrightarrow>
     delivered es = fed es \<and> length (fed es) = input \<and> 0 < input \<and> input \<le> sl_source_bytes lim
     \<and> written es = output \<and> 0 < output \<and> output \<le> sl_ciphertext_bytes lim
     \<and> (\<exists>m buffer. SE_Read m (Some (0, buffer)) \<in> set es)"

definition summed :: "nat \<Rightarrow> check_counts \<Rightarrow> seal_event list \<Rightarrow> bool" where
  "summed input summary es \<longleftrightarrow>
     SE_Finish (Some summary) \<in> set es \<and> check_counts_validate summary input = Ok ()"

definition flushed_last :: "seal_event list \<Rightarrow> bool" where
  "flushed_last es \<longleftrightarrow> (\<exists>before ts. es = before @ SE_Flush True # map SE_Now ts)"

lemma accounted_ticks [simp]: "accounted lim i out (es @ map SE_Now ts) \<longleftrightarrow> accounted lim i out es"
  by (auto simp: accounted_def)

lemma accounted_snoc [simp]:
  "accounted lim i out (es @ [SE_Finish r]) \<longleftrightarrow> accounted lim i out es"
  "accounted lim i out (es @ [SE_Complete c]) \<longleftrightarrow> accounted lim i out es"
  "accounted lim i out (es @ [SE_Flush b]) \<longleftrightarrow> accounted lim i out es"
  by (auto simp: accounted_def)

lemma summed_append [simp]: "summed i sm es \<Longrightarrow> summed i sm (es @ es')"
  by (auto simp: summed_def)

lemma flushed_last_ticks [simp]: "flushed_last es \<Longrightarrow> flushed_last (es @ map SE_Now ts)"
  unfolding flushed_last_def by (metis append.assoc append_Cons map_append)

lemma meets_pending:
  assumes "steady I" and "\<And>s. I s \<Longrightarrow> pending s"
  shows "meets I (budget_check ports) (\<lambda>_. I) (\<lambda>_. pending)"
    and "meets I (budget_after ports r) (\<lambda>v s. I s \<and> r = Inr v) (\<lambda>_. pending)"
  by (rule meets_weaken [OF meets_check [OF assms(1)]]; use assms(2) in blast)
    (rule meets_weaken [OF meets_after [OF assms(1)]]; use assms(2) in blast)

lemma meets_refused:
  assumes "\<And>s. I s \<Longrightarrow> pending s"
  shows "meets I (refuse b e) (\<lambda>_ s. I s \<and> \<not> b) (\<lambda>_. pending)"
  by (rule meets_pre [OF meets_refuse]) (use assms in auto)

lemma supported_meets: "meets (streaming lim) (supported ports) (\<lambda>_. streaming lim) (\<lambda>_. pending)"
proof -
  have up: "\<And>s. streaming lim s \<Longrightarrow> pending s" using streaming_pending by blast
  note check = meets_pending(1) [OF steady_under_way up]
  have caps: "meets (streaming lim) (asks (sp_capabilities ports) SE_Capabilities) (\<lambda>_. streaming lim) (\<lambda>_. pending)"
    by (rule meets_pre [OF meets_asks]) (auto simp: under_way_def fresh_guard_def vetted_now)
  have refused: "meets (streaming lim) (refuse b e) (\<lambda>_. streaming lim) (\<lambda>_. pending)" for b e
    by (rule meets_weaken [OF meets_refused [where I = "streaming lim"]]) (use up in auto)
  show ?thesis unfolding supported_def
    by (rule meets_seq [OF check meets_seq [OF caps meets_seq [OF check meets_seq [OF refused check]]]])
qed

abbreviation sealed :: "seal_limits \<Rightarrow> nat \<Rightarrow> nat \<Rightarrow> 'w seal_state \<Rightarrow> bool" where
  "sealed lim input output s \<equiv> pending s \<and> accounted lim input output (events s)"

lemma encrypted_meets:
  "meets (streaming lim) (encrypted ports lim cipher)
     (\<lambda>(input, output) s. sealed lim input output s \<and> (\<forall>r. SE_Complete r \<notin> set (events s))) (\<lambda>_. pending)"
proof -
  have up: "\<And>s. streaming lim s \<Longrightarrow> pending s" using streaming_pending by blast
  have enc: "meets (streaming lim) (encrypt ports lim cipher) (\<lambda>_. streaming lim) (\<lambda>_. pending)"
    by (rule meets_weaken [OF encrypt_meets]) (use up in auto)
  have after: "meets (streaming lim) (budget_after ports r) (\<lambda>v s. streaming lim s \<and> b_error s = None) (\<lambda>_. pending)"
    for r :: "seal_failure + cipher_counts"
    by (rule meets_weaken [OF meets_after [OF steady_under_way]]) (use up in auto)
  let ?R = "\<lambda>v s. streaming lim s \<and> b_error s = None \<and> v = (r_eof s, r_count s, w_count s)"
  have rest: "meets (?R v) (case v of (eof, input, output) \<Rightarrow>
       seq (refuse (\<not> eof) SF_IncompleteInput) (\<lambda>_.
       seq (refuse (input = 0 \<or> output = 0) SF_EmptyStream) (\<lambda>_.
       seq (refuse (ci_input_bytes reported \<noteq> input \<or> ci_output_bytes reported \<noteq> output) SF_CountMismatch) (\<lambda>_.
       give (input, output)))))
     (\<lambda>(input, output) s. sealed lim input output s \<and> (\<forall>r. SE_Complete r \<notin> set (events s))) (\<lambda>_. pending)" for v reported
    using streaming_pending [of lim "[]" 0]
    by (cases v) (auto simp: meets_def eff_defs accounted_def under_way_def)
  show ?thesis unfolding encrypted_def
    by (rule meets_seq [OF enc meets_seq [OF after meets_seq [OF meets_pre [OF meets_get [of ?R]] rest]]]) simp
qed

text \<open>Facts about the events so far that the clock does not disturb.\<close>

definition lasting :: "(seal_event list \<Rightarrow> bool) \<Rightarrow> bool" where
  "lasting F \<longleftrightarrow> (\<forall>es ts. F es \<longrightarrow> F (es @ map SE_Now ts))"

lemma steady_events: "lasting F \<Longrightarrow> steady (\<lambda>s. pending s \<and> F (events s))"
  by (rule steady_conj [OF steady_pending]) (auto intro!: steadyI simp: lasting_def)

lemma lasting_facts:
  "lasting (\<lambda>es. accounted lim input output es \<and> (\<forall>r. SE_Complete r \<notin> set es))"
  "lasting (\<lambda>es. accounted lim input output es \<and> summed input sm es \<and> (\<forall>r. SE_Complete r \<notin> set es))"
  "lasting (\<lambda>es. accounted lim input output es \<and> summed input sm es \<and> SE_Complete (Some input) \<in> set es)"
  "lasting (\<lambda>es. accounted lim input output es \<and> summed input sm es \<and> SE_Complete (Some input) \<in> set es \<and> flushed_last es)"
  by (auto simp: lasting_def)

text \<open>A step of the workflow: check the budget, ask a port, check its answer.\<close>

lemma meets_port:
  assumes "lasting F" and "\<And>r. lasting (G r)"
    and "\<And>s r w. pending s \<Longrightarrow> F (events s) \<Longrightarrow> pending (mark r (s\<lparr>env := w, events := events s @ [ev r]\<rparr>))
      \<and> events (mark r (s\<lparr>env := w, events := events s @ [ev r]\<rparr>)) = events s @ [ev r] \<and> G r (events s @ [ev r])"
  shows "meets (\<lambda>s. pending s \<and> F (events s))
     (seq (budget_check ports) (\<lambda>_. seq (asks port ev) (\<lambda>r. seq (change (mark r)) (\<lambda>_. budget_after ports (f r)))))
     (\<lambda>v s. pending s \<and> (\<exists>r. f r = Inr v \<and> G r (events s))) (\<lambda>_. pending)"
proof -
  have check: "meets (\<lambda>s. pending s \<and> F (events s)) (budget_check ports) (\<lambda>_ s. pending s \<and> F (events s)) (\<lambda>_. pending)"
    by (rule meets_pending(1) [OF steady_events [OF assms(1)]]) simp
  have ask: "meets (\<lambda>s. pending s \<and> F (events s)) (asks port ev)
      (\<lambda>r s. pending (mark r s) \<and> G r (events (mark r s))) (\<lambda>_. pending)"
    by (rule meets_pre [OF meets_asks]) (use assms(3) in auto)
  have marked: "meets (\<lambda>s. pending (mark r s) \<and> G r (events (mark r s))) (change (mark r))
      (\<lambda>_ s. pending s \<and> G r (events s)) (\<lambda>_. pending)" for r
    by (rule meets_pre [OF meets_change]) simp
  have after: "meets (\<lambda>s. pending s \<and> G r (events s)) (budget_after ports (f r))
      (\<lambda>v s. pending s \<and> (\<exists>r. f r = Inr v \<and> G r (events s))) (\<lambda>_. pending)" for r
    by (rule meets_weaken [OF meets_pending(2) [OF steady_events [OF assms(2)]]]) auto
  show ?thesis by (rule meets_seq [OF check meets_seq [OF ask meets_seq [OF marked after]]])
qed

lemma unmarked: "m = seq (change (\<lambda>s. s)) (\<lambda>_. m)"
  by (simp add: eff_defs)

lemma seq_assoc: "seq (seq m f) g = seq m (\<lambda>x. seq (f x) g)"
  by (simp add: seq_def fun_eq_iff split: prod.splits sum.splits)

lemma meets_plain_port:
  fixes ports :: "'w seal_ports"
  assumes "lasting F" and "\<And>r. lasting (G r)"
    and "\<And>(s :: 'w seal_state) r w. pending s \<Longrightarrow> F (events s) \<Longrightarrow>
      pending (s\<lparr>env := w, events := events s @ [ev r]\<rparr>) \<and> G r (events s @ [ev r])"
  shows "meets (\<lambda>s. pending s \<and> F (events s))
     (seq (budget_check ports) (\<lambda>_. seq (asks port ev) (\<lambda>r. budget_after ports (f r))))
     (\<lambda>v s. pending s \<and> (\<exists>r. f r = Inr v \<and> G r (events s))) (\<lambda>_. pending)"
proof -
  have "meets (\<lambda>s. pending s \<and> F (events s))
     (seq (budget_check ports) (\<lambda>_. seq (asks port ev) (\<lambda>r. seq (change (\<lambda>s. s)) (\<lambda>_. budget_after ports (f r)))))
     (\<lambda>v s. pending s \<and> (\<exists>r. f r = Inr v \<and> G r (events s))) (\<lambda>_. pending)"
    by (rule meets_port [OF assms(1,2)]) (use assms(3) in simp)
  then show ?thesis by (simp flip: unmarked)
qed

lemma summarized_meets:
  "meets (\<lambda>s. sealed lim input output s \<and> (\<forall>r. SE_Complete r \<notin> set (events s))) (summarized ports input)
     (\<lambda>sm s. pending s \<and> accounted lim input output (events s) \<and> summed input sm (events s)
        \<and> (\<forall>r. SE_Complete r \<notin> set (events s)))
     (\<lambda>_. pending)"
proof -
  let ?F = "\<lambda>es. accounted lim input output es \<and> (\<forall>r. SE_Complete r \<notin> set es)"
  let ?G = "\<lambda>r es. ?F es \<and> SE_Finish r \<in> set es"
  have asked: "meets (\<lambda>s. pending s \<and> ?F (events s))
      (seq (budget_check ports) (\<lambda>_. seq (asks (sp_finish ports) SE_Finish) (\<lambda>r. budget_after ports (ok_or SF_Check r))))
      (\<lambda>sm s. pending s \<and> (\<exists>r. ok_or SF_Check r = Inr sm \<and> ?G r (events s))) (\<lambda>_. pending)"
    by (rule meets_plain_port) (auto simp: lasting_def pending_def intro: vetted_now summed_append)
  have rest: "meets (\<lambda>s. pending s \<and> (\<exists>r. ok_or SF_Check r = Inr sm \<and> ?G r (events s)))
      (seq (lift (check_counts_validate sm input)) (\<lambda>_. give sm))
      (\<lambda>sm s. pending s \<and> accounted lim input output (events s) \<and> summed input sm (events s)
        \<and> (\<forall>r. SE_Complete r \<notin> set (events s)))
      (\<lambda>_. pending)" for sm
    by (auto simp: meets_def lift_def eff_defs summed_def res_simps split: sum.splits)
  show ?thesis using meets_seq [OF asked rest] by (simp add: summarized_def seq_assoc)
qed

lemma completed_meets:
  "meets (\<lambda>s. pending s \<and> accounted lim input output (events s) \<and> summed input sm (events s)
       \<and> (\<forall>r. SE_Complete r \<notin> set (events s))) (completed ports input)
     (\<lambda>_ s. pending s \<and> accounted lim input output (events s) \<and> summed input sm (events s)
        \<and> SE_Complete (Some input) \<in> set (events s))
     (\<lambda>_. pending)"
proof -
  let ?F = "\<lambda>es. accounted lim input output es \<and> summed input sm es \<and> (\<forall>r. SE_Complete r \<notin> set es)"
  let ?G = "\<lambda>r es. accounted lim input output es \<and> summed input sm es \<and> SE_Complete r \<in> set es"
  have asked: "meets (\<lambda>s. pending s \<and> ?F (events s))
      (seq (budget_check ports) (\<lambda>_. seq (asks (sp_complete ports) SE_Complete) (\<lambda>r.
        seq (change (\<lambda>s. s\<lparr>source_complete := (r \<noteq> None)\<rparr>)) (\<lambda>_. budget_after ports (ok_or SF_SourceCompletion r)))))
      (\<lambda>v s. pending s \<and> (\<exists>r. ok_or SF_SourceCompletion r = Inr v \<and> ?G r (events s))) (\<lambda>_. pending)"
    by (rule meets_port) (auto simp: lasting_def pending_def intro: vetted_now summed_append)
  have rest: "meets (\<lambda>s. pending s \<and> (\<exists>r. ok_or SF_SourceCompletion r = Inr v \<and> ?G r (events s)))
      (refuse (v \<noteq> input) SF_CountMismatch) (\<lambda>_ s. pending s \<and> ?G (Some input) (events s)) (\<lambda>_. pending)" for v
    by (rule meets_pre [OF meets_refuse]) (auto simp: res_simps)
  show ?thesis using meets_seq [OF asked rest] by (simp add: completed_def seq_assoc)
qed

lemma flushed_meets:
  "meets (\<lambda>s. pending s \<and> accounted lim input output (events s) \<and> summed input sm (events s)
       \<and> SE_Complete (Some input) \<in> set (events s)) (flushed ports)
     (\<lambda>_ s. pending s \<and> accounted lim input output (events s) \<and> summed input sm (events s)
        \<and> SE_Complete (Some input) \<in> set (events s) \<and> flushed_last (events s))
     (\<lambda>_. pending)"
proof -
  let ?F = "\<lambda>es. accounted lim input output es \<and> summed input sm es \<and> SE_Complete (Some input) \<in> set es"
  have last: "flushed_last (es @ [SE_Flush True])" for es
    by (auto simp: flushed_last_def intro: exI [of _ "[]"])
  have asked: "meets (\<lambda>s. pending s \<and> ?F (events s)) (flushed ports)
      (\<lambda>v s. pending s \<and> (\<exists>ok. ensure ok SF_StageFlush = Inr v
        \<and> (?F (events s) \<and> (ok \<longrightarrow> flushed_last (events s))))) (\<lambda>_. pending)"
    unfolding flushed_def
    by (rule meets_plain_port) (auto simp: lasting_def pending_def last intro: vetted_now summed_append)
  show ?thesis by (rule meets_weaken [OF asked]) (auto simp: ensure_def split: if_splits)
qed

text \<open>What holds when the sealed bytes are offered for publication, and after that.\<close>

definition verified :: "seal_limits \<Rightarrow> sealed_counts \<Rightarrow> seal_event list \<Rightarrow> bool" where
  "verified lim counts es \<longleftrightarrow>
     accounted lim (sc_source_bytes counts) (sc_ciphertext_bytes counts) es
     \<and> (\<exists>sm. summed (sc_source_bytes counts) sm es \<and> sc_expanded_bytes counts = cc_expanded_bytes sm
          \<and> sc_payload_bytes counts = cc_payload_bytes sm \<and> sc_files counts = cc_files sm)
     \<and> SE_Complete (Some (sc_source_bytes counts)) \<in> set es \<and> flushed_last es \<and> list_all quiet es"

lemma verified_ticks: "verified lim counts es \<Longrightarrow> verified lim counts (es @ map SE_Now ts)"
  unfolding verified_def by (metis accounted_ticks summed_append flushed_last_ticks list_all_append ticks_quiet Un_iff set_append)

definition offered :: "seal_limits \<Rightarrow> sealed_counts \<Rightarrow> publish_outcome \<Rightarrow> 'w seal_state \<Rightarrow> bool" where
  "offered lim counts outcome s \<longleftrightarrow>
     (\<exists>before ts. events s = before @ SE_Publish counts outcome # map SE_Now ts \<and> verified lim counts before)
     \<and> vetted (events s) \<and> source_complete s \<and> \<not> source_cancelled s \<and> \<not> stage_aborted s
     \<and> g_publication s = publication_of outcome
     \<and> g_source_cleanup s = Clean_NotRequired \<and> g_stage_cleanup s = Clean_NotRequired"

lemma steady_offered: "steady (offered lim counts outcome)"
proof (rule steadyI)
  fix s :: "'a seal_state" and w ts last err
  assume o: "offered lim counts outcome s"
  then obtain before ts' where "events s = before @ SE_Publish counts outcome # map SE_Now ts'" "verified lim counts before"
    by (auto simp: offered_def)
  then have "\<exists>before ts'. events s @ map SE_Now ts = before @ SE_Publish counts outcome # map SE_Now ts' \<and> verified lim counts before"
    by (intro exI [of _ before] exI [of _ "ts' @ ts"]) simp
  with o show "offered lim counts outcome (s\<lparr>env := w, events := events s @ map SE_Now ts, b_last := last, b_error := err\<rparr>)"
    by (simp add: offered_def)
qed

definition ended :: "seal_limits \<Rightarrow> 'w seal_state \<Rightarrow> bool" where
  "ended lim s \<longleftrightarrow> pending s \<or> (\<exists>counts outcome. offered lim counts outcome s)"

lemma published_meets:
  "meets (\<lambda>s. pending s \<and> verified lim counts (events s)) (published ports counts)
     (\<lambda>counts'. offered lim counts' PO_Published) (\<lambda>_. ended lim)"
proof -
  have "steady (\<lambda>s. pending s \<and> verified lim counts (events s))"
    by (rule steady_events) (simp add: lasting_def verified_ticks)
  then have check: "meets (\<lambda>s. pending s \<and> verified lim counts (events s)) (budget_check ports)
      (\<lambda>_ s. pending s \<and> verified lim counts (events s)) (\<lambda>_. ended lim)"
    by (intro meets_weaken [OF meets_pending(1)]) (auto simp: ended_def)
  let ?R = "\<lambda>outcome s. offered lim counts outcome (s\<lparr>g_publication := publication_of outcome\<rparr>)"
  have marked: "meets (\<lambda>s. pending s \<and> verified lim counts (events s)) (change (\<lambda>s. s\<lparr>g_publication := Pub_Unknown\<rparr>))
      (\<lambda>_ s. pending (s\<lparr>g_publication := Pub_NotAttempted\<rparr>) \<and> verified lim counts (events s)) (\<lambda>_. ended lim)"
    by (rule meets_pre [OF meets_change]) (auto simp: pending_def)
  have offer: "meets (\<lambda>s. pending (s\<lparr>g_publication := Pub_NotAttempted\<rparr>) \<and> verified lim counts (events s))
      (asks (sp_publish ports counts) (SE_Publish counts)) ?R (\<lambda>_. ended lim)"
  proof (rule meets_pre [OF meets_asks], intro allI)
    fix s :: "'a seal_state" and r w
    assume "pending (s\<lparr>g_publication := Pub_NotAttempted\<rparr>) \<and> verified lim counts (events s)"
    moreover from this have "\<exists>before ts. events s @ [SE_Publish counts r] = before @ SE_Publish counts r # map SE_Now ts
        \<and> verified lim counts before"
      by (intro exI [of _ "events s"] exI [of _ "[]"]) simp
    ultimately show "?R r (s\<lparr>env := w, events := events s @ [SE_Publish counts r]\<rparr>)"
      by (auto simp: offered_def pending_def verified_def vetted_now)
  qed
  have noted: "meets (?R outcome) (change (\<lambda>s. s\<lparr>g_publication := publication_of outcome\<rparr>))
      (\<lambda>_. offered lim counts outcome) (\<lambda>_. ended lim)" for outcome
    by (rule meets_pre [OF meets_change]) simp
  have check2: "meets (offered lim counts outcome) (budget_check ports) (\<lambda>_. offered lim counts outcome) (\<lambda>_. ended lim)" for outcome
    by (rule meets_weaken [OF meets_check [OF steady_offered]]) (auto simp: ended_def)
  have confirm: "meets (offered lim counts outcome) (seq (refuse (outcome \<noteq> PO_Published) SF_PublicationNotConfirmed) (\<lambda>_. give counts))
      (\<lambda>counts'. offered lim counts' PO_Published) (\<lambda>_. ended lim)" for outcome
    by (auto simp: meets_def eff_defs ended_def)
  show ?thesis unfolding published_def
    by (rule meets_seq [OF check meets_seq [OF marked meets_seq [OF offer meets_seq [OF noted meets_seq [OF check2 confirm]]]]])
qed

lemma run_meets:
  "meets (streaming lim) (run ports lim cipher) (\<lambda>counts. offered lim counts PO_Published) (\<lambda>_. ended lim)"
proof -
  note up = meets_weaken [where E = "\<lambda>_. pending" and E' = "\<lambda>_. ended lim"]
  have early: "pending s \<Longrightarrow> ended lim s" for s :: "'a seal_state" by (simp add: ended_def)
  have publish: "meets (\<lambda>s. pending s \<and> accounted lim input out (events s) \<and> summed input sm (events s)
        \<and> SE_Complete (Some input) \<in> set (events s) \<and> flushed_last (events s))
      (published ports \<lparr>sc_source_bytes = input, sc_ciphertext_bytes = out,
       sc_expanded_bytes = cc_expanded_bytes sm, sc_payload_bytes = cc_payload_bytes sm, sc_files = cc_files sm\<rparr>)
      (\<lambda>counts. offered lim counts PO_Published) (\<lambda>_. ended lim)" for input out sm
    by (rule meets_pre [OF published_meets]) (auto simp: verified_def pending_def)
  have rest: "meets (\<lambda>s. case x of (input, output) \<Rightarrow> sealed lim input output s \<and> (\<forall>r. SE_Complete r \<notin> set (events s)))
      (case x of (input, output) \<Rightarrow>
        seq (summarized ports input) (\<lambda>summary.
        seq (completed ports input) (\<lambda>_.
        seq (flushed ports) (\<lambda>_.
        published ports \<lparr>sc_source_bytes = input, sc_ciphertext_bytes = output,
          sc_expanded_bytes = cc_expanded_bytes summary, sc_payload_bytes = cc_payload_bytes summary,
          sc_files = cc_files summary\<rparr>))))
      (\<lambda>counts. offered lim counts PO_Published) (\<lambda>_. ended lim)" for x
    unfolding case_prod_beta
    by (rule meets_seq [OF up [OF summarized_meets]], assumption, assumption, erule early,
        rule meets_seq [OF up [OF completed_meets]], assumption, assumption, erule early,
        rule meets_seq [OF up [OF flushed_meets]], assumption, assumption, erule early, rule publish)
  show ?thesis
    unfolding run_def
    by (rule meets_seq [OF up [OF supported_meets]], assumption, assumption, erule early,
        rule meets_seq [OF up [OF encrypted_meets] rest], assumption, simp add: case_prod_beta, erule early)
qed

section \<open>What a sealing did\<close>

lemma start_streaming: "streaming lim (seal_start ports lim w0)"
proof -
  obtain start w where "sp_now_ms ports w0 = (start, w)" by (cases "sp_now_ms ports w0")
  moreover have "vetted [SE_Now start]" using vetted_ticks [of "[]" "[start]"] by simp
  ultimately show ?thesis
    by (simp add: seal_start_def under_way_def fresh_guard_def fed_def delivered_def written_def)
qed

lemma cancel_settles:
  "source_complete (cancel_source ports s) \<or> source_cancelled (cancel_source ports s)"
  "g_publication (cancel_source ports s) = g_publication s"
  by (simp_all add: cancel_source_def split: prod.split)

lemma cancel_settled: "source_complete s \<or> source_cancelled s \<Longrightarrow> cancel_source ports s = s"
  by (auto simp: cancel_source_def)

lemma abort_settles:
  "stage_aborted (abort_stage ports s) \<or> g_publication (abort_stage ports s) \<notin> {Pub_NotAttempted, Pub_NotPublished}"
  "source_complete (abort_stage ports s) = source_complete s" "source_cancelled (abort_stage ports s) = source_cancelled s"
  by (simp_all add: abort_stage_def split: prod.split)

lemma abort_settled:
  "stage_aborted s \<or> g_publication s \<notin> {Pub_NotAttempted, Pub_NotPublished} \<Longrightarrow> abort_stage ports s = s"
  by (auto simp: abort_stage_def)

lemma cleanup_again: "guard_cleanup ports (guard_cleanup ports s) = guard_cleanup ports s"
  using cancel_settles(1) [of ports s] abort_settles(1) [of ports "cancel_source ports s"]
  by (simp add: guard_cleanup_def cancel_settled abort_settled abort_settles(2,3))

lemma cleanup_pending:
  assumes "pending s"
  obtains c a where
    "events (guard_cleanup ports s) = events s @ (if source_complete s then [] else [SE_Cancel c]) @ [SE_Abort a]"
    "g_publication (guard_cleanup ports s) = Pub_NotAttempted"
    "g_source_cleanup (guard_cleanup ports s) = (if source_complete s then Clean_NotRequired else cleanup_of c)"
    "g_stage_cleanup (guard_cleanup ports s) = cleanup_of a"
  using assms
  by (cases "sp_cancel ports (env s)"; cases "sp_abort ports (env (cancel_source ports s))")
    (auto simp: guard_cleanup_def cancel_source_def abort_stage_def pending_def split: if_splits)

lemma cleanup_offered:
  assumes "offered lim counts outcome s"
  obtains a where
    "events (guard_cleanup ports s) = events s @ (if outcome = PO_NotPublished then [SE_Abort a] else [])"
    "g_publication (guard_cleanup ports s) = publication_of outcome"
    "g_source_cleanup (guard_cleanup ports s) = Clean_NotRequired"
    "g_stage_cleanup (guard_cleanup ports s) = (if outcome = PO_NotPublished then cleanup_of a else Clean_NotRequired)"
  using assms
  by (cases outcome; cases "sp_abort ports (env s)")
    (auto simp: guard_cleanup_def cancel_source_def abort_stage_def offered_def)

text \<open>The two ways a sealing ends: before the offer, or with it.\<close>

lemma seal_cases:
  fixes ports :: "'w seal_ports"
  assumes "seal_with_clock ports lim cipher w0 = (result, s)"
  obtains s1 :: "'w seal_state" and cause c a where "pending s1" "events s = events s1 @ (if source_complete s1 then [] else [SE_Cancel c]) @ [SE_Abort a]"
      "result = Inl \<lparr>fr_cause = cause, fr_publication = Pub_NotAttempted,
         fr_source_cleanup = (if source_complete s1 then Clean_NotRequired else cleanup_of c),
         fr_stage_cleanup = cleanup_of a\<rparr>"
  | s1 :: "'w seal_state" and counts outcome a where "offered lim counts outcome s1"
      "events s = events s1 @ (if outcome = PO_NotPublished then [SE_Abort a] else [])"
      "result = Inr counts \<and> outcome = PO_Published
       \<or> (\<exists>cause. result = Inl \<lparr>fr_cause = cause, fr_publication = publication_of outcome,
         fr_source_cleanup = Clean_NotRequired,
         fr_stage_cleanup = (if outcome = PO_NotPublished then cleanup_of a else Clean_NotRequired)\<rparr>)"
proof -
  obtain r s1 where run: "run ports lim cipher (seal_start ports lim w0) = (r, s1)"
    by (cases "run ports lim cipher (seal_start ports lim w0)")
  show thesis
  proof (cases r)
    case (Inr counts)
    have off: "offered lim counts PO_Published s1"
      using meetsD [OF run_meets start_streaming run [unfolded Inr]] .
    have "s = guard_cleanup ports s1" "result = Inr counts"
      using assms run Inr by (auto simp: seal_with_clock_def)
    with cleanup_offered [OF off, of ports] have "events s = events s1" by auto
    with off show thesis using \<open>result = Inr counts\<close> by (intro that(2) [of counts PO_Published s1]) auto
  next
    case (Inl cause)
    have s: "s = guard_cleanup ports s1" and res: "result = Inl \<lparr>fr_cause = cause,
        fr_publication = g_publication s, fr_source_cleanup = g_source_cleanup s, fr_stage_cleanup = g_stage_cleanup s\<rparr>"
      using assms run Inl by (auto simp: seal_with_clock_def Let_def cleanup_again)
    consider "pending s1" | counts outcome where "offered lim counts outcome s1"
      using meetsD_early [OF run_meets start_streaming run [unfolded Inl]] by (auto simp: ended_def)
    then show thesis
    proof cases
      case 1
      obtain c a where "events s = events s1 @ (if source_complete s1 then [] else [SE_Cancel c]) @ [SE_Abort a]"
          "g_publication s = Pub_NotAttempted"
          "g_source_cleanup s = (if source_complete s1 then Clean_NotRequired else cleanup_of c)"
          "g_stage_cleanup s = cleanup_of a"
        unfolding s by (rule cleanup_pending [OF 1])
      then show thesis using res by (intro that(1) [OF 1, of c a cause]) simp_all
    next
      case 2
      obtain a where "events s = events s1 @ (if outcome = PO_NotPublished then [SE_Abort a] else [])"
          "g_publication s = publication_of outcome" "g_source_cleanup s = Clean_NotRequired"
          "g_stage_cleanup s = (if outcome = PO_NotPublished then cleanup_of a else Clean_NotRequired)"
        unfolding s by (rule cleanup_offered [OF 2])
      then show thesis using res by (intro that(2) [OF 2, of a]) simp_all
    qed
  qed
qed

lemma split_unique:
  assumes "before @ p # after = pre @ q # post" and "\<forall>e \<in> set before. \<not> P e" and "\<forall>e \<in> set after. \<not> P e" and "P q"
  shows "before = pre \<and> p = q \<and> after = post"
  using assms by (auto simp: append_eq_append_conv2 Cons_eq_append_conv append_eq_Cons_conv)

lemma vetted_delivery: "vetted (pre @ SE_Deliver bytes # post) \<Longrightarrow> prefix (delivered pre @ bytes) (fed pre)"
  unfolding vetted_def by (drule spec [of _ "Suc (length pre)"]) (simp add: delivered_def fed_def)

lemma sealed_vetted:
  assumes "seal_with_clock ports lim cipher w0 = (result, s)"
  shows "vetted (events s)"
  using assms
proof (cases rule: seal_cases)
  case (1 s1 cause c a)
  then have "vetted (events s1)" by (simp add: pending_def)
  with 1(2) show ?thesis using vetted_now [of "events s1"] by (auto simp flip: append_assoc)
next
  case (2 s1 counts outcome a)
  then have "vetted (events s1)" by (simp add: offered_def)
  with 2(2) show ?thesis using vetted_now [of "events s1"] by auto
qed

fun is_publish :: "seal_event \<Rightarrow> bool" where
  "is_publish (SE_Publish _ _) = True" | "is_publish _ = False"

fun is_cancel :: "seal_event \<Rightarrow> bool" where
  "is_cancel (SE_Cancel _) = True" | "is_cancel _ = False"

fun is_abort :: "seal_event \<Rightarrow> bool" where
  "is_abort (SE_Abort _) = True" | "is_abort _ = False"

lemma quiet_filters:
  assumes "list_all quiet es"
  shows "filter is_cancel es = []" "filter is_abort es = []" "\<forall>e \<in> set es. \<not> is_publish e"
  using assms by (induction es) (auto elim: quiet.elims)

lemma ticks_filters [simp]:
  "filter is_cancel (map SE_Now ts) = []" "filter is_abort (map SE_Now ts) = []"
  by (induction ts) simp_all

text \<open>
  Property C4: whatever the ports answer, no byte of the archive reaches the cipher before the
  checker accepted it, and nothing is offered for publication unless the whole sealing
  checked out. At that moment the cipher has been given exactly the bytes the checker
  accepted, up to the end of the source and within the limit; the checker's summary is valid
  and is the published one; the source confirmed its completion with the same count; the stage
  took exactly the counted ciphertext and flushed it last; and nothing was cancelled or aborted.
  It is offered once, and afterwards the stage is aborted only if it was definitely not published.
\<close>

theorem seal_publishes_verified:
  assumes "seal_with_clock ports lim cipher w0 = (result, s)"
  shows "(\<forall>pre bytes post. events s = pre @ SE_Deliver bytes # post \<longrightarrow> prefix (delivered pre @ bytes) (fed pre))
     \<and> (\<forall>pre counts outcome post. events s = pre @ SE_Publish counts outcome # post \<longrightarrow>
          verified lim counts pre
          \<and> (\<forall>e \<in> set post. (\<exists>t. e = SE_Now t) \<or> outcome = PO_NotPublished \<and> is_abort e))"
proof (intro conjI allI impI)
  fix pre bytes post assume "events s = pre @ SE_Deliver bytes # post"
  then show "prefix (delivered pre @ bytes) (fed pre)"
    using sealed_vetted [OF assms] vetted_delivery by simp
next
  fix pre counts outcome post
  assume offer: "events s = pre @ SE_Publish counts outcome # post"
  have "verified lim counts pre \<and> (\<forall>e \<in> set post. (\<exists>t. e = SE_Now t) \<or> outcome = PO_NotPublished \<and> is_abort e)"
    using assms
  proof (cases rule: seal_cases)
    case (1 s1 cause c a)
    then have "\<forall>e \<in> set (events s). \<not> is_publish e"
      using quiet_filters(3) [of "events s1"] by (auto simp: pending_def)
    with offer show ?thesis by simp
  next
    case (2 s1 counts' outcome' a)
    then obtain before ts where b: "events s1 = before @ SE_Publish counts' outcome' # map SE_Now ts" "verified lim counts' before"
      by (auto simp: offered_def)
    let ?tail = "map SE_Now ts @ (if outcome' = PO_NotPublished then [SE_Abort a] else [])"
    have "before = pre \<and> SE_Publish counts' outcome' = SE_Publish counts outcome \<and> ?tail = post"
      by (rule split_unique [where P = is_publish])
        (use 2(2) b offer quiet_filters(3) [of before] in \<open>auto simp: verified_def\<close>)
    with b(2) show ?thesis by auto
  qed
  then show "verified lim counts pre" "\<forall>e \<in> set post. (\<exists>t. e = SE_Now t) \<or> outcome = PO_NotPublished \<and> is_abort e"
    by blast+
qed

text \<open>
  Property C27: the result tells the truth about what happened. Success means that exactly
  these counts were published, and nothing was cancelled or aborted. A failure reports whether
  publication was attempted and what the stage answered; the source is cancelled exactly
  once, unless it had completed, and the private stage is aborted exactly once, unless the
  archive was, or may have been, published; the reported cleanups are the answers to these calls.
\<close>

theorem seal_outcome_accounted:
  assumes "seal_with_clock ports lim cipher w0 = (result, s)"
  shows "case result of
      Inr counts \<Rightarrow> SE_Publish counts PO_Published \<in> set (events s)
        \<and> filter is_cancel (events s) = [] \<and> filter is_abort (events s) = []
    | Inl report \<Rightarrow>
        (if fr_publication report = Pub_NotAttempted then \<forall>e \<in> set (events s). \<not> is_publish e
         else \<exists>counts outcome. SE_Publish counts outcome \<in> set (events s)
           \<and> fr_publication report = publication_of outcome)
        \<and> (if \<exists>n. SE_Complete (Some n) \<in> set (events s)
           then filter is_cancel (events s) = [] \<and> fr_source_cleanup report = Clean_NotRequired
           else \<exists>c. filter is_cancel (events s) = [SE_Cancel c] \<and> fr_source_cleanup report = cleanup_of c)
        \<and> (if fr_publication report = Pub_Published \<or> fr_publication report = Pub_Unknown
           then filter is_abort (events s) = [] \<and> fr_stage_cleanup report = Clean_NotRequired
           else \<exists>a. filter is_abort (events s) = [SE_Abort a] \<and> fr_stage_cleanup report = cleanup_of a)"
  using assms
proof (cases rule: seal_cases)
  case (1 s1 cause c a)
  have "source_complete s1 \<longleftrightarrow> (\<exists>n. SE_Complete (Some n) \<in> set (events s))" "list_all quiet (events s1)"
    using 1(1,2) by (auto simp: pending_def)
  moreover from this(2) have "filter is_cancel (events s) = (if source_complete s1 then [] else [SE_Cancel c])"
      "filter is_abort (events s) = [SE_Abort a]" "\<forall>e \<in> set (events s). \<not> is_publish e"
    using quiet_filters [of "events s1"] unfolding 1(2) by auto
  ultimately show ?thesis unfolding 1(3) by simp
next
  case (2 s1 counts outcome a)
  then obtain before ts where b: "events s1 = before @ SE_Publish counts outcome # map SE_Now ts" "verified lim counts before"
    by (auto simp: offered_def)
  then have "filter is_cancel (events s) = []" "filter is_abort (events s) = (if outcome = PO_NotPublished then [SE_Abort a] else [])"
      "\<exists>n. SE_Complete (Some n) \<in> set (events s)" and offer: "SE_Publish counts outcome \<in> set (events s)"
    using 2(2) quiet_filters [of before] by (auto simp: verified_def)
  moreover from offer have "\<exists>c out. SE_Publish c out \<in> set (events s) \<and> publication_of outcome = publication_of out" by blast
  ultimately show ?thesis
    using 2(3) offer by (elim disjE exE; cases outcome) simp_all
qed

text \<open>A sealing of five bytes.\<close>

definition sample_ports :: "string seal_ports" where
  "sample_ports = \<lparr>sp_now_ms = (\<lambda>w. (7, w)),
     sp_read = (\<lambda>n w. (Some (min n (length w), take n w), drop n w)),
     sp_complete = (\<lambda>w. (Some 5, w)), sp_cancel = (\<lambda>w. (CO_Cleaned, w)),
     sp_feed = (\<lambda>bytes w. (True, w)),
     sp_finish = (\<lambda>w. (Some \<lparr>cc_source_bytes = 5, cc_expanded_bytes = 5, cc_payload_bytes = 3, cc_files = 1\<rparr>, w)),
     sp_capabilities = (\<lambda>w. (\<lparr>private_staging = True, atomic_publication = True, durability = True\<rparr>, w)),
     sp_write = (\<lambda>bytes w. (Some (length bytes), w)), sp_flush = (\<lambda>w. (True, w)),
     sp_publish = (\<lambda>counts w. (PO_Published, w)), sp_abort = (\<lambda>w. (CO_Cleaned, w))\<rparr>"

definition sample_cipher :: cipher_run where
  "sample_cipher = Cipher_Reads 8 (\<lambda>r. Cipher_Writes (''x'' @ the r) (\<lambda>_. Cipher_Reads 8 (\<lambda>_.
     Cipher_Ends (Some \<lparr>ci_input_bytes = 5, ci_output_bytes = 6\<rparr>))))"

definition sample_sealing :: "(seal_failure_report + sealed_counts) \<times> string seal_state" where
  "sample_sealing = seal_with_clock sample_ports default_seal_limits sample_cipher ''bytes''"

definition sample_counts :: sealed_counts where
  "sample_counts = \<lparr>sc_source_bytes = 5, sc_ciphertext_bytes = 6, sc_expanded_bytes = 5, sc_payload_bytes = 3, sc_files = 1\<rparr>"

lemma sample_sealed:
  "fst sample_sealing = Inr sample_counts" "SE_Publish sample_counts PO_Published \<in> set (events (snd sample_sealing))"
  by code_simp+

theorem seal_publishes_verified_witness: "\<exists>pre. verified default_seal_limits sample_counts pre \<and> fed pre = delivered pre"
proof -
  obtain result s where run: "sample_sealing = (result, s)" by (cases sample_sealing)
  obtain pre post where "events s = pre @ SE_Publish sample_counts PO_Published # post"
    using sample_sealed(2) by (auto simp: run dest: split_list)
  then have "verified default_seal_limits sample_counts pre"
    using seal_publishes_verified [OF run [unfolded sample_sealing_def]] by blast
  moreover from this have "fed pre = delivered pre" by (simp add: verified_def accounted_def)
  ultimately show ?thesis by blast
qed

theorem seal_outcome_accounted_witness: "filter is_abort (events (snd sample_sealing)) = []"
proof -
  obtain result s where run: "sample_sealing = (result, s)" by (cases sample_sealing)
  show ?thesis
    using seal_outcome_accounted [OF run [unfolded sample_sealing_def]] sample_sealed(1) by (simp add: run)
qed

end
