(* ===== verification/SealTrace.thy ===== *)
theory SealTrace
  imports SealProofs
begin

text \<open>
  The events of a sealing are a faithful trace: each is the answer of its port in the world the
  earlier ones left behind, so what is known of the ports of a particular client carries over
  to every sealing through them. While no error is latched, what was read was fed to the checker
  and accepted.
\<close>

section \<open>Replaying the ports\<close>

fun answered :: "'w seal_ports \<Rightarrow> seal_event \<Rightarrow> 'w \<Rightarrow> 'w \<Rightarrow> bool" where
  "answered ports (SE_Now t) w w' \<longleftrightarrow> sp_now_ms ports w = (t, w')"
| "answered ports (SE_Read n r) w w' \<longleftrightarrow> sp_read ports n w = (r, w')"
| "answered ports (SE_Feed bytes ok) w w' \<longleftrightarrow> sp_feed ports bytes w = (ok, w')"
| "answered ports (SE_Deliver bytes) w w' \<longleftrightarrow> w' = w"
| "answered ports (SE_Finish r) w w' \<longleftrightarrow> sp_finish ports w = (r, w')"
| "answered ports (SE_Complete r) w w' \<longleftrightarrow> sp_complete ports w = (r, w')"
| "answered ports (SE_Cancel r) w w' \<longleftrightarrow> sp_cancel ports w = (r, w')"
| "answered ports (SE_Capabilities r) w w' \<longleftrightarrow> sp_capabilities ports w = (r, w')"
| "answered ports (SE_Write bytes r) w w' \<longleftrightarrow> sp_write ports bytes w = (r, w')"
| "answered ports (SE_Flush ok) w w' \<longleftrightarrow> sp_flush ports w = (ok, w')"
| "answered ports (SE_Publish counts r) w w' \<longleftrightarrow> sp_publish ports counts w = (r, w')"
| "answered ports (SE_Abort r) w w' \<longleftrightarrow> sp_abort ports w = (r, w')"

inductive replay :: "'w seal_ports \<Rightarrow> 'w \<Rightarrow> seal_event list \<Rightarrow> 'w \<Rightarrow> bool" for ports :: "'w seal_ports" and w0 :: 'w where
  replay_start: "replay ports w0 [] w0"
| replay_answer: "replay ports w0 es w \<Longrightarrow> answered ports e w w' \<Longrightarrow> replay ports w0 (es @ [e]) w'"

inductive_cases replay_snoc: "replay ports w0 (es @ [e]) w'"

lemma replay_append: "replay ports w0 (es @ fs) w' \<Longrightarrow> \<exists>w. replay ports w0 es w \<and> replay ports w fs w'"
proof (induction fs arbitrary: w' rule: rev_induct)
  case (snoc f fs)
  then obtain w1 where "replay ports w0 (es @ fs) w1" "answered ports f w1 w'"
    by (auto simp flip: append_assoc elim: replay_snoc)
  with snoc.IH show ?case by (blast intro: replay_answer)
qed (auto intro: replay_start)

lemma replay_Cons:
  assumes "replay ports w0 (e # es) w'"
  shows "\<exists>w. answered ports e w0 w \<and> replay ports w es w'"
proof -
  from replay_append [of ports w0 "[e]" es w'] assms obtain w where "replay ports w0 ([] @ [e]) w" "replay ports w es w'"
    by auto
  from this(1) obtain w1 where "replay ports w0 [] w1" "answered ports e w1 w" by (rule replay_snoc)
  moreover from this(1) have "w1 = w0" by cases simp_all
  ultimately show ?thesis using \<open>replay ports w es w'\<close> by blast
qed

definition traced :: "'w seal_ports \<Rightarrow> 'w \<Rightarrow> 'w seal_state \<Rightarrow> bool" where
  "traced ports w0 s \<longleftrightarrow> replay ports w0 (events s) (env s)"

section \<open>What every step keeps\<close>

definition keeps :: "('s \<Rightarrow> bool) \<Rightarrow> ('s, 'e, 'a) eff \<Rightarrow> bool" where
  "keeps I m \<longleftrightarrow> meets I m (\<lambda>_. I) (\<lambda>_. I)"

named_theorems keeping "rules for what every step keeps"

lemma keeps_basic [keeping]: "keeps I (give x)" "keeps I (raise e)" "keeps I (get f)" "keeps I (refuse b e)"
  by (simp_all add: keeps_def meets_def eff_defs)

lemma keeps_seq [keeping]: "keeps I m \<Longrightarrow> (\<And>x. keeps I (f x)) \<Longrightarrow> keeps I (seq m f)"
  unfolding keeps_def by (rule meets_seq)

lemma keeps_caught [keeping]: "keeps I m \<Longrightarrow> keeps I (caught m)"
  unfolding keeps_def by (rule meets_caught)

lemma keeps_if [keeping]: "(b \<Longrightarrow> keeps I m) \<Longrightarrow> (\<not> b \<Longrightarrow> keeps I n) \<Longrightarrow> keeps I (if b then m else n)"
  by simp

lemma keeps_option [keeping]:
  "(x = None \<Longrightarrow> keeps I m) \<Longrightarrow> (\<And>y. x = Some y \<Longrightarrow> keeps I (f y)) \<Longrightarrow> keeps I (case x of None \<Rightarrow> m | Some y \<Rightarrow> f y)"
  by (cases x) simp_all

lemma keeps_sum [keeping]:
  "(\<And>y. x = Inl y \<Longrightarrow> keeps I (f y)) \<Longrightarrow> (\<And>y. x = Inr y \<Longrightarrow> keeps I (g y)) \<Longrightarrow> keeps I (case x of Inl y \<Rightarrow> f y | Inr y \<Rightarrow> g y)"
  by (cases x) simp_all

lemma keeps_prod [keeping]: "(\<And>a b. x = (a, b) \<Longrightarrow> keeps I (f a b)) \<Longrightarrow> keeps I (case x of (a, b) \<Rightarrow> f a b)"
  by (cases x) simp

lemma keeps_let [keeping]: "keeps I (f x) \<Longrightarrow> keeps I (let y = x in f y)"
  by simp

lemma keeps_change: "(\<And>s. I s \<Longrightarrow> I (f s)) \<Longrightarrow> keeps I (change f)"
  by (simp add: keeps_def meets_def change_def)

lemma traced_asks [keeping]:
  assumes "\<And>r w w'. port w = (r, w') \<Longrightarrow> answered ports (ev r) w w'"
  shows "keeps (traced ports w0) (asks port ev)"
  using assms by (auto simp: keeps_def meets_def asks_def traced_def intro: replay_answer split: prod.split)

lemma traced_change [keeping]:
  assumes "\<And>s. env (f s) = env s" "\<And>s. events (f s) = events s"
  shows "keeps (traced ports w0) (change f)"
  by (rule keeps_change) (simp add: traced_def assms)

lemma traced_deliver [keeping]:
  "keeps (traced ports w0) (change (\<lambda>s. s\<lparr>r_count := n, events := events s @ [SE_Deliver bytes]\<rparr>))"
  by (auto simp: traced_def intro!: keeps_change replay_answer)

lemma traced_fail [keeping]: "keeps (traced ports w0) (budget_fail e)"
  by (simp add: keeps_def meets_def budget_fail_def traced_def Let_def)

lemma traced_run: "keeps (traced ports w0) (run ports lim cipher)"
proof -
  have check [keeping]: "keeps (traced ports w0) (budget_check ports)"
    unfolding budget_check_def by (intro keeping) simp_all
  have after [keeping]: "keeps (traced ports w0) (budget_after ports r)" for r :: "seal_failure + 'x"
    unfolding budget_after_def by (intro keeping)
  have [keeping]: "keeps (traced ports w0) (lift r)" for r :: "seal_failure + 'x"
    unfolding lift_def by (intro keeping)
  have "keeps (traced ports w0) (encrypt ports lim cipher)"
  proof (induction cipher)
    case (Cipher_Ends r) show ?case unfolding encrypt.simps by (intro keeping)
  next
    case (Cipher_Reads n k)
    then show ?case
      unfolding encrypt.simps checked_read_def probe_end_def read_chunk_def take_chunk_def vet_chunk_def
      by (intro keeping) simp_all
  next
    case (Cipher_Writes bytes k)
    then show ?case unfolding encrypt.simps counted_write_def by (intro keeping) simp_all
  next
    case (Cipher_Flushes k)
    then show ?case unfolding encrypt.simps counted_flush_def by (intro keeping) simp_all
  qed
  note [keeping] = this
  show ?thesis
    unfolding run_def supported_def encrypted_def summarized_def completed_def flushed_def published_def
    by (intro keeping) simp_all
qed

section \<open>What was read was fed\<close>

fun read_by :: "seal_event \<Rightarrow> string" where
  "read_by (SE_Read n (Some (got, buffer))) = take got (take n (buffer @ replicate n NUL))"
| "read_by _ = []"

fun refused_by :: "seal_event \<Rightarrow> bool" where
  "refused_by (SE_Feed _ ok) = (\<not> ok)"
| "refused_by _ = False"

definition readings :: "seal_event list \<Rightarrow> string" where "readings es = concat (map read_by es)"
definition accepted :: "seal_event list \<Rightarrow> bool" where "accepted es \<longleftrightarrow> (\<forall>e \<in> set es. \<not> refused_by e)"

lemma readings_snoc [simp]: "readings (es @ [e]) = readings es @ read_by e" "readings [] = []"
  "accepted (es @ [e]) \<longleftrightarrow> accepted es \<and> \<not> refused_by e" "accepted []"
  by (auto simp: readings_def accepted_def)

lemma readings_ticks [simp]:
  "readings (es @ map SE_Now ts) = readings es" "accepted (es @ map SE_Now ts) = accepted es"
  by (induction ts rule: rev_induct) (simp_all flip: append_assoc add: readings_def accepted_def)

text \<open>\<open>extra\<close> was read and not fed yet.\<close>

definition relayed :: "string \<Rightarrow> 'w seal_state \<Rightarrow> bool" where
  "relayed extra s \<longleftrightarrow> (\<forall>e \<in> set (events s). \<not> is_publish e) \<and> (b_error s = None \<longrightarrow> readings (events s) = fed (events s) @ extra \<and> accepted (events s))"

lemma steady_relayed: "steady (relayed extra)"
  by (rule steadyI) (auto simp: relayed_def)

lemma relayed_failed: "relayed extra s \<Longrightarrow> b_error s \<noteq> None \<Longrightarrow> relayed extra' s"
  by (auto simp: relayed_def)

lemma relayed_fail: "(\<And>s. P s \<Longrightarrow> \<exists>extra. relayed extra s) \<Longrightarrow> meets P (budget_fail e) Q (\<lambda>_. relayed [])"
  by (fastforce simp: meets_def budget_fail_def Let_def relayed_def)

lemma relayed_check: "keeps (relayed []) (budget_check ports)"
  unfolding keeps_def by (rule meets_weaken [OF meets_check [OF steady_relayed]]) auto

lemma relayed_after:
  "meets (relayed extra) (budget_after ports r) (\<lambda>v s. relayed extra s \<and> r = Inr v) (\<lambda>_. relayed [])"
  by (rule meets_weaken [OF meets_after [OF steady_relayed]]) (auto intro: relayed_failed)

lemma relayed_asks [keeping]:
  assumes "\<And>r. read_by (ev r) = []" "\<And>r. fed_by (ev r) = []" "\<And>r. \<not> refused_by (ev r)" "\<And>r. \<not> is_publish (ev r)"
  shows "keeps (relayed []) (asks port ev)"
  using assms by (auto simp: keeps_def meets_def asks_def relayed_def split: prod.split)

lemma relayed_vet: "meets (relayed bytes) (vet_chunk ports grown bytes) (\<lambda>_. relayed []) (\<lambda>_. relayed [])"
proof -
  let ?R = "\<lambda>ok s. (\<forall>e \<in> set (events s). \<not> is_publish e) \<and> (ok \<longrightarrow> relayed [] s)"
  have fed: "meets (relayed bytes) (asks (sp_feed ports bytes) (SE_Feed bytes)) ?R (\<lambda>_. relayed [])"
    by (rule meets_pre [OF meets_asks]) (auto simp: relayed_def)
  have "steady (?R ok)" for ok by (rule steadyI) (auto simp: relayed_def)
  from meets_after [OF this] have checked: "meets (?R ok) (budget_after ports (ensure ok SF_Check))
      (\<lambda>_. relayed []) (\<lambda>_. relayed [])" for ok
    by (rule meets_weaken) (auto simp: ensure_def relayed_def split: if_splits)
  show ?thesis unfolding vet_chunk_def
    by (rule meets_seq [OF fed meets_seq [OF checked]]) (auto simp: meets_def eff_defs relayed_def)
qed

lemma relayed_take:
  assumes "got \<le> room"
  shows "meets (relayed (take got (take room (buffer @ replicate room NUL)))) (take_chunk ports room got buffer)
    (\<lambda>_. relayed []) (\<lambda>_. relayed [])"
proof (cases "got = 0")
  case True
  then show ?thesis by (simp add: take_chunk_def meets_def eff_defs relayed_def)
next
  case False
  let ?I = "relayed (take got (take room (buffer @ replicate room NUL)))"
  have "meets ?I (case grown of None \<Rightarrow> budget_fail SF_SourceLimit
      | Some grown \<Rightarrow> vet_chunk ports grown (take got (take room (buffer @ replicate room NUL))))
      (\<lambda>_. relayed []) (\<lambda>_. relayed [])" for grown
    by (cases grown) (auto simp: relayed_vet intro: relayed_fail)
  with meets_get [of "\<lambda>_. ?I"] show ?thesis unfolding take_chunk_def if_not_P [OF False] by (rule meets_seq)
qed

lemma relayed_read: "keeps (relayed []) (checked_read ports limit n)"
proof -
  have read: "meets (relayed []) (asks (sp_read ports m) (SE_Read m))
      (\<lambda>r. relayed (read_by (SE_Read m r))) (\<lambda>_. relayed [])" for m
    by (rule meets_pre [OF meets_asks]) (auto simp: relayed_def)
  have probe: "keeps (relayed []) (probe_end ports)"
    unfolding keeps_def probe_end_def
  proof (rule meets_seq [OF read meets_seq [OF relayed_after]])
    fix r v
    show "meets (\<lambda>s. relayed (read_by (SE_Read 1 r)) s \<and> ok_or SF_SourceRead r = Inr v) (case v of (got, x) \<Rightarrow>
        if got > 1 then budget_fail SF_InvalidIoCount else if got \<noteq> 0 then budget_fail SF_SourceLimit
        else seq (change (\<lambda>s. s\<lparr>r_eof := True\<rparr>)) (\<lambda>_. give [])) (\<lambda>_. relayed []) (\<lambda>_. relayed [])"
    proof (cases v)
      case (Pair got buffer)
      show ?thesis unfolding Pair prod.case
        by (intro meets_if relayed_fail) (cases r; auto simp: meets_def eff_defs relayed_def)+
    qed
  qed
  have chunk: "keeps (relayed []) (read_chunk ports m)" for m
    unfolding keeps_def read_chunk_def
  proof (rule meets_seq [OF read])
    fix r
    let ?T = "\<lambda>result s. case result of Inr v \<Rightarrow> r = Some v \<and> relayed (read_by (SE_Read m r)) s | Inl _ \<Rightarrow> relayed [] s"
    have after: "meets (relayed (read_by (SE_Read m r))) (caught (budget_after ports (ok_or SF_SourceRead r))) ?T (\<lambda>_. relayed [])"
      by (rule meets_caught, rule meets_weaken [OF relayed_after], assumption)
         (cases r; simp del: read_by.simps)+
    have "meets (?T result) (case result of
          Inr (got, buffer) \<Rightarrow> if got \<le> m then take_chunk ports m got buffer else budget_fail SF_InvalidIoCount
        | Inl e \<Rightarrow> budget_fail e) (\<lambda>_. relayed []) (\<lambda>_. relayed [])" for result
    proof (cases result)
      case (Inr v)
      obtain got buffer where v: "v = (got, buffer)" by (cases v)
      show ?thesis unfolding Inr v sum.case prod.case
        by (rule meets_if, rule meets_pre [OF relayed_take], assumption, force, rule relayed_fail, blast)
    qed (auto intro: relayed_fail)
    with after show "meets (relayed (read_by (SE_Read m r))) (seq (caught (budget_after ports (ok_or SF_SourceRead r)))
        (\<lambda>result. case result of
          Inr (got, buffer) \<Rightarrow> if got \<le> m then take_chunk ports m got buffer else budget_fail SF_InvalidIoCount
        | Inl e \<Rightarrow> budget_fail e)) (\<lambda>_. relayed []) (\<lambda>_. relayed [])" by (rule meets_seq)
  qed
  show ?thesis unfolding checked_read_def by (intro keeping relayed_check probe chunk)
qed

text \<open>At the offer, and whenever something was offered, all that was read has been accepted.\<close>

definition exact :: "seal_event list \<Rightarrow> bool" where
  "exact es \<longleftrightarrow> readings es = fed es \<and> accepted es"

lemma relayed_published:
  "meets (relayed []) (published ports counts) (\<lambda>_ s. exact (events s))
     (\<lambda>_ s. relayed [] s \<or> exact (events s))"
proof -
  have check: "meets (relayed []) (budget_check ports) (\<lambda>_ s. exact (events s)) (\<lambda>_ s. relayed [] s \<or> exact (events s))"
    by (rule meets_weaken [OF meets_check [OF steady_relayed]]) (auto simp: relayed_def exact_def)
  have steady: "steady (\<lambda>s. exact (events s))" by (rule steadyI) (simp add: exact_def)
  have later: "meets (\<lambda>s. exact (events s)) (budget_check ports) (\<lambda>_ s. exact (events s)) (\<lambda>_ s. relayed [] s \<or> exact (events s))"
    by (rule meets_weaken [OF meets_check [OF steady]]) auto
  have change: "meets (\<lambda>s. exact (events s)) (change f) (\<lambda>_ s. exact (events s)) (\<lambda>_ s. relayed [] s \<or> exact (events s))"
    if "\<And>s. events (f s) = events s" for f :: "'w seal_state \<Rightarrow> 'w seal_state"
    by (simp add: meets_def change_def that)
  have offer: "meets (\<lambda>s. exact (events s)) (asks (sp_publish ports counts) (SE_Publish counts)) (\<lambda>_ s. exact (events s))
      (\<lambda>_ s. relayed [] s \<or> exact (events s))"
    by (rule meets_pre [OF meets_asks]) (simp add: exact_def)
  show ?thesis unfolding published_def
    by (intro meets_seq [OF check] meets_seq [OF change] meets_seq [OF offer] meets_seq [OF later])
       (auto simp: meets_def eff_defs)
qed

lemma relayed_run:
  "meets (relayed []) (run ports lim cipher) (\<lambda>_ s. exact (events s)) (\<lambda>_ s. relayed [] s \<or> exact (events s))"
proof -
  note [keeping] = relayed_check
  have [keeping]: "keeps (relayed []) (budget_fail e)" for e
    unfolding keeps_def by (rule relayed_fail) blast
  have [keeping]: "keeps (relayed []) (budget_after ports r)" for r :: "seal_failure + 'x"
    unfolding keeps_def by (rule meets_weaken [OF relayed_after]) auto
  have [keeping]: "keeps (relayed []) (lift r)" for r :: "seal_failure + 'x"
    unfolding lift_def by (intro keeping)
  have [keeping]: "keeps (relayed []) (change f)"
    if "\<And>s. events (f s) = events s" "\<And>s. b_error (f s) = b_error s" for f :: "'w seal_state \<Rightarrow> 'w seal_state"
    by (rule keeps_change) (simp add: relayed_def that)
  have [keeping]: "keeps (relayed []) (encrypt ports lim cipher)"
  proof (induction cipher)
    case (Cipher_Ends r) show ?case unfolding encrypt.simps by (intro keeping)
  next
    case (Cipher_Reads n k)
    show ?case unfolding encrypt.simps by (intro keeping relayed_read Cipher_Reads) simp
  next
    case (Cipher_Writes bytes k)
    then show ?case unfolding encrypt.simps counted_write_def by (intro keeping) simp_all
  next
    case (Cipher_Flushes k)
    then show ?case unfolding encrypt.simps counted_flush_def by (intro keeping) simp_all
  qed
  have part: "keeps (relayed []) m \<Longrightarrow> meets (relayed []) m (\<lambda>_. relayed []) (\<lambda>_ s. relayed [] s \<or> exact (events s))"
    for m :: "('w seal_state, seal_failure, 'x) eff"
    unfolding keeps_def by (erule meets_weaken) auto
  have "keeps (relayed []) (supported ports)" "keeps (relayed []) (encrypted ports lim cipher)"
    "keeps (relayed []) (summarized ports input)" "keeps (relayed []) (completed ports input)"
    "keeps (relayed []) (flushed ports)" for input
    unfolding supported_def encrypted_def summarized_def completed_def flushed_def
    by (intro keeping; simp)+
  note parts = this [THEN part]
  show ?thesis unfolding run_def
    by (intro meets_seq [OF parts(1)] meets_seq [OF parts(2)] meets_seq [OF parts(3)] meets_seq [OF parts(4)]
        meets_seq [OF parts(5)] relayed_published)
       (auto intro!: meets_seq [OF parts(3)] meets_seq [OF parts(4)] meets_seq [OF parts(5)] relayed_published)
qed

section \<open>The trace of a sealing\<close>

lemma sealing_start:
  "traced ports w0 (seal_start ports lim w0)" "relayed [] (seal_start ports lim w0)"
proof -
  obtain t w where "sp_now_ms ports w0 = (t, w)" by (cases "sp_now_ms ports w0")
  then show "traced ports w0 (seal_start ports lim w0)" "relayed [] (seal_start ports lim w0)"
    using replay_answer [OF replay_start, of ports "SE_Now t" w0 w]
    by (simp_all add: seal_start_def traced_def relayed_def fed_def readings_def accepted_def)
qed

lemma cleanup_traced:
  assumes "traced ports w0 s"
  shows "traced ports w0 (guard_cleanup ports s)"
proof -
  have "traced ports w0 (cancel_source ports s)"
    using assms by (auto simp: cancel_source_def traced_def intro: replay_answer split: prod.splits)
  then show ?thesis
    by (auto simp: guard_cleanup_def abort_stage_def traced_def intro: replay_answer split: prod.splits)
qed

lemma keepsD: "keeps I m \<Longrightarrow> I s \<Longrightarrow> m s = (r, s') \<Longrightarrow> I s'"
  by (cases r) (auto simp: keeps_def dest: meetsD meetsD_early)

lemma seal_traced:
  assumes "seal_with_clock ports lim cipher w0 = (result, s)"
  shows "replay ports w0 (events s) (env s)"
proof -
  obtain r s1 where run: "run ports lim cipher (seal_start ports lim w0) = (r, s1)"
    by (cases "run ports lim cipher (seal_start ports lim w0)")
  from keepsD [OF traced_run sealing_start(1) run] have "traced ports w0 (guard_cleanup ports s1)"
    by (rule cleanup_traced)
  with assms run show ?thesis unfolding traced_def [symmetric]
    by (cases r) (auto simp: seal_with_clock_def Let_def cleanup_again)
qed

lemma guard_cleanup_exact: "exact (events (guard_cleanup ports s)) \<longleftrightarrow> exact (events s)"
  by (simp add: guard_cleanup_def abort_stage_def cancel_source_def exact_def fed_def readings_def accepted_def
      split: prod.split)

lemma seal_offer_exact:
  assumes "seal_with_clock ports lim cipher w0 = (result, s)" and "SE_Publish counts outcome \<in> set (events s)"
  shows "exact (events s)"
proof -
  obtain r s1 where run: "run ports lim cipher (seal_start ports lim w0) = (r, s1)"
    by (cases "run ports lim cipher (seal_start ports lim w0)")
  with assms(1) have s: "s = guard_cleanup ports s1"
    by (cases r) (auto simp: seal_with_clock_def Let_def cleanup_again)
  with assms(2) have "SE_Publish counts outcome \<in> set (events s1)"
    by (auto simp: guard_cleanup_def abort_stage_def cancel_source_def split: prod.splits if_splits)
  then have "\<not> relayed [] s1" by (force simp: relayed_def)
  moreover have "relayed [] s1 \<or> exact (events s1)"
  proof (cases r)
    case (Inr x)
    from meetsD [OF relayed_run sealing_start(2) run [unfolded Inr]] show ?thesis ..
  next
    case (Inl e)
    from meetsD_early [OF relayed_run sealing_start(2) run [unfolded Inl]] show ?thesis .
  qed
  ultimately show ?thesis by (simp add: s guard_cleanup_exact)
qed

end
