(* ===== verification/StoreProofs.thy ===== *)
theory StoreProofs
  imports RecordStore
begin

text \<open>
  Proofs about the append-only store: what the locked file documents, the format a scan
  accepts, and what publishing, reconciling and reading leave in the file.
\<close>

section \<open>The file\<close>

text \<open>
  What the locked file documents, as its contents: only this handle changes it; a read gives
  the bytes of the range or fails; an append at the current size adds its bytes, and one that
  fails may have added a part of them.
\<close>

definition honest_file :: "'w store_ports \<Rightarrow> ('w \<Rightarrow> string) \<Rightarrow> bool" where
  "honest_file ports contents \<longleftrightarrow> (\<forall>w r w'.
     (\<forall>n. work_check ports w = (n, w') \<longrightarrow> contents w' = contents w)
     \<and> (io_size ports w = (r, w') \<longrightarrow> contents w' = contents w \<and> (\<forall>n. r = Ok n \<longrightarrow> n = length (contents w))))
   \<and> (\<forall>w offset n r w'. io_read_at ports offset n w = (r, w') \<longrightarrow> contents w' = contents w
       \<and> (\<forall>bs. r = Ok bs \<longrightarrow> offset + n \<le> length (contents w) \<and> bs = take n (drop offset (contents w))))
   \<and> (\<forall>w at bs r w'. io_append ports at bs w = (r, w') \<longrightarrow>
       (case r of Inr _ \<Rightarrow> at = length (contents w) \<and> contents w' = contents w @ bs
        | Inl _ \<Rightarrow> \<exists>some. prefix some bs \<and> contents w' = contents w @ some))
   \<and> (\<forall>w r w'. io_synchronize ports w = (r, w') \<longrightarrow> contents w' = contents w)"

text \<open>A world in which nothing fails and the budget does not run out.\<close>

definition healthy :: "'w store_ports \<Rightarrow> ('w \<Rightarrow> string) \<Rightarrow> bool" where
  "healthy ports contents \<longleftrightarrow> (\<forall>w. is_ok (fst (work_check ports w)) \<and> is_ok (fst (io_size ports w))
     \<and> is_ok (fst (io_synchronize ports w))
     \<and> (\<forall>offset n. offset + n \<le> length (contents w) \<longrightarrow> is_ok (fst (io_read_at ports offset n w)))
     \<and> (\<forall>bs. is_ok (fst (io_append ports (length (contents w)) bs w))))"

section \<open>The format\<close>

type_synonym stored_record = "artifact_binding \<times> string \<times> string"

fun record_bytes :: "stored_record \<Rightarrow> string" where
  "record_bytes (binding, ciphertext, tag) = record_header binding ciphertext @ ciphertext @ tag"

definition job_of :: "stored_record \<Rightarrow> string" where
  "job_of r = binding_job (fst r)"

fun valid_record :: "authenticator \<Rightarrow> string \<Rightarrow> stored_record \<Rightarrow> bool" where
  "valid_record auth store (binding, ciphertext, tag) \<longleftrightarrow>
     binding_decode (b_encoded binding) = Ok binding \<and> binding_store binding = store
     \<and> 1 \<le> length ciphertext \<and> length ciphertext \<le> max_ciphertext \<and> length tag = tag_bytes
     \<and> auth_verify auth ArtifactRecord [record_header binding ciphertext, ciphertext] tag = Ok ()"

definition valid_header :: "authenticator \<Rightarrow> string \<Rightarrow> string \<Rightarrow> bool" where
  "valid_header auth store h \<longleftrightarrow> length h = header_bytes \<and> take 32 h = store_magic store
     \<and> length store = 16 \<and> store \<noteq> zero_id
     \<and> auth_verify auth StoreHeader [store_magic store] (drop 32 h) = Ok ()"

definition good_records :: "authenticator \<Rightarrow> string \<Rightarrow> stored_record list \<Rightarrow> bool" where
  "good_records auth store rs \<longleftrightarrow>
     list_all (valid_record auth store) rs \<and> distinct (map job_of rs) \<and> length rs \<le> max_records"

definition holds :: "authenticator \<Rightarrow> string \<Rightarrow> string \<Rightarrow> stored_record list \<Rightarrow> bool" where
  "holds auth store file rs \<longleftrightarrow> good_records auth store rs
     \<and> (\<exists>h. valid_header auth store h \<and> file = h @ concat (map record_bytes rs))"

text \<open>The ciphertext of the record with the job of the binding, which must be that binding's.\<close>

definition fits :: "artifact_binding option \<Rightarrow> stored_record list \<Rightarrow> bool" where
  "fits expected rs \<longleftrightarrow> (\<forall>e. expected = Some e \<longrightarrow> (\<forall>r \<in> set rs. job_of r = binding_job e \<longrightarrow> fst r = e))"

definition found_in :: "artifact_binding option \<Rightarrow> stored_record list \<Rightarrow> string option" where
  "found_in expected rs = (case expected of
       None \<Rightarrow> None
     | Some e \<Rightarrow> map_option (fst \<circ> snd) (find (\<lambda>r. job_of r = binding_job e) rs))"

lemma found_in_None [simp]: "found_in None rs = None"
  by (simp add: found_in_def)

lemma valid_encoded: "valid_record auth store r \<Longrightarrow> length (b_encoded (fst r)) = 88"
  by (cases r) (auto dest: binding_decode_keeps)

lemma record_header_length: "length (b_encoded b) = 88 \<Longrightarrow> length (record_header b ct) = record_header_bytes"
  by (simp add: record_header_def limit_defs)

lemma record_bytes_nonempty [simp]: "record_bytes r \<noteq> []"
  by (cases r) (simp add: record_header_def)

lemma record_bytes_inject:
  assumes "valid_record auth store r" and "valid_record auth store r'"
    and "record_bytes r @ xs = record_bytes r' @ ys"
  shows "r = r' \<and> xs = ys"
proof -
  obtain b ct t b' ct' t' where [simp]: "r = (b, ct, t)" "r' = (b', ct', t')" by (cases r, cases r')
  have len: "length (b_encoded b) = 88" "length (b_encoded b') = 88" "length t = length t'"
    using assms(1,2) valid_encoded [OF assms(1)] valid_encoded [OF assms(2)] by simp_all
  with assms(3) have b: "b_encoded b = b_encoded b'" "u64_be (length ct) = u64_be (length ct')"
    and r: "ct @ t @ xs = ct' @ t' @ ys" by (simp_all add: record_header_def)
  from arg_cong [OF b(2), of u64_of_be] assms(1,2) have "length ct = length ct'" by (simp add: limit_defs)
  with r len(3) b(1) show ?thesis by simp
qed

lemma records_prefix:
  assumes "concat (map record_bytes xs) @ rest = concat (map record_bytes rs)"
    and "list_all (valid_record auth store) xs" and "list_all (valid_record auth store) rs"
  shows "\<exists>ys. rs = xs @ ys \<and> rest = concat (map record_bytes ys)"
  using assms
proof (induction xs arbitrary: rs)
  case (Cons x xs)
  from Cons.prems(1) obtain r rs' where rs: "rs = r # rs'" by (cases rs) auto
  with Cons.prems have "x = r" "concat (map record_bytes xs) @ rest = concat (map record_bytes rs')"
    using record_bytes_inject [of auth store x r] by simp_all
  with Cons.IH [of rs'] Cons.prems rs show ?case by simp
qed simp

lemma holds_extends:
  assumes "holds auth store file rs" and "holds auth store (file @ ext) rs'"
  shows "\<exists>ys. rs' = rs @ ys \<and> ext = concat (map record_bytes ys)"
proof -
  from assms obtain h h' where "length h = length h'" "file = h @ concat (map record_bytes rs)"
    "file @ ext = h' @ concat (map record_bytes rs')" by (auto simp: holds_def valid_header_def)
  then have "concat (map record_bytes rs) @ ext = concat (map record_bytes rs')" by simp
  with assms show ?thesis by (intro records_prefix) (auto simp: holds_def good_records_def)
qed

lemma holds_unique:
  assumes "holds auth store file rs" and "holds auth store file rs'"
  shows "rs' = rs"
proof -
  from holds_extends [OF assms(1), of "[]" rs'] assms(2) obtain ys where
    ys: "rs' = rs @ ys" "concat (map record_bytes ys) = []" by auto
  then show ?thesis by (cases ys) simp_all
qed

section \<open>Reading under a fixed file\<close>

definition stored :: "('w \<Rightarrow> string) \<Rightarrow> string \<Rightarrow> string \<Rightarrow> bool \<Rightarrow> 'w record_store \<Rightarrow> bool" where
  "stored contents file store uncertain s \<longleftrightarrow>
     contents (rs_world s) = file \<and> rs_id s = store \<and> rs_uncertain s = uncertain"

text \<open>
  Steps that leave the invariant \<open>I\<close> alone and learn a pure fact. \<open>C\<close> is a condition under
  which the step may not fail.
\<close>

definition learns ::
    "('s \<Rightarrow> bool) \<Rightarrow> bool \<Rightarrow> ('s, 'e, 'a) eff \<Rightarrow> ('a \<Rightarrow> bool) \<Rightarrow> bool" where
  "learns I C m K \<longleftrightarrow> meets I m (\<lambda>x s. I s \<and> K x) (\<lambda>_ s. I s \<and> \<not> C)"

lemma learnsD:
  assumes "learns I C m K" and "I s" and "m s = (x, s')"
  shows "case x of Inr y \<Rightarrow> I s' \<and> K y | Inl _ \<Rightarrow> I s' \<and> \<not> C"
proof -
  have "case m s of (Inr x, s') \<Rightarrow> I s' \<and> K x | (Inl e, s') \<Rightarrow> I s' \<and> \<not> C"
    using assms(1,2) by (simp add: learns_def meets_def)
  then show ?thesis by (cases x) (simp_all add: assms(3))
qed

lemma learns_seq:
  assumes "learns I C m J" and "\<And>x. J x \<Longrightarrow> learns I C (f x) K"
  shows "learns I C (seq m f) K"
  unfolding learns_def
proof (rule meets_seq [OF assms(1) [unfolded learns_def]])
  fix x
  show "meets (\<lambda>s. I s \<and> J x) (f x) (\<lambda>x s. I s \<and> K x) (\<lambda>_ s. I s \<and> \<not> C)"
    using assms(2) [of x] by (cases "J x") (simp_all add: learns_def meets_def)
qed

lemma learns_give: "K x \<Longrightarrow> learns I C (give x) K"
  by (simp add: learns_def meets_def give_def)

lemma learns_refuse: "(b \<Longrightarrow> \<not> C) \<Longrightarrow> learns I C (refuse b e) (\<lambda>_. \<not> b)"
  by (simp add: learns_def meets_def refuse_def raise_def give_def)

lemma learns_returned: "(C \<Longrightarrow> is_ok r) \<Longrightarrow> learns I C (returned r) (\<lambda>x. r = Ok x)"
  by (cases r) (auto simp: learns_def meets_def returned_def)

lemma learns_weaken: "learns I C m J \<Longrightarrow> (\<And>x. J x \<Longrightarrow> K x) \<Longrightarrow> learns I C m K"
  unfolding learns_def by (erule meets_weaken) simp_all

lemma learns_get: "(\<And>s. I s \<Longrightarrow> f s = x) \<Longrightarrow> learns I C (get f) (\<lambda>y. y = x)"
  by (simp add: learns_def meets_def get_def)

lemma learns_port:
  assumes "\<And>w r w'. f w = (r, w') \<Longrightarrow> contents w = file
    \<Longrightarrow> contents w' = file \<and> (case r of Inr x \<Rightarrow> K x | Inl e \<Rightarrow> \<not> C)"
  shows "learns (stored contents file store u) C (port f) K"
  unfolding learns_def meets_def
proof (intro allI impI)
  fix s assume s: "stored contents file store u s"
  obtain r w where f: "f (rs_world s) = (r, w)" by (cases "f (rs_world s)")
  from assms [OF f] s show "case port f s of (Inr x, s') \<Rightarrow> stored contents file store u s' \<and> K x
      | (Inl e, s') \<Rightarrow> stored contents file store u s' \<and> \<not> C"
    by (cases r) (simp_all add: port_def f stored_def)
qed

lemma learns_caught: "learns I False m K \<Longrightarrow> learns I False (caught m) (\<lambda>_. True)"
  unfolding learns_def meets_def caught_def by (fastforce split: prod.splits sum.splits)

lemma honest_reads:
  assumes "honest_file ports contents"
  shows "work_check ports w = (n, w') \<Longrightarrow> contents w' = contents w"
    "io_size ports w = (r, w') \<Longrightarrow> contents w' = contents w \<and> (\<forall>n. r = Ok n \<longrightarrow> n = length (contents w))"
    "io_read_at ports offset k w = (x, w') \<Longrightarrow> contents w' = contents w
       \<and> (\<forall>bs. x = Ok bs \<longrightarrow> offset + k \<le> length (contents w) \<and> bs = take k (drop offset (contents w)))"
    "io_synchronize ports w = (y, w') \<Longrightarrow> contents w' = contents w"
  using assms unfolding honest_file_def by blast+

lemma healthy_ok:
  assumes "healthy ports contents"
  shows "work_check ports w \<noteq> (Err m, w')" "io_size ports w \<noteq> (Err e, w')" "io_synchronize ports w \<noteq> (Err e, w')"
    "offset + n \<le> length (contents w) \<Longrightarrow> io_read_at ports offset n w \<noteq> (Err e, w')"
    "io_append ports (length (contents w)) bs w \<noteq> (Err e, w')"
  using assms unfolding healthy_def by (metis fst_conv is_ok.simps(1))+

lemma learns_checked:
  assumes "honest_file ports contents" and "C \<Longrightarrow> healthy ports contents"
  shows "learns (stored contents file store u) C (checked ports) (\<lambda>_. True)"
  unfolding checked_def
proof (rule learns_port)
  fix w r w' assume r: "(case work_check ports w of (r, w) \<Rightarrow> (map_err backup_error_of r, w)) = (r, w')" "contents w = file"
  obtain n v where "work_check ports w = (n, v)" by (cases "work_check ports w")
  with r honest_reads(1) [OF assms(1)] assms(2) healthy_ok(1) [of ports contents w]
  show "contents w' = file \<and> (case r of Inr x \<Rightarrow> True | Inl e \<Rightarrow> \<not> C)" by (cases n) (auto, metis)
qed

lemma learns_size:
  assumes "honest_file ports contents" and "C \<Longrightarrow> healthy ports contents"
  shows "learns (stored contents file store u) C (port (io_size ports)) (\<lambda>n. n = length file)"
  by (rule learns_port)
     (use assms honest_reads(2) [OF assms(1)] healthy_ok(2) [of ports contents] in \<open>fastforce split: sum.splits\<close>)

lemma learns_synchronize:
  assumes "honest_file ports contents" and "C \<Longrightarrow> healthy ports contents"
  shows "learns (stored contents file store u) C (port (io_synchronize ports)) (\<lambda>_. True)"
  by (rule learns_port)
     (use assms honest_reads(4) [OF assms(1)] healthy_ok(3) [of ports contents] in \<open>fastforce split: sum.splits\<close>)

lemma learns_read_at:
  assumes "honest_file ports contents" and "C \<Longrightarrow> healthy ports contents" and "C \<Longrightarrow> offset + n \<le> length file"
  shows "learns (stored contents file store u) C (port (io_read_at ports offset n))
    (\<lambda>bs. offset + n \<le> length file \<and> bs = take n (drop offset file))"
  by (rule learns_port)
     (use assms honest_reads(3) [OF assms(1)] healthy_ok(4) [of ports contents] in \<open>fastforce split: sum.splits\<close>)


lemma filled_exact [simp]: "length bs = n \<Longrightarrow> filled n bs = bs"
  by (simp add: filled_def)

lemma spans_sum: "sum_list (spans n) = n"
proof (induction n rule: spans.induct)
  case (1 n)
  then show ?case by (subst spans.simps) (auto simp: min_def)
qed

lemma learns_spans:
  assumes "honest_file ports contents" and "C \<Longrightarrow> healthy ports contents"
    and "C \<Longrightarrow> offset + sum_list ns \<le> length file"
  shows "learns (stored contents file store u) C (read_spans ports ns offset)
    (\<lambda>bs. (ns \<noteq> [] \<longrightarrow> offset + sum_list ns \<le> length file) \<and> bs = take (sum_list ns) (drop offset file))"
  using assms(3)
proof (induction ns arbitrary: offset)
  case (Cons n ns)
  show ?case
    unfolding read_spans.simps
    by (rule learns_seq learns_checked [OF assms(1,2)] learns_read_at [OF assms(1,2)] Cons.IH
        | (use Cons.prems in \<open>simp add: add.assoc\<close>; fail))+
       (auto intro!: learns_give simp: take_add add.commute)
qed (simp add: learns_give)

lemma learns_read:
  assumes "honest_file ports contents" and "C \<Longrightarrow> healthy ports contents" and "0 < n"
    and "C \<Longrightarrow> offset + n \<le> length file"
  shows "learns (stored contents file store u) C (store_read ports offset n)
    (\<lambda>bs. offset + n \<le> length file \<and> bs = take n (drop offset file))"
proof -
  have "spans n \<noteq> []" using assms(3) by (subst spans.simps) simp
  with learns_spans [OF assms(1,2), of C offset "spans n" "file" store u] assms(4) show ?thesis
    by (auto simp: store_read_def spans_sum)
qed

text \<open>The records read so far, and what remains of the file.\<close>

definition read_upto ::
    "authenticator \<Rightarrow> string \<Rightarrow> string \<Rightarrow> artifact_binding option \<Rightarrow> scan_state \<Rightarrow> stored_record list \<Rightarrow> bool" where
  "read_upto auth store file expected = (\<lambda>(position, jobs, matched) rs.
     good_records auth store rs \<and> fits expected rs \<and> matched = found_in expected rs
     \<and> jobs = rev (map job_of rs) \<and> position \<le> length file
     \<and> (\<exists>h. valid_header auth store h \<and> take position file = h @ concat (map record_bytes rs)))"

definition next_record :: "authenticator \<Rightarrow> string \<Rightarrow> artifact_binding option \<Rightarrow> string list \<Rightarrow> string \<Rightarrow> stored_record \<Rightarrow> bool" where
  "next_record auth store expected jobs rest r \<longleftrightarrow>
     valid_record auth store r \<and> prefix (record_bytes r) rest \<and> job_of r \<notin> set jobs \<and> length jobs < max_records
     \<and> fits expected [r]"

lemma next_record_exists:
  assumes "read_upto auth store file expected (position, jobs, matched) seen_so_far" and "position < length file"
    and "holds auth store file rs" and "fits expected rs"
  shows "\<exists>r. next_record auth store expected jobs (drop position file) r"
proof -
  from assms(1) obtain h where h: "valid_header auth store h" "take position file = h @ concat (map record_bytes seen_so_far)"
    and d: "good_records auth store seen_so_far" "jobs = rev (map job_of seen_so_far)" by (auto simp: read_upto_def)
  from assms(3) obtain h' where h': "valid_header auth store h'" "file = h' @ concat (map record_bytes rs)"
    and rs: "good_records auth store rs" by (auto simp: holds_def)
  have "h @ concat (map record_bytes seen_so_far) @ drop position file = h' @ concat (map record_bytes rs)"
    using h(2) h'(2) append_take_drop_id [of position "file"] by (metis append.assoc)
  with h(1) h'(1) have "concat (map record_bytes seen_so_far) @ drop position file = concat (map record_bytes rs)"
    by (simp add: valid_header_def)
  then obtain ys where ys: "rs = seen_so_far @ ys" "drop position file = concat (map record_bytes ys)"
    using records_prefix d(1) rs unfolding good_records_def by blast
  with assms(2) obtain r ys' where "ys = r # ys'" by (cases ys) auto
  with ys rs d assms(4) show ?thesis
    by (intro exI [of _ r]) (auto simp: next_record_def good_records_def fits_def)
qed


lemma record_header_parts:
  assumes "length (b_encoded b) = 88"
  shows "take 8 (record_header b ct) = ''OMCPBK01''" "part 8 96 (record_header b ct) = b_encoded b"
    "drop 96 (record_header b ct) = u64_be (length ct)"
  using assms by (simp_all add: record_header_def part_def)

lemma record_header_unparts:
  assumes "length h = 104" and "take 8 h = ''OMCPBK01''" and "part 8 96 h = b_encoded b"
    and "u64_of_be (drop 96 h) = length ct"
  shows "h = record_header b ct"
proof -
  have "h = take 8 h @ part 8 96 h @ drop 96 h"
    using part_join [of 8 96 h] assms(1) append_take_drop_id [of 8 h] by simp
  moreover have "drop 96 h = u64_be (length ct)" using assms(1,4) u64_be_of_be [of "drop 96 h"] by simp
  ultimately show ?thesis unfolding record_header_def using assms(2,3) by metis
qed

lemma next_record_reads:
  assumes "next_record auth store expected jobs rest (b, ct, t)"
  shows "take 104 rest = record_header b ct" "length (b_encoded b) = 88"
    "take (length ct) (drop 104 rest) = ct" "take 32 (drop (104 + length ct) rest) = t"
    "136 + length ct \<le> length rest"
proof -
  from assms obtain tail where r: "rest = record_header b ct @ ct @ t @ tail" and t: "length t = 32"
    and l: "length (b_encoded b) = 88"
    using valid_encoded [of auth store "(b, ct, t)"] by (auto simp: next_record_def limit_defs elim!: prefixE)
  have "length (record_header b ct) = 104" using record_header_length [OF l] by (simp add: limit_defs)
  with r t l show "take 104 rest = record_header b ct" "length (b_encoded b) = 88"
    "take (length ct) (drop 104 rest) = ct" "take 32 (drop (104 + length ct) rest) = t"
    "136 + length ct \<le> length rest" by simp_all
qed

lemma find_snoc: "find P (xs @ [x]) = (case find P xs of None \<Rightarrow> if P x then Some x else None | Some y \<Rightarrow> Some y)"
  by (induction xs) simp_all

lemma found_in_snoc:
  assumes "binding_job b \<notin> job_of ` set rs"
  shows "found_in expected (rs @ [(b, ct, t)]) = (case expected of
     None \<Rightarrow> None
   | Some e \<Rightarrow> if binding_job e = binding_job b then Some ct else found_in expected rs)"
proof (cases expected)
  case (Some e)
  have "find (\<lambda>r. job_of r = binding_job b) rs = None"
    using assms unfolding find_None_iff by (metis imageI)
  then show ?thesis by (simp add: Some found_in_def find_snoc job_of_def [of "(b, ct, t)"] split: option.split)
qed (simp add: found_in_def)

lemma learns_matching:
  assumes "C \<Longrightarrow> fits expected [(b, ct', t')]"
  shows "learns I C (matching expected b ct matched) (\<lambda>m. (\<forall>ct t. fits expected [(b, ct, t)])
    \<and> m = (case expected of None \<Rightarrow> matched | Some e \<Rightarrow> if binding_job e = binding_job b then Some ct else matched))"
  using assms by (cases expected)
    (auto simp: matching_def fits_def job_of_def intro!: learns_give learns_seq [OF learns_refuse])

lemma read_upto_snoc:
  assumes "read_upto auth store file expected (position, jobs, matched) rs"
    and "length jobs < max_records" and "binding_job b \<notin> set jobs" and "valid_record auth store (b, ct, t)"
    and "drop position file = record_bytes (b, ct, t) @ tail" and "fits expected [(b, ct, t)]"
  shows "read_upto auth store file expected
    (position + 136 + length ct, binding_job b # jobs,
     case expected of None \<Rightarrow> matched | Some e \<Rightarrow> if binding_job e = binding_job b then Some ct else matched)
    (rs @ [(b, ct, t)])"
proof -
  let ?r = "(b, ct, t)"
  have len: "length (record_bytes ?r) = 136 + length ct"
    using assms(4) record_header_length [of b ct] valid_encoded [OF assms(4)] by (simp add: limit_defs)
  from assms(1) obtain h where h: "valid_header auth store h" "take position file = h @ concat (map record_bytes rs)"
    and p: "position \<le> length file" "good_records auth store rs" "fits expected rs" "matched = found_in expected rs"
      "jobs = rev (map job_of rs)" by (auto simp: read_upto_def)
  have "take (position + (136 + length ct)) file = take position file @ record_bytes ?r"
    unfolding take_add assms(5) len [symmetric] by (simp del: record_bytes.simps)
  moreover have "position + (136 + length ct) \<le> length file"
    using arg_cong [OF assms(5), of length] len p(1) by simp
  moreover have "binding_job b \<notin> job_of ` set rs" using assms(3) p(5) by auto
  moreover have "good_records auth store (rs @ [?r])"
    using assms(2,4) p(2,5) \<open>binding_job b \<notin> job_of ` set rs\<close> by (auto simp: good_records_def job_of_def [of ?r])
  moreover have "fits expected (rs @ [?r])" using assms(6) p(3) by (auto simp: fits_def)
  ultimately show ?thesis
    using h p by (auto simp: read_upto_def found_in_snoc job_of_def [of ?r] add.assoc split: option.split)
qed


lemma record_accepted:
  assumes upto: "read_upto auth store file expected (position, jobs, matched) rs"
    and h: "h = take 104 (drop position file)" "take 8 h = ''OMCPBK01''" "binding_decode (part 8 96 h) = Ok b"
    and n: "n = u64_of_be (drop 96 h)" "1 \<le> n" "n \<le> max_ciphertext" "n + 136 \<le> length file - position"
    and j: "binding_store b = store" "binding_job b \<notin> set jobs" "length jobs < max_records"
    and c: "c = take n (drop (position + 104) file)" "t = take 32 (drop (position + 104 + n) file)"
    and ok: "auth_verify auth ArtifactRecord [h, c] t = Ok ()" "fits expected [(b, c, t)]"
  shows "\<exists>r. read_upto auth store file expected
    (position + 136 + n, binding_job b # jobs,
     case expected of None \<Rightarrow> matched | Some e \<Rightarrow> if binding_job e = binding_job b then Some c else matched)
    (rs @ [r])"
proof -
  have p: "position \<le> length file" using upto by (simp add: read_upto_def)
  have len: "length c = n" "length t = 32" "length h = 104" using p n(4) c h(1) by simp_all
  have b: "b_encoded b = part 8 96 h" using binding_decode_keeps [OF h(3)] by simp
  have hd: "h = record_header b c" using record_header_unparts [OF len(3) h(2)] b n(1) len(1) by simp
  have "drop position file = h @ drop (position + 104) file"
    using append_take_drop_id [of 104 "drop position file"] h(1) by (simp add: ac_simps)
  also have "drop (position + 104) file = c @ drop (position + 104 + n) file"
    using append_take_drop_id [of n "drop (position + 104) file"] c(1) by (simp add: ac_simps)
  also have "drop (position + 104 + n) file = t @ drop (position + 136 + n) file"
    using append_take_drop_id [of 32 "drop (position + 104 + n) file"] c(2) by (simp add: ac_simps)
  finally have "drop position file = record_bytes (b, c, t) @ drop (position + 136 + n) file"
    by (simp flip: hd)
  moreover have "valid_record auth store (b, c, t)"
    using h(3) b j(1) n(2,3) len ok(1) hd by (simp add: limit_defs)
  ultimately show ?thesis
    using read_upto_snoc [OF upto j(3,2) _ _ ok(2)] len(1) by auto
qed

lemma learns_scan_record:
  assumes honest: "honest_file ports contents"
    and upto: "read_upto auth store file expected (position, jobs, matched) rs"
    and health: "C \<Longrightarrow> healthy ports contents"
    and coming: "C \<Longrightarrow> next_record auth store expected jobs (drop position file) (b, ct, t)"
  shows "learns (stored contents file store u) C
    (scan_record ports auth expected (length file) (position, jobs, matched))
    (\<lambda>acc. \<exists>r. read_upto auth store file expected acc (rs @ [r]))"
proof -
  note reads = next_record_reads [OF coming]
  have valid: "C \<Longrightarrow> valid_record auth store (b, ct, t)" "C \<Longrightarrow> job_of (b, ct, t) \<notin> set jobs"
    "C \<Longrightarrow> length jobs < max_records" "C \<Longrightarrow> fits expected [(b, ct, t)]" using coming by (simp_all add: next_record_def)
  have p: "position \<le> length file" using upto by (simp add: read_upto_def)
  have magic: "C \<Longrightarrow> take 8 (drop position file) = ''OMCPBK01''"
    using arg_cong [OF reads(1), of "take 8"] reads(2) record_header_parts(1) [of b ct] by simp
  have parts: "C \<Longrightarrow> binding_decode (part 8 96 (take 104 (drop position file))) = Ok b"
    "C \<Longrightarrow> u64_of_be (drop 96 (take 104 (drop position file))) = length ct"
    using valid(1) reads(1,2) record_header_parts [of b ct] by (simp_all add: limit_defs)
  show ?thesis
    unfolding scan_record_def prod.case Let_def
    apply (rule learns_seq [OF learns_refuse])
    subgoal using reads(5) valid(3) p by (auto simp: limit_defs)
    apply (rule learns_seq [OF learns_read [OF honest health]])
    subgoal by simp
    subgoal by (simp add: limit_defs)
    subgoal using reads(5) p by (simp add: limit_defs)
    apply (rule learns_seq [OF learns_refuse])
    subgoal using magic by (auto simp: limit_defs)
    apply (rule learns_seq [OF learns_returned])
    subgoal using parts(1) by (auto simp: limit_defs)
    apply (rule learns_seq [OF learns_get [of _ _ store]])
    subgoal by (simp add: stored_def)
    apply (rule learns_seq [OF learns_refuse])
    subgoal using parts valid(1,2) reads(5) p by (auto simp: limit_defs job_of_def)
    apply (rule learns_seq [OF learns_read [OF honest health]])
    subgoal by simp
    subgoal by auto
    subgoal using parts(2) reads(5) p by (auto simp: limit_defs)
    apply (rule learns_seq [OF learns_read [OF honest health]])
    subgoal by simp
    subgoal by (simp add: limit_defs)
    subgoal using parts(2) reads(5) p by (auto simp: limit_defs)
    apply (rule learns_seq [OF learns_returned])
    subgoal using parts(2) reads valid(1) p by (auto simp: limit_defs ac_simps)
    apply (rule learns_seq [OF learns_checked [OF honest health]])
    subgoal by simp
    apply (rule learns_seq [OF learns_matching [where ct' = ct and t' = t]])
    subgoal using parts(1) valid(4) by (auto simp: limit_defs)
    apply (rule learns_give)
    subgoal premises facts for _ header _ binding id _ ciphertext tag _ _ found
    proof -
      let ?n = "u64_of_be (drop 96 header)"
      have h: "header = take 104 (drop position file)" "take 8 header = ''OMCPBK01''"
        "binding_decode (part 8 96 header) = Ok binding" using facts(2-4) by (auto simp: limit_defs)
      have n: "1 \<le> ?n" "?n \<le> max_ciphertext" "?n + 136 \<le> length file - position"
        and j: "binding_store binding = store" "binding_job binding \<notin> set jobs" "length jobs < max_records"
        using facts(1,5,6) by (auto simp: limit_defs)
      have c: "ciphertext = take ?n (drop (position + 104) file)" "tag = take 32 (drop (position + 104 + ?n) file)"
        using facts(7,8) by (auto simp: limit_defs)
      have ok: "auth_verify auth ArtifactRecord [header, ciphertext] tag = Ok ()"
        "fits expected [(binding, ciphertext, tag)]" using facts(9,11) by auto
      from record_accepted [OF upto h refl n j c ok] facts(11) show ?thesis by (simp add: limit_defs)
    qed
    done
qed


lemma learns_scan_loop:
  assumes honest: "honest_file ports contents" and health: "C \<Longrightarrow> healthy ports contents"
    and whole: "C \<Longrightarrow> \<exists>rs. holds auth store file rs \<and> fits expected rs"
    and "read_upto auth store file expected (position, jobs, matched) rs"
  shows "learns (stored contents file store u) C
    (scan_loop ports auth expected (length file) (position, jobs, matched))
    (\<lambda>acc. length file \<le> fst acc \<and> (\<exists>rs. read_upto auth store file expected acc rs))"
  using assms(4)
proof (induction "max_records - length jobs" arbitrary: position jobs matched rs rule: less_induct)
  case less
  show ?case
  proof (cases "position < length file")
    case True
    obtain b ct t where r: "C \<Longrightarrow> next_record auth store expected jobs (drop position file) (b, ct, t)"
    proof (cases C)
      case C: True
      with whole next_record_exists [OF less.prems True] that show thesis by (metis prod.exhaust)
    qed (use that in blast)
    have step: "learns (stored contents file store u) C
      (scan_record ports auth expected (length file) (position, jobs, matched))
      (\<lambda>acc. \<exists>r. read_upto auth store file expected acc (rs @ [r]))"
      by (rule learns_scan_record [OF honest less.prems health r])
    have rest: "learns (stored contents file store u) C (scan_loop ports auth expected (length file) acc)
        (\<lambda>acc. length file \<le> fst acc \<and> (\<exists>rs. read_upto auth store file expected acc rs))"
      if "\<exists>r. read_upto auth store file expected acc (rs @ [r])" for acc
    proof -
      obtain position' jobs' matched' where acc: "acc = (position', jobs', matched')" by (cases acc)
      from that acc obtain r where r: "read_upto auth store file expected (position', jobs', matched') (rs @ [r])" by auto
      then have "length jobs' \<le> max_records" "length jobs' = Suc (length jobs)"
        using less.prems by (auto simp: read_upto_def good_records_def)
      then show ?thesis unfolding acc by (intro less.hyps [OF _ r]) simp
    qed
    show ?thesis unfolding scan_loop.simps if_P [OF True] by (rule learns_seq [OF step rest])
  next
    case False
    with less.prems show ?thesis by (subst scan_loop.simps) (auto intro: learns_give)
  qed
qed

lemma record_bytes_length: "valid_record auth store r \<Longrightarrow> length (record_bytes r) \<le> 136 + max_ciphertext"
  using record_header_length [of "fst r" "fst (snd r)"] valid_encoded [of auth store r]
  by (cases r) (simp add: limit_defs)

lemma holds_size:
  assumes "holds auth store file rs"
  shows "header_bytes \<le> length file \<and> length file \<le> max_store_bytes"
proof -
  from assms obtain h where h: "length h = 64" "file = h @ concat (map record_bytes rs)"
    and rs: "list_all (valid_record auth store) rs" "length rs \<le> 32"
    by (auto simp: holds_def good_records_def valid_header_def limit_defs)
  have "length (concat (map record_bytes rs)) \<le> length rs * (136 + max_ciphertext)"
    using rs(1)
  proof (induction rs)
    case (Cons r rs)
    then show ?case using record_bytes_length [of auth store r] by simp
  qed simp
  also have "\<dots> \<le> 32 * (136 + max_ciphertext)" using rs(2) by (rule mult_le_mono1)
  finally show ?thesis using h by (simp add: limit_defs)
qed

definition scanned ::
    "authenticator \<Rightarrow> string \<Rightarrow> string \<Rightarrow> artifact_binding option \<Rightarrow> stored_record list \<Rightarrow> bool" where
  "scanned auth store file expected rs \<longleftrightarrow> holds auth store file rs \<and> fits expected rs
     \<and> (\<forall>b. expected = Some b \<longrightarrow> binding_store b = store)"

lemma header_start:
  assumes "h = take 64 file" and "64 \<le> length file" and "take 8 h = ''OMCPST01''" and "part 8 24 h = store"
    and "part 24 32 h = ''recd0001''" and "store \<noteq> zero_id"
    and "auth_verify auth StoreHeader [take 32 h] (drop 32 h) = Ok ()"
  shows "read_upto auth store file expected (header_bytes, [], None) []"
proof -
  have l: "length h = 64" using assms(1,2) by simp
  then have "length store = 16" using assms(4) by auto
  moreover have "take 32 h = take 8 h @ part 8 24 h @ part 24 32 h"
    using l by (simp add: part_def take_add [of 8 16, simplified] take_add [of 24 8, simplified] flip: append_assoc)
  then have "take 32 h = store_magic store" using assms(3-5) by (simp add: store_magic_def)
  ultimately have "valid_header auth store h" using assms(6,7) l by (simp add: valid_header_def limit_defs)
  with assms(1,2) show ?thesis
    by (cases expected) (auto simp: read_upto_def good_records_def fits_def found_in_def limit_defs)
qed


lemma part_take: "b \<le> n \<Longrightarrow> part a b (take n bs) = part a b bs"
  by (simp add: part_def drop_take min_def)

lemma magic_parts:
  assumes "length store = 16"
  shows "take 8 (store_magic store) = ''OMCPST01''" "part 8 24 (store_magic store) = store"
    "part 24 32 (store_magic store) = ''recd0001''"
  using assms by (simp_all add: store_magic_def part_def)

lemma learns_scan:
  assumes honest: "honest_file ports contents" and health: "C \<Longrightarrow> healthy ports contents"
    and whole: "C \<Longrightarrow> \<exists>rs. scanned auth store file expected rs"
  shows "learns (stored contents file store u) C (scan ports auth expected)
    (\<lambda>found. \<exists>rs. scanned auth store file expected rs
      \<and> found = \<lparr>sn_size = length file, sn_count = length rs, sn_matched = found_in expected rs\<rparr>)"
proof -
  have sz: "C \<Longrightarrow> header_bytes \<le> length file \<and> length file \<le> max_store_bytes"
    and sd: "C \<Longrightarrow> \<exists>rs. holds auth store file rs \<and> fits expected rs"
    and st: "C \<Longrightarrow> expected = Some b \<Longrightarrow> binding_store b = store" for b
    using whole holds_size by (auto simp: scanned_def)
  from sd have hd: "C \<Longrightarrow> valid_header auth store (take 64 file)"
    by (fastforce simp: holds_def valid_header_def limit_defs)
  then have hp: "C \<Longrightarrow> take 32 (take 64 file) = store_magic store" "C \<Longrightarrow> length store = 16"
    by (simp_all add: valid_header_def)
  have parts: "C \<Longrightarrow> take 8 file = ''OMCPST01''" "C \<Longrightarrow> part 8 24 (take 64 file) = store"
    "C \<Longrightarrow> part 24 32 (take 64 file) = ''recd0001''"
    using arg_cong [OF hp(1), of "take 8"] arg_cong [OF hp(1), of "part 8 24"] arg_cong [OF hp(1), of "part 24 32"] hp(2)
    by (simp_all add: part_take magic_parts)
  show ?thesis
    unfolding scan_def
    apply (rule learns_seq [OF learns_checked [OF honest health]])
    subgoal by simp
    apply (rule learns_seq [OF learns_size [OF honest health]])
    subgoal by simp
    apply (rule learns_seq [OF learns_refuse])
    subgoal using sz by auto
    apply (rule learns_seq [OF learns_get [of _ _ store]])
    subgoal by (simp add: stored_def)
    apply (rule learns_seq [OF learns_refuse])
    subgoal using st by (auto split: option.splits)
    apply (rule learns_seq [OF learns_read [OF honest health]])
    subgoal by simp
    subgoal by (simp add: limit_defs)
    subgoal using sz by simp
    apply (rule learns_seq [OF learns_refuse])
    subgoal using parts hd by (auto simp: valid_header_def limit_defs)
    apply (rule learns_seq [OF learns_returned])
    subgoal using hd by (auto simp: valid_header_def limit_defs)
    apply (rule learns_seq [OF learns_checked [OF honest health]])
    subgoal by simp
    subgoal premises facts for _ sz _ id _ header _ _ _
    proof -
      have n: "sz = length file" "id = store" using facts(2,4) by auto
      have start: "read_upto auth store file expected (header_bytes, [], None) []"
        by (rule header_start [of header]) (use facts n in \<open>auto simp: limit_defs\<close>)
      have exp: "\<forall>b. expected = Some b \<longrightarrow> binding_store b = store" using facts(5) n by (auto split: option.splits)
      show ?thesis
        unfolding n
      proof (rule learns_seq [OF learns_scan_loop [OF honest health sd start]])
        fix acc assume "length file \<le> fst acc \<and> (\<exists>rs. read_upto auth store file expected acc rs)"
        then obtain position jobs matched rs where acc: "acc = (position, jobs, matched)" "length file \<le> position"
          and r: "read_upto auth store file expected (position, jobs, matched) rs" by (cases acc) auto
        then have "scanned auth store file expected rs" "length jobs = length rs" "matched = found_in expected rs"
          using exp by (auto simp: scanned_def read_upto_def holds_def)
        then show "learns (stored contents file store u) C
          (case acc of (_, jobs, matched) \<Rightarrow>
            seq (port (io_size ports)) (\<lambda>now.
            seq (refuse (now \<noteq> length file) BE_Integrity) (\<lambda>_.
            seq (checked ports) (\<lambda>_.
            give \<lparr>sn_size = length file, sn_count = length jobs, sn_matched = matched\<rparr>))))
          (\<lambda>found. \<exists>rs. scanned auth store file expected rs
            \<and> found = \<lparr>sn_size = length file, sn_count = length rs, sn_matched = found_in expected rs\<rparr>)"
          unfolding acc(1) prod.case
          by (intro learns_seq [OF learns_size [OF honest health]] learns_seq [OF learns_refuse]
              learns_seq [OF learns_checked [OF honest health]] learns_give) auto
      qed
    qed
    done
qed


section \<open>Publishing\<close>

lemma meets_learn:
  assumes "meets I m (\<lambda>x s. I s \<and> K x) E" and "\<And>x. K x \<Longrightarrow> meets I (f x) Q E"
  shows "meets I (seq m f) Q E"
proof (rule meets_seq [OF assms(1)])
  fix x
  show "meets (\<lambda>s. I s \<and> K x) (f x) Q E"
    using assms(2) [of x] by (cases "K x") (simp_all add: meets_def)
qed

lemma meets_otherwise:
  assumes "learns I C m K" and "\<And>s. I s \<Longrightarrow> \<not> C \<Longrightarrow> E r s"
  shows "meets I (otherwise r m) (\<lambda>x s. I s \<and> K x) E"
  unfolding meets_def
proof (intro allI impI)
  fix s assume "I s"
  obtain x s' where m: "m s = (x, s')" by (cases "m s")
  have "case x of Inr y \<Rightarrow> I s' \<and> K y | Inl _ \<Rightarrow> I s' \<and> \<not> C"
    by (rule learnsD [OF assms(1) \<open>I s\<close> m])
  with assms(2) show "case otherwise r m s of (Inr x, s') \<Rightarrow> I s' \<and> K x | (Inl e, s') \<Rightarrow> E e s'"
    by (cases x) (simp_all add: otherwise_def eff_defs m)
qed

lemma concat_chunks: "concat (chunks bs) = bs"
proof (induction bs rule: chunks.induct)
  case (1 bs)
  then show ?case by (subst chunks.simps) simp
qed

lemma append_meets:
  assumes "honest_file ports contents" and "C \<Longrightarrow> healthy ports contents \<and> position = length file"
  shows "meets (stored contents file store u) (otherwise RP_Unknown (port (io_append ports position c)))
    (\<lambda>_. stored contents (file @ c) store u)
    (\<lambda>r s. r = RP_Unknown \<and> (\<exists>x. stored contents (file @ x) store u s) \<and> \<not> C)"
  unfolding meets_def
proof (intro allI impI)
  fix s assume s: "stored contents file store u s"
  obtain r w where p: "io_append ports position c (rs_world s) = (r, w)" by (cases "io_append ports position c (rs_world s)")
  from assms(1) p have a: "case r of Inr _ \<Rightarrow> position = length (contents (rs_world s)) \<and> contents w = contents (rs_world s) @ c
        | Inl _ \<Rightarrow> \<exists>some. prefix some c \<and> contents w = contents (rs_world s) @ some"
    unfolding honest_file_def by blast
  have "r = Inl e \<Longrightarrow> \<not> C" for e using assms(2) healthy_ok(5) p s by (fastforce simp: stored_def)
  with a p s show "case otherwise RP_Unknown (port (io_append ports position c)) s of
      (Inr x, s') \<Rightarrow> stored contents (file @ c) store u s'
    | (Inl r, s') \<Rightarrow> r = RP_Unknown \<and> (\<exists>x. stored contents (file @ x) store u s') \<and> \<not> C"
    by (cases r) (auto simp: otherwise_def eff_defs port_def stored_def)
qed

definition doubtful :: "('w \<Rightarrow> string) \<Rightarrow> string \<Rightarrow> string \<Rightarrow> bool \<Rightarrow> record_publication \<Rightarrow> 'w record_store \<Rightarrow> bool" where
  "doubtful contents file store C r s \<longleftrightarrow> r = RP_Unknown \<and> (\<exists>x. stored contents (file @ x) store True s) \<and> \<not> C"

lemma doubtful_extend: "doubtful contents (file @ c) store C r s \<Longrightarrow> doubtful contents file store C r s"
  by (auto simp: doubtful_def)

lemma append_chunks_meets:
  assumes "honest_file ports contents"
  shows "(C \<Longrightarrow> healthy ports contents \<and> position = length file) \<Longrightarrow>
    meets (stored contents file store True) (append_chunks ports cs position)
      (\<lambda>p s. stored contents (file @ concat cs) store True s \<and> p = position + length (concat cs))
      (doubtful contents file store C)"
proof (induction cs arbitrary: position "file")
  case Nil
  then show ?case by (simp add: meets_def give_def)
next
  case (Cons c cs)
  have check: "meets (stored contents f store True) (otherwise RP_Unknown (checked ports))
      (\<lambda>_ s. stored contents f store True s \<and> True) (doubtful contents f store C)" for f
    by (rule meets_otherwise [OF learns_checked [OF assms]])
       (use Cons.prems in \<open>auto simp: doubtful_def intro: exI [of _ "[]"]\<close>)
  have put: "meets (stored contents file store True) (otherwise RP_Unknown (port (io_append ports position c)))
      (\<lambda>_. stored contents (file @ c) store True) (doubtful contents file store C)"
    unfolding doubtful_def [abs_def] by (rule append_meets [OF assms Cons.prems])
  have rest: "meets (stored contents (file @ c) store True) (append_chunks ports cs (position + length c))
      (\<lambda>p s. stored contents (file @ concat (c # cs)) store True s \<and> p = position + length (concat (c # cs)))
      (doubtful contents file store C)"
    by (rule meets_weaken [OF Cons.IH [of "position + length c" "file @ c"]])
       (use Cons.prems in \<open>auto intro: doubtful_extend\<close>)
  have later: "meets (stored contents (file @ c) store True)
      (seq (otherwise RP_Unknown (checked ports)) (\<lambda>_. append_chunks ports cs (position + length c)))
      (\<lambda>p s. stored contents (file @ concat (c # cs)) store True s \<and> p = position + length (concat (c # cs)))
      (doubtful contents file store C)"
    by (rule meets_learn [OF meets_weaken [OF check [of "file @ c"]]]) (use rest in \<open>auto intro: doubtful_extend\<close>)
  show ?case
    unfolding append_chunks.simps
    by (rule meets_learn [OF check]) (rule meets_seq [OF put later])
qed


lemma append_record_meets:
  assumes honest: "honest_file ports contents" and health: "C \<Longrightarrow> healthy ports contents"
  shows "meets (stored contents file store u) (append_record ports header ct tag (length file))
    (\<lambda>r s. r = RP_Durable \<and> stored contents (file @ header @ ct @ tag) store False s)
    (doubtful contents file store C)"
proof -
  let ?file = "file @ header @ ct @ tag"
  let ?ends = "\<lambda>r s. r = RP_Durable \<and> stored contents ?file store False s"
  have doubt: "stored contents ?file store True s \<Longrightarrow> \<not> C \<Longrightarrow> doubtful contents file store C RP_Unknown s" for s
    by (auto simp: doubtful_def)
  have finish: "meets (stored contents ?file store True)
      (seq (otherwise RP_Unknown (port (io_size ports))) (\<lambda>now.
       seq (refuse (now \<noteq> length ?file) RP_Unknown) (\<lambda>_.
       seq (otherwise RP_Unknown (port (io_synchronize ports))) (\<lambda>_.
       seq (otherwise RP_Unknown (checked ports)) (\<lambda>_.
       seq (change (\<lambda>s. s\<lparr>rs_uncertain := False\<rparr>)) (\<lambda>_. give RP_Durable))))))
      ?ends (doubtful contents file store C)"
    apply (rule meets_learn [OF meets_otherwise [OF learns_size [where C = C, OF honest]]])
    subgoal by (rule health)
    subgoal by (rule doubt)
    apply (rule meets_learn [where K = "\<lambda>_. True"])
    subgoal by (simp add: refuse_def meets_def give_def)
    apply (rule meets_learn [OF meets_otherwise [OF learns_synchronize [where C = C, OF honest]]])
    subgoal by (rule health)
    subgoal by (rule doubt)
    apply (rule meets_learn [OF meets_otherwise [OF learns_checked [where C = C, OF honest]]])
    subgoal by (rule health)
    subgoal by (rule doubt)
    subgoal by (simp add: meets_def eff_defs stored_def)
    done
  have "meets (stored contents file store True)
      (append_chunks ports (concat (map chunks [header, ct, tag])) (length file))
      (\<lambda>p s. stored contents ?file store True s \<and> p = length ?file) (doubtful contents file store C)"
    by (rule meets_weaken [OF append_chunks_meets [OF honest, of C]]) (auto simp: health concat_chunks)
  from meets_seq [OF this, of "\<lambda>position.
       seq (otherwise RP_Unknown (port (io_size ports))) (\<lambda>now.
       seq (refuse (now \<noteq> position) RP_Unknown) (\<lambda>_.
       seq (otherwise RP_Unknown (port (io_synchronize ports))) (\<lambda>_.
       seq (otherwise RP_Unknown (checked ports)) (\<lambda>_.
       seq (change (\<lambda>s. s\<lparr>rs_uncertain := False\<rparr>)) (\<lambda>_. give RP_Durable)))))" ?ends] finish
  have rest: "meets (stored contents file store True)
      (seq (append_chunks ports (concat (map chunks [header, ct, tag])) (length file)) (\<lambda>position.
       seq (otherwise RP_Unknown (port (io_size ports))) (\<lambda>now.
       seq (refuse (now \<noteq> position) RP_Unknown) (\<lambda>_.
       seq (otherwise RP_Unknown (port (io_synchronize ports))) (\<lambda>_.
       seq (otherwise RP_Unknown (checked ports)) (\<lambda>_.
       seq (change (\<lambda>s. s\<lparr>rs_uncertain := False\<rparr>)) (\<lambda>_. give RP_Durable)))))))
      ?ends (doubtful contents file store C)"
    by (auto simp: meets_def)
  have start: "meets (stored contents file store u) (change (\<lambda>s. s\<lparr>rs_uncertain := True\<rparr>))
      (\<lambda>_. stored contents file store True) (doubtful contents file store C)"
    by (simp add: meets_def eff_defs stored_def)
  show ?thesis unfolding append_record_def by (rule meets_seq [OF start rest])
qed

lemma scan_or_doubt_meets:
  assumes "honest_file ports contents" and "C \<Longrightarrow> healthy ports contents"
    and "C \<Longrightarrow> \<exists>rs. scanned auth store file (Some b) rs"
  shows "meets (stored contents file store u) (scan_or_doubt ports auth b)
    (\<lambda>found s. stored contents file store u s \<and> (\<exists>rs. scanned auth store file (Some b) rs
      \<and> found = \<lparr>sn_size = length file, sn_count = length rs, sn_matched = found_in (Some b) rs\<rparr>))
    (doubtful contents file store C)"
  unfolding meets_def
proof (intro allI impI)
  fix s assume s: "stored contents file store u s"
  obtain x s' where m: "scan ports auth (Some b) s = (x, s')" by (cases "scan ports auth (Some b) s")
  have "case x of
      Inr found \<Rightarrow> stored contents file store u s' \<and> (\<exists>rs. scanned auth store file (Some b) rs
        \<and> found = \<lparr>sn_size = length file, sn_count = length rs, sn_matched = found_in (Some b) rs\<rparr>)
    | Inl _ \<Rightarrow> stored contents file store u s' \<and> \<not> C"
    by (rule learnsD [OF learns_scan [where C = C, OF assms] s m])
  then show "case scan_or_doubt ports auth b s of
      (Inr found, s') \<Rightarrow> stored contents file store u s' \<and> (\<exists>rs. scanned auth store file (Some b) rs
        \<and> found = \<lparr>sn_size = length file, sn_count = length rs, sn_matched = found_in (Some b) rs\<rparr>)
    | (Inl r, s') \<Rightarrow> doubtful contents file store C r s'"
    by (cases x) (auto simp: scan_or_doubt_def eff_defs m stored_def doubtful_def)
qed

text \<open>What is known after a publication, by its outcome.\<close>

definition settled ::
    "('w \<Rightarrow> string) \<Rightarrow> authenticator \<Rightarrow> string \<Rightarrow> string \<Rightarrow> artifact_binding \<Rightarrow> string
      \<Rightarrow> record_publication \<Rightarrow> 'w record_store \<Rightarrow> bool" where
  "settled contents auth file store b ct r s = (case r of
       RP_Durable \<Rightarrow> \<exists>rs t. scanned auth store file (Some b) rs \<and> found_in (Some b) rs = None \<and> length rs < max_records
         \<and> ct \<noteq> [] \<and> length ct \<le> max_ciphertext
         \<and> auth_tag auth ArtifactRecord [record_header b ct, ct] = Ok t
         \<and> stored contents (file @ record_bytes (b, ct, t)) store False s
     | RP_NotPublished \<Rightarrow> stored contents file store False s
     | RP_Unknown \<Rightarrow> \<exists>x. stored contents (file @ x) store True s)"

definition publishable :: "authenticator \<Rightarrow> artifact_binding \<Rightarrow> string \<Rightarrow> stored_record list \<Rightarrow> bool" where
  "publishable auth b ct rs \<longleftrightarrow> found_in (Some b) rs = None \<and> length rs < max_records \<and> ct \<noteq> []
     \<and> length ct \<le> max_ciphertext \<and> take (length age_magic) ct = age_magic
     \<and> is_ok (auth_tag auth ArtifactRecord [record_header b ct, ct])"

lemma meets_learn_refuse:
  "(\<And>s. b \<Longrightarrow> I s \<Longrightarrow> E e s) \<Longrightarrow> (\<not> b \<Longrightarrow> meets I m Q E) \<Longrightarrow> meets I (seq (refuse b e) (\<lambda>_. m)) Q E"
  by (cases b) (simp_all add: meets_def eff_defs)

lemma publish_settled:
  assumes honest: "honest_file ports contents" and s: "stored contents file store u s"
    and result: "publish ports auth b ct s = (r, s')"
    and health: "C \<Longrightarrow> healthy ports contents \<and> \<not> u"
    and able: "C \<Longrightarrow> \<exists>rs. scanned auth store file (Some b) rs \<and> publishable auth b ct rs"
  shows "settled contents auth file store b ct r s' \<and> (C \<longrightarrow> r = RP_Durable)"
proof -
  let ?I = "stored contents file store u"
  let ?Q = "\<lambda>r s. settled contents auth file store b ct r s \<and> r = RP_Durable"
  let ?E = "\<lambda>r s. settled contents auth file store b ct r s \<and> \<not> C"
  have h: "C \<Longrightarrow> healthy ports contents" using health by simp
  have all: "publishable auth b ct rs" if "scanned auth store file (Some b) rs" C for rs
    using able [OF that(2)] that(1) holds_unique unfolding scanned_def by metis
  have doubt: "doubtful contents file store C r s \<Longrightarrow> ?E r s" for r s by (auto simp: doubtful_def settled_def)
  have found: "meets ?I (scan_or_doubt ports auth b)
    (\<lambda>found s. ?I s \<and> (\<exists>rs. scanned auth store file (Some b) rs
      \<and> found = \<lparr>sn_size = length file, sn_count = length rs, sn_matched = found_in (Some b) rs\<rparr>))
    ?E"
  proof (rule meets_weaken [OF scan_or_doubt_meets [OF honest h]])
    show "C \<Longrightarrow> \<exists>rs. scanned auth store file (Some b) rs" using able by blast
  qed (use doubt in blast)+
  have appended: "meets ?I (append_record ports header ct tag (length file))
      (\<lambda>r s. r = RP_Durable \<and> stored contents (file @ header @ ct @ tag) store False s)
      (doubtful contents file store C)" for header tag
    by (rule append_record_meets [OF honest h])
  have "meets ?I (seq (get rs_uncertain) (\<lambda>uncertain.
     seq (refuse uncertain RP_Unknown) (\<lambda>_.
     seq (scan_or_doubt ports auth b) (\<lambda>found.
     seq (refuse (sn_matched found \<noteq> None \<or> sn_count found \<ge> max_records \<or> ct = []
         \<or> length ct > max_ciphertext \<or> take (length age_magic) ct \<noteq> age_magic) RP_NotPublished) (\<lambda>_.
     let header = record_header b ct in
     seq (otherwise RP_NotPublished (returned (auth_tag auth ArtifactRecord [header, ct]))) (\<lambda>tag.
     seq (otherwise RP_NotPublished (checked ports)) (\<lambda>_.
     append_record ports header ct tag (sn_size found)))))))) ?Q ?E"
    unfolding Let_def
    apply (rule meets_learn [where K = "\<lambda>x. x = u"])
    subgoal by (auto simp: meets_def get_def stored_def)
    apply (rule meets_learn_refuse)
    subgoal using health by (auto simp: settled_def stored_def intro: exI [of _ "[]"])
    apply (rule meets_learn [OF found])
    apply (erule exE conjE)+
    apply (rule meets_learn_refuse)
    subgoal for _ found rs using all [of rs] by (auto simp: settled_def publishable_def)
    apply (rule meets_learn [OF meets_otherwise [OF learns_returned [where C = C]]])
    subgoal using able by (auto simp: publishable_def)
    subgoal by (auto simp: settled_def)
    apply (rule meets_learn [OF meets_otherwise [OF learns_checked [where C = C, OF honest]]])
    subgoal by (rule h)
    subgoal by (auto simp: settled_def)
    apply (simp del: found_in_None)
    apply (rule meets_weaken [OF appended])
    subgoal by simp
    subgoal by (auto simp: settled_def)
    subgoal by (rule doubt)
    done
  from this [unfolded meets_def, rule_format, OF s] result show ?thesis
    by (auto simp: publish_def outcome_of_def split: prod.splits sum.splits)
qed

lemma tagged_record:
  assumes "authenticates auth" and "binding_decode (b_encoded b) = Ok b" and "scanned auth store file (Some b) rs"
    and "ct \<noteq> []" and "length ct \<le> max_ciphertext"
    and "auth_tag auth ArtifactRecord [record_header b ct, ct] = Ok t"
  shows "valid_record auth store (b, ct, t)"
  using assms by (cases ct) (auto simp: authenticates_def scanned_def tag_bytes_def)

lemma found_in_fresh: "found_in (Some b) rs = None \<Longrightarrow> binding_job b \<notin> job_of ` set rs"
  by (force simp: found_in_def find_None_iff)

lemma found_in_append:
  "found_in (Some b) rs = Some ct \<Longrightarrow> found_in (Some b) (rs @ ys) = Some ct"
  by (induction rs) (auto simp: found_in_def)

lemma found_in_last: "found_in (Some b) rs = None \<Longrightarrow> found_in (Some b) (rs @ [(b, ct, t)]) = Some ct"
  by (induction rs) (auto simp: found_in_def job_of_def split: if_splits)

lemma scanned_append:
  assumes "scanned auth store file (Some b) rs" and "found_in (Some b) rs = None" and "length rs < max_records"
    and "valid_record auth store (b, ct, t)"
  shows "scanned auth store (file @ record_bytes (b, ct, t)) (Some b) (rs @ [(b, ct, t)])"
  using assms found_in_fresh [OF assms(2)]
  by (auto simp: scanned_def holds_def good_records_def fits_def job_of_def image_iff intro!: exI)

lemma authenticated_bytes_learns:
  assumes "honest_file ports contents" and "C \<Longrightarrow> healthy ports contents"
    and "C \<Longrightarrow> \<exists>rs ct. scanned auth store file (Some b) rs \<and> found_in (Some b) rs = Some ct"
  shows "learns (stored contents file store u) C (authenticated_bytes ports auth b)
    (\<lambda>ct. \<exists>rs. scanned auth store file (Some b) rs \<and> found_in (Some b) rs = Some ct)"
  unfolding authenticated_bytes_def
proof (rule learns_seq [OF learns_scan [OF assms(1,2)]])
  fix found
  assume "\<exists>rs. scanned auth store file (Some b) rs
      \<and> found = \<lparr>sn_size = length file, sn_count = length rs, sn_matched = found_in (Some b) rs\<rparr>"
  then obtain rs where rs: "scanned auth store file (Some b) rs" "sn_matched found = found_in (Some b) rs" by auto
  from rs(1) assms(3) have "C \<Longrightarrow> \<exists>ct. found_in (Some b) rs = Some ct"
    unfolding scanned_def by (metis holds_unique)
  with rs show "learns (stored contents file store u) C (returned (ok_or BE_Unknown (sn_matched found)))
    (\<lambda>ct. \<exists>rs. scanned auth store file (Some b) rs \<and> found_in (Some b) rs = Some ct)"
    by (cases "found_in (Some b) rs") (auto simp: learns_def meets_def returned_def)
qed (auto dest: assms(3))

text \<open>Reconciling never writes; it clears the doubt only when it has read the record back.\<close>

lemma reconcile_settled:
  assumes honest: "honest_file ports contents" and s: "stored contents file store u s"
    and result: "reconcile ports auth b s = (r, s')"
  shows "case r of
      RP_Durable \<Rightarrow> stored contents file store False s'
        \<and> (\<exists>rs ct. scanned auth store file (Some b) rs \<and> found_in (Some b) rs = Some ct)
    | RP_Unknown \<Rightarrow> stored contents file store u s' | RP_NotPublished \<Rightarrow> False"
proof -
  let ?I = "stored contents file store u"
  let ?E = "\<lambda>r s. r = RP_Unknown \<and> ?I s"
  let ?K = "\<exists>rs ct. scanned auth store file (Some b) rs \<and> found_in (Some b) rs = Some ct"
  have "meets ?I (seq (otherwise RP_Unknown (scan ports auth (Some b))) (\<lambda>found.
     seq (refuse (sn_matched found = None) RP_Unknown) (\<lambda>_.
     seq (otherwise RP_Unknown (checked ports)) (\<lambda>_.
     seq (otherwise RP_Unknown (port (io_synchronize ports))) (\<lambda>_.
     seq (otherwise RP_Unknown (checked ports)) (\<lambda>_.
     seq (change (\<lambda>s. s\<lparr>rs_uncertain := False\<rparr>)) (\<lambda>_.
     give RP_Durable)))))))
     (\<lambda>r s. r = RP_Durable \<and> stored contents file store False s \<and> ?K) ?E"
    apply (rule meets_learn [OF meets_otherwise [OF learns_scan [where C = False, OF honest]]])
    subgoal by simp
    subgoal by simp
    subgoal by simp
    apply (rule meets_learn_refuse)
    subgoal by simp
    apply (rule meets_learn [OF meets_otherwise [OF learns_checked [where C = False, OF honest]]])
    subgoal by simp
    subgoal by simp
    apply (rule meets_learn [OF meets_otherwise [OF learns_synchronize [where C = False, OF honest]]])
    subgoal by simp
    subgoal by simp
    apply (rule meets_learn [OF meets_otherwise [OF learns_checked [where C = False, OF honest]]])
    subgoal by simp
    subgoal by simp
    subgoal by (auto simp: meets_def eff_defs stored_def)
    done
  from this [unfolded meets_def, rule_format, OF s] result show ?thesis
    by (auto simp: reconcile_def outcome_of_def split: prod.splits sum.splits)
qed

section \<open>Runs of a store\<close>

text \<open>The operations of one store, in any order and with any outcome; a restart opens the file again.\<close>

inductive store_step :: "'w store_ports \<Rightarrow> authenticator \<Rightarrow> 'w record_store \<Rightarrow> 'w record_store \<Rightarrow> bool"
  for ports :: "'w store_ports" and auth :: authenticator where
  step_publish: "publish ports auth b ct s = (r, s') \<Longrightarrow> store_step ports auth s s'"
| step_reconcile: "reconcile ports auth b s = (r, s') \<Longrightarrow> store_step ports auth s s'"
| step_read: "authenticated_bytes ports auth b s = (r, s') \<Longrightarrow> store_step ports auth s s'"
| step_open: "from_io ports auth (rs_id s) (rs_world s) = (Ok s', w) \<Longrightarrow> store_step ports auth s s'"

abbreviation store_steps :: "'w store_ports \<Rightarrow> authenticator \<Rightarrow> 'w record_store \<Rightarrow> 'w record_store \<Rightarrow> bool" where
  "store_steps ports auth \<equiv> (store_step ports auth)\<^sup>*\<^sup>*"

definition grows :: "('w \<Rightarrow> string) \<Rightarrow> 'w record_store \<Rightarrow> 'w record_store \<Rightarrow> bool" where
  "grows contents s s' \<longleftrightarrow> rs_id s' = rs_id s \<and> prefix (contents (rs_world s)) (contents (rs_world s'))"

lemma stored_self: "stored contents (contents (rs_world s)) (rs_id s) (rs_uncertain s) s"
  by (simp add: stored_def)

lemma stored_grows: "stored contents (contents (rs_world s) @ x) (rs_id s) u s' \<Longrightarrow> grows contents s s'"
  by (simp add: stored_def grows_def)

lemmas stored_same = stored_grows [where x = "[]", simplified]

lemma store_step_grows:
  assumes "honest_file ports contents" and "store_step ports auth s s'"
  shows "grows contents s s'"
  using assms(2)
proof cases
  case (step_publish b ct r)
  from publish_settled [OF assms(1) stored_self step_publish, of False] show ?thesis
    by (cases r) (auto simp: settled_def intro: stored_grows stored_same simp del: record_bytes.simps)
next
  case (step_reconcile b r)
  from reconcile_settled [OF assms(1) stored_self step_reconcile] show ?thesis
    by (cases r) (auto intro: stored_same)
next
  case (step_read b r)
  from learnsD [OF authenticated_bytes_learns [OF assms(1), of False] stored_self step_read] show ?thesis
    by (cases r) (auto intro: stored_same)
next
  case (step_open w)
  let ?s = "\<lparr>rs_id = rs_id s, rs_uncertain = False, rs_world = rs_world s\<rparr>"
  from step_open obtain x where "scan ports auth None ?s = (Inr x, s')"
    by (auto simp: from_io_def split: prod.splits sum.splits)
  with learns_scan [OF assms(1), of False auth "rs_id s" "contents (rs_world s)" None False]
  have "stored contents (contents (rs_world s)) (rs_id s) False s'"
    by (auto dest!: learnsD [where s = ?s] simp: stored_def)
  then show ?thesis by (rule stored_same)
qed

lemma store_steps_grow:
  assumes "honest_file ports contents" and "store_steps ports auth s s'"
  shows "grows contents s s'"
  using assms(2)
proof (induction rule: rtranclp_induct)
  case (step y z)
  with store_step_grows [OF assms(1) step.hyps(2)] show ?case by (auto simp: grows_def)
qed (simp add: grows_def)

section \<open>Properties of the store\<close>

definition record_at :: "artifact_binding \<Rightarrow> string \<Rightarrow> authenticator \<Rightarrow> string \<Rightarrow> string \<Rightarrow> bool" where
  "record_at b ct auth store file \<longleftrightarrow> (\<exists>rs. scanned auth store file (Some b) rs \<and> found_in (Some b) rs = Some ct)"

lemma published_record:
  assumes "authenticates auth" and "binding_decode (b_encoded b) = Ok b"
    and "settled contents auth file store b ct RP_Durable s"
  shows "\<exists>t. stored contents (file @ record_bytes (b, ct, t)) store False s
    \<and> record_at b ct auth store (file @ record_bytes (b, ct, t))"
proof -
  from assms(3) obtain rs t where rs: "scanned auth store file (Some b) rs" "found_in (Some b) rs = None"
      "length rs < max_records" "ct \<noteq> []" "length ct \<le> max_ciphertext"
      "auth_tag auth ArtifactRecord [record_header b ct, ct] = Ok t"
    and s: "stored contents (file @ record_bytes (b, ct, t)) store False s" by (auto simp: settled_def)
  from tagged_record [OF assms(1,2) rs(1,4-6)] have "valid_record auth store (b, ct, t)" .
  from s scanned_append [OF rs(1-3) this] found_in_last [OF rs(2)] show ?thesis
    unfolding record_at_def by blast
qed

lemma record_at_extends:
  assumes "record_at b ct auth store file" and "prefix file file'" and "record_at b ct' auth store file'"
  shows "ct' = ct"
proof -
  from assms obtain rs rs' x where "holds auth store file rs" "holds auth store (file @ x) rs'"
    and found: "found_in (Some b) rs = Some ct" "found_in (Some b) rs' = Some ct'"
    by (auto simp: record_at_def scanned_def prefix_def)
  from holds_extends [OF this(1,2)] found found_in_append [of b rs ct] show ?thesis by auto
qed

lemma healthy_publish:
  assumes "honest_file ports contents" and "healthy ports contents" and "authenticates auth"
    and "binding_decode (b_encoded b) = Ok b" and "\<not> rs_uncertain s"
    and "scanned auth (rs_id s) (contents (rs_world s)) (Some b) rs" and "publishable auth b ct rs"
  shows "\<exists>s' s''. publish ports auth b ct s = (RP_Durable, s')
    \<and> authenticated_bytes ports auth b s' = (Ok ct, s'')"
proof -
  obtain r s' where r: "publish ports auth b ct s = (r, s')" by (cases "publish ports auth b ct s")
  from publish_settled [OF assms(1) stored_self r, of True] assms
  have "settled contents auth (contents (rs_world s)) (rs_id s) b ct r s'" and d: "r = RP_Durable" by auto
  from published_record [OF assms(3,4) this(1) [unfolded d]]
  obtain t where s': "stored contents (contents (rs_world s) @ record_bytes (b, ct, t)) (rs_id s) False s'"
    and here: "record_at b ct auth (rs_id s) (contents (rs_world s) @ record_bytes (b, ct, t))" by blast
  obtain x s'' where x: "authenticated_bytes ports auth b s' = (x, s'')" by (cases "authenticated_bytes ports auth b s'")
  from learnsD [OF authenticated_bytes_learns [OF assms(1), of True] s' x] assms(2) here
  obtain bytes where "x = Ok bytes" "record_at b bytes auth (rs_id s) (contents (rs_world s) @ record_bytes (b, ct, t))"
    by (cases x) (auto simp: record_at_def simp del: record_bytes.simps)
  with record_at_extends [OF here _ this(2)] r d x show ?thesis by simp
qed

text \<open>
  Property C34: a publication says what it did. \<^verbatim>\<open>Durable\<close> means the file grew by exactly the
  tagged record; \<^verbatim>\<open>NotPublished\<close> means the file is as it was; \<^verbatim>\<open>Unknown\<close> means the store
  is in doubt and at most bytes at the end were added; and a store in doubt publishes nothing
  and stays in doubt.
\<close>

theorem publish_accounts:
  assumes "honest_file ports contents" and "publish ports auth b ct s = (r, s')"
  shows "grows contents s s'
    \<and> (r = RP_Durable \<longrightarrow> \<not> rs_uncertain s \<and> \<not> rs_uncertain s' \<and> binding_store b = rs_id s
        \<and> (\<exists>t. auth_tag auth ArtifactRecord [record_header b ct, ct] = Ok t
            \<and> contents (rs_world s') = contents (rs_world s) @ record_header b ct @ ct @ t))
    \<and> (r = RP_NotPublished \<longrightarrow> \<not> rs_uncertain s' \<and> contents (rs_world s') = contents (rs_world s))
    \<and> (r = RP_Unknown \<longrightarrow> rs_uncertain s')
    \<and> (rs_uncertain s \<longrightarrow> r = RP_Unknown \<and> s' = s)"
proof -
  from publish_settled [OF assms(1) stored_self assms(2), of False]
  have "settled contents auth (contents (rs_world s)) (rs_id s) b ct r s'" by simp
  moreover have "rs_uncertain s \<Longrightarrow> r = RP_Unknown \<and> s' = s"
    using assms(2) by (auto simp: publish_def outcome_of_def eff_defs)
  moreover have "grows contents s s'" by (rule store_step_grows [OF assms(1) step_publish [OF assms(2)]])
  ultimately show ?thesis by (cases r) (auto simp: settled_def stored_def scanned_def)
qed

text \<open>
  Property C31: what was published durably stays. Whatever the store does afterwards (further
  publications that succeed, fail or stay in doubt, reconciliations, reads, reopening), a read
  of the binding that succeeds gives exactly the ciphertext that was published.
\<close>

theorem durable_read_exact:
  assumes "honest_file ports contents" and "authenticates auth" and "binding_decode (b_encoded b) = Ok b"
    and "publish ports auth b ct s = (RP_Durable, s1)" and "store_steps ports auth s1 s2"
    and "authenticated_bytes ports auth b s2 = (Ok bytes, s3)"
  shows "bytes = ct"
proof -
  from publish_settled [OF assms(1) stored_self assms(4), of False]
  have "settled contents auth (contents (rs_world s)) (rs_id s) b ct RP_Durable s1" by simp
  from published_record [OF assms(2,3) this] have here: "record_at b ct auth (rs_id s1) (contents (rs_world s1))"
    by (auto simp: stored_def)
  from store_steps_grow [OF assms(1,5)] have "prefix (contents (rs_world s1)) (contents (rs_world s2))"
    and i: "rs_id s2 = rs_id s1" by (simp_all add: grows_def)
  moreover from learnsD [OF authenticated_bytes_learns [OF assms(1), of False] stored_self assms(6)]
  have "record_at b bytes auth (rs_id s1) (contents (rs_world s2))" by (simp add: record_at_def i)
  ultimately show ?thesis using record_at_extends [OF here] by blast
qed

text \<open>
  Property C35: while the device works and the budget lasts, publishing succeeds: an artifact
  that may be published to a well-formed store becomes durable, and reading it back gives the
  ciphertext.
\<close>

theorem publish_then_read:
  assumes "honest_file ports contents" and "healthy ports contents" and "authenticates auth"
    and "binding_decode (b_encoded b) = Ok b" and "\<not> rs_uncertain s"
    and "scanned auth (rs_id s) (contents (rs_world s)) (Some b) rs" and "publishable auth b ct rs"
  shows "\<exists>s' s''. publish ports auth b ct s = (RP_Durable, s')
    \<and> authenticated_bytes ports auth b s' = (Ok ct, s'')"
  using assms by (rule healthy_publish)

section \<open>A store in memory\<close>

text \<open>A file kept as a string in which nothing fails, and an artifact to publish to it.\<close>

definition memory_ports :: "string store_ports" where
  "memory_ports = \<lparr>
     io_size = (\<lambda>w. (Ok (length w), w)),
     io_read_at = (\<lambda>offset n w.
       (if offset + n \<le> length w then Ok (take n (drop offset w)) else Err BE_Unavailable, w)),
     io_append = (\<lambda>at bs w. if at = length w then (Ok (), w @ bs) else (Err BE_Unknown, w)),
     io_synchronize = (\<lambda>w. (Ok (), w)),
     work_check = (\<lambda>w. (Ok (), w))\<rparr>"

definition sample_id :: string where "sample_id = replicate 16 (CHR ''s'')"
definition sample_auth :: authenticator where
  "sample_auth = hmac_sha256 (\<lambda>key bytes. take 32 (bytes @ replicate 32 NUL)) (replicate 32 (CHR ''k''))"
definition sample_binding :: artifact_binding where
  "sample_binding = \<lparr>b_encoded = replicate 64 (CHR ''s'') @ u64_be 3 @ u64_be 2048 @ format_byte Format_Tar # ''SYSv001''\<rparr>"
definition sample_file :: string where
  "sample_file = (case provisioning_header sample_auth sample_id of Inr h \<Rightarrow> h | Inl _ \<Rightarrow> [])"
definition sample_ciphertext :: string where "sample_ciphertext = age_magic @ ''x''"
definition sample_store :: "string record_store" where
  "sample_store = \<lparr>rs_id = sample_id, rs_uncertain = False, rs_world = sample_file\<rparr>"

lemma memory_honest: "honest_file memory_ports id"
  by (auto simp: honest_file_def memory_ports_def split: if_splits)

lemma memory_healthy: "healthy memory_ports id"
  by (simp add: healthy_def memory_ports_def)

lemma sample_authenticates: "authenticates sample_auth"
  unfolding sample_auth_def by (rule hmac_authenticates) simp

lemma sample_decodes: "binding_decode (b_encoded sample_binding) = Ok sample_binding"
  by code_simp

lemma sample_store_header: "valid_header sample_auth sample_id sample_file"
  by code_simp

lemma sample_scanned: "scanned sample_auth sample_id sample_file (Some sample_binding) []"
proof -
  have "binding_store sample_binding = sample_id" by code_simp
  with sample_store_header show ?thesis by (auto simp: scanned_def holds_def good_records_def fits_def)
qed

lemma sample_publishable: "publishable sample_auth sample_binding sample_ciphertext []"
  by code_simp

lemma sample_published:
  "\<exists>s' s''. publish memory_ports sample_auth sample_binding sample_ciphertext sample_store = (RP_Durable, s')
    \<and> authenticated_bytes memory_ports sample_auth sample_binding s' = (Ok sample_ciphertext, s'')"
  by (rule healthy_publish [OF memory_honest memory_healthy sample_authenticates sample_decodes _ _ sample_publishable])
     (simp_all add: sample_store_def sample_scanned)

lemma publish_accounts_witness:
  "\<exists>s' t. publish memory_ports sample_auth sample_binding sample_ciphertext sample_store = (RP_Durable, s')
    \<and> rs_world s' = sample_file @ record_header sample_binding sample_ciphertext @ sample_ciphertext @ t"
proof -
  from sample_published obtain s' where
    "publish memory_ports sample_auth sample_binding sample_ciphertext sample_store = (RP_Durable, s')" by blast
  with publish_accounts [OF memory_honest this] show ?thesis by (auto simp: sample_store_def)
qed

lemma durable_read_exact_witness:
  "\<exists>s' bytes s''. publish memory_ports sample_auth sample_binding sample_ciphertext sample_store = (RP_Durable, s')
    \<and> authenticated_bytes memory_ports sample_auth sample_binding s' = (Ok bytes, s'') \<and> bytes = sample_ciphertext"
proof -
  from sample_published obtain s' bytes s'' where
    p: "publish memory_ports sample_auth sample_binding sample_ciphertext sample_store = (RP_Durable, s')"
    and a: "authenticated_bytes memory_ports sample_auth sample_binding s' = (Ok bytes, s'')" by blast
  with durable_read_exact [OF memory_honest sample_authenticates sample_decodes p rtranclp.rtrancl_refl a]
  show ?thesis by blast
qed

lemma publish_then_read_witness:
  "\<exists>s' s''. publish memory_ports sample_auth sample_binding sample_ciphertext sample_store = (RP_Durable, s')
    \<and> authenticated_bytes memory_ports sample_auth sample_binding s' = (Ok sample_ciphertext, s'')"
  by (rule publish_then_read [OF memory_honest memory_healthy sample_authenticates sample_decodes _ _ sample_publishable])
     (simp_all add: sample_store_def sample_scanned)

end
