(* ===== verification/GzipProofs.thy ===== *)
theory GzipProofs
  imports Gzip
begin

text \<open>
  The gzip stream: the header reader against the format, robustness against any behaviour of
  the decompression library, and what an accepted stream is.
\<close>
unbundle bit_operations_syntax

section \<open>The header format\<close>

text \<open>
  Reference reading of a header: ten fixed bytes, then the parts whose flag is set, in the
  order extra field, name, comment, checksum. What remains is the compressed body.
\<close>

definition extra_rest :: "string \<Rightarrow> string option" where
  "extra_rest bs = (case bs of
       low # high # cs \<Rightarrow>
         (let n = u16_le low high in
          if n \<le> max_extra_bytes \<and> n \<le> length cs then Some (drop n cs) else None)
     | _ \<Rightarrow> None)"

definition text_rest :: "nat \<Rightarrow> string \<Rightarrow> string option" where
  "text_rest most bs =
     (let n = length (takeWhile (\<lambda>c. c \<noteq> NUL) bs) in
      if n < length bs \<and> n < most then Some (drop (n + 1) bs) else None)"

definition fixed_rest :: "nat \<Rightarrow> string \<Rightarrow> string option" where
  "fixed_rest n bs = (if n \<le> length bs then Some (drop n bs) else None)"

definition parts_rest :: "8 word \<Rightarrow> string \<Rightarrow> string option" where
  "parts_rest flags bs =
     Option.bind (if bit flags 2 then extra_rest bs else Some bs) (\<lambda>bs.
     Option.bind (if bit flags 3 then text_rest max_name_bytes bs else Some bs) (\<lambda>bs.
     Option.bind (if bit flags 4 then text_rest max_comment_bytes bs else Some bs) (\<lambda>bs.
     if bit flags 1 then fixed_rest 2 bs else Some bs)))"

definition gzip_body :: "string \<Rightarrow> string option" where
  "gzip_body bs =
     (if length bs < 10 \<or> take 3 bs \<noteq> gzip_magic \<or> byte_word (bs ! 3) AND 0xE0 \<noteq> 0 then None
      else parts_rest (byte_word (bs ! 3)) (drop 10 bs))"

text \<open>What a header in progress still has to read.\<close>

definition header_rest :: "gzip_header \<Rightarrow> string \<Rightarrow> string option" where
  "header_rest h bs = (case gh_stage h of
       GS_Fixed \<Rightarrow> gzip_body (gh_bytes h @ bs)
     | GS_ExtraLength None \<Rightarrow> Option.bind (extra_rest bs) (parts_rest (gh_flags h))
     | GS_ExtraLength (Some low) \<Rightarrow> Option.bind (extra_rest (low # bs)) (parts_rest (gh_flags h))
     | GS_Extra n \<Rightarrow> Option.bind (fixed_rest n bs) (parts_rest (gh_flags h))
     | GS_Crc n \<Rightarrow> Option.bind (fixed_rest n bs) (parts_rest (gh_flags h))
     | GS_Name n \<Rightarrow> Option.bind (text_rest (max_name_bytes - n) bs) (parts_rest (gh_flags h))
     | GS_Comment n \<Rightarrow> Option.bind (text_rest (max_comment_bytes - n) bs) (parts_rest (gh_flags h))
     | GS_Done \<Rightarrow> Some bs)"

definition header_wf :: "gzip_header \<Rightarrow> bool" where
  "header_wf h \<longleftrightarrow> (case gh_stage h of
       GS_Fixed \<Rightarrow> length (gh_bytes h) < 10
     | GS_Extra n \<Rightarrow> 0 < n
     | GS_Crc n \<Rightarrow> 0 < n
     | _ \<Rightarrow> True)"

lemma single_bits:
  fixes w :: "8 word"
  shows "w AND 4 \<noteq> 0 \<longleftrightarrow> bit w 2" "w AND 8 \<noteq> 0 \<longleftrightarrow> bit w 3"
    "w AND 16 \<noteq> 0 \<longleftrightarrow> bit w 4" "w AND 2 \<noteq> 0 \<longleftrightarrow> bit w 1"
  using and_exp_eq_0_iff_not_bit [of w 2] and_exp_eq_0_iff_not_bit [of w 3]
    and_exp_eq_0_iff_not_bit [of w 4] and_exp_eq_0_iff_not_bit [of w 1] by simp_all

lemma cleared_bits:
  fixes w :: "8 word"
  shows "bit (w AND NOT 4) n \<longleftrightarrow> bit w n \<and> n \<noteq> 2" "bit (w AND NOT 8) n \<longleftrightarrow> bit w n \<and> n \<noteq> 3"
    "bit (w AND NOT 16) n \<longleftrightarrow> bit w n \<and> n \<noteq> 4" "bit (w AND NOT 2) n \<longleftrightarrow> bit w n \<and> n \<noteq> 1"
proof -
  have "bit (w AND NOT (2 ^ k)) n \<longleftrightarrow> bit w n \<and> n \<noteq> k" if "k < 8" for k
    using that by (auto simp: bit_and_iff bit_not_iff bit_exp_iff dest: bit_imp_le_length)
  from this [of 2] this [of 3] this [of 4] this [of 1]
  show "bit (w AND NOT 4) n \<longleftrightarrow> bit w n \<and> n \<noteq> 2" "bit (w AND NOT 8) n \<longleftrightarrow> bit w n \<and> n \<noteq> 3"
    "bit (w AND NOT 16) n \<longleftrightarrow> bit w n \<and> n \<noteq> 4" "bit (w AND NOT 2) n \<longleftrightarrow> bit w n \<and> n \<noteq> 1"
    by simp_all
qed

lemma header_rest_advance: "header_rest (advance h) bs = parts_rest (gh_flags h) bs"
  by (simp add: advance_def header_rest_def single_bits parts_rest_def [abs_def] cleared_bits [simplified]
      cong: if_cong)

lemma advance_keeps [simp]: "gh_bytes (advance h) = gh_bytes h" "header_wf (advance h)"
  by (auto simp: advance_def header_wf_def)

lemma text_rest_Cons:
  "text_rest most (b # bs) =
     (if most = 0 then None else if b = NUL then Some bs else text_rest (most - 1) bs)"
  by (auto simp: text_rest_def Let_def)

lemma fixed_rest_Cons: "0 < n \<Longrightarrow> fixed_rest n (b # bs) = fixed_rest (n - 1) bs"
  by (cases n) (auto simp: fixed_rest_def)

lemma fixed_rest_0 [simp]: "fixed_rest 0 bs = Some bs"
  by (simp add: fixed_rest_def)

lemma extra_rest_Cons2:
  "extra_rest (low # high # bs) =
     (if u16_le low high \<le> max_extra_bytes then fixed_rest (u16_le low high) bs else None)"
  by (simp add: extra_rest_def fixed_rest_def Let_def)

lemma gzip_body_ten:
  assumes "length xs = 10"
  shows "gzip_body (xs @ bs) =
    (if take 3 xs \<noteq> gzip_magic \<or> byte_word (xs ! 3) AND 0xE0 \<noteq> 0 then None
     else parts_rest (byte_word (xs ! 3)) bs)"
  using assms by (simp add: gzip_body_def nth_append)

lemma stage_byte_reads:
  assumes "header_wf h" and "\<not> header_complete h"
  shows "case stage_byte b (h\<lparr>gh_bytes := gh_bytes h @ [b]\<rparr>) of
      Inr h' \<Rightarrow> header_wf h' \<and> gh_bytes h' = gh_bytes h @ [b] \<and> (\<forall>bs. header_rest h (b # bs) = header_rest h' bs)
    | Inl (Returned e) \<Rightarrow> \<forall>bs. header_rest h (b # bs) = None
    | Inl Panicked \<Rightarrow> False"
proof (cases "gh_stage h")
  case GS_Fixed
  show ?thesis
  proof (cases "length (gh_bytes h) = 9")
    case True
    with GS_Fixed show ?thesis
      using gzip_body_ten [of "gh_bytes h @ [b]"]
      by (auto simp: stage_byte_def header_rest_advance) (auto simp: header_rest_def)
  next
    case False
    with GS_Fixed assms show ?thesis
      by (auto simp: stage_byte_def header_rest_def header_wf_def)
  qed
next
  case (GS_ExtraLength low)
  then show ?thesis
    by (cases low) (auto simp: stage_byte_def Let_def header_rest_advance,
      auto simp: header_rest_def extra_rest_Cons2 header_wf_def)
next
  case (GS_Extra n)
  with assms show ?thesis
    by (auto simp: stage_byte_def header_rest_advance, auto simp: header_rest_def header_wf_def fixed_rest_Cons)
next
  case (GS_Crc n)
  with assms show ?thesis
    by (auto simp: stage_byte_def header_rest_advance, auto simp: header_rest_def header_wf_def fixed_rest_Cons)
next
  case (GS_Name n)
  then show ?thesis
    by (auto simp: stage_byte_def header_rest_advance, auto simp: header_rest_def header_wf_def text_rest_Cons)
next
  case (GS_Comment n)
  then show ?thesis
    by (auto simp: stage_byte_def header_rest_advance, auto simp: header_rest_def header_wf_def text_rest_Cons)
next
  case GS_Done
  with assms show ?thesis by (simp add: header_complete_def)
qed


lemma rest_shorter:
  "extra_rest bs = Some r \<Longrightarrow> length r < length bs"
  "text_rest most bs = Some r \<Longrightarrow> length r < length bs"
  "fixed_rest n bs = Some r \<Longrightarrow> length r = length bs - n \<and> n \<le> length bs"
  by (auto simp: extra_rest_def text_rest_def fixed_rest_def Let_def split: list.splits if_splits)

lemma parts_rest_le: "parts_rest flags bs = Some r \<Longrightarrow> length r \<le> length bs"
  by (fastforce simp: parts_rest_def bind_eq_Some_conv dest: rest_shorter split: if_splits)

lemma header_rest_shorter:
  assumes "header_wf h" and "\<not> header_complete h" and "header_rest h bs = Some r"
  shows "length r < length bs"
proof (cases "gh_stage h")
  case GS_Fixed
  with assms show ?thesis
    by (fastforce simp: header_rest_def header_wf_def gzip_body_def dest!: parts_rest_le split: if_splits)
next
  case (GS_ExtraLength low)
  with assms(3) show ?thesis
    by (cases low) (auto simp: header_rest_def bind_eq_Some_conv extra_rest_def Let_def
      dest!: parts_rest_le split: list.splits if_splits)
next
  case GS_Done
  with assms(2) show ?thesis by (simp add: header_complete_def)
qed (use assms in \<open>auto simp: header_rest_def header_wf_def bind_eq_Some_conv dest!: parts_rest_le rest_shorter\<close>)

text \<open>
  What a call consumed is what the reference reading would have read so far; an error means
  that no continuation is a header within the limit.
\<close>

definition reads_header :: "gzip_header \<Rightarrow> string \<Rightarrow> gzip_error stop + nat \<times> gzip_header \<Rightarrow> bool" where
  "reads_header h bs result = (case result of
       Inr (n, h') \<Rightarrow> n \<le> length bs \<and> header_wf h' \<and> gh_bytes h' = gh_bytes h @ take n bs
         \<and> length (gh_bytes h') \<le> max_header_bytes \<and> (header_complete h' \<or> n = length bs)
         \<and> (\<forall>cs. header_rest h (bs @ cs) = header_rest h' (drop n bs @ cs))
     | Inl (Returned e) \<Rightarrow> (\<forall>cs r. header_rest h (bs @ cs) = Some r
         \<longrightarrow> max_header_bytes < length (gh_bytes h @ bs @ cs) - length r)
     | Inl Panicked \<Rightarrow> False)"

lemma header_feed_reads:
  "header_wf h \<Longrightarrow> length (gh_bytes h) \<le> max_header_bytes \<Longrightarrow> reads_header h bs (header_feed h bs)"
proof (induction bs arbitrary: h)
  case Nil
  then show ?case by (simp add: reads_header_def)
next
  case (Cons b bs)
  show ?case
  proof (cases "header_complete h")
    case True
    with Cons.prems show ?thesis by (simp add: reads_header_def)
  next
    case more: False
    show ?thesis
    proof (cases "length (gh_bytes h) = max_header_bytes")
      case True
      then show ?thesis
        using more header_rest_shorter [OF Cons.prems(1) more]
        by (fastforce simp: reads_header_def header_byte_def)
    next
      case False
      note step = stage_byte_reads [OF Cons.prems(1) more, of b]
      show ?thesis
      proof (cases "stage_byte b (h\<lparr>gh_bytes := gh_bytes h @ [b]\<rparr>)")
        case (Inl e)
        with step more False show ?thesis by (cases e) (auto simp: reads_header_def header_byte_def)
      next
        case (Inr h')
        with step have h': "header_wf h'" "gh_bytes h' = gh_bytes h @ [b]"
          "\<And>bs. header_rest h (b # bs) = header_rest h' bs" by auto
        with Cons.prems False have "reads_header h' bs (header_feed h' bs)" by (intro Cons.IH) auto
        then show ?thesis
          using more False Inr h'
          by (cases "header_feed h' bs") (auto simp: reads_header_def header_byte_def split: stop.splits)
      qed
    qed
  qed
qed

lemma header_new_wf: "header_wf header_new" "length (gh_bytes header_new) \<le> max_header_bytes"
  "header_rest header_new bs = gzip_body bs"
  by (simp_all add: header_new_def header_wf_def header_rest_def)

lemma header_rest_complete: "header_complete h \<Longrightarrow> header_rest h bs = Some bs"
  by (simp add: header_complete_def header_rest_def)

text \<open>
  The incremental reader admits exactly the headers of the format. However the
  stream continues, it completes after \<open>n\<close> bytes if and only if the format's header is these
  first \<open>n\<close> bytes and they fit the limit, and it has kept exactly these bytes; it never panics.
\<close>

lemma gzip_header_iff:
  "((\<exists>h. header_feed header_new bs = Ok (n, h) \<and> header_complete h \<and> gh_bytes h = take n bs)
     \<longleftrightarrow> n \<le> length bs \<and> n \<le> max_header_bytes \<and> gzip_body bs = Some (drop n bs))
   \<and> header_feed header_new bs \<noteq> Err Panicked"
proof (rule conjI)
  note r = header_feed_reads [OF header_new_wf(1,2), of bs]
  show "header_feed header_new bs \<noteq> Err Panicked" using r by (auto simp: reads_header_def)
  have start: "gh_bytes header_new = []" by (simp add: header_new_def)
  show "(\<exists>h. header_feed header_new bs = Ok (n, h) \<and> header_complete h \<and> gh_bytes h = take n bs)
     \<longleftrightarrow> n \<le> length bs \<and> n \<le> max_header_bytes \<and> gzip_body bs = Some (drop n bs)" (is "?l = ?r")
  proof
    assume ?l
    then obtain h where h: "header_feed header_new bs = Ok (n, h)" "header_complete h" "gh_bytes h = take n bs" by blast
    from r h(1,3) have "n \<le> length bs" "n \<le> max_header_bytes"
      "\<And>cs. gzip_body (bs @ cs) = header_rest h (drop n bs @ cs)"
      by (auto simp: reads_header_def header_new_wf)
    with this(3) [of "[]"] h(2) show ?r by (simp add: header_rest_complete)
  next
    assume ?r
    then have ok: "n \<le> length bs" "n \<le> max_header_bytes" "gzip_body (bs @ []) = Some (drop n bs)" by auto
    show ?l
    proof (cases "header_feed header_new bs")
      case (Inl e)
      with r have "max_header_bytes < length (bs @ cs) - length x" if "gzip_body (bs @ cs) = Some x" for cs x
        using that by (cases e) (auto simp: reads_header_def header_new_wf start)
      from this [OF ok(3)] ok show ?thesis by simp
    next
      case (Inr p)
      obtain m h where p: "p = (m, h)" by (cases p)
      from r Inr p have h: "m \<le> length bs" "header_wf h" "header_complete h \<or> m = length bs" "gh_bytes h = take m bs"
        "\<And>cs. gzip_body (bs @ cs) = header_rest h (drop m bs @ cs)"
        by (simp_all add: reads_header_def header_new_wf start)
      have "header_complete h"
        using h(3) h(5) [of "[]"] ok(3) header_rest_shorter [OF h(2), of "[]" "drop n bs"]
        by (cases "header_complete h") auto
      with h(5) [of "[]"] ok have "drop n bs = drop m bs" by (simp add: header_rest_complete)
      with h(1) ok(1) have "n = m" by (metis diff_diff_cancel length_drop)
      with Inr p h \<open>header_complete h\<close> show ?thesis by simp
    qed
  qed
qed


section \<open>Robustness, whatever the library does\<close>

text \<open>What holds of a result that is no error, and that an error is no panic.\<close>

definition no_panic :: "'e stop + 'a \<Rightarrow> ('a \<Rightarrow> bool) \<Rightarrow> bool" where
  "no_panic r Q \<longleftrightarrow> (case r of Inr x \<Rightarrow> Q x | Inl e \<Rightarrow> e \<noteq> Panicked)"

lemma no_panic_simps [simp]:
  "no_panic (Ok x) Q = Q x" "no_panic (Err (Returned e)) Q" "\<not> no_panic (Err Panicked) Q"
  by (simp_all add: no_panic_def)

lemma no_panic_and_then:
  "no_panic m R \<Longrightarrow> (\<And>x. m = Ok x \<Longrightarrow> R x \<Longrightarrow> no_panic (f x) Q) \<Longrightarrow> no_panic (and_then m f) Q"
  by (cases m) (simp_all add: no_panic_def)

lemma no_panic_ok_or: "no_panic (ok_or (Returned e) m) (\<lambda>x. m = Some x)"
  by (cases m) simp_all

lemma no_panic_progress: "no_panic (progress now before most) (\<lambda>_. True)"
  by (simp add: progress_def split: option.split)

lemma no_panic_D: "no_panic r Q \<Longrightarrow> r \<noteq> Err Panicked" "no_panic (Ok x) Q \<Longrightarrow> Q x"
  by auto

definition inner_ready :: "expected_archive \<Rightarrow> 'd gzip_validator \<Rightarrow> bool" where
  "inner_ready ea v \<longleftrightarrow> (\<forall>inner. g_inner v = Some inner \<longrightarrow> ready ea inner)"

definition kept_ready :: "expected_archive \<Rightarrow> 'd gzip_validator \<Rightarrow> 'd gzip_validator \<Rightarrow> bool" where
  "kept_ready ea v v' \<longleftrightarrow> inner_ready ea v' \<and> g_header v' = g_header v"

lemma feed_archive_ready:
  assumes "inner_ready ea v"
  shows "no_panic (feed_archive bytes v) (kept_ready ea v)"
  unfolding feed_archive_def
proof (rule no_panic_and_then [OF no_panic_ok_or])
  fix inner assume "g_inner v = Some inner"
  with assms feed_ready [of ea inner bytes]
  show "no_panic (case feed inner bytes of (Inr _, inner) \<Rightarrow> Ok (v\<lparr>g_inner := Some inner\<rparr>)
       | (Inl (Returned e), _) \<Rightarrow> Err (Returned (gzip_error_of e))
       | (Inl Panicked, _) \<Rightarrow> Err Panicked) (kept_ready ea v)"
    by (auto simp: inner_ready_def kept_ready_def split: prod.split sum.split stop.split)
qed

lemma end_stream_ready: "inner_ready ea v \<Longrightarrow> no_panic (end_stream lib d inp v) (kept_ready ea v)"
  by (simp add: end_stream_def kept_ready_def inner_ready_def split: option.split)

lemma decode_round_ready:
  assumes "inner_ready ea v"
  shows "no_panic (decode_round lib v inp) (\<lambda>(v', _). kept_ready ea v v')"
  unfolding decode_round_def
proof (rule no_panic_and_then [OF no_panic_ok_or])
  fix d assume "g_decoder v = Some d"
  obtain r d' where r: "decompress lib d inp output_buffer_bytes = (r, d')" by (cases "decompress lib d inp output_buffer_bytes")
  have "no_panic (feed_archive bytes (v\<lparr>g_decoder := Some d'\<rparr>)) (kept_ready ea v)" for bytes
    using feed_archive_ready [of ea "v\<lparr>g_decoder := Some d'\<rparr>" bytes] assms
    by (simp add: kept_ready_def [abs_def] inner_ready_def)
  note fed = this
  have ended: "no_panic (and_then (end_stream lib d' rest w) (\<lambda>v. Ok (v, None))) (\<lambda>(v', _). kept_ready ea v v')"
    if "kept_ready ea v w" for rest w
    by (rule no_panic_and_then [OF end_stream_ready [of ea w]]) (use that in \<open>auto simp: kept_ready_def\<close>)
  show "no_panic (case decompress lib d inp output_buffer_bytes of
       (None, _) \<Rightarrow> Err (Returned GE_InvalidData)
     | (Some (status, out), decoder') \<Rightarrow>
         and_then (progress (total_in lib decoder') (total_in lib d) (length inp)) (\<lambda>used.
         and_then (progress (total_out lib decoder') (total_out lib d) output_buffer_bytes) (\<lambda>written.
         and_then (feed_archive (take written (filled_buffer out)) (v\<lparr>g_decoder := Some decoder'\<rparr>)) (\<lambda>v.
         let inp = drop used inp in
         if status = IS_StreamEnd then and_then (end_stream lib decoder' inp v) (\<lambda>v. Ok (v, None))
         else if used = 0 \<and> written = 0 then
           (if inp = [] then Ok (v, None) else Err (Returned GE_InvalidData))
         else if inp = [] \<and> written < output_buffer_bytes then Ok (v, None)
         else Ok (v, Some inp)))))
     (\<lambda>(v', _). kept_ready ea v v')"
    unfolding r
    by (cases r)
       (auto simp: Let_def intro!: no_panic_and_then [OF no_panic_progress] no_panic_and_then [OF fed]
         ended)
qed

lemma decode_ready: "inner_ready ea v \<Longrightarrow> no_panic (decode lib v inp) (kept_ready ea v)"
proof (induction lib v inp rule: decode.induct)
  case (1 lib v inp)
  show ?case
  proof (subst decode.simps, rule no_panic_and_then [OF decode_round_ready [OF "1.prems"]])
    fix p assume p: "decode_round lib v inp = Ok p" "case p of (v', _) \<Rightarrow> kept_ready ea v v'"
    obtain v' again where [simp]: "p = (v', again)" by (cases p)
    show "no_panic (case p of (v, again) \<Rightarrow> case again of None \<Rightarrow> Ok v | Some inp \<Rightarrow> decode lib v inp)
        (kept_ready ea v)"
      using "1.IH" [OF p(1), of v' again] p(2)
      by (cases again) (simp_all add: kept_ready_def [abs_def])
  qed
qed

definition gzip_ready :: "expected_archive \<Rightarrow> 'd gzip_validator \<Rightarrow> bool" where
  "gzip_ready ea v \<longleftrightarrow> g_failure v \<noteq> None \<or> inner_ready ea v
     \<and> (\<forall>h. g_header v = Some h \<longrightarrow> header_wf h \<and> length (gh_bytes h) \<le> max_header_bytes)"

lemma no_panic_header:
  "header_wf h \<Longrightarrow> length (gh_bytes h) \<le> max_header_bytes \<Longrightarrow>
     no_panic (header_feed h bs) (\<lambda>(n, h'). reads_header h bs (Ok (n, h')))"
  using header_feed_reads [of h bs] by (auto simp: no_panic_def reads_header_def split: sum.splits stop.splits)

lemma gzip_feed_inner_ready:
  assumes "gzip_ready ea v" and "g_failure v = None"
  shows "no_panic (gzip_feed_inner lib v inp) (gzip_ready ea)"
proof -
  have v: "\<And>n. inner_ready ea (v\<lparr>g_source_bytes := n\<rparr>)"
    and h: "\<And>h. g_header v = Some h \<Longrightarrow> header_wf h \<and> length (gh_bytes h) \<le> max_header_bytes"
    using assms by (auto simp: gzip_ready_def inner_ready_def)
  have later: "no_panic (decode lib w bs) (gzip_ready ea)" if "inner_ready ea w" "g_header w = None" for w :: "'a gzip_validator" and bs
    using decode_ready [OF that(1), of lib bs] that(2)
    by (auto simp: no_panic_def gzip_ready_def kept_ready_def split: sum.splits)
  have whole: "no_panic (and_then (decode lib w as) (\<lambda>w. decode lib w bs)) (gzip_ready ea)"
    if "inner_ready ea w" "g_header w = None" for w :: "'a gzip_validator" and as bs
    by (rule no_panic_and_then [OF decode_ready [OF that(1)]]) (auto simp: kept_ready_def that(2) intro: later)
  show ?thesis
  proof (cases "g_header v")
    case None
    then show ?thesis
      using v assms(2) by (auto simp: gzip_feed_inner_def Let_def gzip_ready_def inner_ready_def intro!: later split: option.split)
  next
    case (Some header)
    have "no_panic (and_then (header_feed header inp) (\<lambda>(consumed, header).
        if \<not> header_complete header then Ok (v\<lparr>g_source_bytes := n, g_header := Some header\<rparr>)
        else and_then (decode lib (v\<lparr>g_source_bytes := n, g_header := None, g_header_bytes := length (gh_bytes header),
                 g_decoder := Some (new_gzip lib)\<rparr>) (gh_bytes header)) (\<lambda>v. decode lib v (drop consumed inp))))
        (gzip_ready ea)" for n
      using v [of n] assms(2) h [OF Some]
      by (intro no_panic_and_then [OF no_panic_header])
         (auto simp: gzip_ready_def inner_ready_def reads_header_def intro!: whole [unfolded inner_ready_def])
    then show ?thesis
      using v assms(2) Some h
      by (auto simp: gzip_feed_inner_def Let_def gzip_ready_def inner_ready_def split: option.split)
  qed
qed


lemma gzip_feed_ready:
  assumes "gzip_ready ea v"
  shows "gzip_ready ea (snd (gzip_feed lib v c)) \<and> fst (gzip_feed lib v c) \<noteq> Err Panicked"
proof (cases "g_failure v")
  case None
  with gzip_feed_inner_ready [OF assms None, of lib c] assms show ?thesis
    by (auto simp: gzip_feed_def no_panic_def gzip_ready_def split: sum.splits stop.splits)
qed (use assms in \<open>simp add: gzip_feed_def\<close>)

lemma gzip_new_ready: "strict_paths ea \<Longrightarrow> gzip_ready ea (gzip_new ea)"
  by (simp add: gzip_ready_def gzip_new_def inner_ready_def ready_def validator_new_def between_chunks_def
      zero_block_def limit_defs header_new_wf header_new_def header_wf_def)

text \<open>
  Property C30: feeding always returns and never panics, whatever the decompression library
  answers: every round of the decode loop consumes input or uses up the archive's size limit.
  The first error is final: every later call and the end of the run report it.
\<close>

theorem gzip_feed_robust:
  assumes "expected_archive_new files = Ok ea"
    and "v = fold (\<lambda>c v. snd (gzip_feed lib v c)) chunks (gzip_new ea)"
  shows "(\<exists>e. fst (gzip_feed lib v c) = Err (Returned e)) \<noteq> (fst (gzip_feed lib v c) = Ok ())
    \<and> (fst (gzip_feed lib v c) = Err (Returned e) \<longrightarrow>
         gzip_feed lib (snd (gzip_feed lib v c)) d = (Err (Returned e), snd (gzip_feed lib v c))
         \<and> gzip_finish (snd (gzip_feed lib v c)) = Err e)"
proof -
  have "gzip_ready ea (fold (\<lambda>c v. snd (gzip_feed lib v c)) cs w)" if "gzip_ready ea w" for cs w
    using that by (induction cs arbitrary: w) (simp_all add: gzip_feed_ready)
  then have "gzip_ready ea v"
    using gzip_new_ready [OF expected_archive_new_strict(1) [OF assms(1)]] assms(2) by blast
  then have "fst (gzip_feed lib v c) \<noteq> Err Panicked" by (simp add: gzip_feed_ready)
  then show ?thesis
    by (auto simp: gzip_feed_def gzip_finish_def split: option.splits sum.splits stop.splits)
qed

section \<open>What an accepted stream is\<close>

text \<open>
  What the library documents: after consuming \<open>c\<close> and producing \<open>p\<close> its counters are their
  lengths, a call consumes a prefix of its input and appends its output, no more than there is
  room for, and at the end of the stream what it consumed is one complete member, whose
  contents it produced. \<open>member\<close> is the decompression of a complete member.
\<close>

definition inflates ::
    "'d inflater \<Rightarrow> ('d \<Rightarrow> string \<Rightarrow> string \<Rightarrow> bool) \<Rightarrow> (string \<Rightarrow> string option) \<Rightarrow> bool" where
  "inflates lib after member \<longleftrightarrow>
     after (new_gzip lib) [] []
     \<and> (\<forall>d c p. after d c p \<longrightarrow> total_in lib d = length c \<and> total_out lib d = length p)
     \<and> (\<forall>d c p inp room status out d'. after d c p \<and> decompress lib d inp room = (Some (status, out), d') \<longrightarrow>
          length out \<le> room \<and> (\<exists>used \<le> length inp. after d' (c @ take used inp) (p @ out)
            \<and> (status = IS_StreamEnd \<longrightarrow> member (c @ take used inp) = Some (p @ out))))"

lemma filled_buffer_take: "length out \<le> output_buffer_bytes \<Longrightarrow> take (length out) (filled_buffer out) = out"
  by (simp add: filled_buffer_def)

text \<open>What has been read: \<open>c\<close> consumed, \<open>p\<close> produced and checked.\<close>

definition decoding ::
    "('d \<Rightarrow> string \<Rightarrow> string \<Rightarrow> bool) \<Rightarrow> expected_archive \<Rightarrow> string \<Rightarrow> string \<Rightarrow> 'd gzip_validator \<Rightarrow> bool" where
  "decoding after ea c p v \<longleftrightarrow> \<not> g_complete v \<and> g_header v = None
     \<and> (\<exists>d inner. g_decoder v = Some d \<and> after d c p \<and> g_inner v = Some inner \<and> run_inv ea p inner)"

definition decoded :: "(string \<Rightarrow> string option) \<Rightarrow> expected_archive \<Rightarrow> string \<Rightarrow> 'd gzip_validator \<Rightarrow> bool" where
  "decoded member ea c v \<longleftrightarrow> g_complete v \<and> g_header v = None \<and> g_decoder v = None
     \<and> length c = g_source_bytes v \<and> g_header_bytes v + 8 < length c \<and> g_deflate_bytes v = length c - g_header_bytes v - 8
     \<and> (\<exists>p inner. member c = Some p \<and> g_inner v = Some inner \<and> run_inv ea p inner)"

definition counters :: "'d gzip_validator \<Rightarrow> nat \<times> nat \<times> gzip_error option" where
  "counters v = (g_source_bytes v, g_header_bytes v, g_failure v)"

lemma decode_round_decodes:
  assumes lib: "inflates lib after member" and v: "decoding after ea c p v"
    and round: "decode_round lib v inp = Ok (v', again)"
  shows "counters v' = counters v
    \<and> (case again of
         Some rest \<Rightarrow> \<exists>p c'. c @ inp = c' @ rest \<and> decoding after ea c' p v'
       | None \<Rightarrow> (\<exists>p. decoding after ea (c @ inp) p v') \<or> decoded member ea (c @ inp) v')"
proof -
  from v obtain d inner where d: "g_decoder v = Some d" "after d c p" "g_inner v = Some inner" "run_inv ea p inner"
    "\<not> g_complete v" "g_header v = None"
    by (auto simp: decoding_def)
  from round obtain status out d' used written w where
    r: "decompress lib d inp output_buffer_bytes = (Some (status, out), d')"
    "used = total_in lib d' - total_in lib d" "written = total_out lib d' - total_out lib d"
    "feed_archive (take written (filled_buffer out)) (v\<lparr>g_decoder := Some d'\<rparr>) = Ok w"
    and e: "if status = IS_StreamEnd then end_stream lib d' (drop used inp) w = Ok v' \<and> again = None
     else v' = w \<and> (again = None \<and> used = length inp \<or>
       again = Some (drop used inp) \<and> \<not> (used = 0 \<and> written = 0)
         \<and> \<not> (used = length inp \<and> written < output_buffer_bytes))"
    by (rule decode_round_Ok) (auto simp: d(1))
  from lib d(2) r(1) obtain u where u: "u \<le> length inp" "after d' (c @ take u inp) (p @ out)"
    "length out \<le> output_buffer_bytes" "status = IS_StreamEnd \<longrightarrow> member (c @ take u inp) = Some (p @ out)"
    unfolding inflates_def by meson
  have totals: "total_in lib d = length c" "total_out lib d = length p" "total_in lib d' = length c + u"
    "total_out lib d' = length p + length out"
    using lib d(2) u(1,2) by (simp_all add: inflates_def)
  then have [simp]: "used = u" "written = length out" using r(2,3) by simp_all
  from r(4) u(3) d(3) obtain inner' where i: "feed inner out = (Ok (), inner')" "w = v\<lparr>g_decoder := Some d', g_inner := Some inner'\<rparr>"
    by (auto simp: feed_archive_Ok filled_buffer_take)
  have "run_inv ea (p @ out) inner'"
    using feed_run_inv [OF d(4), of out] i(1) u(3) by (simp add: limit_defs)
  then have w: "decoding after ea (c @ take u inp) (p @ out) w"
    using d(5,6) u(2) i(2) by (simp add: decoding_def)
  have same: "counters w = counters v" by (simp add: i(2) counters_def)
  show ?thesis
  proof (cases "status = IS_StreamEnd")
    case True
    with e have "end_stream lib d' (drop u inp) w = Ok v'" "again = None" by simp_all
    with True u w totals same show ?thesis
      by (auto simp: end_stream_def decoded_def decoding_def counters_def bind_eq_Some_conv split: if_splits option.splits)
  next
    case False
    have "\<exists>p c'. c @ inp = c' @ drop u inp \<and> decoding after ea c' p w"
      using w by (intro exI [of _ "p @ out"] exI [of _ "c @ take u inp"]) simp
    with False e w same show ?thesis by (cases again) auto
  qed
qed


lemma decode_decodes:
  assumes "inflates lib after member" and "decoding after ea c p v" and "decode lib v inp = Ok v'"
  shows "counters v' = counters v
    \<and> ((\<exists>p. decoding after ea (c @ inp) p v') \<or> decoded member ea (c @ inp) v')"
  using assms
proof (induction lib v inp arbitrary: c p rule: decode.induct)
  case (1 lib v inp)
  from "1.prems"(3) obtain w again where r: "decode_round lib v inp = Ok (w, again)"
    and n: "(case again of None \<Rightarrow> Ok w | Some inp \<Rightarrow> decode lib w inp) = Ok v'"
    by (subst (asm) decode.simps) (auto simp: res_simps split: option.splits)
  note d = decode_round_decodes [OF "1.prems"(1,2) r]
  show ?case
  proof (cases again)
    case None
    with d n show ?thesis by simp
  next
    case (Some rest)
    with d obtain p c' where c': "c @ inp = c' @ rest" "decoding after ea c' p w" "counters w = counters v" by auto
    from "1.IH" [OF r _ Some "1.prems"(1) c'(2)] n Some c' show ?thesis by simp
  qed
qed

definition reading ::
    "('d \<Rightarrow> string \<Rightarrow> string \<Rightarrow> bool) \<Rightarrow> (string \<Rightarrow> string option) \<Rightarrow> expected_archive \<Rightarrow> string
      \<Rightarrow> 'd gzip_validator \<Rightarrow> bool" where
  "reading after member ea sent v \<longleftrightarrow> g_source_bytes v = length sent \<and> length sent \<le> gz_max_source_bytes
     \<and> (case g_header v of
          Some h \<Rightarrow> header_wf h \<and> \<not> header_complete h \<and> gh_bytes h = sent \<and> length sent \<le> max_header_bytes
            \<and> (\<forall>cs. gzip_body (sent @ cs) = header_rest h cs)
            \<and> \<not> g_complete v \<and> g_inner v = Some (validator_new ea)
        | None \<Rightarrow> g_header_bytes v \<le> max_header_bytes \<and> g_header_bytes v \<le> length sent
            \<and> (\<forall>cs. gzip_body (sent @ cs) = Some (drop (g_header_bytes v) sent @ cs))
            \<and> ((\<exists>p. decoding after ea sent p v) \<or> decoded member ea sent v))"

lemma feed_reading:
  assumes lib: "inflates lib after member" and ea: "strict_paths ea"
    and v: "reading after member ea sent v" and c: "gzip_feed_inner lib v c = Ok v'"
  shows "reading after member ea (sent @ c) v' \<and> g_failure v' = g_failure v"
proof -
  let ?v = "v\<lparr>g_source_bytes := length sent + length c\<rparr>"
  have n: "g_source_bytes v = length sent" "length (sent @ c) \<le> gz_max_source_bytes"
    using v c by (auto simp: reading_def gzip_feed_inner_def Let_def split: if_splits option.splits)
  have go: "(if g_complete ?v then (if c = [] then Ok ?v else Err (Returned GE_TrailingData))
     else case g_header ?v of None \<Rightarrow> decode lib ?v c
       | Some header \<Rightarrow> and_then (header_feed header c) (\<lambda>(consumed, header).
           if \<not> header_complete header then Ok (?v\<lparr>g_header := Some header\<rparr>)
           else and_then (decode lib (?v\<lparr>g_header := None, g_header_bytes := length (gh_bytes header),
                    g_decoder := Some (new_gzip lib)\<rparr>) (gh_bytes header)) (\<lambda>v. decode lib v (drop consumed c)))) = Ok v'"
    using c n by (auto simp: gzip_feed_inner_def Let_def split: if_splits option.splits)
  show ?thesis
  proof (cases "g_header v")
    case None
    with v have h: "g_header_bytes v \<le> max_header_bytes" "g_header_bytes v \<le> length sent"
      "\<And>cs. gzip_body (sent @ cs) = Some (drop (g_header_bytes v) sent @ cs)" by (simp_all add: reading_def)
    have ext: "\<And>cs. gzip_body ((sent @ c) @ cs) = Some (drop (g_header_bytes v) (sent @ c) @ cs)"
      using h(2) h(3) [of "c @ _"] by simp
    from v None consider p where "decoding after ea sent p ?v" "\<not> g_complete v" | "decoded member ea sent v" "g_complete v"
      by (auto simp: reading_def decoding_def decoded_def)
    then show ?thesis
    proof cases
      case 1
      from go None 1(2) have "decode lib ?v c = Ok v'" by simp
      from decode_decodes [OF lib 1(1) this] have d: "counters v' = counters ?v"
        "(\<exists>p. decoding after ea (sent @ c) p v') \<or> decoded member ea (sent @ c) v'" by simp_all
      from d(2) have "g_header v' = None" by (auto simp: decoding_def decoded_def)
      with d n(2) h(1,2) ext show ?thesis by (simp add: reading_def counters_def)
    next
      case 2
      with go None have "c = []" "v' = ?v" by (auto split: if_splits)
      with v n(1) show ?thesis by (cases v) simp
    qed
  next
    case (Some h)
    with v have h: "header_wf h" "\<not> header_complete h" "gh_bytes h = sent" "length sent \<le> max_header_bytes"
      "\<And>cs. gzip_body (sent @ cs) = header_rest h cs" "\<not> g_complete v" "g_inner v = Some (validator_new ea)"
      by (simp_all add: reading_def)
    from go Some h(6) obtain k h' where f: "header_feed h c = Ok (k, h')" by (auto simp: res_simps)
    from header_feed_reads [OF h(1), of c] h(3,4) f have h': "k \<le> length c" "header_wf h'" "gh_bytes h' = sent @ take k c"
      "length (gh_bytes h') \<le> max_header_bytes" "header_complete h' \<or> k = length c"
      "\<And>cs. header_rest h (c @ cs) = header_rest h' (drop k c @ cs)" by (auto simp: reads_header_def)
    show ?thesis
    proof (cases "header_complete h'")
      case False
      with go Some h(6) f have "v' = ?v\<lparr>g_header := Some h'\<rparr>" by simp
      with False h' h n(2) show ?thesis by (simp add: reading_def)
    next
      case True
      let ?w = "?v\<lparr>g_header := None, g_header_bytes := length (gh_bytes h'), g_decoder := Some (new_gzip lib)\<rparr>"
      from go Some h(6) f True obtain w where w: "decode lib ?w (gh_bytes h') = Ok w" "decode lib w (drop k c) = Ok v'"
        by (auto simp: res_simps)
      have "decoding after ea [] [] ?w"
        using lib h(6,7) run_inv_start [OF ea] by (simp add: decoding_def inflates_def)
      from decode_decodes [OF lib this w(1)] have s: "counters w = counters ?w"
        "(\<exists>p. decoding after ea (gh_bytes h') p w) \<or> decoded member ea (gh_bytes h') w" by simp_all
      have "g_decoder w \<noteq> None" using w(2) by (subst (asm) decode.simps) (auto simp: decode_round_def res_simps)
      with s(2) obtain p where "decoding after ea (gh_bytes h') p w" by (auto simp: decoded_def)
      from decode_decodes [OF lib this w(2)] h'(3)
      have d: "counters v' = counters ?w" "(\<exists>p. decoding after ea (sent @ c) p v') \<or> decoded member ea (sent @ c) v'"
        using s(1) by simp_all
      have "gzip_body ((sent @ c) @ cs) = Some (drop (length (gh_bytes h')) (sent @ c) @ cs)" for cs
        using h(5) [of "c @ cs"] h'(1,3,6) header_rest_complete [OF True] by simp
      moreover from d(2) have "g_header v' = None" by (auto simp: decoding_def decoded_def)
      ultimately show ?thesis using d h'(1,3,4) n(2) by (simp add: reading_def counters_def)
    qed
  qed
qed


text \<open>A whole run: every chunk is fed, whatever the calls return, and then the end is checked.\<close>

definition run_gzip :: "'d inflater \<Rightarrow> expected_archive \<Rightarrow> string list \<Rightarrow> gzip_error + gzip_archive_summary" where
  "run_gzip lib ea chunks = gzip_finish (fold (\<lambda>c v. snd (gzip_feed lib v c)) chunks (gzip_new ea))"

lemma run_reading:
  assumes "inflates lib after member" and "strict_paths ea" and "gzip_ready ea v"
    and "g_failure v = None \<longrightarrow> reading after member ea sent v"
  shows "let w = fold (\<lambda>c v. snd (gzip_feed lib v c)) chunks v
    in g_failure w = None \<longrightarrow> reading after member ea (sent @ concat chunks) w"
  using assms(3,4)
proof (induction chunks arbitrary: sent v)
  case (Cons c chunks)
  let ?w = "snd (gzip_feed lib v c)"
  have "reading after member ea (sent @ c) ?w" if f: "g_failure ?w = None"
  proof -
    have no: "g_failure v = None" using f by (auto simp: gzip_feed_def split: option.splits)
    have "fst (gzip_feed lib v c) \<noteq> Err Panicked" using gzip_feed_ready [OF Cons.prems(1)] by blast
    with f no obtain w where "gzip_feed_inner lib v c = Ok w" "?w = w"
      by (auto simp: gzip_feed_def split: sum.splits stop.splits)
    with feed_reading [OF assms(1,2)] Cons.prems(2) no show ?thesis by blast
  qed
  with Cons.IH [of ?w "sent @ c"] gzip_feed_ready [OF Cons.prems(1), of lib c] show ?case by simp
qed simp

lemma gzip_member:
  assumes "expected_archive_new files = Ok ea" and "inflates lib after member"
    and "run_gzip lib ea chunks = Ok summary"
  shows "let stream = concat chunks in \<exists>n archive es.
    n \<le> max_header_bytes \<and> gzip_body stream = Some (drop n stream) \<and> n + 8 < length stream
    \<and> length stream \<le> gz_max_source_bytes \<and> member stream = Some archive
    \<and> length archive \<le> min max_archive_bytes (max_expansion_ratio * (length stream - n - 8) + expansion_slack_bytes)
    \<and> tar_entries archive = Some es \<and> mset es = mset (map (\<lambda>f. (ef_path f, ef_size f)) files)
    \<and> summary = \<lparr>gs_compressed_bytes = length stream, gs_files = length files,
         gs_payload_bytes = ea_payload_bytes ea, gs_archive_bytes = length archive\<rparr>"
proof -
  note ea = expected_archive_new_strict [OF assms(1)]
  let ?v = "fold (\<lambda>c v. snd (gzip_feed lib v c)) chunks (gzip_new ea)"
  from assms(3) have fin: "g_failure ?v = None" "g_complete ?v" "gzip_finish ?v = Ok summary"
    by (auto simp: run_gzip_def gzip_finish_def split: option.splits if_splits)
  have "reading after member ea [] (gzip_new ea)"
    by (simp add: reading_def gzip_new_def header_new_wf header_new_def header_complete_def header_wf_def header_rest_def)
  with run_reading [OF assms(2) ea(1) gzip_new_ready [OF ea(1)], of "[]" chunks] fin(1)
  have r: "reading after member ea (concat chunks) ?v" by simp
  with fin(2) have d: "decoded member ea (concat chunks) ?v" "g_header_bytes ?v \<le> max_header_bytes"
    and body: "\<And>cs. gzip_body (concat chunks @ cs) = Some (drop (g_header_bytes ?v) (concat chunks) @ cs)"
    by (auto simp: reading_def decoding_def split: option.splits)
  from d(1) obtain p inner where p: "member (concat chunks) = Some p" "g_inner ?v = Some inner" "run_inv ea p inner"
    by (auto simp: decoded_def)
  have files: "length (ea_files ea) = length files" using ea(2) by (metis size_mset)
  from fin p(2) obtain s where s: "finish inner = Ok s"
    and sum: "summary = \<lparr>gs_compressed_bytes = g_source_bytes ?v, gs_files = as_files s,
       gs_payload_bytes = as_payload_bytes s, gs_archive_bytes = as_archive_bytes s\<rparr>"
    and cap: "as_archive_bytes s \<le> g_deflate_bytes ?v * max_expansion_ratio + expansion_slack_bytes"
    by (auto simp: gzip_finish_def res_simps bind_eq_Some_conv split: if_splits)
  from s run_inv_finish [OF p(3)] have a: "length p \<le> max_archive_bytes"
    "\<exists>es. tar_entries p = Some es \<and> mset es = mset (map (\<lambda>f. (ef_path f, ef_size f)) files)"
    "s = \<lparr>as_files = length files, as_payload_bytes = ea_payload_bytes ea, as_archive_bytes = length p\<rparr>"
    using ea(2) by (auto simp: files entry_of_def [abs_def])
  show ?thesis
    using d p(1) body [of "[]"] a sum cap r
    by (auto simp: Let_def decoded_def reading_def mult.commute intro!: exI [of _ "g_header_bytes ?v"])
qed

text \<open>
  Property C29: a stream that the validator accepts is, as a whole and with nothing after it,
  one gzip member: an admitted header of at most the limit, a nonempty body and the trailer.
  Its decompressed contents, within the size and expansion limits, are a complete archive whose
  entries are the files of the manifest, each once with its size, and the summary gives the
  lengths of both. This holds for every library that behaves as documented, however the stream
  was cut into chunks and however the library cut its output.
\<close>

theorem gzip_accepts_member:
  assumes "expected_archive_new files = Ok ea" and "inflates lib after member"
    and "run_gzip lib ea chunks = Ok summary"
  shows "let stream = concat chunks in \<exists>n archive es.
    n \<le> max_header_bytes \<and> gzip_body stream = Some (drop n stream) \<and> n + 8 < length stream
    \<and> length stream \<le> gz_max_source_bytes \<and> member stream = Some archive
    \<and> length archive \<le> min max_archive_bytes (max_expansion_ratio * (length stream - n - 8) + expansion_slack_bytes)
    \<and> tar_entries archive = Some es \<and> mset es = mset (map (\<lambda>f. (ef_path f, ef_size f)) files)
    \<and> summary = \<lparr>gs_compressed_bytes = length stream, gs_files = length files,
         gs_payload_bytes = ea_payload_bytes ea, gs_archive_bytes = length archive\<rparr>"
  using assms by (rule gzip_member)

section \<open>A sample stream\<close>

text \<open>
  A library for one trivial compression: ten bytes of header, the contents as they are and
  eight bytes of trailer, all in one call after the header.
\<close>

definition stored_contents :: "string \<Rightarrow> string" where
  "stored_contents c = take (length c - 18) (drop 10 c)"

definition stored_inflater :: "string inflater" where
  "stored_inflater =
     \<lparr>new_gzip = [], total_in = length, total_out = (\<lambda>d. length (stored_contents d)),
      decompress = (\<lambda>d inp room.
        if length d < 10 then (Some (IS_Ok, []), d @ take (10 - length d) inp)
        else if length d = 10 \<and> 8 < length inp \<and> length inp - 8 \<le> room
        then (Some (IS_StreamEnd, take (length inp - 8) inp), d @ inp) else (None, d))\<rparr>"

definition stored_after :: "string \<Rightarrow> string \<Rightarrow> string \<Rightarrow> bool" where
  "stored_after d c p \<longleftrightarrow> d = c \<and> p = stored_contents c"

definition stored_member :: "string \<Rightarrow> string option" where
  "stored_member c = (if 18 < length c then Some (stored_contents c) else None)"

lemma stored_inflates: "inflates stored_inflater stored_after stored_member"
  unfolding inflates_def
proof (intro conjI allI impI)
  fix d c p inp room status out d'
  assume a: "stored_after d c p \<and> decompress stored_inflater d inp room = (Some (status, out), d')"
  then have d: "d = c" "p = stored_contents c" by (simp_all add: stored_after_def)
  show "length out \<le> room"
    using a by (auto simp: stored_inflater_def split: if_splits)
  show "\<exists>used\<le>length inp. stored_after d' (c @ take used inp) (p @ out)
      \<and> (status = IS_StreamEnd \<longrightarrow> stored_member (c @ take used inp) = Some (p @ out))"
  proof (cases "length c < 10")
    case True
    with a d show ?thesis
      by (intro exI [of _ "min (length inp) (10 - length c)"])
         (auto simp: stored_inflater_def stored_after_def stored_contents_def min_def)
  next
    case False
    with a d show ?thesis
      by (intro exI [of _ "length inp"])
         (auto simp: stored_inflater_def stored_after_def stored_contents_def stored_member_def split: if_splits)
  qed
qed (simp_all add: stored_inflater_def stored_after_def stored_contents_def)

definition sample_fixed :: string where
  "sample_fixed = gzip_magic @ replicate 7 NUL"

definition sample_member :: string where
  "sample_member = sample_fixed @ sample_stream @ replicate 8 NUL"

abbreviation sample_expected :: expected_archive where
  "sample_expected \<equiv> \<lparr>ea_files = sample_files, ea_payload_bytes = 3\<rparr>"

lemma sample_stream_length: "length sample_stream = 2048"
  by (simp add: sample_stream_def sample_block_def)

lemma sample_inner:
  obtains inner where "feed (validator_new sample_expected) sample_stream = (Ok (), inner)"
    and "run_inv sample_expected sample_stream inner"
proof -
  let ?v = "validator_new sample_expected"
  have "strict_paths sample_expected" using expected_archive_new_strict(1) [OF sample_manifest] .
  from feed_run_inv [OF run_inv_start [OF this], of sample_stream]
  have r: "run_inv sample_expected sample_stream (snd (feed ?v sample_stream))" "fst (feed ?v sample_stream) \<noteq> Err Panicked"
    by (simp_all add: sample_stream_length limit_defs)
  have "mset [(''etc/config/system'', 3)] = image_mset entry_of (mset (ea_files sample_expected))"
    by (simp add: sample_files_def entry_of_def)
  with run_inv_finish [OF r(1)] have "\<exists>s. finish (snd (feed ?v sample_stream)) = Ok s"
    by (auto simp: sample_entries sample_stream_length limit_defs)
  then have "fst (feed ?v sample_stream) = Ok ()"
    using r(2) by (auto simp: feed_def finish_def split: option.splits sum.splits stop.splits)
  with r(1) show thesis by (intro that [of "snd (feed ?v sample_stream)"]) (simp_all add: prod_eq_iff)
qed

lemma sample_header_read:
  "\<exists>h. header_feed header_new (sample_fixed @ bs) = Ok (10, h) \<and> header_complete h \<and> gh_bytes h = sample_fixed"
proof -
  have l: "sample_fixed = [CHR 0x1F, CHR 0x8B, CHR 0x08, NUL, NUL, NUL, NUL, NUL, NUL, NUL]"
    by (simp add: sample_fixed_def gzip_magic_def numeral_eq_Suc)
  have "gh_stage (advance \<lparr>gh_bytes = xs, gh_flags = 0, gh_stage = st\<rparr>) = GS_Done" for xs st
    by (simp add: advance_def)
  moreover have "gh_bytes (advance h) = gh_bytes h" for h by simp
  ultimately show ?thesis
    unfolding l
    by (cases bs) (simp_all add: header_new_def header_byte_def stage_byte_def header_complete_def limit_defs
        byte_word_def gzip_magic_def numeral_3_eq_3)
qed

lemma sample_gzip_run:
  "run_gzip stored_inflater sample_expected [sample_member]
   = Ok \<lparr>gs_compressed_bytes = 2066, gs_files = 1, gs_payload_bytes = 3, gs_archive_bytes = 2048\<rparr>"
proof -
  let ?ea = sample_expected and ?lib = stored_inflater
  obtain inner where i: "feed (validator_new ?ea) sample_stream = (Ok (), inner)"
    "run_inv ?ea sample_stream inner" by (rule sample_inner)
  obtain h where h: "header_feed header_new sample_member = Ok (10, h)" "header_complete h" "gh_bytes h = sample_fixed"
    using sample_header_read by (auto simp: sample_member_def)
  let ?v = "(gzip_new ?ea)\<lparr>g_source_bytes := 2066\<rparr>"
  let ?w = "?v\<lparr>g_header := None, g_header_bytes := 10, g_decoder := Some []\<rparr>"
  have len: "length sample_fixed = 10" "length sample_member = 2066"
    by (simp_all add: sample_fixed_def gzip_magic_def sample_member_def sample_stream_length)
  have empty: "feed (validator_new ?ea) [] = (Ok (), validator_new ?ea)"
    by (simp add: feed_def feed_inner_def validator_new_def limit_defs checked_add_def feed_loop.simps)
  have first: "decode ?lib ?w sample_fixed = Ok (?w\<lparr>g_decoder := Some sample_fixed\<rparr>)"
    by (subst decode.simps)
       (simp add: decode_round_def stored_inflater_def len progress_def checked_sub_def stored_contents_def
         feed_archive_def gzip_new_def empty limit_defs)
  have out: "take 2048 (filled_buffer sample_stream) = sample_stream"
    using filled_buffer_take [of sample_stream] by (simp add: sample_stream_length limit_defs)
  have second: "decode ?lib (?w\<lparr>g_decoder := Some sample_fixed\<rparr>) (sample_stream @ replicate 8 NUL)
      = Ok (?w\<lparr>g_inner := Some inner, g_deflate_bytes := 2048, g_complete := True, g_decoder := None\<rparr>)"
    by (subst decode.simps)
       (simp add: decode_round_def stored_inflater_def len progress_def checked_sub_def stored_contents_def
         feed_archive_def gzip_new_def i(1) sample_stream_length out limit_defs end_stream_def)
  have rest: "drop 10 sample_member = sample_stream @ replicate 8 NUL"
    using len(1) by (simp add: sample_member_def)
  have lib: "new_gzip ?lib = []" by (simp add: stored_inflater_def)
  have new: "g_header (gzip_new ?ea) = Some header_new" "g_source_bytes (gzip_new ?ea) = 0" "\<not> g_complete (gzip_new ?ea)"
    by (simp_all add: gzip_new_def)
  have "gzip_feed_inner ?lib (gzip_new ?ea) sample_member
      = and_then (decode ?lib ?w sample_fixed) (\<lambda>v. decode ?lib v (drop 10 sample_member))"
    unfolding gzip_feed_inner_def len(2) new(2) Let_def
    by (simp add: limit_defs checked_add_def new h(1,2) lib) (simp add: h(3) len(1))
  then have "gzip_feed_inner ?lib (gzip_new ?ea) sample_member
      = Ok (?w\<lparr>g_inner := Some inner, g_deflate_bytes := 2048, g_complete := True, g_decoder := None\<rparr>)"
    unfolding rest first and_then.simps second .
  moreover have "mset [(''etc/config/system'', 3)] = image_mset entry_of (mset (ea_files ?ea))"
    by (simp add: sample_files_def entry_of_def)
  then have "finish inner = Ok \<lparr>as_files = 1, as_payload_bytes = 3, as_archive_bytes = 2048\<rparr>"
    by (subst run_inv_finish [OF i(2)])
       (simp add: sample_entries sample_stream_length limit_defs sample_files_def)
  ultimately show ?thesis
    by (simp add: run_gzip_def gzip_feed_def gzip_finish_def gzip_new_def checked_mul_def checked_add_def limit_defs)
qed

theorem gzip_accepts_member_witness:
  "\<exists>n archive. gzip_body sample_member = Some (drop n sample_member) \<and> n + 8 < length sample_member
     \<and> stored_member sample_member = Some archive \<and> length archive = 2048
     \<and> (\<exists>es. tar_entries archive = Some es \<and> mset es = {#(''etc/config/system'', 3)#})"
  using gzip_accepts_member [OF sample_manifest stored_inflates sample_gzip_run]
  by (simp add: Let_def sample_files_def) blast

theorem gzip_feed_robust_witness:
  "\<exists>v. v = snd (gzip_feed stored_inflater (gzip_new sample_expected) (replicate 65537 NUL))
     \<and> gzip_feed stored_inflater v [] = (Err (Returned GE_LimitExceeded), v)
     \<and> gzip_finish v = Err GE_LimitExceeded"
proof -
  have "fst (gzip_feed stored_inflater (gzip_new sample_expected) (replicate 65537 NUL)) = Err (Returned GE_LimitExceeded)"
    by (simp add: gzip_feed_def gzip_new_def gzip_feed_inner_def limit_defs)
  with gzip_feed_robust [OF sample_manifest, of _ stored_inflater "[]" "replicate 65537 NUL" GE_LimitExceeded "[]"]
  show ?thesis by simp
qed

end
