(* ===== verification/WorkflowProofs.thy ===== *)
theory WorkflowProofs
  imports Workflow SealTrace StoreProofs GzipProofs
begin

text \<open>
  What a sealed capture and an inspected record are worth: the sealer's ports are the store and
  the validators, so its trace determines what was checked, encrypted and published.
\<close>

section \<open>What the checker accepts\<close>

definition check_run :: "'d inflater \<Rightarrow> 'd check_validator \<Rightarrow> string list \<Rightarrow> 'd check_validator" where
  "check_run lib v cs = fold (\<lambda>c v. snd (validator_feed lib c v)) cs v"

lemma check_run_simps [simp]:
  "check_run lib v [] = v" "check_run lib v (cs @ [c]) = snd (validator_feed lib c (check_run lib v cs))"
  "check_run lib v (c # cs) = check_run lib (snd (validator_feed lib c v)) cs"
  by (simp_all add: check_run_def)

lemma check_run_tar: "check_run lib (Check_Tar v) cs = Check_Tar (fold (\<lambda>c v. snd (feed v c)) cs v)"
  by (induction cs arbitrary: v) (simp_all split: prod.split)

lemma check_run_gzip: "check_run lib (Check_Gzip v) cs = Check_Gzip (fold (\<lambda>c v. snd (gzip_feed lib v c)) cs v)"
  by (induction cs arbitrary: v) (simp_all split: prod.split)

definition archive_of :: "(string \<Rightarrow> string option) \<Rightarrow> artifact_binding \<Rightarrow> string \<Rightarrow> string option" where
  "archive_of member b bytes = (case binding_format b of Format_Tar \<Rightarrow> Some bytes | Format_Gzip \<Rightarrow> member bytes)"

text \<open>The bytes are a backup of the bound system: one archive with the one file, of its size.\<close>

definition is_backup :: "(string \<Rightarrow> string option) \<Rightarrow> artifact_binding \<Rightarrow> string \<Rightarrow> bool" where
  "is_backup member b bytes \<longleftrightarrow> length bytes = binding_source_bytes b
     \<and> (\<exists>archive. archive_of member b bytes = Some archive
         \<and> tar_entries archive = Some [(''etc/config/system'', binding_file_bytes b)])"

lemma run_validator_chunks:
  assumes "run_validator ea cs = Ok summary"
  shows "\<forall>c \<in> set cs. length c \<le> max_chunk_bytes"
proof -
  have stays: "v_failure v \<noteq> None \<Longrightarrow> v_failure (fold (\<lambda>c v. snd (feed v c)) cs v) \<noteq> None" for cs v
    by (induction cs arbitrary: v) (auto simp: feed_def)
  have "\<exists>c \<in> set cs. length c > max_chunk_bytes \<Longrightarrow> v_failure (fold (\<lambda>c v. snd (feed v c)) cs v) \<noteq> None" for v
  proof (induction cs arbitrary: v)
    case (Cons c cs)
    show ?case
    proof (cases "length c > max_chunk_bytes")
      case True
      then have "v_failure (snd (feed v c)) \<noteq> None" by (simp add: feed_def feed_inner_def split: option.split)
      then show ?thesis using stays by simp
    qed (use Cons in auto)
  qed simp
  moreover have "v_failure (fold (\<lambda>c v. snd (feed v c)) cs (validator_new ea)) = None"
    using assms by (simp add: run_validator_def finish_def split: option.splits)
  ultimately show ?thesis by (meson not_le)
qed

lemma expected_of_Ok:
  assumes "expected_of b = Ok ea"
  obtains f where "expected_archive_new [f] = Ok ea" "ef_path f = ''etc/config/system''"
    "ef_size f = binding_file_bytes b" "ea_payload_bytes ea = binding_file_bytes b"
proof -
  from assms obtain f where f: "expected_file_new ''etc/config/system'' (binding_file_bytes b) = Ok f"
    and ea: "expected_archive_new [f] = Ok ea" by (auto simp: expected_of_def res_simps)
  from f have s: "ef_path f = ''etc/config/system''" "ef_size f = binding_file_bytes b"
    by (auto simp: expected_file_new_def res_simps split: if_splits)
  from ea have "ea_payload_bytes ea = ef_size f"
    by (auto simp: expected_archive_new_def res_simps Let_def add_payload_def checked_add_def split: if_splits option.splits)
  with ea s show thesis by (simp add: that)
qed

lemma check_accepts:
  assumes lib: "inflates lib after member" and ea: "expected_of b = Ok ea"
    and fin: "validator_finish (check_run lib (validator_of b ea) cs) = Some counts"
  shows "cc_source_bytes counts = length (concat cs) \<and> cc_payload_bytes counts = binding_file_bytes b
    \<and> cc_files counts = 1
    \<and> (\<exists>archive. archive_of member b (concat cs) = Some archive
        \<and> tar_entries archive = Some [(''etc/config/system'', binding_file_bytes b)])"
proof -
  from ea obtain f where f: "expected_archive_new [f] = Ok ea" "ef_path f = ''etc/config/system''"
    "ef_size f = binding_file_bytes b" "ea_payload_bytes ea = binding_file_bytes b" by (rule expected_of_Ok)
  note strict = expected_archive_new_strict [OF f(1)]
  show ?thesis
  proof (cases "binding_format b")
    case Format_Tar
    with fin obtain s where run: "run_validator ea cs = Ok s"
      and c: "counts = \<lparr>cc_source_bytes = as_archive_bytes s, cc_expanded_bytes = as_archive_bytes s,
         cc_payload_bytes = as_payload_bytes s, cc_files = as_files s\<rparr>"
      by (auto simp: validator_of_def check_run_tar run_validator_def split: sum.splits)
    from run run_validator_iff [OF strict(1) run_validator_chunks [OF run]]
    show ?thesis using strict(2) f(2-) unfolding c by (auto simp: archive_of_def Format_Tar entry_of_def)
  next
    case Format_Gzip
    with fin obtain s where run: "run_gzip lib ea cs = Ok s"
      and c: "counts = \<lparr>cc_source_bytes = gs_compressed_bytes s, cc_expanded_bytes = gs_archive_bytes s,
         cc_payload_bytes = gs_payload_bytes s, cc_files = gs_files s\<rparr>"
      by (auto simp: validator_of_def check_run_gzip run_gzip_def split: sum.splits)
    from gzip_member [OF f(1) lib run] show ?thesis
      using f(2-) unfolding c by (auto simp: archive_of_def Format_Gzip Let_def)
  qed
qed

section \<open>The work behind a trace\<close>

text \<open>The ports document what the file does; reading the clock does not touch it.\<close>

definition honest_ports :: "('w, 'd) backup_ports \<Rightarrow> ('w \<Rightarrow> string) \<Rightarrow> bool" where
  "honest_ports bp contents \<longleftrightarrow> honest_file (bp_store bp) contents
     \<and> (\<forall>w t w'. bp_clock bp w = (t, w') \<longrightarrow> contents w' = contents w)"

fun wrote_by :: "seal_event \<Rightarrow> string" where
  "wrote_by (SE_Write bytes (Some n)) = take n bytes"
| "wrote_by _ = []"

fun feeds_by :: "seal_event \<Rightarrow> string list" where
  "feeds_by (SE_Feed bytes ok) = (if ok then [bytes] else [])"
| "feeds_by _ = []"

definition feeds :: "seal_event list \<Rightarrow> string list" where "feeds es = concat (map feeds_by es)"
definition wrote :: "seal_event list \<Rightarrow> string" where "wrote es = concat (map wrote_by es)"

lemma feeds_simps [simp]: "feeds [] = []" "feeds (es @ [e]) = feeds es @ feeds_by e"
  "wrote [] = []" "wrote (es @ [e]) = wrote es @ wrote_by e"
  by (simp_all add: feeds_def wrote_def)

lemma concat_feeds: "concat (feeds es) = fed es"
proof (induction es rule: rev_induct)
  case (snoc e es)
  then show ?case by (cases e) simp_all
qed simp

text \<open>
  The state of the work after the events, while nothing was published, cancelled or aborted.
\<close>

definition work_inv ::
    "('w, 'd) backup_ports \<Rightarrow> ('w \<Rightarrow> string) \<Rightarrow> ('w, 'd) backup_work \<Rightarrow> seal_event list \<Rightarrow> ('w, 'd) backup_work \<Rightarrow> bool" where
  "work_inv bp contents w0 es w \<longleftrightarrow>
     bw_binding w = bw_binding w0 \<and> bw_data w = bw_data w0
     \<and> bw_position w \<le> length (bw_data w0) \<and> readings es = take (bw_position w) (bw_data w0)
     \<and> bw_memory w = wrote es
     \<and> (\<forall>r. SE_Finish r \<in> set es \<longrightarrow> bw_check w = None)
     \<and> (\<forall>n. SE_Complete (Some n) \<in> set es \<longrightarrow> n = length (bw_data w0))
     \<and> stored contents (contents (rs_world (bw_store w0))) (rs_id (bw_store w0)) (rs_uncertain (bw_store w0)) (bw_store w)
     \<and> (accepted es \<longrightarrow> (\<forall>v0. bw_check w0 = Some v0 \<longrightarrow>
          (\<forall>v. bw_check w = Some v \<longrightarrow> v = check_run (bp_inflater bp) v0 (feeds es))
          \<and> (\<forall>c. SE_Finish (Some c) \<in> set es \<longrightarrow>
              validator_finish (check_run (bp_inflater bp) v0 (feeds es)) = Some c)))"

lemma work_ok_store:
  assumes "honest_ports bp contents" and "work_ok (bp_store bp) w = (ok, w')"
    and "stored contents file store u (bw_store w)"
  obtains s where "w' = w\<lparr>bw_store := s\<rparr>" "stored contents file store u s"
proof -
  obtain r s where c: "checked (bp_store bp) (bw_store w) = (r, s)" by (cases "checked (bp_store bp) (bw_store w)")
  have "honest_file (bp_store bp) contents" using assms(1) by (simp add: honest_ports_def)
  from learnsD [OF learns_checked [OF this, of False] assms(3) c] have "stored contents file store u s"
    by (cases r) simp_all
  moreover from assms(2) c have "w' = w\<lparr>bw_store := s\<rparr>" by (simp add: work_ok_def)
  ultimately show thesis using that by blast
qed

lemma work_inv_start: "work_inv bp contents w0 [] w0 \<longleftrightarrow> bw_position w0 = 0 \<and> bw_memory w0 = []"
  by (auto simp: work_inv_def stored_def)

lemma work_inv_ok:
  assumes "honest_ports bp contents" and "work_inv bp contents w0 es w" and "work_ok (bp_store bp) w = (ok, w')"
  shows "work_inv bp contents w0 es w'"
proof -
  from assms(2) obtain s where "w' = w\<lparr>bw_store := s\<rparr>"
    "stored contents (contents (rs_world (bw_store w0))) (rs_id (bw_store w0)) (rs_uncertain (bw_store w0)) s"
    by (auto simp: work_inv_def elim: work_ok_store [OF assms(1,3)])
  with assms(2) show ?thesis by (simp add: work_inv_def)
qed

lemma take_min_length: "take (min (length ys) n) ys = take n ys"
  by (simp add: min_def)

lemma work_inv_read:
  assumes honest: "honest_ports bp contents" and inv: "work_inv bp contents w0 es w"
    and step: "source_read (bp_store bp) n w = (r, w')"
  shows "work_inv bp contents w0 (es @ [SE_Read n r]) w'"
proof -
  obtain ok w1 where ok: "work_ok (bp_store bp) w = (ok, w1)" by (cases "work_ok (bp_store bp) w")
  note w1 = work_inv_ok [OF honest inv ok]
  show ?thesis
  proof (cases ok)
    case True
    let ?bytes = "take n (drop (bw_position w1) (bw_data w1))"
    from step ok True have r: "r = Some (length ?bytes, ?bytes)" "w' = w1\<lparr>bw_position := bw_position w1 + length ?bytes\<rparr>"
      by (simp_all add: source_read_def Let_def)
    have "take (length ?bytes) (take n (?bytes @ replicate n NUL)) = ?bytes"
      using take_min_length [of "drop (bw_position w1) (bw_data w1)" n] by simp
    moreover have "take (bw_position w1) (bw_data w0) @ take n (drop (bw_position w1) (bw_data w0))
        = take (bw_position w1 + min (length (bw_data w0) - bw_position w1) n) (bw_data w0)"
      using take_min_length [of "drop (bw_position w1) (bw_data w0)" n] by (simp add: take_add)
    ultimately show ?thesis using w1 by (auto simp: r work_inv_def)
  qed (use step ok w1 in \<open>simp add: source_read_def work_inv_def\<close>)
qed

lemma work_inv_feed:
  assumes honest: "honest_ports bp contents" and inv: "work_inv bp contents w0 es w"
    and step: "check_feed bp bytes w = (r, w')"
  shows "work_inv bp contents w0 (es @ [SE_Feed bytes r]) w'"
proof -
  obtain ok w1 where ok: "work_ok (bp_store bp) w = (ok, w1)" by (cases "work_ok (bp_store bp) w")
  note w1 = work_inv_ok [OF honest inv ok]
  have refused: "work_inv bp contents w0 (es @ [SE_Feed bytes False]) w2"
    if "work_inv bp contents w0 es (w2\<lparr>bw_check := x\<rparr>)" "bw_check w2 = None \<longleftrightarrow> x = None" for w2 x
    using that by (auto simp: work_inv_def)
  show ?thesis
  proof (cases "ok \<and> bw_check w1 \<noteq> None")
    case False
    with step ok have "r = False" "w' = w1" by (auto simp: check_feed_def split: bool.splits)
    with refused [where ?w2.0 = w1 and x = "bw_check w1"] w1 show ?thesis by simp
  next
    case True
    then obtain v where v: "bw_check w1 = Some v" by blast
    obtain fine v' where f: "validator_feed (bp_inflater bp) bytes v = (fine, v')"
      by (cases "validator_feed (bp_inflater bp) bytes v")
    let ?w2 = "w1\<lparr>bw_check := Some v'\<rparr>"
    show ?thesis
    proof (cases fine)
      case False
      with step ok True v f have "r = False" "w' = ?w2" by (simp_all add: check_feed_def Let_def)
      moreover have "w1\<lparr>bw_check := Some v\<rparr> = w1" using v by (cases w1) simp
      ultimately show ?thesis using refused [where ?w2.0 = ?w2 and x = "Some v"] w1 by simp
    next
      case True
      have "work_inv bp contents w0 (es @ [SE_Feed bytes True]) ?w2"
        using w1 v f by (auto simp: work_inv_def)
      moreover from step ok \<open>ok \<and> _\<close> v f True have again: "work_ok (bp_store bp) ?w2 = (r, w')"
        by (simp add: check_feed_def Let_def)
      ultimately have "work_inv bp contents w0 (es @ [SE_Feed bytes True]) w'"
        using work_inv_ok [OF honest] by blast
      then show ?thesis by (cases r) (auto simp: work_inv_def)
    qed
  qed
qed

lemma work_inv_finish:
  assumes honest: "honest_ports bp contents" and inv: "work_inv bp contents w0 es w"
    and step: "check_finish (bp_store bp) w = (r, w')"
  shows "work_inv bp contents w0 (es @ [SE_Finish r]) w'"
proof -
  obtain ok w1 where ok: "work_ok (bp_store bp) w = (ok, w1)" by (cases "work_ok (bp_store bp) w")
  note w1 = work_inv_ok [OF honest inv ok]
  let ?w2 = "w1\<lparr>bw_check := None\<rparr>"
  have none: "work_inv bp contents w0 (es @ [SE_Finish None]) ?w2" using w1 by (auto simp: work_inv_def)
  show ?thesis
  proof (cases "ok \<and> Option.bind (bw_check w1) validator_finish \<noteq> None")
    case False
    with step ok none show ?thesis by (auto simp: check_finish_def split: bool.splits option.splits)
  next
    case True
    then obtain counts where c: "Option.bind (bw_check w1) validator_finish = Some counts" by blast
    have some: "work_inv bp contents w0 (es @ [SE_Finish (Some counts)]) ?w2"
      using w1 c by (auto simp: work_inv_def bind_eq_Some_conv)
    obtain again w2 where again: "work_ok (bp_store bp) ?w2 = (again, w2)" by (cases "work_ok (bp_store bp) ?w2")
    from step ok True c again have "r = (if again then Some counts else None)" "w' = w2"
      by (auto simp: check_finish_def)
    with work_inv_ok [OF honest some again] work_inv_ok [OF honest none again] show ?thesis by simp
  qed
qed

lemma work_inv_quiet:
  assumes inv: "work_inv bp contents w0 es w" and honest: "honest_ports bp contents"
    and step: "answered (work_ports bp auth) e w w'" and quiet: "quiet e"
  shows "work_inv bp contents w0 (es @ [e]) w'"
proof (cases e)
  case (SE_Now t)
  with step inv honest show ?thesis
    by (auto simp: work_ports_def clock_now_def work_inv_def stored_def honest_ports_def split: prod.splits)
next
  case (SE_Deliver bytes)
  with step inv show ?thesis by (simp add: work_inv_def)
next
  case (SE_Capabilities r)
  with step inv show ?thesis by (simp add: work_inv_def work_ports_def)
next
  case (SE_Flush ok)
  with step have "work_ok (bp_store bp) w = (ok, w')" by (simp add: work_ports_def)
  then obtain s where "w' = w\<lparr>bw_store := s\<rparr>"
    "stored contents (contents (rs_world (bw_store w0))) (rs_id (bw_store w0)) (rs_uncertain (bw_store w0)) s"
    using inv by (auto simp: work_inv_def elim: work_ok_store [OF honest])
  with inv SE_Flush show ?thesis by (simp add: work_inv_def)
next
  case (SE_Complete r)
  obtain ok w1 where ok: "work_ok (bp_store bp) w = (ok, w1)" by (cases "work_ok (bp_store bp) w")
  from work_inv_ok [OF honest inv ok] step ok SE_Complete show ?thesis
    by (cases ok) (auto simp: work_ports_def source_completed_def work_inv_def)
next
  case (SE_Write bytes r)
  obtain ok w1 where ok: "work_ok (bp_store bp) w = (ok, w1)" by (cases "work_ok (bp_store bp) w")
  from work_inv_ok [OF honest inv ok] step ok SE_Write show ?thesis
    by (cases ok) (auto simp: work_ports_def stage_write_def memory_put_def work_inv_def split: if_splits)
next
  case (SE_Read n r)
  with step work_inv_read [OF honest inv] show ?thesis by (simp add: work_ports_def)
next
  case (SE_Feed bytes r)
  with step work_inv_feed [OF honest inv] show ?thesis by (simp add: work_ports_def)
next
  case (SE_Finish r)
  with step work_inv_finish [OF honest inv] show ?thesis by (simp add: work_ports_def)
qed (use quiet in simp_all)

lemma work_inv_replay:
  assumes "honest_ports bp contents" and "replay (work_ports bp auth) w0 es w" and "list_all quiet es"
    and "bw_position w0 = 0" "bw_memory w0 = []"
  shows "work_inv bp contents w0 es w"
  using assms(2,3)
proof induction
  case replay_start
  then show ?case using assms(4,5) by (simp add: work_inv_start)
next
  case (replay_answer es w e w')
  then show ?case using work_inv_quiet [OF _ assms(1)] by simp
qed

text \<open>Nothing but a publication changes the file.\<close>

lemma unpublished_store:
  assumes honest: "honest_ports bp contents" and step: "answered (work_ports bp auth) e w w'" "\<not> is_publish e"
    and w: "stored contents file store u (bw_store w)"
  shows "stored contents file store u (bw_store w')"
proof -
  have ok: "stored contents file store u (bw_store x')"
    if "work_ok (bp_store bp) x = (r, x')" "stored contents file store u (bw_store x)" for x x' r
    using that by (auto elim: work_ok_store [OF honest])
  show ?thesis
  proof (cases e)
    case (SE_Now t)
    with step w honest show ?thesis
      by (auto simp: work_ports_def clock_now_def stored_def honest_ports_def split: prod.splits)
  next
    case (SE_Feed bytes r)
    with step w show ?thesis
      by (auto simp: work_ports_def check_feed_def Let_def dest!: ok split: prod.splits bool.splits option.splits if_splits)
  next
    case (SE_Finish r)
    with step w show ?thesis
      by (auto simp: work_ports_def check_finish_def dest!: ok split: prod.splits bool.splits option.splits)
  qed (use step w in \<open>auto simp: work_ports_def source_read_def source_completed_def source_cancel_def stage_write_def
      stage_abort_def Let_def dest!: ok split: prod.splits bool.splits option.splits\<close>)
qed

lemma unpublished_replay:
  assumes "honest_ports bp contents" and "replay (work_ports bp auth) w es w'" and "\<forall>e \<in> set es. \<not> is_publish e"
    and "stored contents file store u (bw_store w)"
  shows "stored contents file store u (bw_store w')"
  using assms(2-4)
proof induction
  case (replay_answer es w' e w'')
  then show ?case using unpublished_store [OF assms(1)] by simp
qed

section \<open>Sealing into the store\<close>

text \<open>A whole, checked archive is all that the stage ever offers to the store.\<close>

definition offers_checked ::
    "('w, 'd) backup_ports \<Rightarrow> ('w, 'd) backup_work \<Rightarrow> sealed_counts \<Rightarrow> ('w, 'd) backup_work \<Rightarrow> bool" where
  "offers_checked bp w0 counts w \<longleftrightarrow>
     bw_binding w = bw_binding w0
     \<and> (\<exists>v0 cs c. bw_check w0 = Some v0 \<and> concat cs = bw_data w0
          \<and> validator_finish (check_run (bp_inflater bp) v0 cs) = Some c
          \<and> sc_source_bytes counts = length (bw_data w0) \<and> sc_payload_bytes counts = cc_payload_bytes c
          \<and> sc_files counts = cc_files c)"

lemma exact_offer:
  assumes "exact (pre @ SE_Publish counts outcome # post)" and "\<forall>e \<in> set post. (\<exists>t. e = SE_Now t) \<or> is_abort e"
  shows "exact pre"
proof -
  have "read_by e = [] \<and> fed_by e = []" if "e \<in> set post" for e
    using assms(2) that by (cases e) fastforce+
  then have "concat (map read_by post) = []" "concat (map fed_by post) = []" by auto
  with assms(1) show ?thesis by (auto simp: exact_def readings_def fed_def accepted_def)
qed

lemma verified_offer:
  assumes "work_inv bp contents w0 pre w" and "exact pre" and "verified lim counts pre" and "bw_check w0 = Some v0"
  shows "offers_checked bp w0 counts w"
proof -
  from assms(3) obtain sm where v: "length (fed pre) = sc_source_bytes counts" "SE_Finish (Some sm) \<in> set pre"
      "sc_payload_bytes counts = cc_payload_bytes sm" "sc_files counts = cc_files sm"
      "SE_Complete (Some (sc_source_bytes counts)) \<in> set pre"
    by (auto simp: verified_def accounted_def summed_def)
  from assms(1) v(5) have n: "sc_source_bytes counts = length (bw_data w0)"
    and r: "readings pre = take (bw_position w) (bw_data w0)" "bw_position w \<le> length (bw_data w0)"
    and b: "bw_binding w = bw_binding w0" by (auto simp: work_inv_def)
  from assms(1,2,4) v(2) have f: "validator_finish (check_run (bp_inflater bp) v0 (feeds pre)) = Some sm"
    by (auto simp: work_inv_def exact_def)
  have whole: "fed pre = take (bw_position w) (bw_data w0)" using r(1) assms(2) by (simp add: exact_def)
  with v(1) n r(2) have "bw_position w = length (bw_data w0)" by simp
  with whole have "fed pre = bw_data w0" by simp
  with b n f v(3,4) assms(4) show ?thesis unfolding offers_checked_def
    by (intro conjI exI [of _ v0] exI [of _ "feeds pre"] exI [of _ sm]) (simp_all add: concat_feeds)
qed

lemma seal_work:
  assumes honest: "honest_ports bp contents"
    and run: "seal_with_clock (work_ports bp auth) lim cipher w0 = (result, s)"
    and w0: "bw_position w0 = 0" "bw_memory w0 = []" "bw_check w0 = Some v0"
  obtains report where "result = Inl report" "fr_publication report = Pub_NotAttempted"
      "\<And>f i u. stored contents f i u (bw_store w0) \<Longrightarrow> stored contents f i u (bw_store (env s))"
  | w w' counts outcome where "offers_checked bp w0 counts w"
      "\<And>f i u. stored contents f i u (bw_store w0) \<Longrightarrow> stored contents f i u (bw_store w)"
      "stage_publish (bp_store bp) auth counts w = (outcome, w')"
      "\<And>f i u. stored contents f i u (bw_store w') \<Longrightarrow> stored contents f i u (bw_store (env s))"
      "result = Inr counts \<and> outcome = PO_Published
       \<or> (\<exists>report. result = Inl report \<and> fr_publication report = publication_of outcome)"
proof -
  note replay = seal_traced [OF run]
  show thesis
    using run
  proof (cases rule: seal_cases)
    case (1 s1 cause c a)
    then have "\<forall>e \<in> set (events s). \<not> is_publish e"
      using quiet_filters(3) [of "events s1"] by (auto simp: pending_def)
    with unpublished_replay [OF honest replay] have same:
      "\<And>f i u. stored contents f i u (bw_store w0) \<Longrightarrow> stored contents f i u (bw_store (env s))" by blast
    from 1(3) show thesis by (rule that(1) [OF _ _ same]) simp_all
  next
    case (2 s1 counts outcome a)
    then obtain pre ts where e: "events s1 = pre @ SE_Publish counts outcome # map SE_Now ts" "verified lim counts pre"
      by (auto simp: offered_def)
    define post where "post = map SE_Now ts @ (if outcome = PO_NotPublished then [SE_Abort a] else [])"
    have ev: "events s = pre @ SE_Publish counts outcome # post" using 2(2) e(1) by (simp add: post_def)
    have post: "\<forall>e \<in> set post. (\<exists>t. e = SE_Now t) \<or> is_abort e" by (auto simp: post_def)
    from replay_append [OF replay [unfolded ev]] obtain w where pre: "replay (work_ports bp auth) w0 pre w"
      and "replay (work_ports bp auth) w (SE_Publish counts outcome # post) (env s)" by blast
    from replay_Cons [OF this(2)] obtain w' where pub: "stage_publish (bp_store bp) auth counts w = (outcome, w')"
      and after: "replay (work_ports bp auth) w' post (env s)" by (auto simp: work_ports_def)
    have quiet: "list_all quiet pre" using e(2) by (simp add: verified_def)
    have "exact pre" using seal_offer_exact [OF run, of counts outcome] ev exact_offer [OF _ post] by simp
    with verified_offer [OF work_inv_replay [OF honest pre quiet w0(1,2)] _ e(2) w0(3)]
    have off: "offers_checked bp w0 counts w" by simp
    have "\<forall>e \<in> set post. \<not> is_publish e" using post by (fastforce elim!: is_publish.elims)
    with unpublished_replay [OF honest after] have tail:
      "\<And>f i u. stored contents f i u (bw_store w') \<Longrightarrow> stored contents f i u (bw_store (env s))" by blast
    have head: "\<And>f i u. stored contents f i u (bw_store w0) \<Longrightarrow> stored contents f i u (bw_store w)"
      by (rule unpublished_replay [OF honest pre quiet_filters(3) [OF quiet]])
    from 2(3) show thesis by (intro that(2) [OF off head pub tail]) auto
  qed
qed

text \<open>What a sealing leaves in the store, by the outcome it reports.\<close>

definition seal_accounts ::
    "('w \<Rightarrow> string) \<Rightarrow> authenticator \<Rightarrow> (string \<Rightarrow> string option) \<Rightarrow> captured_archive
      \<Rightarrow> 'w record_store \<Rightarrow> record_publication \<Rightarrow> 'w record_store \<Rightarrow> bool" where
  "seal_accounts contents auth member capture s r s' \<longleftrightarrow> grows contents s s' \<and> (case r of
       RP_Durable \<Rightarrow> is_backup member (ca_binding capture) (ca_bytes capture)
         \<and> (\<exists>ct. settled contents auth (contents (rs_world s)) (rs_id s) (ca_binding capture) ct RP_Durable s')
     | RP_NotPublished \<Rightarrow> contents (rs_world s') = contents (rs_world s) \<and> rs_uncertain s' = rs_uncertain s
     | RP_Unknown \<Rightarrow> rs_uncertain s')"

lemma accounts_same:
  "stored contents (contents (rs_world s)) (rs_id s) (rs_uncertain s) s'
     \<Longrightarrow> seal_accounts contents auth member capture s RP_NotPublished s'"
  by (simp add: seal_accounts_def stored_def grows_def)

lemma offer_settles:
  assumes honest: "honest_file ports contents" and w: "stored contents (contents (rs_world s)) (rs_id s) (rs_uncertain s) (bw_store w)"
    and pub: "stage_publish ports auth counts w = (outcome, w')"
  obtains r where "outcome = outcome_seen r" "sc_source_bytes counts = binding_source_bytes (bw_binding w)"
      "sc_payload_bytes counts = binding_file_bytes (bw_binding w)" "sc_files counts = 1"
      "settled contents auth (contents (rs_world s)) (rs_id s) (bw_binding w) (bw_memory w) r (bw_store w')"
      "r = RP_NotPublished \<Longrightarrow> \<not> rs_uncertain s"
  | "outcome = PO_NotPublished" "bw_store w' = bw_store w"
proof (cases "w' = w \<and> outcome = PO_NotPublished")
  case False
  obtain r st where p: "publish ports auth (bw_binding w) (bw_memory w) (bw_store w) = (r, st)"
    by (cases "publish ports auth (bw_binding w) (bw_memory w) (bw_store w)")
  have "r = RP_NotPublished \<Longrightarrow> \<not> rs_uncertain (bw_store w)"
    using p by (auto simp: publish_def outcome_of_def eff_defs)
  moreover have "rs_uncertain (bw_store w) = rs_uncertain s" using w by (simp add: stored_def)
  moreover from pub p False have "outcome = outcome_seen r" "bw_store w' = st"
      "sc_source_bytes counts = binding_source_bytes (bw_binding w)"
      "sc_payload_bytes counts = binding_file_bytes (bw_binding w)" "sc_files counts = 1"
    by (auto simp: stage_publish_def Let_def split: if_splits)
  moreover from publish_settled [OF honest w p, of False]
  have "settled contents auth (contents (rs_world s)) (rs_id s) (bw_binding w) (bw_memory w) r st" by simp
  ultimately show thesis using that(1) [of r] by simp
qed (use that(2) in simp)

lemma offer_accounts:
  assumes "honest_file ports contents" and "stored contents (contents (rs_world s)) (rs_id s) (rs_uncertain s) (bw_store w)"
    and "stage_publish ports auth counts w = (outcome, w')"
    and tail: "\<And>f i u. stored contents f i u (bw_store w') \<Longrightarrow> stored contents f i u s'"
    and backup: "sc_source_bytes counts = binding_source_bytes (bw_binding w) \<Longrightarrow>
      is_backup member (ca_binding capture) (ca_bytes capture)"
    and b: "bw_binding w = ca_binding capture"
  shows "seal_accounts contents auth member capture s (publication_seen (publication_of outcome)) s'"
  using assms(1-3)
proof (cases rule: offer_settles)
  case (1 r)
  have "settled contents auth (contents (rs_world s)) (rs_id s) (bw_binding w) (bw_memory w) r s'"
    using 1(5) tail by (cases r) (auto simp: settled_def)
  then show ?thesis
    using 1(1,6) backup [OF 1(2)] b
    by (cases r) (auto simp: seal_accounts_def grows_def, auto simp: settled_def stored_def)
next
  case 2
  with tail [of "contents (rs_world s)" "rs_id s" "rs_uncertain s"] assms(2) show ?thesis
    by (auto intro: accounts_same)
qed

lemma checked_same:
  assumes "honest_file ports contents" and "checked ports s = (r, s')" and "stored contents f i u s"
  shows "stored contents f i u s'"
  using learnsD [OF learns_checked [OF assms(1), of False] assms(3,2)] by (cases r) simp_all

lemma check_new_cases:
  assumes "honest_file ports contents" and "check_new ports b s = (r, s')" and "stored contents f i u s"
  shows "stored contents f i u s' \<and> (\<forall>v. r = Ok v \<longrightarrow> (\<exists>ea. expected_of b = Ok ea \<and> v = validator_of b ea))"
proof -
  obtain r1 s1 where c: "checked ports s = (r1, s1)" by (cases "checked ports s")
  with checked_same [OF assms(1) c assms(3)] assms(2) show ?thesis
    by (auto simp: check_new_def eff_defs returned_def split: sum.splits)
qed

text \<open>The two ways a sealing of a capture ends: before the sealer ran, or with what it left.\<close>

lemma sealed_accounts:
  assumes honest: "honest_ports bp contents" and lib: "inflates (bp_inflater bp) after member"
    and ea: "expected_of (ca_binding capture) = Ok ea"
    and run: "seal_into bp auth capture (validator_of (ca_binding capture) ea) cipher lim s = (r, s')"
    and s0: "stored contents (contents (rs_world s0)) (rs_id s0) (rs_uncertain s0) s"
  shows "case r of
      Inr counts \<Rightarrow> seal_accounts contents auth member capture s0 RP_Durable s'
        \<and> sc_source_bytes counts = binding_source_bytes (ca_binding capture)
        \<and> sc_payload_bytes counts = binding_file_bytes (ca_binding capture) \<and> sc_files counts = 1
    | Inl f \<Rightarrow> seal_accounts contents auth member capture s0 (bf_publication f) s'"
proof -
  let ?v = "validator_of (ca_binding capture) ea" and ?ports = "work_ports bp auth"
  let ?w0 = "work_start capture ?v s"
  have io: "honest_file (bp_store bp) contents" using honest by (simp add: honest_ports_def)
  have w0: "bw_position ?w0 = 0" "bw_memory ?w0 = []" "bw_check ?w0 = Some ?v" "bw_store ?w0 = s"
    "bw_data ?w0 = ca_bytes capture" "bw_binding ?w0 = ca_binding capture" by (simp_all add: work_start_def)
  obtain res st where seal: "seal_with_clock ?ports lim cipher ?w0 = (res, st)"
    by (cases "seal_with_clock ?ports lim cipher ?w0")
  have same: "\<And>f i u. stored contents f i u (bw_store (env st)) \<Longrightarrow> stored contents f i u s'"
    using run seal checked_same [OF io] by (auto simp: seal_into_def split: sum.splits prod.splits)
  show ?thesis
    using honest seal w0(1-3)
  proof (cases rule: seal_work)
    case (1 report)
    have "stored contents (contents (rs_world s0)) (rs_id s0) (rs_uncertain s0) s'"
      by (intro same 1(3)) (simp add: w0(4) s0)
    moreover from run seal 1(1,2) obtain f where "r = Inl f" "bf_publication f = RP_NotPublished"
      by (auto simp: seal_into_def split: prod.splits)
    ultimately show ?thesis by (simp add: accounts_same)
  next
    case (2 w w' counts outcome)
    from 2(1) obtain cs c where c: "concat cs = ca_bytes capture"
        "validator_finish (check_run (bp_inflater bp) ?v cs) = Some c"
        "sc_source_bytes counts = length (ca_bytes capture)" "sc_payload_bytes counts = cc_payload_bytes c"
        "sc_files counts = cc_files c" and b: "bw_binding w = ca_binding capture"
      unfolding offers_checked_def w0 by auto
    have backup: "is_backup member (ca_binding capture) (ca_bytes capture)"
      if "sc_source_bytes counts = binding_source_bytes (bw_binding w)"
      using check_accepts [OF lib ea c(2)] c(1,3) that b by (simp add: is_backup_def)
    have w: "stored contents (contents (rs_world s0)) (rs_id s0) (rs_uncertain s0) (bw_store w)"
      by (rule 2(2)) (simp add: w0(4) s0)
    have acc: "seal_accounts contents auth member capture s0 (publication_seen (publication_of outcome)) s'"
      by (rule offer_accounts [OF io w 2(3)]) (use 2(4) same backup b in blast)+
    from 2(5) show ?thesis
    proof (elim disjE conjE exE)
      assume res: "res = Inr counts" and out: "outcome = PO_Published"
      with run seal have "r = Inr counts" by (simp add: seal_into_def)
      moreover have "sc_source_bytes counts = binding_source_bytes (bw_binding w)"
        "sc_payload_bytes counts = binding_file_bytes (bw_binding w)" "sc_files counts = 1"
        using 2(3) out by (auto simp: stage_publish_def Let_def split: if_splits)
      ultimately show ?thesis using acc out b by simp
    next
      fix report assume "res = Inl report" "fr_publication report = publication_of outcome"
      with run seal acc show ?thesis by (auto simp: seal_into_def split: prod.splits)
    qed
  qed
qed

lemma seal_capture_settles:
  fixes bp :: "('w, 'd) backup_ports"
  assumes honest: "honest_ports bp contents" and lib: "inflates (bp_inflater bp) after member"
    and run: "seal_capture bp auth capture cipher s = (r, s')"
  shows "case r of
      Inr i \<Rightarrow> seal_accounts contents auth member capture s RP_Durable s'
        \<and> i = \<lparr>bi_source_bytes = binding_source_bytes (ca_binding capture),
               bi_payload_bytes = binding_file_bytes (ca_binding capture), bi_files = 1\<rparr>
    | Inl f \<Rightarrow> seal_accounts contents auth member capture s (bf_publication f) s'"
proof -
  let ?S = "stored contents (contents (rs_world s)) (rs_id s) (rs_uncertain s)"
  have io: "honest_file (bp_store bp) contents" using honest by (simp add: honest_ports_def)
  obtain r1 s1 where c: "checked (bp_store bp) s = (r1, s1)" by (cases "checked (bp_store bp) s")
  note s1 = checked_same [OF io c stored_self]
  obtain r2 :: "backup_error + 'd check_validator" and s2 where
    n: "check_new (bp_store bp) (ca_binding capture) s1 = (r2, s2)"
    by (cases "check_new (bp_store bp) (ca_binding capture) s1 :: (backup_error + 'd check_validator) \<times> 'w record_store")
  note s2 = check_new_cases [OF io n s1]
  have lim: "archive_sealer_new capture_limits = Ok capture_limits"
    by (simp add: archive_sealer_new_def seal_limits_validate_def capture_limits_def limit_defs ensure_def)
  show ?thesis
  proof (cases r1)
    case (Inl e)
    with run c accounts_same [OF s1] show ?thesis
      by (auto simp: seal_capture_def eff_defs attempt_def before_def)
  next
    case r1: (Inr x)
    show ?thesis
    proof (cases r2)
      case (Inl e)
      with run c r1 n accounts_same [OF s2 [THEN conjunct1]] show ?thesis
        by (auto simp: seal_capture_def eff_defs attempt_def before_def)
    next
      case (Inr v)
      with s2 obtain ea where ea: "expected_of (ca_binding capture) = Ok ea" "v = validator_of (ca_binding capture) ea"
        by blast
      obtain r3 s3 where seal: "seal_into bp auth capture v cipher capture_limits s2 = (r3, s3)"
        by (cases "seal_into bp auth capture v cipher capture_limits s2")
      from sealed_accounts [OF honest lib ea(1) seal [unfolded ea(2)] s2 [THEN conjunct1]]
      show ?thesis using run c r1 n Inr lim seal
        by (cases r3) (auto simp: seal_capture_def eff_defs attempt_def returned_def)
    qed
  qed
qed

section \<open>Inspecting the store\<close>

lemma learns_ran: "learns I C m K \<Longrightarrow> learns I C m (\<lambda>x. K x \<and> (\<exists>s s'. m s = (Ok x, s')))"
  unfolding learns_def meets_def by (fastforce split: prod.splits sum.splits)

lemma learns_attempt: "learns I C m K \<Longrightarrow> learns I C (attempt f m) K"
  unfolding learns_def meets_def attempt_def by (fastforce split: prod.splits sum.splits)

lemma learns_decrypted:
  assumes "honest_file ports contents"
  shows "learns (stored contents f i u) False (decrypted ports maximum input cipher st) (\<lambda>_. True)"
proof (induction cipher arbitrary: st)
  case (Cipher_Ends r)
  show ?case by (simp add: learns_give)
next
  case (Cipher_Reads n k)
  then show ?case by (cases st) (simp add: Let_def)
next
  case (Cipher_Writes bytes k)
  have check: "learns (stored contents f i u) False (caught (checked ports)) (\<lambda>_. True)"
    by (rule learns_caught [OF learns_checked [OF assms]]) simp
  obtain position staging where "st = (position, staging)" by (cases st)
  with Cipher_Writes show ?case
    by (auto intro!: learns_seq [OF check] split: sum.split option.split)
next
  case (Cipher_Flushes k)
  have check: "learns (stored contents f i u) False (caught (checked ports)) (\<lambda>_. True)"
    by (rule learns_caught [OF learns_checked [OF assms]]) simp
  show ?case unfolding decrypted.simps by (intro learns_seq [OF check] Cipher_Flushes) simp
qed

lemma learns_inspect_chunks:
  assumes "honest_file (bp_store bp) contents"
  shows "learns (stored contents f i u) False (inspect_chunks bp cs v) (\<lambda>v'. v' = check_run (bp_inflater bp) v cs)"
proof (induction cs arbitrary: v)
  case Nil
  show ?case by (simp add: learns_give)
next
  case (Cons c cs)
  have check: "learns (stored contents f i u) False (attempt g (checked (bp_store bp))) (\<lambda>_. True)" for g
    by (rule learns_attempt [OF learns_checked [OF assms]]) simp
  obtain ok v1 where v1: "validator_feed (bp_inflater bp) c v = (ok, v1)" by (cases "validator_feed (bp_inflater bp) c v")
  have refuse: "learns (stored contents f i u) False (refuse b e) (\<lambda>_. True)" for b and e :: backup_error
    by (simp add: learns_def meets_def eff_defs)
  show ?case using Cons [of v1]
    by (auto simp: v1 intro!: learns_seq [OF check] learns_seq [OF refuse])
qed

lemma restore_settles:
  assumes honest: "honest_file (bp_store bp) contents" and lib: "inflates (bp_inflater bp) after member"
  shows "learns (stored contents f i u) False (restore_inspect bp auth b decryptor)
    (\<lambda>insp. insp = \<lparr>bi_source_bytes = binding_source_bytes b, bi_payload_bytes = binding_file_bytes b, bi_files = 1\<rparr>
      \<and> (\<exists>ct plain report s1 s2. record_at b ct auth i f \<and> is_backup member b plain
        \<and> decrypted (bp_store bp) (binding_source_bytes b) ct decryptor (0, []) s1 = (Ok (Some report, length ct, plain), s2)))"
proof -
  let ?I = "stored contents f i u"
  have check: "learns ?I False (checked (bp_store bp)) (\<lambda>_. True)"
    by (rule learns_checked [OF honest]) simp
  have attempt: "learns ?I False (attempt g (checked (bp_store bp))) (\<lambda>_. True)" for g
    by (rule learns_attempt [OF check])
  have read: "learns ?I False (authenticated_bytes (bp_store bp) auth b) (\<lambda>ct. record_at b ct auth i f)"
    unfolding record_at_def by (rule authenticated_bytes_learns [OF honest]) simp_all
  have refuse: "learns ?I False (refuse x e) (\<lambda>_. \<not> x)" for x and e :: backup_error
    by (simp add: learns_def meets_def eff_defs)
  have returned: "learns ?I False (returned r) (\<lambda>x. r = Ok x)" for r :: "backup_error + 'x"
    by (cases r) (simp_all add: learns_def meets_def returned_def)
  have new: "learns ?I False (check_new (bp_store bp) b) (\<lambda>v. \<exists>ea. expected_of b = Ok ea \<and> v = validator_of b ea)"
    unfolding check_new_def
    by (intro learns_seq [OF check] learns_seq [OF returned] learns_give) auto
  have inspected: "learns ?I False (inspected bp v) (\<lambda>c. validator_finish v = Some c)" for v
    unfolding inspected_def
    by (intro learns_seq [OF attempt] learns_seq [OF returned] learns_give) (cases "validator_finish v"; auto)
  have final: "is_backup member b plain \<and> cc_source_bytes c = binding_source_bytes b
      \<and> cc_payload_bytes c = binding_file_bytes b \<and> cc_files c = 1"
    if "expected_of b = Ok ea" "length plain = binding_source_bytes b"
      "validator_finish (check_run (bp_inflater bp) (validator_of b ea) (chunks plain)) = Some c" for ea plain c
    using check_accepts [OF lib that(1,3)] that(2) by (simp add: concat_chunks is_backup_def)
  show ?thesis
    unfolding restore_inspect_def
    apply (rule learns_seq [OF check])
    apply (rule learns_seq [OF read])
    apply (rule learns_seq [OF learns_ran [OF learns_decrypted [OF honest]]])
    apply (clarsimp simp del: decrypted.simps)
    apply (rule learns_seq [OF returned])
    apply (rule learns_seq [OF check])
    apply (rule learns_seq [OF refuse])
    apply (rule learns_seq [OF new])
    apply (elim exE conjE)
    apply (rule learns_seq [OF learns_inspect_chunks [OF honest]])
    apply (rule learns_seq [OF inspected])
    apply (rule learns_seq [OF check])
    apply (rule learns_give)
    subgoal premises p for ct r position plain s1 s2 report _ _ v ea v' c
    proof -
      have r: "r = Some report" using p by (cases r) simp_all
      with p have run: "decrypted (bp_store bp) (binding_source_bytes b) ct decryptor (0, []) s1
          = (Ok (Some report, length ct, plain), s2)" by simp
      from p have c: "expected_of b = Ok ea" "length plain = binding_source_bytes b" "record_at b ct auth i f"
          "validator_finish (check_run (bp_inflater bp) (validator_of b ea) (chunks plain)) = Some c" by simp_all
      from final [OF c(1,2,4)] show ?thesis
        by (intro conjI exI [of _ ct] exI [of _ plain] exI [of _ report] exI [of _ s1] exI [of _ s2] c(3) run) auto
    qed
    done
qed

section \<open>Properties of the workflow\<close>

text \<open>
  Property C33: a sealing tells the truth about the store, whatever the cipher and the devices
  do. Success, or a failure that reports a durable publication, means that the captured bytes are
  an archive of exactly the bound file, of the bound sizes, and that the store grew by exactly one
  tagged record of the binding; a success returns the binding's numbers. A failure that reports
  no publication left the store as it was, and one that does not know leaves the store in doubt.
\<close>

theorem seal_capture_accounts:
  assumes "honest_ports bp contents" and "inflates (bp_inflater bp) after member"
    and "seal_capture bp auth capture cipher s = (r, s')"
  shows "let b = ca_binding capture;
      sealed_here = (is_backup member b (ca_bytes capture) \<and> \<not> rs_uncertain s'
        \<and> (\<exists>ct t. auth_tag auth ArtifactRecord [record_header b ct, ct] = Ok t
            \<and> contents (rs_world s') = contents (rs_world s) @ record_header b ct @ ct @ t))
    in grows contents s s' \<and> (case r of
        Inr i \<Rightarrow> sealed_here \<and> i = \<lparr>bi_source_bytes = binding_source_bytes b,
          bi_payload_bytes = binding_file_bytes b, bi_files = 1\<rparr>
      | Inl f \<Rightarrow> (case bf_publication f of
            RP_Durable \<Rightarrow> sealed_here
          | RP_NotPublished \<Rightarrow> contents (rs_world s') = contents (rs_world s) \<and> rs_uncertain s' = rs_uncertain s
          | RP_Unknown \<Rightarrow> rs_uncertain s'))"
  using seal_capture_settles [OF assms]
  by (auto simp: Let_def seal_accounts_def settled_def stored_def split: sum.splits record_publication.splits)

text \<open>
  Property C32: what was sealed is what is inspected. After a capture was sealed into the store,
  and whatever was done with the store since, an inspection of the binding that succeeds returns
  what the sealing returned, without changing the store: the decryptor was given exactly the
  published ciphertext, used all of it, and its output is an archive of exactly the bound file.
\<close>

theorem sealed_restores:
  assumes "honest_ports bp contents" and "inflates (bp_inflater bp) after member" and "authenticates auth"
    and "binding_decode (b_encoded (ca_binding capture)) = Ok (ca_binding capture)"
    and "seal_capture bp auth capture cipher s = (Ok i, s1)" and "store_steps (bp_store bp) auth s1 s2"
    and "restore_inspect bp auth (ca_binding capture) decryptor s2 = (Ok i', s3)"
  shows "i' = i \<and> contents (rs_world s3) = contents (rs_world s2)
    \<and> (\<exists>ct t plain report sa sb.
        contents (rs_world s1) = contents (rs_world s) @ record_bytes (ca_binding capture, ct, t)
        \<and> decrypted (bp_store bp) (binding_source_bytes (ca_binding capture)) ct decryptor (0, []) sa
            = (Ok (Some report, length ct, plain), sb)
        \<and> is_backup member (ca_binding capture) plain)"
proof -
  let ?b = "ca_binding capture"
  have io: "honest_file (bp_store bp) contents" using assms(1) by (simp add: honest_ports_def)
  from seal_capture_settles [OF assms(1,2,5)] obtain ct where i: "i = \<lparr>bi_source_bytes = binding_source_bytes ?b,
        bi_payload_bytes = binding_file_bytes ?b, bi_files = 1\<rparr>"
    and "settled contents auth (contents (rs_world s)) (rs_id s) ?b ct RP_Durable s1"
    by (auto simp: seal_accounts_def)
  from published_record [OF assms(3,4) this(2)] obtain t where
    s1: "contents (rs_world s1) = contents (rs_world s) @ record_bytes (?b, ct, t)"
    and here: "record_at ?b ct auth (rs_id s1) (contents (rs_world s1))" by (auto simp: stored_def)
  have grown: "grows contents s1 s2" by (rule store_steps_grow [OF io assms(6)])
  from learnsD [OF restore_settles [OF io assms(2)] stored_self assms(7)]
  obtain ct' plain report sa sb where i': "i' = i" and same: "contents (rs_world s3) = contents (rs_world s2)"
    and there: "record_at ?b ct' auth (rs_id s2) (contents (rs_world s2))" and plain: "is_backup member ?b plain"
    and run: "decrypted (bp_store bp) (binding_source_bytes ?b) ct' decryptor (0, []) sa
      = (Ok (Some report, length ct', plain), sb)"
    by (auto simp: i stored_def simp del: decrypted.simps)
  from grown there have "ct' = ct" using record_at_extends [OF here] by (auto simp: grows_def)
  with i' same s1 plain run show ?thesis by blast
qed

section \<open>A capture sealed in memory\<close>

text \<open>
  A small archive sealed into the store in memory with a cipher that only adds the header of the
  format, and inspected again.
\<close>

definition memory_backup :: "(string, string) backup_ports" where
  "memory_backup = \<lparr>bp_store = memory_ports, bp_clock = (\<lambda>w. (0, w)), bp_inflater = stored_inflater\<rparr>"

definition sample_capture :: captured_archive where
  "sample_capture = \<lparr>ca_binding = sample_binding, ca_bytes = sample_stream\<rparr>"

definition sample_sealed_bytes :: string where
  "sample_sealed_bytes = age_magic @ sample_stream"

definition header_cipher :: cipher_run where
  "header_cipher = Cipher_Reads 4096 (\<lambda>r. Cipher_Writes (age_magic @ the r) (\<lambda>_. Cipher_Reads 4096 (\<lambda>_.
     Cipher_Ends (Some \<lparr>ci_input_bytes = 2048, ci_output_bytes = 2070\<rparr>))))"

definition header_decipher :: cipher_run where
  "header_decipher = Cipher_Reads 4096 (\<lambda>r. Cipher_Writes (drop 22 (the r)) (\<lambda>_.
     Cipher_Ends (Some \<lparr>ci_input_bytes = 2070, ci_output_bytes = 2048\<rparr>)))"

lemma memory_backup_honest: "honest_ports memory_backup id"
  using memory_honest by (simp add: honest_ports_def memory_backup_def)

lemma memory_backup_inflates: "inflates (bp_inflater memory_backup) stored_after stored_member"
  by (simp add: memory_backup_def stored_inflates)

lemma memory_checked [simp]: "checked memory_ports s = (Ok (), s)"
  by (cases s) (simp add: checked_def port_def memory_ports_def)

lemma sample_binding_numbers:
  "binding_file_bytes sample_binding = 3" "binding_source_bytes sample_binding = 2048"
  "binding_format sample_binding = Format_Tar"
  by code_simp+

lemma sample_expected_of: "expected_of sample_binding = Ok sample_expected"
proof -
  have "validate_path ''etc/config/system'' = Ok ()" by code_simp
  then show ?thesis using sample_manifest
    by (simp add: expected_of_def expected_file_new_def sample_binding_numbers sample_files_def limit_defs)
qed

lemma age_magic_length: "length age_magic = 22"
  by (simp add: age_magic_def)

lemma sample_sealed_publishable: "publishable sample_auth sample_binding sample_sealed_bytes []"
  by (simp add: publishable_def found_in_def sample_sealed_bytes_def age_magic_def limit_defs
      sample_stream_length sample_auth_def hmac_sha256_def hmac_mac_def record_header_def sample_binding_def)

lemma sample_inner_finish:
  obtains inner where "feed (validator_new sample_expected) sample_stream = (Ok (), inner)"
    and "finish inner = Ok \<lparr>as_files = 1, as_payload_bytes = 3, as_archive_bytes = 2048\<rparr>"
proof -
  obtain inner where i: "feed (validator_new sample_expected) sample_stream = (Ok (), inner)"
    "run_inv sample_expected sample_stream inner" by (rule sample_inner)
  have "finish inner = Ok \<lparr>as_files = 1, as_payload_bytes = 3, as_archive_bytes = 2048\<rparr>"
    by (subst run_inv_finish [OF i(2)])
       (simp add: sample_entries sample_stream_length sample_files_def entry_of_def limit_defs)
  with i(1) show thesis by (rule that)
qed

lemma memory_work_ok [simp]: "work_ok memory_ports w = (True, w)"
  by (cases w) (simp add: work_ok_def)

lemma memory_tick:
  assumes "b_error s = None" "b_last s = 0" "b_start s = 0" "b_timeout s = 30000"
  shows "budget_check (work_ports memory_backup auth) s = (Ok (), s\<lparr>events := events s @ [SE_Now 0]\<rparr>)"
proof -
  have "clock_now (bp_clock memory_backup) w = (0, w)" for w :: "(string, string) backup_work"
    by (cases w) (simp add: clock_now_def memory_backup_def)
  with assms show ?thesis
    by (cases s) (simp add: budget_check_def eff_defs asks_def work_ports_def)
qed

definition sample_inspection :: backup_inspection where
  "sample_inspection = \<lparr>bi_source_bytes = 2048, bi_payload_bytes = 3, bi_files = 1\<rparr>"

lemma sample_seals:
  assumes pub: "publish memory_ports sample_auth sample_binding sample_sealed_bytes sample_store = (RP_Durable, s1)"
  shows "seal_capture memory_backup sample_auth sample_capture header_cipher sample_store = (Ok sample_inspection, s1)"
proof -
  obtain inner where i: "feed (validator_new sample_expected) sample_stream = (Ok (), inner)"
    "finish inner = Ok \<lparr>as_files = 1, as_payload_bytes = 3, as_archive_bytes = 2048\<rparr>"
    by (rule sample_inner_finish)
  let ?P = "work_ports memory_backup sample_auth" and ?v = "Check_Tar (validator_new sample_expected)"
  let ?w = "\<lambda>pos chk mem st. \<lparr>bw_data = sample_stream, bw_position = pos, bw_check = chk, bw_memory = mem,
      bw_binding = sample_binding, bw_store = st\<rparr>"
  have ports: "sp_now_ms ?P w = (0, w)" "sp_flush ?P w = (True, w)" "sp_capabilities ?P w = (stage_offers, w)"
    "sp_complete ?P (?w pos chk mem st) = (Some 2048, ?w pos chk mem st)" for w pos chk mem st
    by (cases w; simp add: work_ports_def memory_backup_def clock_now_def source_completed_def sample_stream_length)+
  have read: "sp_read ?P 4096 (?w 0 chk mem st) = (Some (2048, sample_stream), ?w 2048 chk mem st)"
    "sp_read ?P 4096 (?w 2048 chk mem st) = (Some (0, []), ?w 2048 chk mem st)" for chk mem st
    by (simp_all add: work_ports_def memory_backup_def source_read_def sample_stream_length Let_def)
  have feed: "sp_feed ?P sample_stream (?w pos (Some ?v) mem st) = (True, ?w pos (Some (Check_Tar inner)) mem st)" for pos mem st
    by (simp add: work_ports_def memory_backup_def check_feed_def i(1) Let_def)
  have fin: "sp_finish ?P (?w pos (Some (Check_Tar inner)) mem st)
     = (Some \<lparr>cc_source_bytes = 2048, cc_expanded_bytes = 2048, cc_payload_bytes = 3, cc_files = 1\<rparr>, ?w pos None mem st)" for pos mem st
    by (simp add: work_ports_def memory_backup_def check_finish_def i(2))
  have put: "sp_write ?P sample_sealed_bytes (?w pos chk [] st) = (Some 2070, ?w pos chk sample_sealed_bytes st)" for pos chk st
    by (simp add: work_ports_def memory_backup_def stage_write_def memory_put_def sample_sealed_bytes_def
        age_magic_length sample_stream_length limit_defs)
  have out: "sp_publish ?P \<lparr>sc_source_bytes = 2048, sc_ciphertext_bytes = 2070, sc_expanded_bytes = 2048,
      sc_payload_bytes = 3, sc_files = 1\<rparr> (?w pos chk sample_sealed_bytes sample_store)
     = (PO_Published, ?w pos chk sample_sealed_bytes s1)" for pos chk
    using pub by (simp add: work_ports_def memory_backup_def stage_publish_def sample_binding_numbers
        sample_sealed_bytes_def age_magic_length sample_stream_length Let_def)
  let ?s0 = "seal_start ?P capture_limits (?w 0 (Some ?v) [] sample_store)"
  have bytes: "take 2048 sample_stream = sample_stream" "length sample_sealed_bytes = 2070" "sample_sealed_bytes \<noteq> []"
    "age_magic @ sample_stream = sample_sealed_bytes" "take 2070 sample_sealed_bytes = sample_sealed_bytes"
    "age_magic \<noteq> []"
    by (simp_all add: sample_sealed_bytes_def age_magic_length sample_stream_length age_magic_def)
  have encrypts: "\<exists>st. encrypt ?P capture_limits header_cipher s
      = (Ok (Some \<lparr>ci_input_bytes = 2048, ci_output_bytes = 2070\<rparr>), st)
      \<and> env st = ?w 2048 (Some (Check_Tar inner)) sample_sealed_bytes sample_store \<and> b_error st = None
      \<and> b_start st = 0 \<and> b_last st = 0 \<and> b_timeout st = 30000 \<and> r_eof st \<and> r_count st = 2048 \<and> w_count st = 2070"
    if "env s = ?w 0 (Some ?v) [] sample_store" "b_error s = None" "b_start s = 0" "b_last s = 0" "b_timeout s = 30000"
      "r_count s = 0" "\<not> r_eof s" "w_count s = 0" for s
    using that
    by (simp add: header_cipher_def checked_read_def read_chunk_def take_chunk_def vet_chunk_def counted_write_def
        budget_after_def budget_check_def eff_defs asks_def seen_def capture_limits_def limit_defs ports read feed put
        checked_add_def bytes sample_stream_length ensure_def Let_def)
  have start: "env ?s0 = ?w 0 (Some ?v) [] sample_store" "b_error ?s0 = None" "b_start ?s0 = 0" "b_last ?s0 = 0"
    "b_timeout ?s0 = 30000" "r_count ?s0 = 0" "\<not> r_eof ?s0" "w_count ?s0 = 0"
    "\<not> source_complete ?s0"
    by (simp_all add: seal_start_def ports capture_limits_def)
  have runs: "\<exists>st. run ?P capture_limits header_cipher ?s0
      = (Ok \<lparr>sc_source_bytes = 2048, sc_ciphertext_bytes = 2070, sc_expanded_bytes = 2048, sc_payload_bytes = 3, sc_files = 1\<rparr>, st)
      \<and> bw_store (env st) = s1 \<and> source_complete st \<and> g_publication st = Pub_Published"
  proof -
    let ?after = "?s0\<lparr>events := events ?s0 @ [SE_Now 0, SE_Capabilities stage_offers, SE_Now 0, SE_Now 0]\<rparr>"
    have sup: "supported ?P ?s0 = (Ok (), ?after)"
      by (simp add: seal_start_def ports capture_limits_def supported_def budget_check_def eff_defs asks_def stage_offers_def)
    obtain st where st: "encrypt ?P capture_limits header_cipher ?after
        = (Ok (Some \<lparr>ci_input_bytes = 2048, ci_output_bytes = 2070\<rparr>), st)"
      "env st = ?w 2048 (Some (Check_Tar inner)) sample_sealed_bytes sample_store" "b_error st = None"
      "b_start st = 0" "b_last st = 0" "b_timeout st = 30000" "r_eof st" "r_count st = 2048" "w_count st = 2070"
      using encrypts [of ?after] start by auto
    show ?thesis using sup st
      by (simp add: run_def encrypted_def summarized_def completed_def flushed_def published_def budget_after_def
          budget_check_def eff_defs asks_def lift_def ports fin out [unfolded One_nat_def]
          check_counts_validate_def ensure_def)
  qed
  then obtain st where st: "run ?P capture_limits header_cipher ?s0
      = (Ok \<lparr>sc_source_bytes = 2048, sc_ciphertext_bytes = 2070, sc_expanded_bytes = 2048, sc_payload_bytes = 3, sc_files = 1\<rparr>, st)"
      "bw_store (env st) = s1" "source_complete st" "g_publication st = Pub_Published" by blast
  have lim: "archive_sealer_new capture_limits = Ok capture_limits"
    by (simp add: archive_sealer_new_def seal_limits_validate_def capture_limits_def limit_defs ensure_def)
  have "seal_with_clock ?P capture_limits header_cipher (work_start sample_capture ?v sample_store)
      = (Ok \<lparr>sc_source_bytes = 2048, sc_ciphertext_bytes = 2070, sc_expanded_bytes = 2048, sc_payload_bytes = 3, sc_files = 1\<rparr>, st)"
    using st by (simp add: seal_with_clock_def work_start_def sample_capture_def guard_cleanup_def cancel_source_def abort_stage_def)
  moreover have "bp_store memory_backup = memory_ports" by (simp add: memory_backup_def)
  ultimately show ?thesis using st(2) lim
    by (simp add: seal_capture_def eff_defs attempt_def returned_def check_new_def sample_capture_def sample_expected_of
        validator_of_def sample_binding_numbers seal_into_def sample_inspection_def)
qed


lemma sample_restores:
  assumes read: "authenticated_bytes memory_ports sample_auth sample_binding s = (Ok sample_sealed_bytes, s')"
  shows "restore_inspect memory_backup sample_auth sample_binding header_decipher s = (Ok sample_inspection, s')"
proof -
  obtain inner where i: "feed (validator_new sample_expected) sample_stream = (Ok (), inner)"
    "finish inner = Ok \<lparr>as_files = 1, as_payload_bytes = 3, as_archive_bytes = 2048\<rparr>"
    by (rule sample_inner_finish)
  have bytes: "length sample_sealed_bytes = 2070" "drop 22 sample_sealed_bytes = sample_stream"
    by (simp_all add: sample_sealed_bytes_def age_magic_length sample_stream_length)
  have "sample_stream \<noteq> []" by (simp add: sample_stream_def sample_block_def)
  then have chunk: "chunks sample_stream = [sample_stream]"
    by (subst chunks.simps) (simp add: sample_stream_length limit_defs chunks.simps)
  have "bp_store memory_backup = memory_ports" by (simp add: memory_backup_def)
  then show ?thesis using read
    by (simp add: restore_inspect_def eff_defs header_decipher_def sample_binding_numbers bytes sample_stream_length
        memory_put_def returned_def check_new_def sample_expected_of validator_of_def chunk attempt_def i
        inspected_def sample_inspection_def)
qed

lemma sample_archived:
  obtains s1 s3 where "publish memory_ports sample_auth sample_binding sample_sealed_bytes sample_store = (RP_Durable, s1)"
    and "authenticated_bytes memory_ports sample_auth sample_binding s1 = (Ok sample_sealed_bytes, s3)"
proof -
  have "\<not> rs_uncertain sample_store" "scanned sample_auth (rs_id sample_store) (id (rs_world sample_store)) (Some sample_binding) []"
    by (simp_all add: sample_store_def sample_scanned)
  from healthy_publish [OF memory_honest memory_healthy sample_authenticates sample_decodes this sample_sealed_publishable]
  show thesis using that by blast
qed

lemma sealed_restores_witness:
  "\<exists>s1 i s3 i'. seal_capture memory_backup sample_auth sample_capture header_cipher sample_store = (Ok i, s1)
    \<and> restore_inspect memory_backup sample_auth sample_binding header_decipher s1 = (Ok i', s3)
    \<and> i' = i \<and> rs_world s3 = rs_world s1"
proof -
  have cap: "ca_binding sample_capture = sample_binding" by (simp add: sample_capture_def)
  obtain s1 s3 where p: "publish memory_ports sample_auth sample_binding sample_sealed_bytes sample_store = (RP_Durable, s1)"
    and a: "authenticated_bytes memory_ports sample_auth sample_binding s1 = (Ok sample_sealed_bytes, s3)"
    by (rule sample_archived)
  note seal = sample_seals [OF p] and restore = sample_restores [OF a]
  from sealed_restores [OF memory_backup_honest memory_backup_inflates sample_authenticates _ seal
      rtranclp.rtrancl_refl restore [folded cap]] seal restore show ?thesis
    by (simp add: cap sample_decodes)
qed

lemma seal_capture_accounts_witness:
  "\<exists>s1 i ct t. seal_capture memory_backup sample_auth sample_capture header_cipher sample_store = (Ok i, s1)
    \<and> rs_world s1 = sample_file @ record_header sample_binding ct @ ct @ t"
proof -
  obtain s1 where p: "publish memory_ports sample_auth sample_binding sample_sealed_bytes sample_store = (RP_Durable, s1)"
    by (rule sample_archived)
  note seal = sample_seals [OF p]
  from seal_capture_accounts [OF memory_backup_honest memory_backup_inflates seal] seal show ?thesis
    by (auto simp: Let_def sample_capture_def sample_store_def)
qed

end
