(* ===== verification/CiphertextFile.thy ===== *)
theory CiphertextFile
  imports StoreProofs
begin

text \<open>
  The locked file behind the store: \<^verbatim>\<open>host-platform/src/ciphertext/mod.rs\<close> and the adapter
  \<^verbatim>\<open>NativeRecordIo\<close> of \<^verbatim>\<open>adapters/src/backups/store.rs\<close>. The file handle of the operating system
  is a port: reading its length, a seek with \<^verbatim>\<open>read_exact\<close>, a seek to the end with
  \<^verbatim>\<open>write_all\<close>, and \<^verbatim>\<open>sync_all\<close>.
\<close>

section \<open>The handle\<close>

datatype host_error = HE_InvalidPath | HE_Unsupported | HE_Unavailable | HE_Insecure | HE_Limit

definition file_max_bytes :: nat where [limit_defs]: "file_max_bytes = 33562688"
definition file_chunk :: nat where [limit_defs]: "file_chunk = 65536"

record 'w os_file =
  os_len :: "'w \<Rightarrow> nat option \<times> 'w"
  os_read_exact :: "nat \<Rightarrow> nat \<Rightarrow> 'w \<Rightarrow> string option \<times> 'w"
  os_write_end :: "string \<Rightarrow> 'w \<Rightarrow> bool \<times> 'w"
  os_sync_all :: "'w \<Rightarrow> bool \<times> 'w"

record 'w locked_file =
  lf_failed :: bool
  lf_world :: 'w

section \<open>Operations\<close>

definition os_call :: "('w \<Rightarrow> 'a \<times> 'w) \<Rightarrow> ('w locked_file, 'e, 'a) eff" where
  "os_call f = (\<lambda>s. case f (lf_world s) of (r, w) \<Rightarrow> (Ok r, s\<lparr>lf_world := w\<rparr>))"

definition file_len :: "'w os_file \<Rightarrow> ('w locked_file, host_error, nat) eff" where
  "file_len os = seq (os_call (os_len os)) (\<lambda>r. case r of None \<Rightarrow> raise HE_Unavailable | Some n \<Rightarrow> give n)"

definition file_size :: "'w os_file \<Rightarrow> ('w locked_file, host_error, nat) eff" where
  "file_size os =
     seq (get lf_failed) (\<lambda>failed.
     seq (refuse failed HE_Unavailable) (\<lambda>_.
     seq (file_len os) (\<lambda>n.
     seq (refuse (n > file_max_bytes) HE_Limit) (\<lambda>_.
     give n))))"

definition file_read_at :: "'w os_file \<Rightarrow> nat \<Rightarrow> nat \<Rightarrow> ('w locked_file, host_error, string) eff" where
  "file_read_at os offset n =
     seq (refuse (n > file_chunk) HE_Limit) (\<lambda>_.
     case checked_add offset n of
       None \<Rightarrow> raise HE_Limit
     | Some stop \<Rightarrow>
         seq (caught (file_size os)) (\<lambda>r.
         seq (refuse (stop > (case r of Inl _ \<Rightarrow> 0 | Inr total_size \<Rightarrow> total_size)) HE_Limit) (\<lambda>_.
         seq (os_call (os_read_exact os offset n)) (\<lambda>r. case r of
             None \<Rightarrow> raise HE_Unavailable
           | Some bs \<Rightarrow> give bs))))"

definition file_append :: "'w os_file \<Rightarrow> nat \<Rightarrow> string \<Rightarrow> ('w locked_file, host_error, unit) eff" where
  "file_append os expected_size bs =
     seq (refuse (bs = [] \<or> length bs > file_chunk) HE_Limit) (\<lambda>_.
     seq (file_size os) (\<lambda>now.
     seq (refuse (now \<noteq> expected_size) HE_Limit) (\<lambda>_.
     case checked_add expected_size (length bs) of
       None \<Rightarrow> raise HE_Limit
     | Some grown \<Rightarrow>
         seq (refuse (grown > file_max_bytes) HE_Limit) (\<lambda>_.
         seq (change (\<lambda>s. s\<lparr>lf_failed := True\<rparr>)) (\<lambda>_.
         seq (os_call (os_write_end os bs)) (\<lambda>ok.
         seq (refuse (\<not> ok) HE_Unavailable) (\<lambda>_.
         seq (file_len os) (\<lambda>n.
         seq (refuse (n \<noteq> grown) HE_Unavailable) (\<lambda>_.
         change (\<lambda>s. s\<lparr>lf_failed := False\<rparr>))))))))))"

definition file_synchronize :: "'w os_file \<Rightarrow> ('w locked_file, host_error, unit) eff" where
  "file_synchronize os =
     seq (get lf_failed) (\<lambda>failed.
     seq (refuse failed HE_Unavailable) (\<lambda>_.
     seq (change (\<lambda>s. s\<lparr>lf_failed := True\<rparr>)) (\<lambda>_.
     seq (os_call (os_sync_all os)) (\<lambda>ok.
     seq (refuse (\<not> ok) HE_Unavailable) (\<lambda>_.
     change (\<lambda>s. s\<lparr>lf_failed := False\<rparr>))))))"

definition with_error :: "'f \<Rightarrow> ('s, 'e, 'a) eff \<Rightarrow> 's \<Rightarrow> ('f + 'a) \<times> 's" where
  "with_error e m = (\<lambda>s. case m s of (r, s') \<Rightarrow> (map_err (\<lambda>_. e) r, s'))"

definition native_record_io ::
    "'w os_file \<Rightarrow> ('w \<Rightarrow> (mutation_error + unit) \<times> 'w) \<Rightarrow> 'w locked_file store_ports" where
  "native_record_io os budget =
     \<lparr>io_size = with_error BE_Unavailable (file_size os),
      io_read_at = (\<lambda>offset n. with_error BE_Unavailable (file_read_at os offset n)),
      io_append = (\<lambda>expected_size bs. with_error BE_Unknown (file_append os expected_size bs)),
      io_synchronize = with_error BE_Unknown (file_synchronize os),
      work_check = (\<lambda>s. case budget (lf_world s) of (r, w) \<Rightarrow> (r, s\<lparr>lf_world := w\<rparr>))\<rparr>"

section \<open>Opening\<close>

text \<open>
  \<^verbatim>\<open>Path\<close> on Unix: the text of a path, its segments between slashes, and the ancestors that
  \<^verbatim>\<open>Path::ancestors\<close> walks. Empty segments and single dots are no components, and trailing ones
  are trimmed from every ancestor but the path itself.
\<close>

datatype file_kind = FK_Symlink | FK_Directory | FK_File | FK_Other

record 'w os_paths =
  os_symlink_metadata :: "string \<Rightarrow> 'w \<Rightarrow> file_kind option \<times> 'w"
  os_open :: "string \<Rightarrow> 'w \<Rightarrow> unit option \<times> 'w"
  os_try_lock :: "'w \<Rightarrow> unit option \<times> 'w"
  os_metadata :: "'w \<Rightarrow> (file_kind \<times> nat) option \<times> 'w"

definition is_absolute :: "string \<Rightarrow> bool" where
  "is_absolute path \<longleftrightarrow> prefix ''/'' path"

definition unnamed :: "string \<Rightarrow> bool" where
  "unnamed segment \<longleftrightarrow> segment = [] \<or> segment = ''.''"

definition segments :: "string \<Rightarrow> string list" where
  "segments path = split_char (CHR ''/'') (tl path)"

definition components :: "string list \<Rightarrow> string list" where
  "components ss = filter (\<lambda>s. \<not> unnamed s) ss"

definition trim_right :: "string list \<Rightarrow> string list" where
  "trim_right ss = rev (dropWhile unnamed (rev ss))"

fun path_of_segments :: "string list \<Rightarrow> string" where
  "path_of_segments [] = ''/''"
| "path_of_segments [s] = CHR ''/'' # s"
| "path_of_segments (s # ss) = (CHR ''/'' # s) @ path_of_segments ss"

lemma trim_right_length: "length (trim_right ss) \<le> length ss"
  by (simp add: trim_right_def) (metis length_dropWhile_le length_rev)

function parents :: "string list \<Rightarrow> string list list" where
  "parents ss =
     (if trim_right ss = [] then []
      else let up = trim_right (butlast (trim_right ss)) in up # parents up)"
  by pat_completeness auto
termination
proof (relation "measure length")
  fix ss up assume "trim_right ss \<noteq> []" "up = trim_right (butlast (trim_right ss))"
  then have "length up \<le> length (trim_right ss) - 1" "length (trim_right ss) > 0"
    using trim_right_length [of "butlast (trim_right ss)"] by simp_all
  then have "length up < length (trim_right ss)" by linarith
  then show "(up, ss) \<in> measure length" using trim_right_length [of ss] by simp
qed simp

declare parents.simps [simp del]

text \<open>\<^verbatim>\<open>Path::ancestors\<close>: the path as given, then its parents up to the root.\<close>

definition ancestors :: "string \<Rightarrow> string list" where
  "ancestors path = path # map path_of_segments (parents (segments path))"

definition same_path :: "string \<Rightarrow> string \<Rightarrow> bool" where
  "same_path p q \<longleftrightarrow> components (segments p) = components (segments q)"

text \<open>A call of the operating system whose every failure is mapped to one error.\<close>

definition os_answer :: "('w \<Rightarrow> 'a option \<times> 'w) \<Rightarrow> ('w, host_error, 'a) eff" where
  "os_answer f = (\<lambda>w. case f w of (None, w') \<Rightarrow> (Err HE_Unavailable, w') | (Some x, w') \<Rightarrow> (Ok x, w'))"

definition check_ancestor :: "'w os_paths \<Rightarrow> string \<Rightarrow> string \<Rightarrow> ('w, host_error, unit) eff" where
  "check_ancestor os path ancestor =
     seq (os_answer (os_symlink_metadata os ancestor)) (\<lambda>kind.
     refuse (kind = FK_Symlink \<or> (\<not> same_path ancestor path \<and> kind \<noteq> FK_Directory)) HE_Insecure)"

definition file_open :: "'w os_paths \<Rightarrow> string \<Rightarrow> 'w \<Rightarrow> (host_error + 'w locked_file) \<times> 'w" where
  "file_open os path =
     seq (refuse (\<not> is_absolute path \<or> length path > 4096 \<or> ''..'' \<in> set (components (segments path))) HE_InvalidPath) (\<lambda>_.
     seq (each (check_ancestor os path) (ancestors path)) (\<lambda>_.
     seq (os_answer (os_symlink_metadata os path)) (\<lambda>kind.
     seq (refuse (kind \<noteq> FK_File) HE_Insecure) (\<lambda>_.
     seq (os_answer (os_open os path)) (\<lambda>_.
     seq (os_answer (os_try_lock os)) (\<lambda>_.
     seq (os_answer (os_metadata os)) (\<lambda>(kind, size).
     seq (refuse (kind \<noteq> FK_File \<or> size > file_max_bytes) HE_Insecure) (\<lambda>_.
     get (\<lambda>w. \<lparr>lf_failed = False, lf_world = w\<rparr>)))))))))"

definition native_open :: "'w os_paths \<Rightarrow> string \<Rightarrow> 'w \<Rightarrow> (backup_error + 'w locked_file) \<times> 'w" where
  "native_open os path = with_error BE_Unavailable (file_open os path)"

lemma os_answer_Ok: "os_answer f w = (Ok x, w') \<longleftrightarrow> f w = (Some x, w')"
  by (auto simp: os_answer_def split: prod.splits option.splits)

lemma each_Ok: "each f xs w = (Ok u, w') \<Longrightarrow> x \<in> set xs \<Longrightarrow> \<exists>v v'. f x v = (Ok (), v')"
proof (induction xs arbitrary: w)
  case (Cons a xs)
  from Cons.prems(1) obtain v where "f a w = (Ok (), v)" "each f xs v = (Ok u, w')"
    by (auto simp: seq_Ok)
  with Cons show ?case by (cases "x = a") auto
qed simp

text \<open>
  A file opens only at an absolute path without parent components, with no symbolic link among
  the path and its ancestors, each proper ancestor a directory, and the path and the opened handle regular files
  of at most the size limit. The names are those that the operating system reported on the way.
\<close>

lemma file_open_guarded:
  assumes "file_open os path w = (Ok s, w')"
    and "\<And>p v. fst (os_symlink_metadata os p v) = kinds p"
  shows "prefix ''/'' path" "length path \<le> 4096" "''..'' \<notin> set (components (segments path))"
    "kinds path = Some FK_File" "\<not> lf_failed s" "lf_world s = w'"
    "\<And>a. a \<in> set (ancestors path) \<Longrightarrow> \<not> same_path a path \<Longrightarrow> kinds a = Some FK_Directory"
    "\<exists>v n. fst (os_metadata os v) = Some (FK_File, n) \<and> n \<le> file_max_bytes"
proof -
  from assms(1) obtain w1 kind w3 w5 k n where
    p: "is_absolute path" "length path \<le> 4096" "''..'' \<notin> set (components (segments path))"
    and e: "each (check_ancestor os path) (ancestors path) w = (Ok (), w1)"
    and m: "os_symlink_metadata os path w1 = (Some kind, w3)" "kind = FK_File"
    and h: "os_metadata os w5 = (Some (k, n), w')" "k = FK_File" "n \<le> file_max_bytes"
    and s: "s = \<lparr>lf_failed = False, lf_world = w'\<rparr>"
    unfolding file_open_def
    by (auto simp: seq_Ok refuse_Ok os_answer_Ok get_def not_less)
  show "prefix ''/'' path" "length path \<le> 4096" "''..'' \<notin> set (components (segments path))"
    using p by (simp_all add: is_absolute_def)
  show "kinds path = Some FK_File" using m assms(2) [of path w1] by simp
  show "\<not> lf_failed s" "lf_world s = w'" using s by simp_all
  show "\<exists>v n. fst (os_metadata os v) = Some (FK_File, n) \<and> n \<le> file_max_bytes"
    using h by (metis fst_conv)
  show "kinds a = Some FK_Directory" if a: "a \<in> set (ancestors path)" "\<not> same_path a path" for a
  proof -
    from each_Ok [OF e a(1)] obtain v v' where "check_ancestor os path a v = (Ok (), v')" by blast
    with a(2) show ?thesis using assms(2) [of a v]
      by (auto simp: check_ancestor_def refuse_Ok os_answer_Ok seq_Ok)
  qed
qed

section \<open>The contract of the store\<close>

text \<open>
  What the operating system documents of a file that nobody else writes: the length is that of
  the contents; \<^verbatim>\<open>read_exact\<close> fills the buffer from the range or fails; \<^verbatim>\<open>write_all\<close> at the
  end appends all the bytes or fails after a part of them.
\<close>

definition honest_os :: "'w os_file \<Rightarrow> ('w \<Rightarrow> (mutation_error + unit) \<times> 'w) \<Rightarrow> ('w \<Rightarrow> string) \<Rightarrow> bool" where
  "honest_os os budget contents \<longleftrightarrow>
     (\<forall>w r w'. os_len os w = (r, w') \<longrightarrow> contents w' = contents w \<and> (\<forall>n. r = Some n \<longrightarrow> n = length (contents w)))
   \<and> (\<forall>offset n w r w'. os_read_exact os offset n w = (r, w') \<longrightarrow> contents w' = contents w
       \<and> (\<forall>bs. r = Some bs \<longrightarrow> offset + n \<le> length (contents w) \<and> bs = take n (drop offset (contents w))))
   \<and> (\<forall>bs w ok w'. os_write_end os bs w = (ok, w') \<longrightarrow> (\<exists>some. prefix some bs \<and> contents w' = contents w @ some \<and> (ok \<longrightarrow> some = bs)))
   \<and> (\<forall>w ok w'. os_sync_all os w = (ok, w') \<longrightarrow> contents w' = contents w)
   \<and> (\<forall>w r w'. budget w = (r, w') \<longrightarrow> contents w' = contents w)"

definition file_contents :: "('w \<Rightarrow> string) \<Rightarrow> 'w locked_file \<Rightarrow> string" where
  "file_contents contents s = contents (lf_world s)"

abbreviation reads :: "('w \<Rightarrow> string) \<Rightarrow> string \<Rightarrow> 'w locked_file \<Rightarrow> bool" where
  "reads contents f s \<equiv> contents (lf_world s) = f"

lemma learns_os_call:
  assumes "\<And>w r w'. call w = (r, w') \<Longrightarrow> contents w = f \<Longrightarrow> contents w' = f \<and> K r"
  shows "learns (reads contents f) False (os_call call) K"
  using assms by (auto simp: learns_def meets_def os_call_def split: prod.split)

lemma learns_change: "(\<And>s. I s \<Longrightarrow> I (g s)) \<Longrightarrow> learns I C (change g) (\<lambda>_. True)"
  by (simp add: learns_def meets_def change_def)

lemma learns_asked: "learns I C (get g) (\<lambda>_. True)"
  by (simp add: learns_def meets_def get_def)

lemma learns_failure: "\<not> C \<Longrightarrow> learns I C (raise e) K"
  by (simp add: learns_def meets_def raise_def)

lemma file_len_reads:
  assumes "honest_os os budget contents"
  shows "learns (reads contents f) False (file_len os) (\<lambda>n. n = length f)"
proof -
  have "learns (reads contents f) False (os_call (os_len os)) (\<lambda>r. \<forall>n. r = Some n \<longrightarrow> n = length f)"
    by (rule learns_os_call) (use assms in \<open>auto simp: honest_os_def\<close>)
  then show ?thesis unfolding file_len_def
    by (rule learns_seq) (auto intro: learns_give learns_failure split: option.split)
qed

lemma file_size_reads:
  assumes "honest_os os budget contents"
  shows "learns (reads contents f) False (file_size os) (\<lambda>n. n = length f)"
  unfolding file_size_def
  by (intro learns_seq [OF learns_asked] learns_seq [OF learns_refuse] learns_seq [OF file_len_reads [OF assms]] learns_give)
     simp_all

lemma file_read_at_reads:
  assumes "honest_os os budget contents"
  shows "learns (reads contents f) False (file_read_at os offset n)
    (\<lambda>bs. offset + n \<le> length f \<and> bs = take n (drop offset f))"
proof -
  have size: "learns (reads contents f) False (caught (file_size os)) (\<lambda>_. True)"
    by (rule learns_caught [OF file_size_reads [OF assms]])
  have read: "learns (reads contents f) False (os_call (os_read_exact os offset n))
      (\<lambda>r. \<forall>bs. r = Some bs \<longrightarrow> offset + n \<le> length f \<and> bs = take n (drop offset f))"
    by (rule learns_os_call) (use assms in \<open>auto simp: honest_os_def\<close>)
  have got: "learns (reads contents f) False
      (seq (os_call (os_read_exact os offset n)) (\<lambda>r. case r of None \<Rightarrow> raise HE_Unavailable | Some bs \<Rightarrow> give bs))
      (\<lambda>bs. offset + n \<le> length f \<and> bs = take n (drop offset f))"
    by (rule learns_seq [OF read]) (auto intro: learns_give learns_failure split: option.split)
  show ?thesis unfolding file_read_at_def
  proof (rule learns_seq [OF learns_refuse])
    show "learns (reads contents f) False (case checked_add offset n of None \<Rightarrow> raise HE_Limit
      | Some stop \<Rightarrow> seq (caught (file_size os)) (\<lambda>r.
         seq (refuse (stop > (case r of Inl _ \<Rightarrow> 0 | Inr total_size \<Rightarrow> total_size)) HE_Limit) (\<lambda>_.
         seq (os_call (os_read_exact os offset n)) (\<lambda>r. case r of None \<Rightarrow> raise HE_Unavailable | Some bs \<Rightarrow> give bs))))
      (\<lambda>bs. offset + n \<le> length f \<and> bs = take n (drop offset f))"
    proof (cases "checked_add offset n")
      case (Some stop)
      show ?thesis unfolding Some option.case
        by (rule learns_seq [OF size], rule learns_seq [OF learns_refuse], simp, rule got)
    next
      case None
      show ?thesis unfolding None option.case by (simp add: learns_failure)
    qed
  qed simp
qed

lemma file_synchronize_reads:
  assumes "honest_os os budget contents"
  shows "learns (reads contents f) False (file_synchronize os) (\<lambda>_. True)"
proof -
  have "learns (reads contents f) False (os_call (os_sync_all os)) (\<lambda>_. True)"
    by (rule learns_os_call) (use assms in \<open>auto simp: honest_os_def\<close>)
  then show ?thesis unfolding file_synchronize_def
    apply (intro learns_seq [OF learns_asked] learns_seq [OF learns_refuse])
    subgoal by simp
    apply (rule learns_seq [OF learns_change])
    subgoal by simp
    apply (erule learns_seq)
    apply (rule learns_seq [OF learns_refuse])
    subgoal by simp
    apply (rule learns_change)
    subgoal by simp
    done
qed

lemma file_append_extends:
  fixes os :: "'w os_file"
  assumes "honest_os os budget contents"
  shows "meets (reads contents f) (file_append os expected_size bs)
    (\<lambda>_ s. expected_size = length f \<and> reads contents (f @ bs) s)
    (\<lambda>_ s. \<exists>some. prefix some bs \<and> reads contents (f @ some) s)"
proof -
  let ?E = "\<lambda>_ s. \<exists>some. prefix some bs \<and> reads contents (f @ some) s"
  let ?Q = "\<lambda>_ s. expected_size = length f \<and> reads contents (f @ bs) s"
  have early: "meets (reads contents f) m (\<lambda>x s. reads contents f s \<and> K x) ?E"
    if "learns (reads contents f) False m K" for m :: "('w locked_file, host_error, 'x) eff" and K
    using that unfolding learns_def by (rule meets_weaken) (auto intro: exI [of _ "[]"])
  have late: "meets (reads contents (f @ bs)) m (\<lambda>_ s. reads contents (f @ bs) s) ?E"
    if "learns (reads contents (f @ bs)) False m K" for m :: "('w locked_file, host_error, 'x) eff" and K
    using that unfolding learns_def by (rule meets_weaken) auto
  have wrote: "meets (reads contents f) (os_call (os_write_end os bs))
      (\<lambda>ok s. \<exists>some. prefix some bs \<and> reads contents (f @ some) s \<and> (ok \<longrightarrow> some = bs)) ?E"
    using assms by (fastforce simp: meets_def os_call_def honest_os_def split: prod.splits)
  have whole: "meets (\<lambda>s. \<exists>some. prefix some bs \<and> reads contents (f @ some) s \<and> (ok \<longrightarrow> some = bs))
      (refuse (\<not> ok) HE_Unavailable) (\<lambda>_. reads contents (f @ bs)) ?E" for ok
    by (auto simp: meets_def eff_defs)
  have wrote_all: "meets (reads contents f)
      (seq (change (\<lambda>s. s\<lparr>lf_failed := True\<rparr>)) (\<lambda>_.
       seq (os_call (os_write_end os bs)) (\<lambda>ok.
       seq (refuse (\<not> ok) HE_Unavailable) (\<lambda>_.
       seq (file_len os) (\<lambda>n.
       seq (refuse (n \<noteq> grown) HE_Unavailable) (\<lambda>_.
       change (\<lambda>s. s\<lparr>lf_failed := False\<rparr>))))))) (\<lambda>_. reads contents (f @ bs)) ?E" for grown
    apply (rule meets_seq [where R = "\<lambda>_. reads contents f"])
    subgoal by (simp add: meets_def change_def)
    apply (rule meets_seq [OF wrote], rule meets_seq [OF whole], rule meets_seq [OF late [OF file_len_reads [OF assms]]])
    apply (rule meets_seq [OF late [OF learns_refuse]])
    subgoal by simp
    apply (rule late [OF learns_change])
    subgoal by simp
    done
  have "meets (reads contents f) (file_append os expected_size bs) ?Q ?E"
    unfolding file_append_def
    apply (rule meets_learn [OF early [OF learns_refuse]])
    subgoal by simp
    apply (rule meets_learn [OF early [OF file_size_reads [OF assms]]])
    apply (rule meets_learn [OF early [OF learns_refuse]])
    subgoal by simp
    subgoal for _ now _
    proof (cases "checked_add expected_size (length bs)")
      case None
      show ?thesis unfolding None option.case by (auto simp: meets_def raise_def intro: exI [of _ "[]"])
    next
      case (Some grown)
      assume "now = length f" "\<not> now \<noteq> expected_size"
      then show ?thesis unfolding Some option.case
        by (intro meets_learn [OF early [OF learns_refuse]]) (simp, rule meets_weaken [OF wrote_all], simp_all)
    qed
    done
  then show ?thesis .
qed

lemma with_error_kept:
  assumes "\<And>f. learns (reads contents f) False m (K f)" and "with_error e m s = (r, s')"
  shows "file_contents contents s' = file_contents contents s"
    "r = Ok x \<Longrightarrow> K (file_contents contents s) x"
proof -
  obtain y s1 where m: "m s = (y, s1)" by (cases "m s")
  with assms(2) have r: "r = map_err (\<lambda>_. e) y" "s1 = s'" by (simp_all add: with_error_def)
  note learnt = learnsD [OF assms(1) [of "file_contents contents s"] _ m]
  show "file_contents contents s' = file_contents contents s"
    using learnt r by (cases y) (simp_all add: file_contents_def)
  show "K (file_contents contents s) x" if "r = Ok x"
    using learnt r that by (cases y) (simp_all add: file_contents_def)
qed

lemma with_error_append:
  assumes "honest_os os budget contents" and "with_error BE_Unknown (file_append os position bs) s = (r, s')"
  shows "case r of Inr _ \<Rightarrow> position = length (file_contents contents s)
        \<and> file_contents contents s' = file_contents contents s @ bs
      | Inl _ \<Rightarrow> \<exists>some. prefix some bs \<and> file_contents contents s' = file_contents contents s @ some"
proof -
  obtain x s1 where m: "file_append os position bs s = (x, s1)" by (cases "file_append os position bs s")
  with assms(2) have r: "r = map_err (\<lambda>_. BE_Unknown) x" "s1 = s'" by (simp_all add: with_error_def)
  note extends = file_append_extends [OF assms(1), of "file_contents contents s" position bs]
  show ?thesis
    using meetsD [OF extends, of s] meetsD_early [OF extends, of s] m r
    by (cases x) (simp_all add: file_contents_def)
qed


section \<open>A file in memory\<close>

text \<open>A handle on a string whose write of more than four bytes tears after two of them.\<close>

definition memory_os :: "string os_file" where
  "memory_os = \<lparr>os_len = (\<lambda>w. (Some (length w), w)),
     os_read_exact = (\<lambda>offset n w. (if offset + n \<le> length w then Some (take n (drop offset w)) else None, w)),
     os_write_end = (\<lambda>bs w. if length bs > 4 then (False, w @ take 2 bs) else (True, w @ bs)),
     os_sync_all = (\<lambda>w. (True, w))\<rparr>"

lemma memory_os_honest: "honest_os memory_os (\<lambda>w. (Ok (), w)) (\<lambda>w. w)"
  by (auto simp: honest_os_def memory_os_def take_is_prefix split: if_splits)


end
