(* ===== verification/Spec2Isabelle.thy ===== *)
theory Spec2Isabelle
  imports Management Describe Pipeline Mcp Shipped WorkflowProofs CiphertextFile
begin

text \<open>
  Verification of openwrt-mcp, a server that lets an agent observe and operate an OpenWrt device
  through a fixed catalogue of typed operations. This theory joins the development; every
  definition and every property is in the theory of its component.

  \<^bold>\<open>The program.\<close> A client speaks the Model Context Protocol on the standard streams. The front
  (\<^verbatim>\<open>crates/mcp\<close>) bounds the incoming lines, lists the tools and routes each call to the
  dispatcher of the runtime (\<^verbatim>\<open>crates/runtime\<close>). The dispatcher looks the operation up in the
  catalogue (\<^verbatim>\<open>crates/core\<close>, filled by \<^verbatim>\<open>crates/features\<close> and by the operator's extensions),
  asks the policy, validates the arguments, records the start with the audit sink, obtains evidence
  that the device offers the call, executes it through a backend, projects the response to the
  declared fields and records the end before it answers. The command lines and the responses of
  the device are coded and decoded by \<^verbatim>\<open>crates/device-codec\<close>. Beside this path stand the effect
  analysis of configuration changes (\<^verbatim>\<open>core/src/management\<close>) and the custody of backups: an
  archive is captured, validated, sealed by a cipher and appended to an authenticated store, and a
  record of that store can be inspected again.

  \<^bold>\<open>Core.\<close>
  \<^item> \<open>Prelude\<close>: results as sums, panics as values, checked arithmetic, texts as lists of bytes,
    ordered maps as sorted lists, and the rules for loops that stop at the first error.
  \<^item> \<open>Json\<close>: \<^verbatim>\<open>serde_json::Value\<close>, its compact encoding and pointer segments.
  \<^item> \<open>Basics\<close>, \<open>Capability\<close>, \<open>Uci\<close>, \<open>Operation\<close>, \<open>Catalog\<close>: \<^verbatim>\<open>error.rs\<close>, \<^verbatim>\<open>policy.rs\<close>,
    \<^verbatim>\<open>capability.rs\<close>, \<^verbatim>\<open>uci.rs\<close>, \<^verbatim>\<open>operation.rs\<close> and \<^verbatim>\<open>catalog.rs\<close>. They show that authorization is the
    policy's rule, that an extension never runs without a grant for extensions, that a
    configuration read is one of the reviewed profiles, and when an observation admits a call.
  \<^item> \<open>Projection\<close>, \<open>Budget\<close>, \<open>Evaluate\<close>: \<^verbatim>\<open>projection.rs\<close> and its submodules. They show that the byte
    budget equals the length of the encoding that is never built, and that a projection is
    exact, conforms to its schema and stays within the budget.
  \<^item> \<open>Packages\<close>: \<^verbatim>\<open>packages.rs\<close>. The pages of an observation cover its records once each, and a cursor
    text is accepted exactly when it is the encoding of a cursor.
  \<^item> \<open>Management\<close>: \<^verbatim>\<open>management/\<close>. The array code decides exactly whether the changed resources
    influence a protected or an unknown one in the graph before or after the change.
  \<^item> \<open>Features\<close>, \<open>Shipped\<close>: the reviewed operations, accepted by the catalogue's own validation, and
    the consequence that a service with this catalogue alone only reads.

  \<^bold>\<open>Device codec.\<close>
  \<^item> \<open>Command\<close>, \<open>Pipeline\<close>: \<^verbatim>\<open>command.rs\<close>. A remote command line reads back, under the splitting of a
    POSIX shell, as the argument vector; what the core prepares the codec accepts.
  \<^item> \<open>Response\<close>, \<open>Describe\<close>, \<open>PackageCodec\<close>: \<^verbatim>\<open>response.rs\<close>, \<^verbatim>\<open>describe.rs\<close>, \<^verbatim>\<open>packages.rs\<close>. The bounded
    decoder, the parser of object descriptions and the parsers of package lists, each against a
    reference reading.
  \<^item> \<open>Archive\<close>, \<open>Gzip\<close>, \<open>GzipProofs\<close>: \<^verbatim>\<open>archive/\<close> and \<^verbatim>\<open>gzip/\<close>. The chunked validators accept
    exactly the archives of the manifest, never panic, and keep their first error.

  \<^bold>\<open>Runtime.\<close>
  \<^item> \<open>Runtime\<close>, \<open>Dispatcher\<close>: \<^verbatim>\<open>error.rs\<close>, \<^verbatim>\<open>backend.rs\<close>, \<^verbatim>\<open>audit.rs\<close>, \<^verbatim>\<open>capability.rs\<close>, \<^verbatim>\<open>packages.rs\<close>
    and \<^verbatim>\<open>dispatcher.rs\<close>. Each asynchronous function is a tree of atomic accesses, waits and calls
    over one shared state; \<open>moves\<close> and \<open>disturbs\<close> interleave the requests with one another, with the
    audit thread, with cancellation and with the passing of time.
  \<^item> \<open>Interleaving\<close>, \<open>Safety\<close>, \<open>Actions\<close>, \<open>Requests\<close>: thread-modular reasoning with the locale
    \<open>rely_guarantee\<close>, the invariant of the shared state, and one lemma per function of the dispatcher.
  \<^item> \<open>Service\<close>: what follows for all interleavings. Nothing reaches a port without an authorized,
    recorded start; what is executed is the prepared call of that request under fresh evidence; an
    answer is accounted for by the history; the load is bounded; every request ends.

  \<^bold>\<open>Protocol.\<close> \<open>Mcp\<close>: \<^verbatim>\<open>framing.rs\<close>, \<^verbatim>\<open>protocol.rs\<close> and \<^verbatim>\<open>result.rs\<close>. Lines stay bounded however the
  input is cut, and a value that the dispatcher answers passes both size checks of the front.

  \<^bold>\<open>Backups.\<close>
  \<^item> \<open>Effect\<close>: functions that change a state and may return early, with rules for what they ensure.
  \<^item> \<open>Sealing\<close>, \<open>SealProofs\<close>, \<open>SealTrace\<close>: \<^verbatim>\<open>runtime/src/sealing/\<close>. Only what was validated and
    completely encrypted is published, every outcome is reported, and the cleanup runs.
  \<^item> \<open>Backups\<close>: \<^verbatim>\<open>runtime/src/backups/\<close>, the work budget of \<^verbatim>\<open>mutation_ports\<close>, the authenticator of
    \<^verbatim>\<open>crypto-age/src/provenance\<close>.
  \<^item> \<open>RecordStore\<close>, \<open>StoreProofs\<close>: \<^verbatim>\<open>adapters/src/backups/store.rs\<close>. What was published durably is read
    back exactly, whatever operations and torn writes come between.
  \<^item> \<open>CiphertextFile\<close>: \<^verbatim>\<open>host-platform/src/ciphertext\<close>. The locked file keeps the contract that the
    store relies on.
  \<^item> \<open>Workflow\<close>, \<open>WorkflowProofs\<close>: \<^verbatim>\<open>adapters/src/backups/archive.rs\<close> and \<^verbatim>\<open>workflow.rs\<close>, the composition of
    validators, sealing and store: what was sealed can be restored, and is what was captured.

  \<^bold>\<open>Interfaces.\<close> Locales state what one part relies on: \<open>ordered_map\<close> (lookup after insertion and
  removal), \<open>directory\<close> (lookup by name over the catalogue), \<open>shape_laws\<close> (what the evaluator needs of
  a level of nested records, interpreted at each level) and \<open>rely_guarantee\<close> (the shared state among
  requests). Each is interpreted on the model's own definitions. The contract of the backup file is
  the predicate \<open>honest_file\<close>, which \<open>CiphertextFile\<close> proves for the locked file.

  \<^bold>\<open>Parameters.\<close> Code outside the repository is an argument of the definitions that use it:
  \<open>encoded\<close>, \<open>pointer\<close>, \<open>from_str\<close>, \<open>from_value\<close>, \<open>reader\<close> and the encoders stand for functions of
  \<^verbatim>\<open>serde_json\<close>; the inflater for \<^verbatim>\<open>flate2\<close>; the keyed hash for \<^verbatim>\<open>hmac\<close> and \<^verbatim>\<open>sha2\<close>; the trees of reads
  and writes for the ciphers of \<^verbatim>\<open>age\<close>; the ports for files, clocks, the backend and the entropy
  source. What they document is a named hypothesis where a property needs it: \<open>pointer_into\<close>,
  \<open>faithful\<close>, \<open>inflates\<close>, \<open>authenticates\<close>, \<open>honest_file\<close>, \<open>honest_os\<close>, \<open>healthy\<close>. Each is satisfied
  by a concrete instance in the witness of the property.

  \<^bold>\<open>Limits and termination.\<close> All functions are total and no fuel is used: loops are structural
  recursions or have a measure (the bytes left, the nodes not yet visited, the progress that the
  decode loop demands of the inflater). Sizes and positions are natural numbers with the checked
  and saturating operations of the source at 64 bits; counters that wrap are taken modulo their
  width. Constants are those of the source.

  \<^bold>\<open>Not modelled.\<close> The zeroing of secret buffers, which no result shows; unwinding through a
  panicking port; weak memory orders and the wake-up order of semaphores. The adapters that only
  call the operating system or a library: the audit sink, the entropy source, the process and SSH
  backends, the native file protection of Linux and Windows, key sources and cipher streams, and
  the start-up of the server. The runtime theories let these parts answer anything that fits the
  call, so the properties do not depend on them. The tools under \<^verbatim>\<open>tools/xtask\<close> check the
  repository and are not part of the program.
\<close>

end
